(* ===== verification/Prelude.thy ===== *)
theory Prelude
  imports Main "HOL-Library.Word"
begin

text \<open>
  Shared vocabulary of the development.

  \<^item> The C integer types of \<^verbatim>\<open>kernel/types.h\<close> as machine words.
  \<^item> Little-endian byte strings: how a C struct is laid out in a disk block or in a page.
  \<^item> Byte-addressed memory with 64-bit loads and stores.
  \<^item> The kernel monad: a C function that may return, call \<^verbatim>\<open>panic\<close>, run into undefined
    behaviour (a null dereference, an index outside an array) or go to sleep.
\<close>

unbundle bit_operations_syntax

named_theorems kmonad_simps \<open>execution rules of the kernel monad\<close>
named_theorems layout_simps \<open>reads and writes of byte layouts\<close>

type_synonym u8 = "8 word"
type_synonym u16 = "16 word"
type_synonym u32 = "32 word"
type_synonym u64 = "64 word"
type_synonym bytes = "u8 list"

section \<open>The kernel monad\<close>

datatype ('a, 's) outcome =
    Done 'a 's        \<comment> \<open>the call returned\<close>
  | Panic string      \<comment> \<open>\<^verbatim>\<open>panic(msg)\<close>: the hart halts\<close>
  | Fault string      \<comment> \<open>undefined behaviour, or a busy-wait that never ends: the call has no result\<close>
  | Block 's          \<comment> \<open>the calling process went to sleep in this state\<close>

type_synonym ('s, 'a) kmonad = "'s \<Rightarrow> ('a, 's) outcome"

definition kreturn :: "'a \<Rightarrow> ('s, 'a) kmonad" where
  "kreturn x = (\<lambda>s. Done x s)"

definition kbind :: "('s, 'a) kmonad \<Rightarrow> ('a \<Rightarrow> ('s, 'b) kmonad) \<Rightarrow> ('s, 'b) kmonad" where
  "kbind m f = (\<lambda>s. case m s of Done x s' \<Rightarrow> f x s' | Panic e \<Rightarrow> Panic e
     | Fault e \<Rightarrow> Fault e | Block s' \<Rightarrow> Block s')"

definition kseq :: "('s, 'a) kmonad \<Rightarrow> ('s, 'b) kmonad \<Rightarrow> ('s, 'b) kmonad" where
  "kseq m n = kbind m (\<lambda>_. n)"

definition kpanic :: "string \<Rightarrow> ('s, 'a) kmonad" where
  "kpanic e = (\<lambda>_. Panic e)"

definition kfault :: "string \<Rightarrow> ('s, 'a) kmonad" where
  "kfault e = (\<lambda>_. Fault e)"

definition kget :: "('s \<Rightarrow> 'a) \<Rightarrow> ('s, 'a) kmonad" where
  "kget f = (\<lambda>s. Done (f s) s)"

definition kmodify :: "('s \<Rightarrow> 's) \<Rightarrow> ('s, unit) kmonad" where
  "kmodify f = (\<lambda>s. Done () (f s))"

text \<open>Run an operation of an inner component on the field of the outer state that holds it.\<close>

definition klift :: "('s \<Rightarrow> 't) \<Rightarrow> ('t \<Rightarrow> 's \<Rightarrow> 's) \<Rightarrow> ('t, 'a) kmonad \<Rightarrow> ('s, 'a) kmonad" where
  "klift rd wr m = (\<lambda>s. case m (rd s) of Done x t \<Rightarrow> Done x (wr t s) | Panic e \<Rightarrow> Panic e
     | Fault e \<Rightarrow> Fault e | Block t \<Rightarrow> Block (wr t s))"

text \<open>A counting loop without early exit: the body runs once per index, in order.\<close>

primrec kfor :: "'i list \<Rightarrow> ('i \<Rightarrow> ('s, unit) kmonad) \<Rightarrow> ('s, unit) kmonad" where
  "kfor [] f = kreturn ()"
| "kfor (i # ixs) f = kseq (f i) (kfor ixs f)"

lemma kreturn_run [simp, kmonad_simps]: "kreturn x s = Done x s"
  by (simp add: kreturn_def)

lemma kpanic_run [simp, kmonad_simps]: "kpanic e s = Panic e"
  by (simp add: kpanic_def)

lemma kfault_run [simp, kmonad_simps]: "kfault e s = Fault e"
  by (simp add: kfault_def)

lemma kget_run [simp, kmonad_simps]: "kget f s = Done (f s) s"
  by (simp add: kget_def)

lemma kmodify_run [simp, kmonad_simps]: "kmodify f s = Done () (f s)"
  by (simp add: kmodify_def)

lemma kbind_Done [simp, kmonad_simps]: "m s = Done x s' \<Longrightarrow> kbind m f s = f x s'"
  by (simp add: kbind_def)

lemma kbind_Panic [simp, kmonad_simps]: "m s = Panic e \<Longrightarrow> kbind m f s = Panic e"
  by (simp add: kbind_def)

lemma kbind_Fault [simp, kmonad_simps]: "m s = Fault e \<Longrightarrow> kbind m f s = Fault e"
  by (simp add: kbind_def)

lemma kbind_Block [simp, kmonad_simps]: "m s = Block s' \<Longrightarrow> kbind m f s = Block s'"
  by (simp add: kbind_def)

lemma kseq_Done [simp, kmonad_simps]: "m s = Done x s' \<Longrightarrow> kseq m n s = n s'"
  by (simp add: kseq_def)

lemma kseq_Panic [simp, kmonad_simps]: "m s = Panic e \<Longrightarrow> kseq m n s = Panic e"
  by (simp add: kseq_def)

lemma kseq_Fault [simp, kmonad_simps]: "m s = Fault e \<Longrightarrow> kseq m n s = Fault e"
  by (simp add: kseq_def)

lemma kseq_Block [simp, kmonad_simps]: "m s = Block s' \<Longrightarrow> kseq m n s = Block s'"
  by (simp add: kseq_def)

lemma klift_Done [simp, kmonad_simps]: "m (rd s) = Done x t \<Longrightarrow> klift rd wr m s = Done x (wr t s)"
  by (simp add: klift_def)

lemma klift_Panic [simp, kmonad_simps]: "m (rd s) = Panic e \<Longrightarrow> klift rd wr m s = Panic e"
  by (simp add: klift_def)

lemma klift_Fault [simp, kmonad_simps]: "m (rd s) = Fault e \<Longrightarrow> klift rd wr m s = Fault e"
  by (simp add: klift_def)

lemma klift_Block [simp, kmonad_simps]: "m (rd s) = Block t \<Longrightarrow> klift rd wr m s = Block (wr t s)"
  by (simp add: klift_def)

lemma klift_DoneD: "klift rd wr m s = Done x s' \<Longrightarrow> \<exists>t. m (rd s) = Done x t \<and> s' = wr t s"
  by (auto simp: klift_def split: outcome.splits)

lemma kbind_DoneD: "kbind m f s = Done y s2 \<Longrightarrow> \<exists>x s1. m s = Done x s1 \<and> f x s1 = Done y s2"
  by (auto simp: kbind_def split: outcome.splits)

lemma kbind_DoneE:
  assumes "kbind m f s = Done y s2"
  obtains x s1 where "m s = Done x s1" and "f x s1 = Done y s2"
  using kbind_DoneD [OF assms] by blast

lemma kseq_DoneE:
  assumes "kseq m n s = Done y s2"
  obtains x s1 where "m s = Done x s1" and "n s1 = Done y s2"
  using assms by (auto simp: kseq_def elim: kbind_DoneE)

lemma kbind_cong [fundef_cong]:
  "m s = m' s' \<Longrightarrow> s = s' \<Longrightarrow> (\<And>x t. m' s' = Done x t \<Longrightarrow> f x t = f' x t) \<Longrightarrow>
   kbind m f s = kbind m' f' s'"
  by (auto simp: kbind_def split: outcome.splits)

lemma kseq_cong [fundef_cong]:
  "m s = m' s' \<Longrightarrow> s = s' \<Longrightarrow> (\<And>x t. m' s' = Done x t \<Longrightarrow> n t = n' t) \<Longrightarrow>
   kseq m n s = kseq m' n' s'"
  by (auto simp: kseq_def kbind_def split: outcome.splits)

lemma kbind_assoc: "kbind (kbind m f) g = kbind m (\<lambda>x. kbind (f x) g)"
  by (rule ext) (simp add: kbind_def split: outcome.split)

lemma kseq_assoc: "kseq (kseq a b) c = kseq a (kseq b c)"
  by (rule ext) (simp add: kseq_def kbind_def split: outcome.split)

lemma kfor_append: "kfor (xs @ ys) f s = kseq (kfor xs f) (kfor ys f) s"
  by (induction xs arbitrary: s) (auto simp: kseq_def kbind_def split: outcome.split)

text \<open>An invariant of the body is an invariant of the loop.\<close>

lemma kfor_invariant:
  assumes "\<And>i s s'. i \<in> set ixs \<Longrightarrow> I s \<Longrightarrow> f i s = Done () s' \<Longrightarrow> I s'"
    and "I s" and "kfor ixs f s = Done () s'"
  shows "I s'"
  using assms
proof (induction ixs arbitrary: s)
  case Nil
  then show ?case by simp
next
  case (Cons i ixs)
  from Cons.prems(3) obtain s1 where "f i s = Done () s1" and "kfor ixs f s1 = Done () s'"
    by (auto elim: kseq_DoneE)
  with Cons show ?case by (metis list.set_intros)
qed

text \<open>
  \<open>keeps f m\<close>: whenever \<open>m\<close> returns, the part \<open>f\<close> of the state is as before.
\<close>

definition keeps :: "('s \<Rightarrow> 'p) \<Rightarrow> ('s, 'a) kmonad \<Rightarrow> bool" where
  "keeps f m \<longleftrightarrow> (\<forall>s x s'. m s = Done x s' \<longrightarrow> f s' = f s)"

named_theorems keeps_intros \<open>how the combinators of the monad keep a part of the state\<close>

lemma keepsD: "keeps f m \<Longrightarrow> m s = Done x s' \<Longrightarrow> f s' = f s"
  by (simp add: keeps_def)

lemma keeps_basic [keeps_intros]: "keeps f (kreturn x)" "keeps f (kget g)" "keeps f (kfault e)" "keeps f (kpanic e)"
  by (auto simp: keeps_def)

lemma keeps_modify: "(\<And>s. f (g s) = f s) \<Longrightarrow> keeps f (kmodify g)"
  by (simp add: keeps_def)

lemma keeps_bind [keeps_intros]: "keeps f m \<Longrightarrow> (\<And>x. keeps f (n x)) \<Longrightarrow> keeps f (kbind m n)"
  unfolding keeps_def using kbind_DoneD [of m n] by metis

lemma keeps_seq [keeps_intros]: "keeps f m \<Longrightarrow> keeps f n \<Longrightarrow> keeps f (kseq m n)"
  unfolding kseq_def by (rule keeps_bind)

lemma keeps_if [keeps_intros]: "keeps f m \<Longrightarrow> keeps f n \<Longrightarrow> keeps f (if c then m else n)"
  by simp

lemma keeps_for [keeps_intros]: "(\<And>i. keeps f (b i)) \<Longrightarrow> keeps f (kfor ixs b)"
  by (induction ixs) (auto intro: keeps_intros)

lemma keeps_option [keeps_intros]: "keeps f m \<Longrightarrow> (\<And>x. keeps f (n x)) \<Longrightarrow> keeps f (case c of None \<Rightarrow> m | Some x \<Rightarrow> n x)"
  by (cases c) auto

lemma keeps_lift: "(\<And>t s. f (wr t s) = f s) \<Longrightarrow> keeps f (klift rd wr m)"
  by (auto simp: keeps_def dest!: klift_DoneD)

lemma unat_bound: "unat (w :: 'a::len word) < 2 ^ LENGTH('a)"
  by (rule unsigned_less)

section \<open>Little-endian byte strings\<close>

text \<open>RISC-V is little-endian: the value of a byte string, and the \<open>n\<close>-byte encoding of a value.\<close>

primrec bytes_nat :: "bytes \<Rightarrow> nat" where
  "bytes_nat [] = 0"
| "bytes_nat (b # bs) = unat b + 256 * bytes_nat bs"

primrec nat_bytes :: "nat \<Rightarrow> nat \<Rightarrow> bytes" where
  "nat_bytes 0 v = []"
| "nat_bytes (Suc n) v = of_nat v # nat_bytes n (v div 256)"

lemma length_nat_bytes [simp]: "length (nat_bytes n v) = n"
  by (induction n arbitrary: v) auto

lemma bytes_nat_nat_bytes: "bytes_nat (nat_bytes n v) = v mod 256 ^ n"
proof (induction n arbitrary: v)
  case 0
  then show ?case by simp
next
  case (Suc n)
  have "unat (of_nat v :: u8) = v mod 256" by (simp add: unat_of_nat)
  then show ?case
    by (simp add: Suc.IH mod_mult2_eq add.commute)
qed

lemma bytes_nat_bound: "bytes_nat bs < 256 ^ length bs"
proof (induction bs)
  case Nil
  then show ?case by simp
next
  case (Cons b bs)
  have "unat b < 256" using unat_bound [of b] by simp
  with Cons show ?case by simp
qed

lemma nat_bytes_bytes_nat: "nat_bytes (length bs) (bytes_nat bs) = bs"
proof (induction bs)
  case Nil
  then show ?case by simp
next
  case (Cons b bs)
  have b: "unat b < 256" using unat_bound [of b] by simp
  have "(unat b + 256 * bytes_nat bs) div 256 = bytes_nat bs" using b by simp
  moreover have "(of_nat (unat b + 256 * bytes_nat bs) :: u8) = b"
  proof -
    have z: "(256 :: u8) = 0" by simp
    have "(of_nat (unat b + 256 * bytes_nat bs) :: u8) = of_nat (unat b) + of_nat 256 * of_nat (bytes_nat bs)"
      by (simp only: of_nat_add of_nat_mult)
    then show ?thesis by (simp add: z)
  qed
  ultimately show ?case using Cons by simp
qed

lemma bytes_nat_replicate_0 [simp]: "bytes_nat (replicate n 0) = 0"
  by (induction n) auto

lemma nat_bytes_0 [simp]: "nat_bytes n 0 = replicate n 0"
  by (induction n) auto

text \<open>Overwrite part of a byte array, as \<^verbatim>\<open>memmove(arr + off, xs, len)\<close> does in range.\<close>

definition bsplice :: "bytes \<Rightarrow> nat \<Rightarrow> bytes \<Rightarrow> bytes" where
  "bsplice bs off xs = take off bs @ xs @ drop (off + length xs) bs"

definition bslice :: "bytes \<Rightarrow> nat \<Rightarrow> nat \<Rightarrow> bytes" where
  "bslice bs off n = take n (drop off bs)"

lemma length_splice [simp]: "off + length xs \<le> length bs \<Longrightarrow> length (bsplice bs off xs) = length bs"
  by (simp add: bsplice_def)

lemma length_slice [simp]: "off + n \<le> length bs \<Longrightarrow> length (bslice bs off n) = n"
  by (simp add: bslice_def)

lemma slice_splice_same [layout_simps]:
  "off + length xs \<le> length bs \<Longrightarrow> n = length xs \<Longrightarrow> bslice (bsplice bs off xs) off n = xs"
  by (simp add: bslice_def bsplice_def)

lemma nth_splice:
  "off + length xs \<le> length bs \<Longrightarrow> i < length bs \<Longrightarrow>
   bsplice bs off xs ! i = (if off \<le> i \<and> i < off + length xs then xs ! (i - off) else bs ! i)"
  by (auto simp: bsplice_def nth_append)

lemma slice_nth: "off + n \<le> length bs \<Longrightarrow> i < n \<Longrightarrow> bslice bs off n ! i = bs ! (off + i)"
  by (simp add: bslice_def)

lemma slice_splice_other [layout_simps]:
  assumes "off + length xs \<le> length bs" "o2 + n \<le> length bs" "o2 + n \<le> off \<or> off + length xs \<le> o2"
  shows "bslice (bsplice bs off xs) o2 n = bslice bs o2 n"
  by (rule nth_equalityI) (use assms in \<open>auto simp: slice_nth nth_splice\<close>)

lemma splice_slice_id: "off + n \<le> length bs \<Longrightarrow> bsplice bs off (bslice bs off n) = bs"
  by (rule nth_equalityI) (auto simp: nth_splice slice_nth)

lemma splice_whole [simp]: "length xs = length bs \<Longrightarrow> bsplice bs 0 xs = xs"
  by (simp add: bsplice_def)

lemma splice_Nil [simp]: "bsplice bs off [] = bs"
  by (simp add: bsplice_def)

lemma slice_whole [simp]: "bslice bs 0 (length bs) = bs"
  by (simp add: bslice_def)

lemma slice_replicate: "off + n \<le> k \<Longrightarrow> bslice (replicate k x) off n = replicate n x"
  by (simp add: bslice_def)

text \<open>Fields of a struct inside a byte array.\<close>

definition get16 :: "bytes \<Rightarrow> nat \<Rightarrow> u16" where
  "get16 bs off = of_nat (bytes_nat (bslice bs off 2))"

definition put16 :: "bytes \<Rightarrow> nat \<Rightarrow> u16 \<Rightarrow> bytes" where
  "put16 bs off v = bsplice bs off (nat_bytes 2 (unat v))"

definition get32 :: "bytes \<Rightarrow> nat \<Rightarrow> u32" where
  "get32 bs off = of_nat (bytes_nat (bslice bs off 4))"

definition put32 :: "bytes \<Rightarrow> nat \<Rightarrow> u32 \<Rightarrow> bytes" where
  "put32 bs off v = bsplice bs off (nat_bytes 4 (unat v))"

definition get64 :: "bytes \<Rightarrow> nat \<Rightarrow> u64" where
  "get64 bs off = of_nat (bytes_nat (bslice bs off 8))"

definition put64 :: "bytes \<Rightarrow> nat \<Rightarrow> u64 \<Rightarrow> bytes" where
  "put64 bs off v = bsplice bs off (nat_bytes 8 (unat v))"

lemma length_put16 [simp]: "off + 2 \<le> length bs \<Longrightarrow> length (put16 bs off v) = length bs"
  by (simp add: put16_def)

lemma length_put32 [simp]: "off + 4 \<le> length bs \<Longrightarrow> length (put32 bs off v) = length bs"
  by (simp add: put32_def)

lemma length_put64 [simp]: "off + 8 \<le> length bs \<Longrightarrow> length (put64 bs off v) = length bs"
  by (simp add: put64_def)

lemma get_put16_same [simp]: "off + 2 \<le> length bs \<Longrightarrow> get16 (put16 bs off v) off = v"
  using unat_bound [of v]
  by (simp add: get16_def put16_def slice_splice_same bytes_nat_nat_bytes)

lemma get_put32_same [simp]: "off + 4 \<le> length bs \<Longrightarrow> get32 (put32 bs off v) off = v"
  using unat_bound [of v]
  by (simp add: get32_def put32_def slice_splice_same bytes_nat_nat_bytes)

lemma get_put64_same [simp]: "off + 8 \<le> length bs \<Longrightarrow> get64 (put64 bs off v) off = v"
  using unat_bound [of v]
  by (simp add: get64_def put64_def slice_splice_same bytes_nat_nat_bytes)

lemma get32_put32_other [layout_simps]:
  "off + 4 \<le> length bs \<Longrightarrow> o2 + 4 \<le> length bs \<Longrightarrow> o2 + 4 \<le> off \<or> off + 4 \<le> o2 \<Longrightarrow>
   get32 (put32 bs off v) o2 = get32 bs o2"
  by (simp add: get32_def put32_def slice_splice_other)

lemma get16_put16_other [layout_simps]:
  "off + 2 \<le> length bs \<Longrightarrow> o2 + 2 \<le> length bs \<Longrightarrow> o2 + 2 \<le> off \<or> off + 2 \<le> o2 \<Longrightarrow>
   get16 (put16 bs off v) o2 = get16 bs o2"
  by (simp add: get16_def put16_def slice_splice_other)

lemma get32_replicate_0 [simp]: "off + 4 \<le> n \<Longrightarrow> get32 (replicate n 0) off = 0"
  by (simp add: get32_def slice_replicate)

lemma get16_replicate_0 [simp]: "off + 2 \<le> n \<Longrightarrow> get16 (replicate n 0) off = 0"
  by (simp add: get16_def slice_replicate)

section \<open>Byte-addressed memory\<close>

type_synonym memory = "u64 \<Rightarrow> u8"

definition rd_bytes :: "memory \<Rightarrow> u64 \<Rightarrow> nat \<Rightarrow> bytes" where
  "rd_bytes m a n = map (\<lambda>i. m (a + of_nat i)) [0..<n]"

definition wr_bytes :: "memory \<Rightarrow> u64 \<Rightarrow> bytes \<Rightarrow> memory" where
  "wr_bytes m a xs = (\<lambda>x. if unat (x - a) < length xs then xs ! unat (x - a) else m x)"

definition ld64 :: "memory \<Rightarrow> u64 \<Rightarrow> u64" where
  "ld64 m a = of_nat (bytes_nat (rd_bytes m a 8))"

definition st64 :: "memory \<Rightarrow> u64 \<Rightarrow> u64 \<Rightarrow> memory" where
  "st64 m a v = wr_bytes m a (nat_bytes 8 (unat v))"

lemma length_rd_bytes [simp]: "length (rd_bytes m a n) = n"
  by (simp add: rd_bytes_def)

lemma unat_of_nat_64: "i < 2 ^ 64 \<Longrightarrow> unat (of_nat i :: u64) = i"
  by (simp add: unat_of_nat)

lemma rd_wr_same:
  assumes "length xs < 2 ^ 64"
  shows "rd_bytes (wr_bytes m a xs) a (length xs) = xs"
proof (rule nth_equalityI)
  fix i assume "i < length (rd_bytes (wr_bytes m a xs) a (length xs))"
  then have i: "i < length xs" by simp
  then have "unat (of_nat i :: u64) = i" using assms by (simp add: unat_of_nat)
  then show "rd_bytes (wr_bytes m a xs) a (length xs) ! i = xs ! i"
    using i by (simp add: rd_bytes_def wr_bytes_def)
qed simp

text \<open>Two ranges of at most \<open>2 ^ 64\<close> bytes are disjoint when each starts past the other's end.\<close>

definition apart :: "u64 \<Rightarrow> nat \<Rightarrow> u64 \<Rightarrow> nat \<Rightarrow> bool" where
  "apart a n b k \<longleftrightarrow> n \<le> unat (b - a) \<and> k \<le> unat (a - b)"

lemma apart_sym: "apart a n b k \<longleftrightarrow> apart b k a n"
  by (auto simp: apart_def)

lemma apart_nth:
  assumes "apart a n b k" and "i < k" and "k \<le> 2 ^ 64"
  shows "n \<le> unat (b + of_nat i - a)"
proof -
  have ab: "unat (a - b) \<ge> k" and ba: "unat (b - a) \<ge> n" using assms by (auto simp: apart_def)
  show ?thesis
  proof (cases "n = 0")
    case False
    then have ne: "b - a \<noteq> 0" using ba by (cases "b - a = 0") auto
    have u: "unat (a - b) = 2 ^ 64 - unat (b - a)"
    proof -
      have "unat (a - b) = unat (0 - (b - a))" by simp
      also have "\<dots> = 2 ^ 64 - unat (b - a)"
        using ne by (subst unat_sub_if') (simp add: unat_eq_0)
      finally show ?thesis .
    qed
    have lt: "unat (b - a) < 2 ^ 64" using unat_bound [of "b - a"] by simp
    have i: "unat (of_nat i :: u64) = i"
      using assms(2,3) by (simp add: unat_of_nat)
    have "unat (b - a) + unat (of_nat i :: u64) < 2 ^ 64"
      using u ab assms(2) lt i by linarith
    then have sum: "unat ((b - a) + of_nat i) = unat (b - a) + i"
      using i by (simp add: unat_word_ariths)
    have eq: "b + of_nat i - a = (b - a) + of_nat i" by simp
    show ?thesis unfolding eq sum using ba by linarith
  qed simp
qed

lemma rd_wr_apart:
  assumes "apart a (length xs) b k" and "k \<le> 2 ^ 64"
  shows "rd_bytes (wr_bytes m a xs) b k = rd_bytes m b k"
  using apart_nth [OF assms(1)] assms(2)
  by (auto simp: rd_bytes_def wr_bytes_def leD)

lemma ld64_st64_same [simp]: "ld64 (st64 m a v) a = v"
proof -
  have "rd_bytes (wr_bytes m a (nat_bytes 8 (unat v))) a 8 = nat_bytes 8 (unat v)"
    using rd_wr_same [of "nat_bytes 8 (unat v)" m a] by simp
  then show ?thesis
    using unat_bound [of v] by (simp add: ld64_def st64_def bytes_nat_nat_bytes)
qed

lemma ld64_wr_apart: "apart a (length xs) b 8 \<Longrightarrow> ld64 (wr_bytes m a xs) b = ld64 m b"
  by (simp add: ld64_def rd_wr_apart)

lemma ld64_st64_apart: "apart a 8 b 8 \<Longrightarrow> ld64 (st64 m a v) b = ld64 m b"
  by (simp add: st64_def ld64_wr_apart)

lemma rd_bytes_replicate:
  assumes "length xs < 2 ^ 64" and "i + n \<le> length xs"
  shows "rd_bytes (wr_bytes m a xs) (a + of_nat i) n = bslice xs i n"
proof (rule nth_equalityI)
  fix j assume "j < length (rd_bytes (wr_bytes m a xs) (a + of_nat i) n)"
  then have j: "j < n" by simp
  have "a + of_nat i + of_nat j - a = (of_nat (i + j) :: u64)" by simp
  moreover have "unat (of_nat (i + j) :: u64) = i + j"
    using assms j by (intro unat_of_nat_64) linarith
  ultimately show "rd_bytes (wr_bytes m a xs) (a + of_nat i) n ! j = bslice xs i n ! j"
    using assms j by (simp add: rd_bytes_def wr_bytes_def slice_nth)
qed (use assms in simp)

lemma ld64_zeros:
  assumes "i + 8 \<le> n" and "n < 2 ^ 64"
  shows "ld64 (wr_bytes m a (replicate n 0)) (a + of_nat i) = 0"
  using assms by (simp add: ld64_def rd_bytes_replicate slice_replicate)

section \<open>C conversions\<close>

text \<open>The value of a 32-bit pattern read as \<^verbatim>\<open>int\<close>, and the pattern of an \<^verbatim>\<open>int\<close>.\<close>

definition int_of_u32 :: "u32 \<Rightarrow> int" where
  "int_of_u32 w = sint w"

definition u32_of_int :: "int \<Rightarrow> u32" where
  "u32_of_int i = word_of_int i"

lemma int_of_u32_of_int: "- (2 ^ 31) \<le> i \<Longrightarrow> i < 2 ^ 31 \<Longrightarrow> int_of_u32 (u32_of_int i) = i"
  by (simp add: int_of_u32_def u32_of_int_def signed_of_int signed_take_bit_int_eq_self)

lemma u32_of_int_of_u32 [simp]: "u32_of_int (int_of_u32 w) = w"
  by (simp add: int_of_u32_def u32_of_int_def)

section \<open>Linked chains\<close>

text \<open>
  \<open>chain nx a xs z\<close>: following the link \<open>nx\<close> from \<open>a\<close> visits exactly \<open>xs\<close> and then
  arrives at \<open>z\<close>. With \<open>a = z\<close> a sentinel this is a circular list.
\<close>

primrec chain :: "('n \<Rightarrow> 'n) \<Rightarrow> 'n \<Rightarrow> 'n list \<Rightarrow> 'n \<Rightarrow> bool" where
  "chain nx a [] z \<longleftrightarrow> nx a = z"
| "chain nx a (x # xs) z \<longleftrightarrow> nx a = x \<and> chain nx x xs z"

lemma chain_append: "chain nx a (us @ v # vs) z \<longleftrightarrow> chain nx a us v \<and> chain nx v vs z"
  by (induction us arbitrary: a) auto

lemma chain_cong:
  "(\<And>x. x \<in> insert a (set xs) \<Longrightarrow> nx x = ny x) \<Longrightarrow> chain nx a xs z = chain ny a xs z"
  by (induction xs arbitrary: a) auto

lemma chain_upd_other [simp]:
  "y \<noteq> a \<Longrightarrow> y \<notin> set xs \<Longrightarrow> chain (nx(y := w)) a xs z = chain nx a xs z"
  by (rule chain_cong) auto

lemma chain_start:
  "nx a = ny b \<Longrightarrow> (\<And>x. x \<in> set xs \<Longrightarrow> nx x = ny x) \<Longrightarrow> chain nx a xs z = chain ny b xs z"
  by (cases xs) (auto intro: chain_cong [THEN iffD1] chain_cong [THEN iffD2])

lemma chain_first: "chain nx a xs z \<Longrightarrow> nx a = hd (xs @ [z])"
  by (cases xs) auto

lemma chain_last: "chain nx a xs z \<Longrightarrow> nx (last (a # xs)) = z"
  by (induction xs arbitrary: a) auto

lemma chain_retarget:
  "chain nx a xs z \<Longrightarrow> distinct (a # xs) \<Longrightarrow> chain (nx(last (a # xs) := w)) a xs w"
  by (induction xs arbitrary: a) (auto split: if_splits)

end
