(* ===== verification/Proc_State.thy ===== *)
theory Proc_State
  imports Prelude
begin

text \<open>
  The process table of \<^verbatim>\<open>kernel/proc.h\<close> and the scheduling primitives every other layer
  calls: \<^verbatim>\<open>myproc\<close>, \<^verbatim>\<open>sleep\<close> and \<^verbatim>\<open>wakeup\<close> (\<^verbatim>\<open>kernel/proc.c\<close>) and the sleep lock built on
  them (\<^verbatim>\<open>kernel/bio.c\<close>). Pointers into the table are slot indices. A process's spinlock is
  held only inside the primitives; on the single boot hart such a section runs with
  interrupts off, so each primitive is one atomic step of the model.
\<close>

section \<open>Process table\<close>

abbreviation NPROC :: nat where "NPROC \<equiv> 64"
abbreviation NOFILE :: nat where "NOFILE \<equiv> 16"

datatype procstate = UNUSED | USED | SLEEPING | RUNNABLE | RUNNING | ZOMBIE

text \<open>Sleep channels are addresses in the C code; each use has its own constructor here.\<close>

datatype chan =
    NoChan
  | ChanProc nat        \<comment> \<open>\<^verbatim>\<open>&proc[i]\<close>\<close>
  | ChanLog             \<comment> \<open>\<^verbatim>\<open>&log\<close>\<close>
  | ChanBuf nat         \<comment> \<open>\<^verbatim>\<open>&bcache.buf[i].lock\<close>\<close>
  | ChanInode nat       \<comment> \<open>\<^verbatim>\<open>&icache.inode[i].lock\<close>\<close>
  | ChanPipeRead u64    \<comment> \<open>\<^verbatim>\<open>&pi->nread\<close>\<close>
  | ChanPipeWrite u64   \<comment> \<open>\<^verbatim>\<open>&pi->nwrite\<close>\<close>
  | ChanDiskFree        \<comment> \<open>\<^verbatim>\<open>&disk.free[0]\<close>\<close>
  | ChanDiskInfo nat    \<comment> \<open>\<^verbatim>\<open>&disk.info[i]\<close>\<close>

record kcontext =
  ctx_ra :: u64
  ctx_sp :: u64
  ctx_s :: "nat \<Rightarrow> u64"   \<comment> \<open>the callee-saved registers \<^verbatim>\<open>s0\<close> to \<^verbatim>\<open>s11\<close>\<close>

record proc =
  p_state :: procstate
  p_pid :: int
  p_killed :: int
  p_xstate :: int
  p_parent :: "nat option"
  p_name :: bytes
  p_sz :: u64
  p_kstack :: u64
  p_trapframe :: u64
  p_pagetable :: u64
  p_context :: kcontext
  p_chan :: chan
  p_ofile :: "nat \<Rightarrow> nat option"
  p_cwd :: "nat option"

text \<open>\<open>cur\<close> is \<^verbatim>\<open>cpus[0].proc\<close>: the slot running on the boot hart, or none.\<close>

record ptable =
  procs :: "nat \<Rightarrow> proc"
  cur :: "nat option"
  nextpid :: int

text \<open>The table as the program image has it: \<^verbatim>\<open>.bss\<close> is zero, \<^verbatim>\<open>nextpid\<close> starts at 1.\<close>

definition proc_bss :: proc where
  "proc_bss = \<lparr>p_state = UNUSED, p_pid = 0, p_killed = 0, p_xstate = 0, p_parent = None, p_name = replicate 16 0,
     p_sz = 0, p_kstack = 0, p_trapframe = 0, p_pagetable = 0,
     p_context = \<lparr>ctx_ra = 0, ctx_sp = 0, ctx_s = (\<lambda>_. 0)\<rparr>, p_chan = NoChan, p_ofile = (\<lambda>_. None), p_cwd = None\<rparr>"

definition ptable_bss :: ptable where
  "ptable_bss = \<lparr>procs = (\<lambda>_. proc_bss), cur = None, nextpid = 1\<rparr>"

definition upd_proc :: "nat \<Rightarrow> (proc \<Rightarrow> proc) \<Rightarrow> ptable \<Rightarrow> ptable" where
  "upd_proc i f pt = pt\<lparr>procs := (procs pt)(i := f (procs pt i))\<rparr>"

section \<open>myproc, sleep, wakeup\<close>

text \<open>Reading a field through \<^verbatim>\<open>myproc()\<close> is undefined when no process runs on the hart.\<close>

definition myproc :: "(ptable, nat) kmonad" where
  "myproc = (\<lambda>pt. case cur pt of None \<Rightarrow> Fault ''myproc() is null'' | Some i \<Rightarrow> Done i pt)"

text \<open>
  \<^verbatim>\<open>sleep\<close>: publish the channel, become \<open>SLEEPING\<close> and switch to the scheduler. The model
  ends the call here; every caller re-checks its condition in a loop after the wake-up.
\<close>

definition sleep :: "chan \<Rightarrow> (ptable, 'a) kmonad" where
  "sleep ch = kbind myproc (\<lambda>i pt.
     Block (upd_proc i (\<lambda>p. p\<lparr>p_chan := ch, p_state := SLEEPING\<rparr>) pt))"

definition wakeup :: "chan \<Rightarrow> ptable \<Rightarrow> ptable" where
  "wakeup ch pt = pt\<lparr>procs := (\<lambda>i.
     if i < NPROC \<and> cur pt \<noteq> Some i \<and> p_state (procs pt i) = SLEEPING \<and> p_chan (procs pt i) = ch
     then (procs pt i)\<lparr>p_state := RUNNABLE\<rparr> else procs pt i)\<rparr>"

lemma cur_wakeup [simp]: "cur (wakeup ch pt) = cur pt"
  by (simp add: wakeup_def)

lemma nextpid_wakeup [simp]: "nextpid (wakeup ch pt) = nextpid pt"
  by (simp add: wakeup_def)

lemma wakeup_pid [simp]: "p_pid (procs (wakeup ch pt) i) = p_pid (procs pt i)"
  by (simp add: wakeup_def)

lemma wakeup_pagetable [simp]: "p_pagetable (procs (wakeup ch pt) i) = p_pagetable (procs pt i)"
  by (simp add: wakeup_def)

lemma wakeup_idem: "wakeup ch (wakeup ch pt) = wakeup ch pt"
  by (rule ptable.equality) (auto simp: wakeup_def)

section \<open>Sleep locks\<close>

record sleeplock =
  sl_locked :: bool
  sl_pid :: u32

definition initsleeplock :: sleeplock where
  "initsleeplock = \<lparr>sl_locked = False, sl_pid = 0\<rparr>"

definition acquiresleep :: "chan \<Rightarrow> (sleeplock \<times> ptable, unit) kmonad" where
  "acquiresleep ch = (\<lambda>(lk, pt).
     if sl_locked lk
     then klift snd (\<lambda>pt' (lk', _). (lk', pt')) (sleep ch) (lk, pt)
     else kbind (klift snd (\<lambda>pt' (lk', _). (lk', pt')) myproc)
            (\<lambda>i. kmodify (\<lambda>(_, pt'). (\<lparr>sl_locked = True, sl_pid = u32_of_int (p_pid (procs pt' i))\<rparr>, pt')))
            (lk, pt))"

definition releasesleep :: "chan \<Rightarrow> (sleeplock \<times> ptable, unit) kmonad" where
  "releasesleep ch = kmodify (\<lambda>(lk, pt). (\<lparr>sl_locked = False, sl_pid = 0\<rparr>, wakeup ch pt))"

definition holdingsleep :: "(sleeplock \<times> ptable, bool) kmonad" where
  "holdingsleep = (\<lambda>(lk, pt). if \<not> sl_locked lk then Done False (lk, pt)
     else kbind (klift snd (\<lambda>pt' (lk', _). (lk', pt')) myproc)
            (\<lambda>i. kget (\<lambda>(lk', pt'). sl_pid lk' = u32_of_int (p_pid (procs pt' i)))) (lk, pt))"

text \<open>The lock value a process leaves in a sleep lock it has acquired.\<close>

definition owned :: "ptable \<Rightarrow> nat \<Rightarrow> sleeplock" where
  "owned pt i = \<lparr>sl_locked = True, sl_pid = u32_of_int (p_pid (procs pt i))\<rparr>"

lemma owned_wakeup [simp]: "owned (wakeup ch pt) i = owned pt i"
  by (simp add: owned_def)

lemma owned_locked [simp]: "sl_locked (owned pt i)"
  by (simp add: owned_def)

lemma acquiresleep_free:
  "cur pt = Some i \<Longrightarrow> \<not> sl_locked lk \<Longrightarrow> acquiresleep ch (lk, pt) = Done () (owned pt i, pt)"
  by (simp add: acquiresleep_def myproc_def owned_def klift_def kbind_def)

lemma acquiresleep_held:
  "cur pt = Some i \<Longrightarrow> sl_locked lk \<Longrightarrow>
   acquiresleep ch (lk, pt) = Block (lk, upd_proc i (\<lambda>p. p\<lparr>p_chan := ch, p_state := SLEEPING\<rparr>) pt)"
  by (simp add: acquiresleep_def sleep_def myproc_def klift_def kbind_def)

lemma acquiresleep_no_proc:
  "cur pt = None \<Longrightarrow> acquiresleep ch (lk, pt) = Fault ''myproc() is null''"
  by (simp add: acquiresleep_def sleep_def myproc_def klift_def kbind_def)

lemma holdingsleep_owned:
  "cur pt = Some i \<Longrightarrow> holdingsleep (owned pt i, pt) = Done True (owned pt i, pt)"
  by (simp add: holdingsleep_def myproc_def owned_def klift_def kbind_def)

lemma holdingsleep_free: "\<not> sl_locked lk \<Longrightarrow> holdingsleep (lk, pt) = Done False (lk, pt)"
  by (simp add: holdingsleep_def)

lemma holdingsleep_run:
  "cur pt = Some i \<Longrightarrow> holdingsleep (lk, pt) = Done (lk = owned pt i) (lk, pt)"
  by (cases lk) (auto simp: holdingsleep_def myproc_def owned_def klift_def kbind_def)

lemma releasesleep_run:
  "releasesleep ch (lk, pt) = Done () (initsleeplock, wakeup ch pt)"
  by (simp add: releasesleep_def initsleeplock_def)

end
