(* ===== verification/Bio.thy ===== *)
theory Bio
  imports Proc_State
begin

text \<open>
  The buffer cache, \<^verbatim>\<open>kernel/bio.c\<close> and \<^verbatim>\<open>kernel/buf.h\<close>: \<open>NBUF\<close> buffers on a circular
  doubly linked list, each with a sleep lock, a reference count and a pin count. A buffer is
  its index into \<^verbatim>\<open>bcache.buf\<close>; the index \<open>NBUF\<close> is the sentinel \<^verbatim>\<open>bcache.head\<close>.

  The block device below is the contract \<^verbatim>\<open>virtio_disk_rw\<close> documents: a synchronous transfer
  of one 1024-byte logical block. Every completed write is also recorded, in order, so that
  the contents after a crash at any point can be stated.
\<close>

section \<open>State\<close>

abbreviation BSIZE :: nat where "BSIZE \<equiv> 1024"
abbreviation NBUF :: nat where "NBUF \<equiv> 30"

record buf =
  b_valid :: bool
  b_dev :: u32
  b_blockno :: u32
  b_lock :: sleeplock
  b_refcnt :: u32
  b_pinned :: int
  b_prev :: nat
  b_next :: nat
  b_data :: bytes

record disk =
  d_blocks :: "u32 \<Rightarrow> bytes"
  d_trace :: "(u32 \<times> bytes) list"

record bio =
  bio_pt :: ptable
  bio_disk :: disk
  bufs :: "nat \<Rightarrow> buf"

definition upd_buf :: "nat \<Rightarrow> (buf \<Rightarrow> buf) \<Rightarrow> bio \<Rightarrow> bio" where
  "upd_buf i f s = s\<lparr>bufs := (bufs s)(i := f (bufs s i))\<rparr>"

text \<open>A store into \<^verbatim>\<open>b->data\<close> by the holder of a buffer.\<close>

definition set_data :: "nat \<Rightarrow> bytes \<Rightarrow> bio \<Rightarrow> bio" where
  "set_data i v = upd_buf i (\<lambda>b. b\<lparr>b_data := v\<rparr>)"

definition disk_write :: "u32 \<Rightarrow> bytes \<Rightarrow> disk \<Rightarrow> disk" where
  "disk_write b v d = d\<lparr>d_blocks := (d_blocks d)(b := v), d_trace := d_trace d @ [(b, v)]\<rparr>"

section \<open>Sleep locks of the buffers\<close>

definition buf_lock_get :: "nat \<Rightarrow> bio \<Rightarrow> sleeplock \<times> ptable" where
  "buf_lock_get i s = (b_lock (bufs s i), bio_pt s)"

definition buf_lock_put :: "nat \<Rightarrow> sleeplock \<times> ptable \<Rightarrow> bio \<Rightarrow> bio" where
  "buf_lock_put i lp s = (upd_buf i (\<lambda>b. b\<lparr>b_lock := fst lp\<rparr>) s)\<lparr>bio_pt := snd lp\<rparr>"

definition acquiresleep_buf :: "nat \<Rightarrow> (bio, unit) kmonad" where
  "acquiresleep_buf i = klift (buf_lock_get i) (buf_lock_put i) (acquiresleep (ChanBuf i))"

definition releasesleep_buf :: "nat \<Rightarrow> (bio, unit) kmonad" where
  "releasesleep_buf i = klift (buf_lock_get i) (buf_lock_put i) (releasesleep (ChanBuf i))"

definition holdingsleep_buf :: "nat \<Rightarrow> (bio, bool) kmonad" where
  "holdingsleep_buf i = klift (buf_lock_get i) (buf_lock_put i) holdingsleep"

section \<open>Operations\<close>

text \<open>One iteration of \<^verbatim>\<open>binit\<close>'s loop links the buffer in right after the sentinel.\<close>

definition binit_one :: "nat \<Rightarrow> (bio, unit) kmonad" where
  "binit_one i =
     kbind (kget (\<lambda>s. b_next (bufs s NBUF))) (\<lambda>first.
     kseq (kmodify (upd_buf i (\<lambda>b. b\<lparr>b_next := first, b_prev := NBUF, b_lock := initsleeplock\<rparr>)))
    (kseq (kmodify (upd_buf first (\<lambda>b. b\<lparr>b_prev := i\<rparr>)))
          (kmodify (upd_buf NBUF (\<lambda>b. b\<lparr>b_next := i\<rparr>)))))"

definition binit :: "(bio, unit) kmonad" where
  "binit = kseq (kmodify (upd_buf NBUF (\<lambda>b. b\<lparr>b_prev := NBUF, b_next := NBUF\<rparr>)))
                (kfor [0..<NBUF] binit_one)"

text \<open>
  The two scans of \<^verbatim>\<open>bget\<close>. The first argument bounds the number of links followed; \<open>NBUF + 1\<close>
  is enough on a well-formed list (shown below), \<open>None\<close> means the scan would not end.
\<close>

primrec scan_cached :: "nat \<Rightarrow> (nat \<Rightarrow> buf) \<Rightarrow> u32 \<Rightarrow> u32 \<Rightarrow> nat \<Rightarrow> nat option option" where
  "scan_cached 0 bs dev blockno i = None"
| "scan_cached (Suc k) bs dev blockno i =
     (if i = NBUF then Some None
      else if b_dev (bs i) = dev \<and> b_blockno (bs i) = blockno then Some (Some i)
      else scan_cached k bs dev blockno (b_next (bs i)))"

primrec scan_victim :: "nat \<Rightarrow> (nat \<Rightarrow> buf) \<Rightarrow> nat \<Rightarrow> nat option option" where
  "scan_victim 0 bs i = None"
| "scan_victim (Suc k) bs i =
     (if i = NBUF then Some None
      else if b_refcnt (bs i) = 0 \<and> b_pinned (bs i) = 0 then Some (Some i)
      else scan_victim k bs (b_prev (bs i)))"

definition bget :: "u32 \<Rightarrow> u32 \<Rightarrow> (bio, nat) kmonad" where
  "bget dev blockno = kbind (kget bufs) (\<lambda>bs.
     case scan_cached (NBUF + 1) bs dev blockno (b_next (bs NBUF)) of
       None \<Rightarrow> kfault ''bget: list''
     | Some (Some i) \<Rightarrow>
         kseq (kmodify (upd_buf i (\<lambda>b. b\<lparr>b_refcnt := b_refcnt b + 1\<rparr>)))
        (kseq (acquiresleep_buf i) (kreturn i))
     | Some None \<Rightarrow>
         (case scan_victim (NBUF + 1) bs (b_prev (bs NBUF)) of
            None \<Rightarrow> kfault ''bget: list''
          | Some (Some i) \<Rightarrow>
              kseq (kmodify (upd_buf i (\<lambda>b. b\<lparr>b_dev := dev, b_blockno := blockno,
                      b_valid := False, b_refcnt := 1\<rparr>)))
             (kseq (acquiresleep_buf i) (kreturn i))
          | Some None \<Rightarrow> kpanic ''bget: no buffers''))"

definition bread :: "u32 \<Rightarrow> u32 \<Rightarrow> (bio, nat) kmonad" where
  "bread dev blockno =
     kbind (bget dev blockno) (\<lambda>i.
     kbind (kget (\<lambda>s. b_valid (bufs s i))) (\<lambda>v.
     if v then kreturn i
     else kseq (kmodify (\<lambda>s. upd_buf i (\<lambda>b. b\<lparr>b_data := d_blocks (bio_disk s) blockno, b_valid := True\<rparr>) s))
               (kreturn i)))"

definition bwrite :: "nat \<Rightarrow> (bio, unit) kmonad" where
  "bwrite i = kbind (holdingsleep_buf i) (\<lambda>h.
     if \<not> h then kpanic ''bwrite''
     else kmodify (\<lambda>s. s\<lparr>bio_disk := disk_write (b_blockno (bufs s i)) (b_data (bufs s i)) (bio_disk s)\<rparr>))"

text \<open>The pointer surgery of \<^verbatim>\<open>brelse\<close>, one assignment after the other.\<close>

definition lru_to_tail :: "nat \<Rightarrow> (bio, unit) kmonad" where
  "lru_to_tail i =
     kseq (kmodify (\<lambda>s. upd_buf (b_prev (bufs s i)) (\<lambda>b. b\<lparr>b_next := b_next (bufs s i)\<rparr>) s))
    (kseq (kmodify (\<lambda>s. upd_buf (b_next (bufs s i)) (\<lambda>b. b\<lparr>b_prev := b_prev (bufs s i)\<rparr>) s))
    (kseq (kmodify (\<lambda>s. upd_buf i (\<lambda>b. b\<lparr>b_prev := b_prev (bufs s NBUF)\<rparr>) s))
    (kseq (kmodify (\<lambda>s. upd_buf (b_prev (bufs s NBUF)) (\<lambda>b. b\<lparr>b_next := i\<rparr>) s))
    (kseq (kmodify (upd_buf i (\<lambda>b. b\<lparr>b_next := NBUF\<rparr>)))
          (kmodify (upd_buf NBUF (\<lambda>b. b\<lparr>b_prev := i\<rparr>)))))))"

definition brelse :: "nat \<Rightarrow> (bio, unit) kmonad" where
  "brelse i = kbind (holdingsleep_buf i) (\<lambda>h.
     if \<not> h then kpanic ''brelse''
     else kseq (releasesleep_buf i)
         (kseq (kmodify (upd_buf i (\<lambda>b. b\<lparr>b_refcnt := b_refcnt b - 1\<rparr>)))
         (kbind (kget (\<lambda>s. bufs s i)) (\<lambda>b.
            if b_refcnt b = 0 \<and> b_next b \<noteq> NBUF then lru_to_tail i else kreturn ()))))"

definition bpin :: "nat \<Rightarrow> (bio, unit) kmonad" where
  "bpin i = kmodify (upd_buf i (\<lambda>b. b\<lparr>b_pinned := b_pinned b + 1\<rparr>))"

definition bunpin :: "nat \<Rightarrow> (bio, unit) kmonad" where
  "bunpin i = kbind (kget (\<lambda>s. b_pinned (bufs s i))) (\<lambda>p.
     if p \<le> 0 then kpanic ''bunpin''
     else kmodify (upd_buf i (\<lambda>b. b\<lparr>b_pinned := b_pinned b - 1\<rparr>)))"

section \<open>The circular list\<close>


definition nxt :: "(nat \<Rightarrow> buf) \<Rightarrow> nat \<Rightarrow> nat" where "nxt bs i = b_next (bs i)"
definition prv :: "(nat \<Rightarrow> buf) \<Rightarrow> nat \<Rightarrow> nat" where "prv bs i = b_prev (bs i)"

definition lru :: "(nat \<Rightarrow> buf) \<Rightarrow> nat list \<Rightarrow> bool" where
  "lru bs xs \<longleftrightarrow> chain (nxt bs) NBUF xs NBUF \<and> chain (prv bs) NBUF (rev xs) NBUF \<and>
     distinct xs \<and> set xs = {..<NBUF}"

definition unlinked :: "buf \<Rightarrow> buf" where
  "unlinked b = b\<lparr>b_prev := 0, b_next := 0\<rparr>"

lemma unlinked_eqD:
  assumes "unlinked a = unlinked b"
  shows "b_valid a = b_valid b" "b_dev a = b_dev b" "b_blockno a = b_blockno b" "b_lock a = b_lock b"
    "b_refcnt a = b_refcnt b" "b_pinned a = b_pinned b" "b_data a = b_data b"
proof -
  have "f (unlinked a) = f (unlinked b)" for f :: "buf \<Rightarrow> 'x" using assms by simp
  from this [of b_valid] this [of b_dev]
  show "b_valid a = b_valid b" "b_dev a = b_dev b" "b_blockno a = b_blockno b" "b_lock a = b_lock b"
    "b_refcnt a = b_refcnt b" "b_pinned a = b_pinned b" "b_data a = b_data b"
    using arg_cong [OF assms, of b_valid] arg_cong [OF assms, of b_dev] arg_cong [OF assms, of b_blockno]
      arg_cong [OF assms, of b_lock] arg_cong [OF assms, of b_refcnt] arg_cong [OF assms, of b_pinned]
      arg_cong [OF assms, of b_data]
    by (simp_all add: unlinked_def)
qed

lemma scan_cached_chain:
  "chain (nxt bs) a ys NBUF \<Longrightarrow> NBUF \<notin> set ys \<Longrightarrow> length ys < k \<Longrightarrow>
   scan_cached k bs dev b (nxt bs a) = Some (find (\<lambda>i. b_dev (bs i) = dev \<and> b_blockno (bs i) = b) ys)"
proof (induction ys arbitrary: a k)
  case Nil
  then show ?case by (cases k) auto
next
  case (Cons y ys)
  then obtain k' where k: "k = Suc k'" by (cases k) auto
  have IH: "scan_cached k' bs dev b (nxt bs y) = Some (find (\<lambda>i. b_dev (bs i) = dev \<and> b_blockno (bs i) = b) ys)"
    using Cons.prems k by (intro Cons.IH) auto
  show ?case using Cons.prems IH by (auto simp: k nxt_def)
qed

lemma scan_victim_chain:
  "chain (prv bs) a ys NBUF \<Longrightarrow> NBUF \<notin> set ys \<Longrightarrow> length ys < k \<Longrightarrow>
   scan_victim k bs (prv bs a) = Some (find (\<lambda>i. b_refcnt (bs i) = 0 \<and> b_pinned (bs i) = 0) ys)"
proof (induction ys arbitrary: a k)
  case Nil
  then show ?case by (cases k) auto
next
  case (Cons y ys)
  then obtain k' where k: "k = Suc k'" by (cases k) auto
  have IH: "scan_victim k' bs (prv bs y) = Some (find (\<lambda>i. b_refcnt (bs i) = 0 \<and> b_pinned (bs i) = 0) ys)"
    using Cons.prems k by (intro Cons.IH) auto
  show ?case using Cons.prems IH by (auto simp: k prv_def)
qed

lemma lru_length: "lru bs xs \<Longrightarrow> length xs = NBUF"
  using distinct_card [of xs] by (auto simp: lru_def)

lemma scan_cached_lru:
  "lru bs xs \<Longrightarrow> scan_cached (NBUF + 1) bs dev b (b_next (bs NBUF)) =
   Some (find (\<lambda>i. b_dev (bs i) = dev \<and> b_blockno (bs i) = b) xs)"
  using scan_cached_chain [of bs NBUF xs "NBUF + 1" dev b] lru_length [of bs xs]
  by (auto simp: lru_def nxt_def)

lemma scan_victim_lru:
  "lru bs xs \<Longrightarrow> scan_victim (NBUF + 1) bs (b_prev (bs NBUF)) =
   Some (find (\<lambda>i. b_refcnt (bs i) = 0 \<and> b_pinned (bs i) = 0) (rev xs))"
  using scan_victim_chain [of bs NBUF "rev xs" "NBUF + 1"] lru_length [of bs xs]
  by (auto simp: lru_def prv_def)

lemma lru_cong:
  assumes "\<And>i. b_next (bs i) = b_next (bs' i)" "\<And>i. b_prev (bs i) = b_prev (bs' i)"
  shows "lru bs xs = lru bs' xs"
proof -
  have "nxt bs = nxt bs'" "prv bs = prv bs'" using assms by (auto simp: nxt_def prv_def)
  then show ?thesis by (simp add: lru_def)
qed

text \<open>The relinking of \<^verbatim>\<open>brelse\<close> on the two link functions.\<close>

lemma move_to_tail:
  assumes nx: "chain nx h (us @ i # n # vs) h" and pv: "chain pv h (rev (us @ i # n # vs)) h"
    and d: "distinct (h # us @ i # n # vs)"
    and p: "p = pv i" and t: "t = pv h"
  shows "chain (nx(p := n, t := i, i := h)) h (us @ n # vs @ [i]) h"
    and "chain (pv(n := p, i := t, h := i)) h (rev (us @ n # vs @ [i])) h"
proof -
  have rv: "rev (us @ i # n # vs) = rev vs @ n # i # rev us" by simp
  from pv have pv1: "chain pv h (rev vs) n" and pvn: "pv n = i" and pv2: "chain pv i (rev us) h"
    unfolding rv chain_append by auto
  from nx have nx1: "chain nx h us i" and nxi: "nx i = n" and nx2: "chain nx n vs h"
    unfolding chain_append by auto
  have p': "p = last (h # us)" unfolding p
    using pv2 by (cases us rule: rev_cases) auto
  have t': "t = last (n # vs)" unfolding t
    using pv1 by (cases vs rule: rev_cases) auto
  have ne: "p \<noteq> t" "p \<noteq> i" "t \<noteq> i" "i \<noteq> h" "n \<noteq> h" "n \<noteq> i" "t \<noteq> h" "p \<notin> set (n # vs)" "t \<notin> set us" "i \<notin> set us" "i \<notin> set vs"
    "h \<notin> set us" "h \<notin> set vs" "n \<notin> set us" "n \<notin> set vs" "p \<noteq> n"
    using d unfolding p' t' by (auto split: if_splits dest: last_in_set)
  let ?nx = "nx(p := n, t := i, i := h)"
  have "chain (nx(p := n)) h us n"
    using chain_retarget [OF nx1] d p' by simp
  then have c1: "chain ?nx h us n" using ne by simp
  have "chain (nx(t := i)) n vs i"
    using chain_retarget [OF nx2] d t' by simp
  then have c2: "chain ?nx n vs i"
    by (rule chain_cong [THEN iffD1, rotated]) (use ne in auto)
  show "chain ?nx h (us @ n # vs @ [i]) h"
    unfolding chain_append using c1 c2 by (simp add: chain_append)
  let ?pv = "pv(n := p, i := t, h := i)"
  have rv2: "rev (us @ n # vs @ [i]) = i # rev vs @ n # rev us" by simp
  have d1: "chain ?pv i (rev vs) n = chain pv h (rev vs) n"
    using ne t by (intro chain_start) auto
  have d2: "chain ?pv n (rev us) h = chain pv i (rev us) h"
    using ne p by (intro chain_start) auto
  show "chain ?pv h (rev (us @ n # vs @ [i])) h"
    unfolding rv2 using d1 d2 pv1 pv2 by (simp add: chain_append)
qed


lemma nxt_upd:
  "nxt (bufs (upd_buf i (\<lambda>b. b\<lparr>b_next := x\<rparr>) s)) = (nxt (bufs s))(i := x)"
  "nxt (bufs (upd_buf i (\<lambda>b. b\<lparr>b_prev := x\<rparr>) s)) = nxt (bufs s)"
  by (auto simp: nxt_def upd_buf_def)

lemma prv_upd:
  "prv (bufs (upd_buf i (\<lambda>b. b\<lparr>b_prev := x\<rparr>) s)) = (prv (bufs s))(i := x)"
  "prv (bufs (upd_buf i (\<lambda>b. b\<lparr>b_next := x\<rparr>) s)) = prv (bufs s)"
  by (auto simp: prv_def upd_buf_def)

lemma unlinked_upd:
  "unlinked (bufs (upd_buf i (\<lambda>b. b\<lparr>b_prev := x\<rparr>) s) j) = unlinked (bufs s j)"
  "unlinked (bufs (upd_buf i (\<lambda>b. b\<lparr>b_next := x\<rparr>) s) j) = unlinked (bufs s j)"
  by (simp_all add: unlinked_def upd_buf_def)

lemma lru_to_tail_run:
  assumes l: "lru (bufs s) (us @ i # vs)" and vs: "vs \<noteq> []"
  obtains s' where "lru_to_tail i s = Done () s'" and "lru (bufs s') (us @ vs @ [i])"
    and "\<And>j. unlinked (bufs s' j) = unlinked (bufs s j)"
    and "bio_pt s' = bio_pt s" and "bio_disk s' = bio_disk s"
proof -
  from vs obtain n vs' where vs': "vs = n # vs'" by (cases vs) auto
  let ?nx = "nxt (bufs s)" and ?pv = "prv (bufs s)"
  let ?p = "?pv i" and ?t = "?pv NBUF"
  have nx: "chain ?nx NBUF (us @ i # n # vs') NBUF" and pv: "chain ?pv NBUF (rev (us @ i # n # vs')) NBUF"
    and d: "distinct (NBUF # us @ i # n # vs')" and st: "set (us @ i # vs) = {..<NBUF}"
    using l vs' by (auto simp: lru_def)
  have nxi: "?nx i = n" using nx unfolding chain_append by simp
  have inv: "i \<noteq> NBUF" "n \<noteq> NBUF" "n \<noteq> i" using d by auto
  have rv: "rev (us @ i # n # vs') = rev vs' @ n # i # rev us" by simp
  have pv': "chain ?pv NBUF (rev vs' @ n # i # rev us) NBUF" using pv rv by metis
  have tt: "?t = last (n # vs')" 
    using pv' by (cases vs' rule: rev_cases) (auto simp: chain_append)
  have pp: "?p = last (NBUF # us)"
    using pv' by (cases us rule: rev_cases) (auto simp: chain_append)
  have ti: "?t \<noteq> i" "?t \<noteq> NBUF" "?p \<noteq> ?t" "?p \<noteq> i" "?p \<noteq> n"
    using d unfolding tt pp by (auto split: if_splits dest: last_in_set)
  define s1 where "s1 = upd_buf ?p (\<lambda>b. b\<lparr>b_next := n\<rparr>) s"
  define s2 where "s2 = upd_buf n (\<lambda>b. b\<lparr>b_prev := ?p\<rparr>) s1"
  define s3 where "s3 = upd_buf i (\<lambda>b. b\<lparr>b_prev := ?t\<rparr>) s2"
  define s4 where "s4 = upd_buf ?t (\<lambda>b. b\<lparr>b_next := i\<rparr>) s3"
  define s5 where "s5 = upd_buf i (\<lambda>b. b\<lparr>b_next := NBUF\<rparr>) s4"
  define s6 where "s6 = upd_buf NBUF (\<lambda>b. b\<lparr>b_prev := i\<rparr>) s5"
  note sdefs = s1_def s2_def s3_def s4_def s5_def s6_def
  have run: "lru_to_tail i s = Done () s6"
    unfolding lru_to_tail_def kseq_def kbind_def kmodify_def sdefs
    by (simp only: outcome.case nxt_def [symmetric] prv_def [symmetric] nxt_upd prv_upd fun_upd_apply
        nxi inv ti inv [symmetric] ti [symmetric] if_False if_True simp_thms)
  have nx6: "nxt (bufs s6) = ?nx(?p := n, ?t := i, i := NBUF)"
    unfolding sdefs by (simp only: nxt_upd prv_upd buf.simps)
  have pv6: "prv (bufs s6) = ?pv(n := ?p, i := ?t, NBUF := i)"
    unfolding sdefs by (simp only: nxt_upd prv_upd)
  have un: "unlinked (bufs s6 j) = unlinked (bufs s j)" for j
    unfolding sdefs by (simp only: unlinked_upd)
  have fr: "bio_pt s6 = bio_pt s" "bio_disk s6 = bio_disk s"
    unfolding sdefs by (auto simp: upd_buf_def)
  have "chain (nxt (bufs s6)) NBUF (us @ n # vs' @ [i]) NBUF"
    "chain (prv (bufs s6)) NBUF (rev (us @ n # vs' @ [i])) NBUF"
    unfolding nx6 pv6 by (rule move_to_tail [OF nx pv d refl refl])+
  then have "lru (bufs s6) (us @ vs @ [i])"
    using d st by (auto simp: lru_def vs')
  from that [OF run this un fr] show thesis .
qed




end
