(* ===== verification/Block_Cache.thy ===== *)
theory Block_Cache
  imports Bio
begin

text \<open>
  The interface between the buffer cache and its clients. A client sees the cache as four
  maps (\<open>cache_abs\<close>): the current contents of every block, the pin count of every block, the
  disk, and the buffers the running process holds locked. The locale \<open>block_cache\<close> states
  each operation of \<^verbatim>\<open>bio.c\<close> as an update of these maps; its derived lemmas are the access
  patterns the log and the file system repeat (read and release, overwrite, copy). The locale
  \<open>block_cache_lift\<close> carries the contract to a larger state that contains the cache.
\<close>

section \<open>Wake-ups\<close>

text \<open>\<open>awoken pt pt'\<close>: the tables differ at most in sleeping processes having become runnable.\<close>

definition awoken :: "ptable \<Rightarrow> ptable \<Rightarrow> bool" where
  "awoken pt pt' \<longleftrightarrow> cur pt' = cur pt \<and> nextpid pt' = nextpid pt \<and>
     (\<forall>i. procs pt' i = procs pt i \<or>
          p_state (procs pt i) = SLEEPING \<and> procs pt' i = (procs pt i)\<lparr>p_state := RUNNABLE\<rparr>)"

lemma awoken_refl [simp]: "awoken pt pt"
  by (simp add: awoken_def)

lemma awoken_trans: "awoken a b \<Longrightarrow> awoken b c \<Longrightarrow> awoken a c"
proof -
  assume ab: "awoken a b" and bc: "awoken b c"
  have "procs c i = procs a i \<or> p_state (procs a i) = SLEEPING \<and> procs c i = (procs a i)\<lparr>p_state := RUNNABLE\<rparr>" for i
    using ab bc unfolding awoken_def by (metis procstate.distinct(23) proc.select_convs(1) proc.surjective proc.update_convs(1))
  with ab bc show ?thesis by (simp add: awoken_def)
qed

lemma awoken_wakeup [simp]: "awoken pt (wakeup ch pt)"
  by (auto simp: awoken_def wakeup_def)

lemma awoken_proc:
  assumes "awoken pt pt'"
  shows "p_pid (procs pt' i) = p_pid (procs pt i)" "p_pagetable (procs pt' i) = p_pagetable (procs pt i)"
    "p_sz (procs pt' i) = p_sz (procs pt i)" "p_cwd (procs pt' i) = p_cwd (procs pt i)"
    "p_ofile (procs pt' i) = p_ofile (procs pt i)" "cur pt' = cur pt" "owned pt' i = owned pt i"
proof -
  have "procs pt' i = procs pt i \<or> procs pt' i = (procs pt i)\<lparr>p_state := RUNNABLE\<rparr>"
    using assms by (auto simp: awoken_def)
  then show "p_pid (procs pt' i) = p_pid (procs pt i)" "p_pagetable (procs pt' i) = p_pagetable (procs pt i)"
    "p_sz (procs pt' i) = p_sz (procs pt i)" "p_cwd (procs pt' i) = p_cwd (procs pt i)"
    "p_ofile (procs pt' i) = p_ofile (procs pt i)" "owned pt' i = owned pt i" by (auto simp: owned_def)
  show "cur pt' = cur pt" using assms by (simp add: awoken_def)
qed

section \<open>The abstract cache\<close>

record cache_abs =
  ca_view :: "u32 \<Rightarrow> bytes"
  ca_pins :: "u32 \<Rightarrow> int"
  ca_disk :: disk
  ca_hold :: "u32 \<Rightarrow> nat option"

text \<open>A block can be brought in if it is pinned (hence cached) or if a buffer is left to recycle.\<close>

definition has_room :: "cache_abs \<Rightarrow> u32 \<Rightarrow> bool" where
  "has_room a n \<longleftrightarrow> ca_pins a n \<noteq> 0 \<or> card (dom (ca_hold a) \<union> {m. ca_pins a m \<noteq> 0}) < NBUF"

text \<open>Releasing a buffer that the log does not pin must not lose a change.\<close>

definition is_clean :: "cache_abs \<Rightarrow> u32 \<Rightarrow> bool" where
  "is_clean a n \<longleftrightarrow> (ca_pins a n = 0 \<longrightarrow> d_blocks (ca_disk a) n = ca_view a n)"

definition a_take :: "u32 \<Rightarrow> nat \<Rightarrow> cache_abs \<Rightarrow> cache_abs" where
  "a_take n i a = a\<lparr>ca_hold := (ca_hold a)(n := Some i)\<rparr>"

definition a_drop :: "u32 \<Rightarrow> cache_abs \<Rightarrow> cache_abs" where
  "a_drop n a = a\<lparr>ca_hold := (ca_hold a)(n := None)\<rparr>"

definition a_store :: "u32 \<Rightarrow> bytes \<Rightarrow> cache_abs \<Rightarrow> cache_abs" where
  "a_store n v a = a\<lparr>ca_view := (ca_view a)(n := v)\<rparr>"

definition a_flush :: "u32 \<Rightarrow> cache_abs \<Rightarrow> cache_abs" where
  "a_flush n a = a\<lparr>ca_disk := disk_write n (ca_view a n) (ca_disk a)\<rparr>"

definition a_pin :: "u32 \<Rightarrow> int \<Rightarrow> cache_abs \<Rightarrow> cache_abs" where
  "a_pin n k a = a\<lparr>ca_pins := (ca_pins a)(n := ca_pins a n + k)\<rparr>"

lemmas a_defs = a_take_def a_drop_def a_store_def a_flush_def a_pin_def

lemma a_take_drop: "ca_hold a n = None \<Longrightarrow> a_drop n (a_take n i a) = a"
  by (simp add: a_defs fun_upd_idem)

definition a_write :: "u32 \<Rightarrow> bytes \<Rightarrow> cache_abs \<Rightarrow> cache_abs" where
  "a_write n v a = a\<lparr>ca_view := (ca_view a)(n := v), ca_disk := disk_write n v (ca_disk a)\<rparr>"

definition busy :: "cache_abs \<Rightarrow> u32 set" where
  "busy a = dom (ca_hold a) \<union> {m. ca_pins a m \<noteq> 0}"

lemma has_room_busy: "has_room a n \<longleftrightarrow> ca_pins a n \<noteq> 0 \<or> card (busy a) < NBUF"
  by (simp add: has_room_def busy_def)

lemma busy_take [simp]: "busy (a_take n i a) = insert n (busy a)"
  by (auto simp: busy_def a_take_def)

lemma take_write_drop:
  assumes "ca_hold a x = None" "ca_hold a y = None"
  shows "a_drop y (a_drop x (a_write n v (a_take y j (a_take x i a)))) = a_write n v a"
    "a_drop y (a_drop x (a_pin n k (a_write n v (a_take y j (a_take x i a))))) = a_pin n k (a_write n v a)"
  using assms by (auto intro!: cache_abs.equality simp: a_drop_def a_write_def a_take_def a_pin_def fun_eq_iff)

lemma view_take [simp]: "ca_view (a_take n i a) = ca_view a"
  by (simp add: a_take_def)

section \<open>The contract\<close>

locale block_cache =
  fixes ok :: "'s \<Rightarrow> bool" and abs :: "'s \<Rightarrow> cache_abs" and tbl :: "'s \<Rightarrow> ptable" and rest :: "'s \<Rightarrow> 'r"
    and rd :: "u32 \<Rightarrow> ('s, nat) kmonad" and fetch :: "nat \<Rightarrow> 's \<Rightarrow> bytes"
    and store :: "nat \<Rightarrow> bytes \<Rightarrow> 's \<Rightarrow> 's" and wr :: "nat \<Rightarrow> ('s, unit) kmonad"
    and rel :: "nat \<Rightarrow> ('s, unit) kmonad" and pin :: "nat \<Rightarrow> ('s, unit) kmonad"
    and unpin :: "nat \<Rightarrow> ('s, unit) kmonad"
  assumes view_len: "ok s \<Longrightarrow> length (ca_view (abs s) n) = BSIZE"
    and pins_nonneg: "ok s \<Longrightarrow> 0 \<le> ca_pins (abs s) n"
    and hold_fin: "ok s \<Longrightarrow> finite (dom (ca_hold (abs s)) \<union> {m. ca_pins (abs s) m \<noteq> 0})"
    and clean: "ok s \<Longrightarrow> ca_hold (abs s) n = None \<Longrightarrow> is_clean (abs s) n"
    and fetch_held: "ok s \<Longrightarrow> ca_hold (abs s) n = Some i \<Longrightarrow> fetch i s = ca_view (abs s) n"
    and rd_ok: "ok s \<Longrightarrow> ca_hold (abs s) n = None \<Longrightarrow> has_room (abs s) n \<Longrightarrow>
      \<exists>i s'. rd n s = Done i s' \<and> ok s' \<and> abs s' = a_take n i (abs s) \<and> tbl s' = tbl s \<and> rest s' = rest s"
    and store_ok: "ok s \<Longrightarrow> ca_hold (abs s) n = Some i \<Longrightarrow> length v = BSIZE \<Longrightarrow>
      ok (store i v s) \<and> abs (store i v s) = a_store n v (abs s) \<and> tbl (store i v s) = tbl s \<and> rest (store i v s) = rest s"
    and wr_ok: "ok s \<Longrightarrow> ca_hold (abs s) n = Some i \<Longrightarrow>
      \<exists>s'. wr i s = Done () s' \<and> ok s' \<and> abs s' = a_flush n (abs s) \<and> tbl s' = tbl s \<and> rest s' = rest s"
    and rel_ok: "ok s \<Longrightarrow> ca_hold (abs s) n = Some i \<Longrightarrow> is_clean (abs s) n \<Longrightarrow>
      \<exists>s'. rel i s = Done () s' \<and> ok s' \<and> abs s' = a_drop n (abs s) \<and> awoken (tbl s) (tbl s') \<and> rest s' = rest s"
    and pin_ok: "ok s \<Longrightarrow> ca_hold (abs s) n = Some i \<Longrightarrow>
      \<exists>s'. pin i s = Done () s' \<and> ok s' \<and> abs s' = a_pin n 1 (abs s) \<and> tbl s' = tbl s \<and> rest s' = rest s"
    and unpin_ok: "ok s \<Longrightarrow> ca_hold (abs s) n = Some i \<Longrightarrow> 0 < ca_pins (abs s) n \<Longrightarrow>
      \<exists>s'. unpin i s = Done () s' \<and> ok s' \<and> abs s' = a_pin n (- 1) (abs s) \<and> tbl s' = tbl s \<and> rest s' = rest s"
begin

text \<open>Read a block and release it: the client learns the contents, nothing else happens.\<close>

lemma peek:
  assumes "ok s" "ca_hold (abs s) n = None" "has_room (abs s) n"
  obtains i s1 s2 where "rd n s = Done i s1" "fetch i s1 = ca_view (abs s) n" "rel i s1 = Done () s2"
    "ok s2" "abs s2 = abs s" "awoken (tbl s) (tbl s2)" "rest s2 = rest s"
proof -
  obtain i s1 where 1: "rd n s = Done i s1" "ok s1" "abs s1 = a_take n i (abs s)" "tbl s1 = tbl s" "rest s1 = rest s"
    using rd_ok [OF assms] by blast
  have h: "ca_hold (abs s1) n = Some i" by (simp add: 1 a_defs)
  have "is_clean (abs s1) n" using clean [OF assms(1,2)] by (simp add: 1 a_defs is_clean_def)
  then obtain s2 where 2: "rel i s1 = Done () s2" "ok s2" "abs s2 = a_drop n (abs s1)" "awoken (tbl s1) (tbl s2)" "rest s2 = rest s1"
    using rel_ok [OF 1(2) h] by blast
  have "fetch i s1 = ca_view (abs s) n" using fetch_held [OF 1(2) h] by (simp add: 1 a_defs)
  then show thesis using that 1 2 assms(2) by (simp add: a_take_drop)
qed

lemma room_second:
  assumes "ok s" "ca_pins (abs s) b \<noteq> 0 \<or> card (busy (abs s)) + 1 < NBUF"
  shows "has_room (a_take a i (abs s)) b"
proof -
  have "finite (busy (abs s))" using hold_fin [OF assms(1)] by (simp add: busy_def)
  then have "card (insert a (busy (abs s))) \<le> Suc (card (busy (abs s)))" by (simp add: card_insert_if)
  then show ?thesis using assms(2) by (auto simp: has_room_busy) (simp add: a_take_def)
qed

text \<open>Bring in two different blocks.\<close>

lemma read_two:
  assumes "ok s" "a \<noteq> b" "ca_hold (abs s) a = None" "ca_hold (abs s) b = None" "has_room (abs s) a"
    "ca_pins (abs s) b \<noteq> 0 \<or> card (busy (abs s)) + 1 < NBUF"
  obtains i j s1 s2 where "rd a s = Done i s1" "rd b s1 = Done j s2" "ok s2"
    "abs s2 = a_take b j (a_take a i (abs s))" "tbl s2 = tbl s" "rest s2 = rest s"
proof -
  obtain i s1 where 1: "rd a s = Done i s1" "ok s1" "abs s1 = a_take a i (abs s)" "tbl s1 = tbl s" "rest s1 = rest s"
    using rd_ok [OF assms(1,3,5)] by blast
  have "ca_hold (abs s1) b = None" using assms(2,4) by (simp add: 1 a_take_def)
  moreover have "has_room (abs s1) b" using room_second [OF assms(1,6)] by (simp add: 1)
  ultimately obtain j s2 where 2: "rd b s1 = Done j s2" "ok s2" "abs s2 = a_take b j (abs s1)" "tbl s2 = tbl s1" "rest s2 = rest s1"
    using rd_ok [OF 1(2)] by blast
  from that [OF 1(1) 2(1,2)] 1 2 show thesis by simp
qed

text \<open>With both blocks held, overwrite \<open>dst\<close> by \<open>src\<close> and write it through.\<close>

lemma overwrite_through:
  assumes "ok s" "dst \<noteq> src" "ca_hold (abs s) dst = Some i" "ca_hold (abs s) src = Some j"
  obtains s1 where "kseq (kmodify (\<lambda>s. store i (fetch j s) s)) (kseq (wr i) k) s = k s1" "ok s1"
    "abs s1 = a_write dst (ca_view (abs s) src) (abs s)" "tbl s1 = tbl s" "rest s1 = rest s"
proof -
  let ?v = "ca_view (abs s) src"
  have f: "fetch j s = ?v" by (rule fetch_held [OF assms(1,4)])
  have v: "length ?v = BSIZE" by (rule view_len [OF assms(1)])
  let ?s = "store i ?v s"
  have s: "ok ?s" "abs ?s = a_store dst ?v (abs s)" "tbl ?s = tbl s" "rest ?s = rest s"
    using store_ok [OF assms(1,3) v] by auto
  have "ca_hold (abs ?s) dst = Some i" using assms(3) by (simp add: s a_store_def)
  then obtain s1 where 1: "wr i ?s = Done () s1" "ok s1" "abs s1 = a_flush dst (abs ?s)" "tbl s1 = tbl ?s" "rest s1 = rest ?s"
    using wr_ok [OF s(1)] by blast
  have "kseq (kmodify (\<lambda>s. store i (fetch j s) s)) (kseq (wr i) k) s = k s1"
    using 1(1) by (simp add: f kseq_def kbind_def)
  moreover have "abs s1 = a_write dst ?v (abs s)" by (simp add: 1 s a_write_def a_flush_def a_store_def)
  ultimately show thesis using that 1 s by simp
qed

lemma release_two:
  assumes "ok s" "a \<noteq> b" "ca_hold (abs s) a = Some i" "ca_hold (abs s) b = Some j" "is_clean (abs s) a" "is_clean (abs s) b"
  obtains s' where "kseq (rel i) (rel j) s = Done () s'" "ok s'" "abs s' = a_drop b (a_drop a (abs s))"
    "awoken (tbl s) (tbl s')" "rest s' = rest s"
proof -
  obtain s1 where 1: "rel i s = Done () s1" "ok s1" "abs s1 = a_drop a (abs s)" "awoken (tbl s) (tbl s1)" "rest s1 = rest s"
    using rel_ok [OF assms(1,3,5)] by blast
  have "ca_hold (abs s1) b = Some j" "is_clean (abs s1) b" using assms by (auto simp: 1 a_drop_def is_clean_def)
  then obtain s2 where 2: "rel j s1 = Done () s2" "ok s2" "abs s2 = a_drop b (abs s1)" "awoken (tbl s1) (tbl s2)" "rest s2 = rest s1"
    using rel_ok [OF 1(2)] by blast
  have "kseq (rel i) (rel j) s = Done () s2" using 1(1) 2(1) by simp
  from that [OF this 2(2)] 1 2 show thesis using awoken_trans by auto
qed

text \<open>The body of \<^verbatim>\<open>write_log\<close>: destination first, then source.\<close>

lemma copy_out:
  assumes ok: "ok s" and ne: "dst \<noteq> src" and h: "ca_hold (abs s) dst = None" "ca_hold (abs s) src = None"
    and r: "has_room (abs s) dst" "ca_pins (abs s) src \<noteq> 0 \<or> card (busy (abs s)) + 1 < NBUF"
  obtains s' where "kbind (rd dst) (\<lambda>i. kbind (rd src) (\<lambda>j. kseq (kmodify (\<lambda>s. store i (fetch j s) s))
      (kseq (wr i) (kseq (rel i) (rel j))))) s = Done () s'" "ok s'"
    "abs s' = a_write dst (ca_view (abs s) src) (abs s)" "awoken (tbl s) (tbl s')" "rest s' = rest s"
proof -
  obtain i j s1 s2 where 1: "rd dst s = Done i s1" "rd src s1 = Done j s2" "ok s2"
    "abs s2 = a_take src j (a_take dst i (abs s))" "tbl s2 = tbl s" "rest s2 = rest s"
    by (rule read_two [OF ok ne h r])
  have hh: "ca_hold (abs s2) dst = Some i" "ca_hold (abs s2) src = Some j" using ne by (auto simp: 1 a_take_def)
  obtain s3 where 3: "kseq (kmodify (\<lambda>s. store i (fetch j s) s)) (kseq (wr i) (kseq (rel i) (rel j))) s2 = kseq (rel i) (rel j) s3"
    "ok s3" "abs s3 = a_write dst (ca_view (abs s2) src) (abs s2)" "tbl s3 = tbl s2" "rest s3 = rest s2"
    by (rule overwrite_through [OF 1(3) ne hh, where k = "kseq (rel i) (rel j)"])
  have cl: "is_clean (abs s3) dst" "is_clean (abs s3) src"
    using clean [OF ok h(2)] ne by (auto simp: 3 1 is_clean_def a_write_def a_take_def disk_write_def)
  have h3: "ca_hold (abs s3) dst = Some i" "ca_hold (abs s3) src = Some j" using hh by (auto simp: 3 a_write_def)
  obtain s' where 4: "kseq (rel i) (rel j) s3 = Done () s'" "ok s'" "abs s' = a_drop src (a_drop dst (abs s3))"
    "awoken (tbl s3) (tbl s')" "rest s' = rest s3"
    by (rule release_two [OF 3(2) ne h3 cl])
  have "abs s' = a_write dst (ca_view (abs s) src) (abs s)"
    by (simp add: 4 3 1 take_write_drop [OF h])
  moreover have "kbind (rd dst) (\<lambda>i. kbind (rd src) (\<lambda>j. kseq (kmodify (\<lambda>s. store i (fetch j s) s))
      (kseq (wr i) (kseq (rel i) (rel j))))) s = Done () s'"
    using 1(1,2) 3(1) 4(1) by simp
  ultimately show thesis using that 1(5,6) 3(4,5) 4(2,4,5) by simp
qed

text \<open>The body of \<^verbatim>\<open>install_trans\<close>: source first, then destination, which may lose a pin.\<close>

lemma copy_in:
  assumes ok: "ok s" and ne: "src \<noteq> dst" and h: "ca_hold (abs s) src = None" "ca_hold (abs s) dst = None"
    and r: "has_room (abs s) src" "ca_pins (abs s) dst \<noteq> 0 \<or> card (busy (abs s)) + 1 < NBUF"
    and p: "\<not> keep \<Longrightarrow> 0 < ca_pins (abs s) dst"
  obtains s' where "kbind (rd src) (\<lambda>j. kbind (rd dst) (\<lambda>i. kseq (kmodify (\<lambda>s. store i (fetch j s) s))
      (kseq (wr i) (kseq (if keep then kreturn () else unpin i) (kseq (rel j) (rel i)))))) s = Done () s'" "ok s'"
    "abs s' = (if keep then id else a_pin dst (- 1)) (a_write dst (ca_view (abs s) src) (abs s))"
    "awoken (tbl s) (tbl s')" "rest s' = rest s"
proof -
  obtain j i s1 s2 where 1: "rd src s = Done j s1" "rd dst s1 = Done i s2" "ok s2"
    "abs s2 = a_take dst i (a_take src j (abs s))" "tbl s2 = tbl s" "rest s2 = rest s"
    by (rule read_two [OF ok ne h r])
  have hh: "ca_hold (abs s2) dst = Some i" "ca_hold (abs s2) src = Some j" using ne by (auto simp: 1 a_take_def)
  let ?k = "kseq (if keep then kreturn () else unpin i) (kseq (rel j) (rel i))"
  obtain s3 where 3: "kseq (kmodify (\<lambda>s. store i (fetch j s) s)) (kseq (wr i) ?k) s2 = ?k s3"
    "ok s3" "abs s3 = a_write dst (ca_view (abs s2) src) (abs s2)" "tbl s3 = tbl s2" "rest s3 = rest s2"
    by (rule overwrite_through [OF 1(3) ne [symmetric] hh, where k = ?k])
  have h3: "ca_hold (abs s3) dst = Some i" "ca_hold (abs s3) src = Some j" using hh by (auto simp: 3 a_write_def)
  have "\<exists>s4. (if keep then kreturn () else unpin i) s3 = Done () s4 \<and> ok s4 \<and>
     abs s4 = (if keep then id else a_pin dst (- 1)) (abs s3) \<and> tbl s4 = tbl s3 \<and> rest s4 = rest s3"
  proof (cases keep)
    case True
    then show ?thesis using 3(2) by simp
  next
    case False
    then have "0 < ca_pins (abs s3) dst" using p by (simp add: 3 1 a_write_def a_take_def)
    then show ?thesis using unpin_ok [OF 3(2) h3(1)] False by simp
  qed
  then obtain s4 where 4: "(if keep then kreturn () else unpin i) s3 = Done () s4" "ok s4"
     "abs s4 = (if keep then id else a_pin dst (- 1)) (abs s3)" "tbl s4 = tbl s3" "rest s4 = rest s3" by blast
  have cl: "is_clean (abs s4) dst" "is_clean (abs s4) src"
    using clean [OF ok h(1)] ne by (auto simp: 4 3 1 is_clean_def a_write_def a_take_def a_pin_def disk_write_def)
  have h4: "ca_hold (abs s4) src = Some j" "ca_hold (abs s4) dst = Some i" using h3 by (auto simp: 4 a_pin_def)
  obtain s' where 5: "kseq (rel j) (rel i) s4 = Done () s'" "ok s'" "abs s' = a_drop dst (a_drop src (abs s4))"
    "awoken (tbl s4) (tbl s')" "rest s' = rest s4"
    by (rule release_two [OF 4(2) ne h4 cl(2,1)])
  have "abs s' = (if keep then id else a_pin dst (- 1)) (a_write dst (ca_view (abs s) src) (abs s))"
    by (simp add: 5 4 3 1 take_write_drop [OF h])
  moreover have "kbind (rd src) (\<lambda>j. kbind (rd dst) (\<lambda>i. kseq (kmodify (\<lambda>s. store i (fetch j s) s))
      (kseq (wr i) (kseq (if keep then kreturn () else unpin i) (kseq (rel j) (rel i)))))) s = Done () s'"
    using 1(1,2) 3(1) 4(1) 5(1) by simp
  ultimately show thesis using that 1(5,6) 3(4,5) 4(4,5) 5(2,4,5) by simp
qed

text \<open>Read one block, change it, write it through, release it.\<close>

lemma change_through:
  assumes ok: "ok s" and h: "ca_hold (abs s) n = None" and r: "has_room (abs s) n"
    and f: "\<And>i t. ok t \<Longrightarrow> abs t = a_take n i (abs s) \<Longrightarrow> rest t = rest s \<Longrightarrow> tbl t = tbl s \<Longrightarrow>
       \<exists>t'. f i t = Done () t' \<and> ok t' \<and> abs t' = a_store n v (abs t) \<and> tbl t' = tbl t \<and> rest t' = rest t"
  obtains s' where "kbind (rd n) (\<lambda>i. kseq (f i) (kseq (wr i) (rel i))) s = Done () s'" "ok s'"
    "abs s' = a_write n v (abs s)" "awoken (tbl s) (tbl s')" "rest s' = rest s"
proof -
  obtain i s1 where 1: "rd n s = Done i s1" "ok s1" "abs s1 = a_take n i (abs s)" "tbl s1 = tbl s" "rest s1 = rest s"
    using rd_ok [OF ok h r] by blast
  obtain s2 where 2: "f i s1 = Done () s2" "ok s2" "abs s2 = a_store n v (abs s1)" "tbl s2 = tbl s1" "rest s2 = rest s1"
    using f [OF 1(2,3,5,4)] by blast
  have "ca_hold (abs s2) n = Some i" by (simp add: 1 2 a_take_def a_store_def)
  then obtain s3 where 3: "wr i s2 = Done () s3" "ok s3" "abs s3 = a_flush n (abs s2)" "tbl s3 = tbl s2" "rest s3 = rest s2"
    using wr_ok [OF 2(2)] by blast
  have "ca_hold (abs s3) n = Some i" "is_clean (abs s3) n"
    by (simp_all add: 3 2 1 a_take_def a_store_def a_flush_def is_clean_def disk_write_def)
  then obtain s4 where 4: "rel i s3 = Done () s4" "ok s4" "abs s4 = a_drop n (abs s3)" "awoken (tbl s3) (tbl s4)" "rest s4 = rest s3"
    using rel_ok [OF 3(2)] by blast
  have "kbind (rd n) (\<lambda>i. kseq (f i) (kseq (wr i) (rel i))) s = Done () s4"
    using 1(1) 2(1) 3(1) 4(1) by simp
  moreover have "abs s4 = a_write n v (abs s)"
    using h by (simp add: 1 2 3 4 a_defs a_write_def fun_upd_idem)
  ultimately show thesis using that 1(4,5) 2(4,5) 3(4,5) 4(2,4,5) by simp
qed

end

section \<open>The contract on a larger state\<close>

locale block_cache_lift = block_cache ok abs tbl rest rd fetch store wr rel pin unpin
  for ok :: "'s \<Rightarrow> bool" and abs tbl and rest :: "'s \<Rightarrow> 'r" and rd fetch store wr rel pin unpin +
  fixes get :: "'t \<Rightarrow> 's" and put :: "'s \<Rightarrow> 't \<Rightarrow> 't"
  assumes get_put: "get (put x t) = x" and put_put: "put x (put y t) = put x t" and put_get: "put (get t) t = t"

sublocale block_cache_lift \<subseteq> lift: block_cache "\<lambda>t. ok (get t)" "\<lambda>t. abs (get t)" "\<lambda>t. tbl (get t)"
  "\<lambda>t. (rest (get t), put undefined t)" "\<lambda>n. klift get put (rd n)" "\<lambda>i t. fetch i (get t)"
  "\<lambda>i v t. put (store i v (get t)) t" "\<lambda>i. klift get put (wr i)" "\<lambda>i. klift get put (rel i)"
  "\<lambda>i. klift get put (pin i)" "\<lambda>i. klift get put (unpin i)"
proof (unfold_locales, goal_cases)
  case (6 s n)
  then show ?case using rd_ok [of "get s" n] by (fastforce simp: get_put put_put)
next
  case (7 s n i v)
  then show ?case using store_ok [of "get s" n i v] by (simp add: get_put put_put)
next
  case (8 s n i)
  then show ?case using wr_ok [of "get s" n i] by (fastforce simp: get_put put_put)
next
  case (9 s n i)
  then show ?case using rel_ok [of "get s" n i] by (fastforce simp: get_put put_put)
next
  case (10 s n i)
  then show ?case using pin_ok [of "get s" n i] by (fastforce simp: get_put put_put)
next
  case (11 s n i)
  then show ?case using unpin_ok [of "get s" n i] by (fastforce simp: get_put put_put)
qed (auto intro: view_len pins_nonneg hold_fin clean fetch_held simp: get_put)

end
