(* ===== verification/Bio_Spec.thy ===== *)
theory Bio_Spec
  imports Block_Cache
begin

text \<open>
  What the buffer cache promises the layers above it. Between two system calls of one process
  the cache satisfies \<open>bio_ok\<close>; \<open>bview\<close> is the contents of every block as the kernel sees it
  (the cached copy if there is one, the disk otherwise). Each operation of \<^verbatim>\<open>bio.c\<close> gets a
  total-correctness contract over this view, and the contracts are collected in the locale
  \<open>block_cache\<close>, which the log and the file system use.
\<close>

section \<open>Invariant and view\<close>

abbreviation (input) ROOTDEV :: u32 where "ROOTDEV \<equiv> 1"

definition held :: "bio \<Rightarrow> nat set" where
  "held s = {i. i < NBUF \<and> sl_locked (b_lock (bufs s i))}"

definition pinset :: "bio \<Rightarrow> nat set" where
  "pinset s = {i. i < NBUF \<and> b_pinned (bufs s i) \<noteq> 0}"

definition idents_unique :: "bio \<Rightarrow> bool" where
  "idents_unique s \<longleftrightarrow> (\<forall>i<NBUF. \<forall>j<NBUF. b_dev (bufs s i) \<noteq> 0 \<longrightarrow> b_dev (bufs s j) = b_dev (bufs s i) \<longrightarrow>
     b_blockno (bufs s j) = b_blockno (bufs s i) \<longrightarrow> j = i)"

definition coherent :: "bio \<Rightarrow> bool" where
  "coherent s \<longleftrightarrow> (\<forall>i<NBUF. b_valid (bufs s i) \<longrightarrow> b_pinned (bufs s i) = 0 \<longrightarrow>
     \<not> sl_locked (b_lock (bufs s i)) \<longrightarrow> b_data (bufs s i) = d_blocks (bio_disk s) (b_blockno (bufs s i)))"

definition blocks_sized :: "bio \<Rightarrow> bool" where
  "blocks_sized s \<longleftrightarrow> (\<forall>b. length (d_blocks (bio_disk s) b) = BSIZE) \<and>
     (\<forall>i<NBUF. b_valid (bufs s i) \<longrightarrow> length (b_data (bufs s i)) = BSIZE)"

definition buf_ok :: "ptable \<Rightarrow> nat \<Rightarrow> buf \<Rightarrow> bool" where
  "buf_ok pt p b \<longleftrightarrow> (b_dev b = 0 \<or> b_dev b = ROOTDEV) \<and> 0 \<le> b_pinned b \<and>
     (if sl_locked (b_lock b) then b_lock b = owned pt p \<and> b_refcnt b = 1 \<and> b_valid b
      else b_refcnt b = 0) \<and> (b_dev b = 0 \<longrightarrow> \<not> b_valid b \<and> b_pinned b = 0)"

definition bio_ok :: "nat \<Rightarrow> bio \<Rightarrow> bool" where
  "bio_ok p s \<longleftrightarrow> cur (bio_pt s) = Some p \<and> (\<exists>xs. lru (bufs s) xs) \<and> idents_unique s \<and> coherent s \<and>
     blocks_sized s \<and> (\<forall>i<NBUF. buf_ok (bio_pt s) p (bufs s i))"

definition is_block :: "u32 \<Rightarrow> buf \<Rightarrow> bool" where
  "is_block n b \<longleftrightarrow> b_dev b = ROOTDEV \<and> b_blockno b = n"

definition all_bufs :: "nat list" where
  "all_bufs = [0..<NBUF]"

lemma set_all_bufs [simp]: "set all_bufs = {..<NBUF}"
  by (simp only: all_bufs_def set_upt atLeast0LessThan)

definition bview :: "bio \<Rightarrow> u32 \<Rightarrow> bytes" where
  "bview s n = (case find (\<lambda>i. is_block n (bufs s i) \<and> b_valid (bufs s i)) all_bufs of
     Some i \<Rightarrow> b_data (bufs s i) | None \<Rightarrow> d_blocks (bio_disk s) n)"

lemma find_unique:
  assumes "x \<in> set xs" "P x" "\<And>y. y \<in> set xs \<Longrightarrow> P y \<Longrightarrow> y = x"
  shows "find P xs = Some x"
proof (cases "find P xs")
  case None
  with assms(1,2) show ?thesis by (simp add: find_None_iff)
next
  case (Some y)
  then obtain k where "k < length xs" "y = xs ! k" "P y" by (auto simp: find_Some_iff)
  then have "y = x" by (intro assms(3)) auto
  with Some show ?thesis by simp
qed

lemma ident_unique:
  assumes "idents_unique s" "i < NBUF" "j < NBUF" "is_block n (bufs s i)" "is_block n (bufs s j)"
  shows "j = i"
proof -
  have d: "b_dev (bufs s i) \<noteq> 0" using assms(4) by (simp add: is_block_def)
  from assms(1) have "b_dev (bufs s i) \<noteq> 0 \<longrightarrow> b_dev (bufs s j) = b_dev (bufs s i) \<longrightarrow>
     b_blockno (bufs s j) = b_blockno (bufs s i) \<longrightarrow> j = i"
    unfolding idents_unique_def using assms(2,3) by blast
  with d assms(4,5) show ?thesis unfolding is_block_def by simp
qed

lemma bview_cached:
  assumes "idents_unique s" "i < NBUF" "is_block n (bufs s i)" "b_valid (bufs s i)"
  shows "bview s n = b_data (bufs s i)"
proof -
  have "find (\<lambda>i. is_block n (bufs s i) \<and> b_valid (bufs s i)) all_bufs = Some i"
  proof (rule find_unique)
    fix y assume "y \<in> set all_bufs" "is_block n (bufs s y) \<and> b_valid (bufs s y)"
    then show "y = i" using ident_unique [OF assms(1,2) _ assms(3)] by simp
  qed (use assms in auto)
  then show ?thesis by (simp only: bview_def option.case)
qed

lemma bview_uncached:
  assumes "\<And>i. i < NBUF \<Longrightarrow> is_block n (bufs s i) \<Longrightarrow> \<not> b_valid (bufs s i)"
  shows "bview s n = d_blocks (bio_disk s) n"
proof -
  have "find (\<lambda>i. is_block n (bufs s i) \<and> b_valid (bufs s i)) all_bufs = None"
    using assms unfolding find_None_iff by auto
  then show ?thesis by (simp only: bview_def option.case)
qed

lemma bview_length:
  assumes "blocks_sized s"
  shows "length (bview s n) = BSIZE"
proof (cases "find (\<lambda>i. is_block n (bufs s i) \<and> b_valid (bufs s i)) all_bufs")
  case None
  with assms show ?thesis unfolding bview_def None by (simp add: blocks_sized_def)
next
  case (Some i)
  then obtain k where "k < length all_bufs" "i = all_bufs ! k" "b_valid (bufs s i)" by (auto simp: find_Some_iff)
  then have "i < NBUF" "b_valid (bufs s i)" using nth_mem [of k all_bufs] by auto
  with assms show ?thesis unfolding bview_def Some by (auto simp: blocks_sized_def)
qed

lemma bio_ok_lru: "bio_ok p s \<Longrightarrow> \<exists>xs. lru (bufs s) xs"
  by (simp add: bio_ok_def)

lemma acquiresleep_buf_free:
  "cur (bio_pt s) = Some p \<Longrightarrow> \<not> sl_locked (b_lock (bufs s i)) \<Longrightarrow>
   acquiresleep_buf i s = Done () (upd_buf i (\<lambda>b. b\<lparr>b_lock := owned (bio_pt s) p\<rparr>) s)"
  unfolding acquiresleep_buf_def klift_def buf_lock_get_def buf_lock_put_def
  by (simp add: acquiresleep_free upd_buf_def)

lemma releasesleep_buf_run:
  "releasesleep_buf i s = Done () ((upd_buf i (\<lambda>b. b\<lparr>b_lock := initsleeplock\<rparr>) s)\<lparr>bio_pt := wakeup (ChanBuf i) (bio_pt s)\<rparr>)"
  unfolding releasesleep_buf_def klift_def buf_lock_get_def buf_lock_put_def
  by (simp add: releasesleep_run upd_buf_def)

lemma holdingsleep_buf_run:
  "cur (bio_pt s) = Some p \<Longrightarrow>
   holdingsleep_buf i s = Done (b_lock (bufs s i) = owned (bio_pt s) p) s"
  unfolding holdingsleep_buf_def klift_def buf_lock_get_def buf_lock_put_def
  by (simp add: holdingsleep_run upd_buf_def)

lemma find_exists:
  assumes "i \<in> set xs" "P i"
  shows "\<exists>j. find P xs = Some j \<and> j \<in> set xs \<and> P j"
  using assms by (induction xs) auto

lemma bio_okD:
  assumes "bio_ok p s"
  shows "cur (bio_pt s) = Some p" "idents_unique s" "coherent s" "blocks_sized s"
    "i < NBUF \<Longrightarrow> buf_ok (bio_pt s) p (bufs s i)"
  using assms by (auto simp: bio_ok_def)

definition put_buf :: "nat \<Rightarrow> buf \<Rightarrow> bio \<Rightarrow> bio" where
  "put_buf i b s = s\<lparr>bufs := (bufs s)(i := b)\<rparr>"

lemma put_buf_sel [simp]:
  "bufs (put_buf i b s) = (bufs s)(i := b)" "bio_pt (put_buf i b s) = bio_pt s"
  "bio_disk (put_buf i b s) = bio_disk s"
  by (simp_all add: put_buf_def)

lemma lru_put_buf:
  assumes "lru (bufs s) xs" "b_prev b = b_prev (bufs s i)" "b_next b = b_next (bufs s i)"
  shows "lru (bufs (put_buf i b s)) xs"
  using assms(1) lru_cong [of "bufs (put_buf i b s)" "bufs s" xs] assms(2,3) by (auto simp: fun_upd_apply)

text \<open>A buffer that is neither held nor pinned holds nothing the disk does not.\<close>

lemma bview_idle:
  assumes ok: "bio_ok p s" and i: "i < NBUF" and b: "is_block m (bufs s i)"
    and idle: "i \<notin> held s" "b_pinned (bufs s i) = 0"
  shows "bview s m = d_blocks (bio_disk s) m"
proof (cases "b_valid (bufs s i)")
  case True
  then have "bview s m = b_data (bufs s i)" using bview_cached bio_okD(2) [OF ok] i b by blast
  also have "\<dots> = d_blocks (bio_disk s) m"
    using bio_okD(3) [OF ok] True i b idle by (simp add: coherent_def held_def is_block_def)
  finally show ?thesis .
next
  case False
  show ?thesis
  proof (rule bview_uncached)
    fix j assume "j < NBUF" "is_block m (bufs s j)"
    then have "j = i" using ident_unique bio_okD(2) [OF ok] i b by blast
    with False show "\<not> b_valid (bufs s j)" by simp
  qed
qed

definition took :: "nat \<Rightarrow> u32 \<Rightarrow> bio \<Rightarrow> nat \<Rightarrow> bio \<Rightarrow> bool" where
  "took p n s i s' \<longleftrightarrow> bio_ok p s' \<and> i < NBUF \<and> i \<notin> held s \<and> held s' = insert i (held s) \<and>
     is_block n (bufs s' i) \<and> b_data (bufs s' i) = bview s n \<and> bview s' = bview s \<and>
     bio_disk s' = bio_disk s \<and> bio_pt s' = bio_pt s \<and> (\<forall>j. j \<noteq> i \<longrightarrow> bufs s' j = bufs s j) \<and>
     (\<forall>j. b_pinned (bufs s' j) = b_pinned (bufs s j)) \<and>
     (b_pinned (bufs s i) \<noteq> 0 \<longrightarrow> is_block n (bufs s i)) \<and>
     (b_pinned (bufs s i) = 0 \<longrightarrow> bview s n = d_blocks (bio_disk s) n) \<and>
     (is_block n (bufs s i) \<or> (\<forall>j<NBUF. \<not> is_block n (bufs s j)))"

lemma install:
  assumes ok: "bio_ok p s" and i: "i < NBUF" and nh: "i \<notin> held s"
    and b: "is_block n b" "b_valid b" "b_data b = bview s n" "b_lock b = owned (bio_pt s) p"
      "b_refcnt b = 1" "b_pinned b = b_pinned (bufs s i)"
      "b_prev b = b_prev (bufs s i)" "b_next b = b_next (bufs s i)"
    and src: "is_block n (bufs s i) \<or> (b_pinned (bufs s i) = 0 \<and> (\<forall>j<NBUF. \<not> is_block n (bufs s j)))"
  shows "took p n s i (put_buf i b s)"
proof -
  let ?s = "put_buf i b s"
  note okd = bio_okD [OF ok]
  have uq: "idents_unique ?s"
    unfolding idents_unique_def
  proof (intro allI impI)
    fix j k assume j: "j < NBUF" and k: "k < NBUF" and d: "b_dev (bufs ?s j) \<noteq> 0"
      and e: "b_dev (bufs ?s k) = b_dev (bufs ?s j)" "b_blockno (bufs ?s k) = b_blockno (bufs ?s j)"
    have old: "k = j" if "j \<noteq> i" "k \<noteq> i"
      using okd(2) j k d e that by (auto simp: idents_unique_def)
    have clash: False if "l < NBUF" "l \<noteq> i" "is_block n (bufs s l)" for l
      using src ident_unique [OF okd(2) i that(1) _ that(3)] that by auto
    show "k = j"
    proof (cases "j = i"; cases "k = i")
      assume "j = i" "k \<noteq> i"
      then have "is_block n (bufs s k)" using b(1) e by (simp add: is_block_def)
      with clash k \<open>k \<noteq> i\<close> show ?thesis by blast
    next
      assume "j \<noteq> i" "k = i"
      then have "is_block n (bufs s j)" using b(1) e by (simp add: is_block_def)
      with clash j \<open>j \<noteq> i\<close> show ?thesis by blast
    qed (use old in auto)
  qed
  obtain xs where "lru (bufs s) xs" using ok by (auto simp: bio_ok_def)
  then have "\<exists>xs. lru (bufs ?s) xs" using lru_put_buf b(7,8) by blast
  moreover have "coherent ?s"
    using okd(3) b(4) by (auto simp: coherent_def fun_upd_apply)
  moreover have "blocks_sized ?s"
    using okd(4) bview_length [OF okd(4)] b(3) by (auto simp: blocks_sized_def fun_upd_apply)
  moreover have "buf_ok (bio_pt s) p b"
    using b okd(5) [OF i] by (auto simp: buf_ok_def is_block_def)
  ultimately have ok': "bio_ok p ?s" using okd(1,5) uq by (auto simp: bio_ok_def fun_upd_apply)
  have "bview ?s m = bview s m" for m
  proof (cases "m = n")
    case True
    then show ?thesis using bview_cached [OF uq i, of n] b by simp
  next
    case False
    then have bi: "\<not> is_block m b" using b(1) by (auto simp: is_block_def)
    show ?thesis
    proof (cases "\<exists>j<NBUF. j \<noteq> i \<and> is_block m (bufs s j) \<and> b_valid (bufs s j)")
      case True
      then obtain j where j: "j < NBUF" "j \<noteq> i" "is_block m (bufs s j)" "b_valid (bufs s j)" by blast
      have "bview ?s m = b_data (bufs ?s j)" by (rule bview_cached [OF uq j(1)]) (use j in auto)
      also have "\<dots> = bview s m" using bview_cached [OF okd(2) j(1,3,4)] j(2) by simp
      finally show ?thesis .
    next
      case nc: False
      have new: "bview ?s m = d_blocks (bio_disk ?s) m"
        by (rule bview_uncached) (use nc bi in \<open>auto simp: fun_upd_apply split: if_splits\<close>)
      have "bview s m = d_blocks (bio_disk s) m"
      proof (cases "is_block m (bufs s i)")
        case True
        then have "\<not> is_block n (bufs s i)" using False by (auto simp: is_block_def)
        with src have "b_pinned (bufs s i) = 0" by blast
        then show ?thesis using bview_idle [OF ok i True nh] by blast
      next
        case False
        show ?thesis by (rule bview_uncached) (use nc False in blast)
      qed
      then show ?thesis using new by simp
    qed
  qed
  then have vw: "bview ?s = bview s" by blast
  have hd: "held ?s = insert i (held s)"
    using i b(4) by (auto simp: held_def fun_upd_apply split: if_splits)
  have cl: "bview s n = d_blocks (bio_disk s) n" if "b_pinned (bufs s i) = 0"
    using src bview_idle [OF ok i _ nh that] bview_uncached [of n s] by blast
  show ?thesis unfolding took_def
    using ok' i nh vw hd b src cl by auto
qed


lemma find_SomeD: "find P xs = Some x \<Longrightarrow> x \<in> set xs \<and> P x"
  by (auto simp: find_Some_iff)

lemma upd_buf_put: "upd_buf i f s = put_buf i (f (bufs s i)) s"
  by (simp add: upd_buf_def put_buf_def)

lemma put_buf_twice [simp]: "put_buf i b (put_buf i c s) = put_buf i b s"
  by (simp add: put_buf_def)

lemma put_buf_same: "b = bufs s i \<Longrightarrow> put_buf i b s = s"
  by (simp add: put_buf_def)

lemma room_victim:
  assumes "card (held s \<union> pinset s) < NBUF"
  shows "\<exists>i<NBUF. i \<notin> held s \<and> b_pinned (bufs s i) = 0"
proof (rule ccontr)
  assume "\<not> ?thesis"
  then have "held s \<union> pinset s = {..<NBUF}" by (auto simp: held_def pinset_def)
  then have "card (held s \<union> pinset s) = card {..<NBUF}" by (rule arg_cong)
  with assms show False by simp
qed

text \<open>
  \<^verbatim>\<open>bread\<close>: the block is not held and some buffer is neither held nor pinned; then the call
  returns one locked buffer with the block's current contents and disturbs nothing else.
\<close>

lemma bread_spec:
  assumes ok: "bio_ok p s" and free: "\<And>i. i \<in> held s \<Longrightarrow> \<not> is_block n (bufs s i)"
    and room: "card (held s \<union> pinset s) < NBUF \<or> (\<exists>i<NBUF. is_block n (bufs s i))"
  shows "\<exists>i s'. bread ROOTDEV n s = Done i s' \<and> took p n s i s'"
proof -
  note okd = bio_okD [OF ok]
  obtain xs where l: "lru (bufs s) xs" using ok by (auto simp: bio_ok_def)
  have st: "set xs = {..<NBUF}" using l by (simp add: lru_def)
  let ?hit = "\<lambda>i. b_dev (bufs s i) = ROOTDEV \<and> b_blockno (bufs s i) = n"
  have sc: "scan_cached 31 (bufs s) ROOTDEV n (b_next (bufs s NBUF)) = Some (find ?hit xs)"
    using scan_cached_lru [OF l, of ROOTDEV n] by simp
  show ?thesis
  proof (cases "find ?hit xs")
    case (Some i)
    then have i: "i < NBUF" and hit: "is_block n (bufs s i)"
      using find_SomeD [OF Some] st by (auto simp: is_block_def)
    have nh: "i \<notin> held s" using free hit by blast
    then have nl: "\<not> sl_locked (b_lock (bufs s i))" using i by (simp add: held_def)
    have rc: "b_refcnt (bufs s i) = 0" using okd(5) [OF i] nl by (simp add: buf_ok_def)
    define b where "b = (let b0 = (bufs s i)\<lparr>b_refcnt := 1, b_lock := owned (bio_pt s) p\<rparr> in
       if b_valid b0 then b0 else b0\<lparr>b_data := d_blocks (bio_disk s) n, b_valid := True\<rparr>)"
    have run: "bread ROOTDEV n s = Done i (put_buf i b s)"
      using okd(1) nl rc
      by (simp add: bread_def bget_def sc [unfolded Some] acquiresleep_buf_free kbind_def kseq_def upd_buf_put b_def Let_def)
    have dat: "b_data b = bview s n"
    proof (cases "b_valid (bufs s i)")
      case True
      then show ?thesis using bview_cached [OF okd(2) i hit] by (simp add: b_def Let_def)
    next
      case False
      have "bview s n = d_blocks (bio_disk s) n"
      proof (rule bview_uncached)
        fix j assume "j < NBUF" "is_block n (bufs s j)"
        then have "j = i" using ident_unique okd(2) i hit by blast
        with False show "\<not> b_valid (bufs s j)" by simp
      qed
      then show ?thesis using False by (simp add: b_def Let_def)
    qed
    have "took p n s i (put_buf i b s)"
      by (rule install [OF ok i nh _ _ dat]) (use hit in \<open>auto simp: b_def Let_def is_block_def\<close>)
    with run show ?thesis by blast
  next
    case None
    then have miss: "\<forall>j<NBUF. \<not> is_block n (bufs s j)"
      using st by (auto simp: find_None_iff is_block_def)
    have sv: "scan_victim 31 (bufs s) (b_prev (bufs s NBUF)) =
        Some (find (\<lambda>i. b_refcnt (bufs s i) = 0 \<and> b_pinned (bufs s i) = 0) (rev xs))"
      using scan_victim_lru [OF l] by simp
    obtain v where v: "v < NBUF" "v \<notin> held s" "b_pinned (bufs s v) = 0" using room_victim room miss by blast
    let ?vic = "\<lambda>i. b_refcnt (bufs s i) = 0 \<and> b_pinned (bufs s i) = 0"
    have "?vic v" using okd(5) [OF v(1)] v by (auto simp: buf_ok_def held_def)
    then obtain i where fi: "find ?vic (rev xs) = Some i"
      using find_exists [of v "rev xs" ?vic] v st by auto
    have i: "i < NBUF" and vic: "?vic i" using find_SomeD [OF fi] st by auto
    have nl: "\<not> sl_locked (b_lock (bufs s i))" using okd(5) [OF i] vic by (auto simp: buf_ok_def)
    then have nh: "i \<notin> held s" by (simp add: held_def)
    define b where "b = (bufs s i)\<lparr>b_dev := ROOTDEV, b_blockno := n, b_refcnt := 1,
        b_lock := owned (bio_pt s) p, b_data := d_blocks (bio_disk s) n, b_valid := True\<rparr>"
    have run: "bread ROOTDEV n s = Done i (put_buf i b s)"
      using okd(1) nl
      by (simp add: bread_def bget_def sc [unfolded None] sv [unfolded fi]
          acquiresleep_buf_free kbind_def kseq_def upd_buf_put b_def)
    have dat: "b_data b = bview s n"
      using bview_uncached [of n s] miss by (simp add: b_def)
    have "took p n s i (put_buf i b s)"
      by (rule install [OF ok i nh _ _ dat]) (use miss vic in \<open>auto simp: b_def is_block_def\<close>)
    with run show ?thesis by blast
  qed
qed

text \<open>Relinking the list changes nothing but the links.\<close>

lemma relinked:
  assumes ok: "bio_ok p s" and l: "lru (bufs s') xs"
    and u: "\<And>j. unlinked (bufs s' j) = unlinked (bufs s j)"
    and fr: "bio_pt s' = bio_pt s" "bio_disk s' = bio_disk s"
  shows "bio_ok p s'" "bview s' = bview s" "held s' = held s" "pinset s' = pinset s"
proof -
  note e = unlinked_eqD [OF u]
  have "idents_unique s' = idents_unique s" by (simp only: idents_unique_def e)
  moreover have "coherent s' = coherent s" by (simp only: coherent_def e fr)
  moreover have "blocks_sized s' = blocks_sized s" by (simp only: blocks_sized_def e fr)
  moreover have "buf_ok pt p (bufs s' j) = buf_ok pt p (bufs s j)" for pt j by (simp only: buf_ok_def e)
  ultimately show "bio_ok p s'" using ok l by (auto simp: bio_ok_def fr)
  show "bview s' = bview s" by (rule ext) (simp only: bview_def is_block_def e fr)
  show "held s' = held s" "pinset s' = pinset s" by (simp_all only: held_def pinset_def e)
qed

definition dropped :: "nat \<Rightarrow> bio \<Rightarrow> nat \<Rightarrow> bio \<Rightarrow> bool" where
  "dropped p s i s' \<longleftrightarrow> bio_ok p s' \<and> held s' = held s - {i} \<and> bview s' = bview s \<and>
     bio_disk s' = bio_disk s \<and> bio_pt s' = wakeup (ChanBuf i) (bio_pt s) \<and>
     (\<forall>j. j \<noteq> i \<longrightarrow> unlinked (bufs s' j) = unlinked (bufs s j)) \<and>
     (\<forall>j. b_pinned (bufs s' j) = b_pinned (bufs s j)) \<and>
     (\<forall>j m. is_block m (bufs s' j) = is_block m (bufs s j)) \<and>
     b_refcnt (bufs s' i) = 0 \<and> (\<exists>xs. lru (bufs s') (xs @ [i]))"

lemma heldD: "bio_ok p s \<Longrightarrow> i \<in> held s \<Longrightarrow>
  i < NBUF \<and> b_lock (bufs s i) = owned (bio_pt s) p \<and> b_refcnt (bufs s i) = 1 \<and> b_valid (bufs s i) \<and> b_dev (bufs s i) = ROOTDEV"
  using bio_okD(5) [of p s i] by (auto simp: held_def buf_ok_def)

lemma bio_ok_wakeup: "bio_ok p s \<Longrightarrow> bio_ok p (s\<lparr>bio_pt := wakeup ch (bio_pt s)\<rparr>)"
  by (simp add: bio_ok_def idents_unique_def coherent_def blocks_sized_def buf_ok_def)

lemma view_wakeup [simp]:
  "bview (s\<lparr>bio_pt := pt\<rparr>) = bview s" "held (s\<lparr>bio_pt := pt\<rparr>) = held s" "pinset (s\<lparr>bio_pt := pt\<rparr>) = pinset s"
  by (auto simp: bview_def held_def pinset_def fun_eq_iff split: option.split)

lemma put_buf_pt: "put_buf i b (s\<lparr>bio_pt := t\<rparr>) = (put_buf i b s)\<lparr>bio_pt := t\<rparr>"
  by (simp add: put_buf_def)

text \<open>Replacing a buffer by one of the same identity.\<close>

lemma same_ident:
  assumes ok: "bio_ok p s" and i: "i < NBUF"
    and b: "b_dev b = b_dev (bufs s i)" "b_blockno b = b_blockno (bufs s i)" "b_valid b = b_valid (bufs s i)"
      "b_prev b = b_prev (bufs s i)" "b_next b = b_next (bufs s i)"
    and bo: "buf_ok (bio_pt s) p b"
    and sz: "b_valid b \<Longrightarrow> length (b_data b) = BSIZE"
    and co: "b_valid b \<Longrightarrow> b_pinned b = 0 \<Longrightarrow> \<not> sl_locked (b_lock b) \<Longrightarrow>
               b_data b = d_blocks (bio_disk s) (b_blockno b)"
  shows "bio_ok p (put_buf i b s)"
    and "bview (put_buf i b s) m = (if is_block m b \<and> b_valid b then b_data b else bview s m)"
proof -
  note okd = bio_okD [OF ok]
  obtain xs where "lru (bufs s) xs" using ok by (auto simp: bio_ok_def)
  then have l: "lru (bufs (put_buf i b s)) xs" using lru_put_buf b(4,5) by blast
  have uq: "idents_unique (put_buf i b s)"
    using okd(2) b(1,2) i by (auto simp: idents_unique_def fun_upd_apply)
  have "coherent (put_buf i b s)" using okd(3) co by (auto simp: coherent_def fun_upd_apply)
  moreover have "blocks_sized (put_buf i b s)" using okd(4) sz by (auto simp: blocks_sized_def fun_upd_apply)
  ultimately show "bio_ok p (put_buf i b s)"
    using okd(1,5) l uq bo by (auto simp: bio_ok_def fun_upd_apply)
  show "bview (put_buf i b s) m = (if is_block m b \<and> b_valid b then b_data b else bview s m)"
  proof (cases "is_block m b \<and> b_valid b")
    case True
    then show ?thesis using bview_cached [OF uq i, of m] by simp
  next
    case False
    have "(is_block m (bufs (put_buf i b s) j) \<and> b_valid (bufs (put_buf i b s) j)) =
          (is_block m (bufs s j) \<and> b_valid (bufs s j))" for j
      using b by (auto simp: is_block_def fun_upd_apply)
    then have f: "find (\<lambda>i'. is_block m (bufs (put_buf i b s) i') \<and> b_valid (bufs (put_buf i b s) i')) all_bufs =
      find (\<lambda>i. is_block m (bufs s i) \<and> b_valid (bufs s i)) all_bufs" by presburger
    show ?thesis
    proof (cases "find (\<lambda>i. is_block m (bufs s i) \<and> b_valid (bufs s i)) all_bufs")
      case None
      show ?thesis unfolding if_not_P [OF False] bview_def f None by simp
    next
      case (Some j)
      then have "j \<noteq> i" using find_SomeD [OF Some] False b by (auto simp: is_block_def)
      then show ?thesis unfolding if_not_P [OF False] bview_def f Some by simp
    qed
  qed
qed

lemma brelse_spec:
  assumes ok: "bio_ok p s" and i: "i \<in> held s"
    and clean: "b_pinned (bufs s i) = 0 \<Longrightarrow> b_data (bufs s i) = d_blocks (bio_disk s) (b_blockno (bufs s i))"
  shows "\<exists>s'. brelse i s = Done () s' \<and> dropped p s i s'"
proof -
  note okd = bio_okD [OF ok]
  have h: "i < NBUF" "b_lock (bufs s i) = owned (bio_pt s) p" "b_refcnt (bufs s i) = 1" "b_valid (bufs s i)"
    "b_dev (bufs s i) = ROOTDEV"
    using heldD [OF ok i] by auto
  define b where "b = (bufs s i)\<lparr>b_lock := initsleeplock, b_refcnt := 0\<rparr>"
  define s1 where "s1 = (put_buf i b s)\<lparr>bio_pt := wakeup (ChanBuf i) (bio_pt s)\<rparr>"
  have bo: "buf_ok (bio_pt s) p b"
    using okd(5) [OF h(1)] h by (auto simp: buf_ok_def b_def initsleeplock_def)
  have sz: "length (b_data b) = BSIZE" using okd(4) h by (simp add: blocks_sized_def b_def)
  have si: "bio_ok p (put_buf i b s)" "bview (put_buf i b s) m = (if is_block m b \<and> b_valid b then b_data b else bview s m)" for m
    by (rule same_ident [OF ok h(1)]; use bo sz clean in \<open>simp add: b_def\<close>)+
  have vw: "bview (put_buf i b s) = bview s"
  proof (rule ext)
    fix m
    show "bview (put_buf i b s) m = bview s m"
      using si(2) [of m] bview_cached [OF okd(2) h(1), of m] h(4) by (auto simp: b_def is_block_def)
  qed
  have ok1: "bio_ok p s1" using bio_ok_wakeup [OF si(1), of "ChanBuf i"] by (simp add: s1_def)
  have hd: "held s1 = held s - {i}"
    by (auto simp: s1_def held_def b_def initsleeplock_def fun_upd_apply split: if_splits)
  have b1: "bufs s1 = (bufs s)(i := b)" by (simp add: s1_def)
  have d1: "dropped p s i s1" if "\<exists>xs. lru (bufs s1) (xs @ [i])"
    unfolding dropped_def using ok1 hd vw b1 that by (simp add: s1_def b_def is_block_def fun_upd_apply)
  have run: "brelse i s = (if b_next b \<noteq> NBUF then lru_to_tail i s1 else Done () s1)"
    using okd(1) h
    by (simp add: brelse_def holdingsleep_buf_run releasesleep_buf_run kbind_def kseq_def upd_buf_put s1_def b_def put_buf_pt)
  obtain xs where l: "lru (bufs s1) xs" using ok1 by (auto simp: bio_ok_def)
  have "i \<in> set xs" using l h(1) by (simp add: lru_def)
  then obtain us vs where xs: "xs = us @ i # vs" by (meson split_list)
  have nx: "chain (nxt (bufs s1)) i vs NBUF" using l xs by (auto simp: lru_def chain_append)
  show ?thesis
  proof (cases "vs = []")
    case True
    then have "b_next b = NBUF" using nx b1 by (simp add: nxt_def)
    then show ?thesis using run d1 l xs True by auto
  next
    case False
    have "NBUF \<notin> set vs" using l xs by (auto simp: lru_def)
    then have ne: "b_next b \<noteq> NBUF" using nx False b1 by (cases vs) (auto simp: nxt_def)
    obtain s2 where s2: "lru_to_tail i s1 = Done () s2" "lru (bufs s2) ((us @ vs) @ [i])"
      "\<And>j. unlinked (bufs s2 j) = unlinked (bufs s1 j)" "bio_pt s2 = bio_pt s1" "bio_disk s2 = bio_disk s1"
      using lru_to_tail_run [OF l [unfolded xs] False] by auto
    note r = relinked [OF ok1 s2(2,3,4,5)]
    note e = unlinked_eqD [OF s2(3)]
    have "dropped p s i s2" unfolding dropped_def
    proof (intro conjI allI impI)
      show "\<exists>xs. lru (bufs s2) (xs @ [i])" using s2(2) by blast
    qed (use r hd vw s2(3,4,5) b1 in \<open>simp_all add: e is_block_def s1_def b_def\<close>)
    then show ?thesis using run ne s2(1) by auto
  qed
qed

text \<open>Storing into the data of a held buffer changes the block's contents as seen by everyone.\<close>

lemma set_data_spec:
  assumes ok: "bio_ok p s" and i: "i \<in> held s" and n: "is_block n (bufs s i)" and v: "length v = BSIZE"
  shows "bio_ok p (set_data i v s)" "bview (set_data i v s) = (bview s)(n := v)"
    "held (set_data i v s) = held s" "pinset (set_data i v s) = pinset s"
    "bio_disk (set_data i v s) = bio_disk s" "bio_pt (set_data i v s) = bio_pt s"
    "bufs (set_data i v s) j = (if j = i then (bufs s i)\<lparr>b_data := v\<rparr> else bufs s j)"
proof -
  note okd = bio_okD [OF ok]
  have h: "i < NBUF" "b_lock (bufs s i) = owned (bio_pt s) p" "b_valid (bufs s i)"
    using heldD [OF ok i] by auto
  let ?b = "(bufs s i)\<lparr>b_data := v\<rparr>"
  have e: "set_data i v s = put_buf i ?b s" by (simp add: set_data_def upd_buf_put)
  have bo: "buf_ok (bio_pt s) p ?b" using okd(5) [OF h(1)] by (simp add: buf_ok_def)
  have si: "bio_ok p (put_buf i ?b s)" "bview (put_buf i ?b s) m = (if is_block m ?b \<and> b_valid ?b then b_data ?b else bview s m)" for m
    by (rule same_ident [OF ok h(1)]; use bo v h in simp)+
  show "bio_ok p (set_data i v s)" using si(1) e by simp
  show "bview (set_data i v s) = (bview s)(n := v)"
    using si(2) n h(3) unfolding e by (auto simp: is_block_def fun_eq_iff)
  show "held (set_data i v s) = held s" "pinset (set_data i v s) = pinset s"
    unfolding e by (auto simp: held_def pinset_def fun_upd_apply)
  show "bio_disk (set_data i v s) = bio_disk s" "bio_pt (set_data i v s) = bio_pt s"
    "bufs (set_data i v s) j = (if j = i then (bufs s i)\<lparr>b_data := v\<rparr> else bufs s j)"
    unfolding e by auto
qed

definition written :: "nat \<Rightarrow> bio \<Rightarrow> nat \<Rightarrow> bio \<Rightarrow> bool" where
  "written p s i s' \<longleftrightarrow> bio_ok p s' \<and> bview s' = bview s \<and> held s' = held s \<and> bufs s' = bufs s \<and>
     bio_pt s' = bio_pt s \<and> bio_disk s' = disk_write (b_blockno (bufs s i)) (b_data (bufs s i)) (bio_disk s)"

lemma bwrite_spec:
  assumes ok: "bio_ok p s" and i: "i \<in> held s"
  shows "\<exists>s'. bwrite i s = Done () s' \<and> written p s i s'"
proof -
  note okd = bio_okD [OF ok]
  have h: "i < NBUF" "b_lock (bufs s i) = owned (bio_pt s) p" "b_valid (bufs s i)" "b_dev (bufs s i) = ROOTDEV"
    using heldD [OF ok i] by auto
  let ?n = "b_blockno (bufs s i)"
  let ?s = "s\<lparr>bio_disk := disk_write ?n (b_data (bufs s i)) (bio_disk s)\<rparr>"
  have run: "bwrite i s = Done () ?s"
    using okd(1) h by (simp add: bwrite_def holdingsleep_buf_run kbind_def)
  have bi: "is_block ?n (bufs s i)" using h by (simp add: is_block_def)
  have len: "length (b_data (bufs s i)) = BSIZE" using okd(4) h by (simp add: blocks_sized_def)
  have "coherent ?s"
    unfolding coherent_def
  proof (intro allI impI)
    fix j assume j: "j < NBUF" "b_valid (bufs ?s j)" "b_pinned (bufs ?s j) = 0" "\<not> sl_locked (b_lock (bufs ?s j))"
    have "j \<noteq> i" using j(4) h(2) by auto
    have "b_dev (bufs s j) = ROOTDEV" using okd(5) [OF j(1)] j(2) by (auto simp: buf_ok_def)
    then have "b_blockno (bufs s j) \<noteq> ?n"
      using ident_unique [OF okd(2) h(1) j(1) bi] \<open>j \<noteq> i\<close> by (auto simp: is_block_def)
    then show "b_data (bufs ?s j) = d_blocks (bio_disk ?s) (b_blockno (bufs ?s j))"
      using okd(3) j by (simp add: coherent_def disk_write_def)
  qed
  moreover have "blocks_sized ?s" using okd(4) len by (simp add: blocks_sized_def disk_write_def)
  ultimately have "bio_ok p ?s" using ok by (simp add: bio_ok_def idents_unique_def)
  moreover have "bview ?s = bview s"
  proof (rule ext)
    fix m
    show "bview ?s m = bview s m"
    proof (cases "m = ?n")
      case True
      have u: "idents_unique ?s" using okd(2) by (simp add: idents_unique_def)
      show ?thesis
        using bview_cached [OF u h(1), of ?n] bview_cached [OF okd(2) h(1) bi h(3)] bi h(3) True by simp
    next
      case False
      then show ?thesis by (simp add: bview_def disk_write_def split: option.split)
    qed
  qed
  ultimately have "written p s i ?s" by (simp add: written_def held_def)
  with run show ?thesis by blast
qed

lemma pin_spec:
  assumes ok: "bio_ok p s" and i: "i \<in> held s" and k: "0 \<le> k"
  shows "bio_ok p (upd_buf i (\<lambda>b. b\<lparr>b_pinned := k\<rparr>) s)" "bview (upd_buf i (\<lambda>b. b\<lparr>b_pinned := k\<rparr>) s) = bview s"
    "held (upd_buf i (\<lambda>b. b\<lparr>b_pinned := k\<rparr>) s) = held s"
    "bio_disk (upd_buf i (\<lambda>b. b\<lparr>b_pinned := k\<rparr>) s) = bio_disk s"
    "bio_pt (upd_buf i (\<lambda>b. b\<lparr>b_pinned := k\<rparr>) s) = bio_pt s"
    "bufs (upd_buf i (\<lambda>b. b\<lparr>b_pinned := k\<rparr>) s) j = (if j = i then (bufs s i)\<lparr>b_pinned := k\<rparr> else bufs s j)"
proof -
  note okd = bio_okD [OF ok]
  have h: "i < NBUF" "b_lock (bufs s i) = owned (bio_pt s) p" "b_valid (bufs s i)" "b_dev (bufs s i) = ROOTDEV"
    using heldD [OF ok i] by auto
  let ?b = "(bufs s i)\<lparr>b_pinned := k\<rparr>"
  have bo: "buf_ok (bio_pt s) p ?b" using okd(5) [OF h(1)] k h by (auto simp: buf_ok_def)
  have sz: "length (b_data (bufs s i)) = BSIZE" using okd(4) h by (simp add: blocks_sized_def)
  have si: "bio_ok p (put_buf i ?b s)" "bview (put_buf i ?b s) m = (if is_block m ?b \<and> b_valid ?b then b_data ?b else bview s m)" for m
    by (rule same_ident [OF ok h(1)]; use bo sz h in simp)+
  show "bio_ok p (upd_buf i (\<lambda>b. b\<lparr>b_pinned := k\<rparr>) s)" using si(1) by (simp add: upd_buf_put)
  show "bview (upd_buf i (\<lambda>b. b\<lparr>b_pinned := k\<rparr>) s) = bview s"
  proof (rule ext)
    fix m
    show "bview (upd_buf i (\<lambda>b. b\<lparr>b_pinned := k\<rparr>) s) m = bview s m"
      using si(2) [of m] bview_cached [OF okd(2) h(1), of m] h(3) by (auto simp: upd_buf_put is_block_def)
  qed
  show "held (upd_buf i (\<lambda>b. b\<lparr>b_pinned := k\<rparr>) s) = held s"
    by (auto simp: held_def upd_buf_def)
  show "bio_disk (upd_buf i (\<lambda>b. b\<lparr>b_pinned := k\<rparr>) s) = bio_disk s"
    "bio_pt (upd_buf i (\<lambda>b. b\<lparr>b_pinned := k\<rparr>) s) = bio_pt s"
    "bufs (upd_buf i (\<lambda>b. b\<lparr>b_pinned := k\<rparr>) s) j = (if j = i then (bufs s i)\<lparr>b_pinned := k\<rparr> else bufs s j)"
    by (auto simp: upd_buf_def)
qed

definition linked :: "(nat \<Rightarrow> buf) \<Rightarrow> nat list \<Rightarrow> bool" where
  "linked bs xs \<longleftrightarrow> chain (nxt bs) NBUF xs NBUF \<and> chain (prv bs) NBUF (rev xs) NBUF"

lemma unlinked_lock: "unlinked (b\<lparr>b_lock := l\<rparr>) = (unlinked b)\<lparr>b_lock := l\<rparr>"
  by (simp add: unlinked_def)

lemma binit_one_run:
  assumes l: "linked (bufs s) xs" and d: "distinct (NBUF # i # xs)"
  shows "\<exists>s'. binit_one i s = Done () s' \<and> linked (bufs s') (i # xs) \<and> bio_pt s' = bio_pt s \<and>
    bio_disk s' = bio_disk s \<and>
    (\<forall>j. unlinked (bufs s' j) = unlinked (if j = i then (bufs s i)\<lparr>b_lock := initsleeplock\<rparr> else bufs s j))"
proof -
  define f where "f = b_next (bufs s NBUF)"
  define s' where "s' = upd_buf NBUF (\<lambda>b. b\<lparr>b_next := i\<rparr>) (upd_buf f (\<lambda>b. b\<lparr>b_prev := i\<rparr>)
     (upd_buf i (\<lambda>b. b\<lparr>b_next := f, b_prev := NBUF, b_lock := initsleeplock\<rparr>) s))"
  have run: "binit_one i s = Done () s'"
    by (simp add: binit_one_def s'_def f_def)
  have f: "f = hd (xs @ [NBUF])"
    using l by (cases xs) (auto simp: linked_def nxt_def f_def)
  have fi: "f \<noteq> i" using d f by (cases xs) auto
  have nx: "nxt (bufs s') = (nxt (bufs s))(i := f, NBUF := i)"
    using d fi by (auto simp: fun_eq_iff nxt_def s'_def upd_buf_def)
  have pv: "prv (bufs s') = (prv (bufs s))(i := NBUF, f := i)"
    using d fi by (auto simp: fun_eq_iff prv_def s'_def upd_buf_def)
  have c1: "chain (nxt (bufs s')) NBUF (i # xs) NBUF"
  proof (cases xs)
    case Nil
    then show ?thesis using d f by (simp add: nx)
  next
    case (Cons y ys)
    have "chain (nxt (bufs s)) y ys NBUF" using l Cons by (simp add: linked_def)
    then show ?thesis using d f Cons by (auto simp: nx)
  qed
  have c2: "chain (prv (bufs s')) NBUF (rev (i # xs)) NBUF"
  proof (cases xs)
    case Nil
    then show ?thesis using d f by (simp add: pv)
  next
    case (Cons y ys)
    have "chain (prv (bufs s)) NBUF (rev ys) y" using l Cons by (simp add: linked_def chain_append)
    then show ?thesis using d f Cons by (auto simp: pv chain_append)
  qed
  have "unlinked (bufs s' j) = unlinked (if j = i then (bufs s i)\<lparr>b_lock := initsleeplock\<rparr> else bufs s j)" for j
    using fi d by (simp add: s'_def upd_buf_def unlinked_def)
  then show ?thesis using run c1 c2 by (auto simp: linked_def s'_def upd_buf_def)
qed

lemma binit_loop:
  assumes "linked (bufs s) xs" "distinct (NBUF # ys @ xs)"
  shows "\<exists>s'. kfor ys binit_one s = Done () s' \<and> linked (bufs s') (rev ys @ xs) \<and> bio_pt s' = bio_pt s \<and>
    bio_disk s' = bio_disk s \<and>
    (\<forall>j. unlinked (bufs s' j) = unlinked (if j \<in> set ys then (bufs s j)\<lparr>b_lock := initsleeplock\<rparr> else bufs s j))"
  using assms
proof (induction ys arbitrary: s xs)
  case Nil
  then show ?case by simp
next
  case (Cons y ys)
  obtain s1 where s1: "binit_one y s = Done () s1" "linked (bufs s1) (y # xs)" "bio_pt s1 = bio_pt s" "bio_disk s1 = bio_disk s"
    "\<And>j. unlinked (bufs s1 j) = unlinked (if j = y then (bufs s y)\<lparr>b_lock := initsleeplock\<rparr> else bufs s j)"
    using binit_one_run [OF Cons.prems(1), of y] Cons.prems(2) by auto
  obtain s2 where s2: "kfor ys binit_one s1 = Done () s2" "linked (bufs s2) (rev ys @ y # xs)" "bio_pt s2 = bio_pt s1"
    "bio_disk s2 = bio_disk s1"
    "\<And>j. unlinked (bufs s2 j) = unlinked (if j \<in> set ys then (bufs s1 j)\<lparr>b_lock := initsleeplock\<rparr> else bufs s1 j)"
    using Cons.IH [OF s1(2)] Cons.prems(2) by auto
  have "unlinked (bufs s2 j) = unlinked (if j \<in> set (y # ys) then (bufs s j)\<lparr>b_lock := initsleeplock\<rparr> else bufs s j)" for j
  proof (cases "j \<in> set ys")
    case True
    then have "j \<noteq> y" using Cons.prems(2) by auto
    then have "unlinked (bufs s1 j) = unlinked (bufs s j)" using s1(5) by simp
    then show ?thesis using True s2(5) [of j] by (simp add: unlinked_lock)
  next
    case False
    then show ?thesis using s1(5) [of j] s2(5) [of j] by auto
  qed
  then show ?case using s1 s2 by auto
qed

text \<open>
  \<^verbatim>\<open>binit\<close> links every buffer exactly once. Insertion is at the front, so the forward order
  is the reverse of the index order.
\<close>

lemma binit_run:
  "\<exists>s'. binit s = Done () s' \<and> lru (bufs s') (rev all_bufs) \<and> bio_pt s' = bio_pt s \<and> bio_disk s' = bio_disk s \<and>
    (\<forall>j<NBUF. unlinked (bufs s' j) = unlinked ((bufs s j)\<lparr>b_lock := initsleeplock\<rparr>))"
proof -
  define s0 where "s0 = upd_buf NBUF (\<lambda>b. b\<lparr>b_prev := NBUF, b_next := NBUF\<rparr>) s"
  have l0: "linked (bufs s0) []" by (simp add: linked_def s0_def upd_buf_def nxt_def prv_def)
  have d: "distinct (NBUF # all_bufs @ [])"
    unfolding all_bufs_def by (simp only: append_Nil2 distinct.simps set_upt distinct_upt) auto
  obtain s' where s': "kfor all_bufs binit_one s0 = Done () s'" "linked (bufs s') (rev all_bufs)" "bio_pt s' = bio_pt s0"
    "bio_disk s' = bio_disk s0"
    "\<And>j. unlinked (bufs s' j) = unlinked (if j \<in> set all_bufs then (bufs s0 j)\<lparr>b_lock := initsleeplock\<rparr> else bufs s0 j)"
    using binit_loop [OF l0 d] unfolding append_Nil2 by blast
  have run: "binit s = Done () s'"
    using s'(1) by (simp only: binit_def s0_def all_bufs_def kseq_Done [OF kmodify_run])
  have "lru (bufs s') (rev all_bufs)" using s'(2) d unfolding lru_def linked_def by simp
  moreover have "bio_pt s' = bio_pt s" "bio_disk s' = bio_disk s" using s' by (simp_all add: s0_def upd_buf_def)
  moreover have "unlinked (bufs s' j) = unlinked ((bufs s j)\<lparr>b_lock := initsleeplock\<rparr>)" if "j < NBUF" for j
    using s'(5) [of j] that by (simp add: s0_def upd_buf_def)
  ultimately show ?thesis using run by blast
qed

text \<open>The cache as the kernel boots it: all buffers in \<^verbatim>\<open>.bss\<close>, then \<^verbatim>\<open>binit\<close>.\<close>

definition buf0 :: buf where
  "buf0 = \<lparr>b_valid = False, b_dev = 0, b_blockno = 0, b_lock = initsleeplock, b_refcnt = 0, b_pinned = 0,
     b_prev = 0, b_next = 0, b_data = replicate BSIZE 0\<rparr>"

definition bio_boot :: "ptable \<Rightarrow> (u32 \<Rightarrow> bytes) \<Rightarrow> bio" where
  "bio_boot pt d = \<lparr>bio_pt = pt, bio_disk = \<lparr>d_blocks = d, d_trace = []\<rparr>, bufs = (\<lambda>_. buf0)\<rparr>"

lemma binit_boot:
  assumes "cur pt = Some p" "\<And>n. length (d n) = BSIZE"
  shows "\<exists>s. binit (bio_boot pt d) = Done () s \<and> bio_ok p s \<and> held s = {} \<and> pinset s = {} \<and> bview s = d \<and>
     bio_disk s = \<lparr>d_blocks = d, d_trace = []\<rparr> \<and> bio_pt s = pt \<and> lru (bufs s) (rev all_bufs) \<and>
     (\<forall>j<NBUF. b_dev (bufs s j) = 0)"
proof -
  obtain s where s: "binit (bio_boot pt d) = Done () s" "lru (bufs s) (rev all_bufs)" "bio_pt s = pt"
    "bio_disk s = \<lparr>d_blocks = d, d_trace = []\<rparr>" "\<And>j. j < NBUF \<Longrightarrow> unlinked (bufs s j) = unlinked buf0"
    using binit_run [of "bio_boot pt d"] by (auto simp: bio_boot_def buf0_def)
  have e: "b_valid (bufs s j) = False" "b_dev (bufs s j) = 0" "b_lock (bufs s j) = initsleeplock"
    "b_refcnt (bufs s j) = 0" "b_pinned (bufs s j) = 0" if "j < NBUF" for j
    using unlinked_eqD [OF s(5) [OF that]] by (simp_all add: buf0_def)
  have "bio_ok p s"
    using s(2) assms e
    by (auto simp: bio_ok_def s(3,4) idents_unique_def coherent_def blocks_sized_def buf_ok_def initsleeplock_def)
  moreover have "held s = {}" "pinset s = {}" using e by (auto simp: held_def pinset_def initsleeplock_def)
  moreover have "bview s n = d n" for n using bview_uncached [of n s] e s(4) by simp
  ultimately show ?thesis using s e by blast
qed


text \<open>The cache in the hands of the first process, right after boot on the disk \<open>d\<close>.\<close>

definition fresh_bio :: "(u32 \<Rightarrow> bytes) \<Rightarrow> bio" where
  "fresh_bio d = (case binit (bio_boot (ptable_bss\<lparr>cur := Some 0\<rparr>) d) of Done _ s \<Rightarrow> s | _ \<Rightarrow> undefined)"

lemma fresh_bio:
  assumes "\<And>n. length (d n) = BSIZE"
  shows "binit (bio_boot (ptable_bss\<lparr>cur := Some 0\<rparr>) d) = Done () (fresh_bio d)"
    "bio_ok 0 (fresh_bio d)" "held (fresh_bio d) = {}" "pinset (fresh_bio d) = {}" "bview (fresh_bio d) = d"
    "d_blocks (bio_disk (fresh_bio d)) = d" "j < NBUF \<Longrightarrow> b_dev (bufs (fresh_bio d) j) = 0"
proof -
  obtain s where s: "binit (bio_boot (ptable_bss\<lparr>cur := Some 0\<rparr>) d) = Done () s" "bio_ok 0 s" "held s = {}"
    "pinset s = {}" "bview s = d" "bio_disk s = \<lparr>d_blocks = d, d_trace = []\<rparr>" "\<forall>j<NBUF. b_dev (bufs s j) = 0"
    using binit_boot [of "ptable_bss\<lparr>cur := Some 0\<rparr>" 0 d] assms by auto
  then have e: "fresh_bio d = s" by (simp add: fresh_bio_def)
  show "binit (bio_boot (ptable_bss\<lparr>cur := Some 0\<rparr>) d) = Done () (fresh_bio d)"
    "bio_ok 0 (fresh_bio d)" "held (fresh_bio d) = {}" "pinset (fresh_bio d) = {}" "bview (fresh_bio d) = d"
    "d_blocks (bio_disk (fresh_bio d)) = d" "j < NBUF \<Longrightarrow> b_dev (bufs (fresh_bio d) j) = 0"
    using s unfolding e by auto
qed

definition blank_disk :: "u32 \<Rightarrow> bytes" where
  "blank_disk n = replicate BSIZE 0"

lemma blank_len [simp]: "length (blank_disk n) = BSIZE"
  by (simp add: blank_disk_def)

section \<open>The cache as its clients see it\<close>

definition hold :: "bio \<Rightarrow> u32 \<Rightarrow> nat option" where
  "hold s n = find (\<lambda>i. is_block n (bufs s i) \<and> sl_locked (b_lock (bufs s i))) all_bufs"

definition bpins :: "bio \<Rightarrow> u32 \<Rightarrow> int" where
  "bpins s n = (case find (\<lambda>i. is_block n (bufs s i)) all_bufs of Some i \<Rightarrow> b_pinned (bufs s i) | None \<Rightarrow> 0)"

definition bio_abs :: "bio \<Rightarrow> cache_abs" where
  "bio_abs s = \<lparr>ca_view = bview s, ca_pins = bpins s, ca_disk = bio_disk s, ca_hold = hold s\<rparr>"

lemma hold_Some:
  assumes "idents_unique s"
  shows "hold s n = Some i \<longleftrightarrow> i \<in> held s \<and> is_block n (bufs s i)"
proof
  assume "hold s n = Some i"
  then show "i \<in> held s \<and> is_block n (bufs s i)"
    using find_SomeD [of _ all_bufs i] by (auto simp: hold_def held_def)
next
  assume i: "i \<in> held s \<and> is_block n (bufs s i)"
  show "hold s n = Some i" unfolding hold_def
    by (rule find_unique) (use i assms ident_unique in \<open>auto simp: held_def\<close>)
qed

lemma hold_None: "idents_unique s \<Longrightarrow> hold s n = None \<longleftrightarrow> (\<forall>i\<in>held s. \<not> is_block n (bufs s i))"
  using hold_Some [of s n] by (cases "hold s n") auto

lemma bpins_cached:
  assumes "idents_unique s" "i < NBUF" "is_block n (bufs s i)"
  shows "bpins s n = b_pinned (bufs s i)"
proof -
  have "find (\<lambda>i. is_block n (bufs s i)) all_bufs = Some i"
    by (rule find_unique) (use assms ident_unique in auto)
  then show ?thesis by (simp only: bpins_def option.case)
qed

lemma bpins_uncached: "(\<And>i. i < NBUF \<Longrightarrow> \<not> is_block n (bufs s i)) \<Longrightarrow> bpins s n = 0"
  unfolding bpins_def by (subst find_None_iff [THEN iffD2]) auto

lemma bpins_cases:
  assumes "bpins s n \<noteq> 0" "idents_unique s"
  shows "\<exists>i\<in>pinset s. is_block n (bufs s i)"
proof -
  obtain i where i: "i < NBUF" "is_block n (bufs s i)" using bpins_uncached [of n s] assms(1) by blast
  then show ?thesis using bpins_cached [OF assms(2) i] assms(1) by (auto simp: pinset_def)
qed

lemma ident_transfer:
  assumes "\<And>j m. is_block m (bufs s' j) = is_block m (bufs s j)" "\<And>j. b_pinned (bufs s' j) = b_pinned (bufs s j)"
  shows "bpins s' = bpins s"
  unfolding bpins_def fun_eq_iff assms by simp

text \<open>Held or pinned buffers correspond one to one to held or pinned blocks.\<close>

lemma busy_blocks:
  assumes ok: "bio_ok p s"
  shows "dom (hold s) \<union> {m. bpins s m \<noteq> 0} = (\<lambda>i. b_blockno (bufs s i)) ` (held s \<union> pinset s)"
    and "card (dom (hold s) \<union> {m. bpins s m \<noteq> 0}) = card (held s \<union> pinset s)"
proof -
  note okd = bio_okD [OF ok]
  have bl: "i < NBUF \<and> is_block (b_blockno (bufs s i)) (bufs s i)" if "i \<in> held s \<union> pinset s" for i
    using that okd(5) [of i] by (auto simp: held_def pinset_def buf_ok_def is_block_def)
  show im: "dom (hold s) \<union> {m. bpins s m \<noteq> 0} = (\<lambda>i. b_blockno (bufs s i)) ` (held s \<union> pinset s)"
  proof (intro equalityI subsetI)
    fix m assume "m \<in> dom (hold s) \<union> {m. bpins s m \<noteq> 0}"
    then obtain i where "i \<in> held s \<union> pinset s" "is_block m (bufs s i)"
      using hold_Some [OF okd(2), of m] bpins_cases [OF _ okd(2), of m] by auto
    then show "m \<in> (\<lambda>i. b_blockno (bufs s i)) ` (held s \<union> pinset s)" by (auto simp: is_block_def)
  next
    fix m assume "m \<in> (\<lambda>i. b_blockno (bufs s i)) ` (held s \<union> pinset s)"
    then obtain i where i: "i \<in> held s \<union> pinset s" "m = b_blockno (bufs s i)" by blast
    then have b: "i < NBUF" "is_block m (bufs s i)" using bl by auto
    show "m \<in> dom (hold s) \<union> {m. bpins s m \<noteq> 0}"
      using i(1) hold_Some [OF okd(2), of m i] b bpins_cached [OF okd(2) b] by (auto simp: pinset_def)
  qed
  have "inj_on (\<lambda>i. b_blockno (bufs s i)) (held s \<union> pinset s)"
  proof (rule inj_onI)
    fix i j assume i: "i \<in> held s \<union> pinset s" and j: "j \<in> held s \<union> pinset s"
      and e: "b_blockno (bufs s i) = b_blockno (bufs s j)"
    show "i = j" using ident_unique [OF okd(2), of j i "b_blockno (bufs s i)"] bl [OF i] bl [OF j] e by simp
  qed
  then show "card (dom (hold s) \<union> {m. bpins s m \<noteq> 0}) = card (held s \<union> pinset s)"
    unfolding im by (rule card_image)
qed

lemma took_abs:
  assumes ok: "bio_ok p s" and t: "took p n s i s'"
  shows "bio_abs s' = a_take n i (bio_abs s)"
proof -
  note okd = bio_okD [OF ok]
  have t1: "bio_ok p s'" "i < NBUF" "i \<notin> held s" "held s' = insert i (held s)" "is_block n (bufs s' i)" "bview s' = bview s"
    "bio_disk s' = bio_disk s" "\<And>j. j \<noteq> i \<Longrightarrow> bufs s' j = bufs s j" "\<And>j. b_pinned (bufs s' j) = b_pinned (bufs s j)"
    "b_pinned (bufs s i) \<noteq> 0 \<longrightarrow> is_block n (bufs s i)"
    "is_block n (bufs s i) \<or> (\<forall>j<NBUF. \<not> is_block n (bufs s j))"
    using t by (auto simp: took_def)
  note okd' = bio_okD [OF t1(1)]
  have h: "hold s' m = (if m = n then Some i else hold s m)" for m
  proof (cases "m = n")
    case True
    then show ?thesis using hold_Some [OF okd'(2), of n i] t1 by simp
  next
    case False
    then have "\<not> is_block m (bufs s' i)" using t1(5) by (auto simp: is_block_def)
    then have "hold s' m = Some j \<longleftrightarrow> hold s m = Some j" for j
      using t1(3,4,8) unfolding hold_Some [OF okd(2)] hold_Some [OF okd'(2)] by (cases "j = i") auto
    then show ?thesis using False by (metis not_None_eq)
  qed
  have pn: "bpins s' m = bpins s m" for m
  proof (cases "\<exists>j<NBUF. j \<noteq> i \<and> is_block m (bufs s j)")
    case True
    then obtain j where j: "j < NBUF" "j \<noteq> i" "is_block m (bufs s j)" by blast
    then show ?thesis using bpins_cached [OF okd(2) j(1,3)] bpins_cached [OF okd'(2) j(1), of m] t1(8,9) by simp
  next
    case other: False
    have new: "bpins s' m = (if m = n then b_pinned (bufs s i) else 0)"
    proof (cases "m = n")
      case True
      then show ?thesis using bpins_cached [OF okd'(2) t1(2,5)] t1(9) by simp
    next
      case False
      then have "\<not> is_block m (bufs s' j)" if "j < NBUF" for j
        using other t1(5,8) that by (cases "j = i") (auto simp: is_block_def)
      then show ?thesis using bpins_uncached [of m s'] False by simp
    qed
    show ?thesis
    proof (cases "is_block m (bufs s i)")
      case True
      have "bpins s m = b_pinned (bufs s i)" using bpins_cached [OF okd(2) t1(2) True] .
      moreover have "m = n" if "b_pinned (bufs s i) \<noteq> 0" using t1(10) that True by (auto simp: is_block_def)
      ultimately show ?thesis using new by auto
    next
      case False
      then have "bpins s m = 0" using other by (intro bpins_uncached) blast
      moreover have "b_pinned (bufs s i) = 0" if "m = n" using t1(10) False that by blast
      ultimately show ?thesis using new by auto
    qed
  qed
  show ?thesis using h pn t1(6,7) by (simp add: bio_abs_def a_take_def fun_eq_iff)
qed

lemma dropped_abs:
  assumes ok: "bio_ok p s" and n: "hold s n = Some i" and t: "dropped p s i s'"
  shows "bio_abs s' = a_drop n (bio_abs s)"
proof -
  note okd = bio_okD [OF ok]
  have t1: "bio_ok p s'" "held s' = held s - {i}" "bview s' = bview s" "bio_disk s' = bio_disk s"
    "\<And>j. b_pinned (bufs s' j) = b_pinned (bufs s j)" "\<And>j m. is_block m (bufs s' j) = is_block m (bufs s j)"
    using t by (auto simp: dropped_def)
  note okd' = bio_okD [OF t1(1)]
  have ih: "i \<in> held s" "is_block n (bufs s i)" using n hold_Some [OF okd(2)] by auto
  have "hold s' m = Some j \<longleftrightarrow> m \<noteq> n \<and> hold s m = Some j" for m j
    using ih t1(2,6) ident_unique [OF okd(2), of i j n]
    unfolding hold_Some [OF okd(2)] hold_Some [OF okd'(2)] by (auto simp: held_def is_block_def)
  then have "hold s' m = (if m = n then None else hold s m)" for m
    by (metis not_None_eq)
  then show ?thesis using ident_transfer [OF t1(6,5)] t1(3,4) by (simp add: bio_abs_def a_drop_def fun_eq_iff)
qed

lemma hold_cong: "(\<And>j. b_dev (bufs s' j) = b_dev (bufs s j)) \<Longrightarrow> (\<And>j. b_blockno (bufs s' j) = b_blockno (bufs s j)) \<Longrightarrow>
  (\<And>j. b_lock (bufs s' j) = b_lock (bufs s j)) \<Longrightarrow> hold s' = hold s"
  by (simp add: hold_def is_block_def fun_eq_iff)

lemma set_data_abs:
  assumes ok: "bio_ok p s" and n: "hold s n = Some i" and v: "length v = BSIZE"
  shows "bio_ok p (set_data i v s)" "bio_abs (set_data i v s) = a_store n v (bio_abs s)"
    "bio_pt (set_data i v s) = bio_pt s"
proof -
  have ih: "i \<in> held s" "is_block n (bufs s i)" using n hold_Some [OF bio_okD(2) [OF ok]] by auto
  note sd = set_data_spec [OF ok ih v]
  show "bio_ok p (set_data i v s)" "bio_pt (set_data i v s) = bio_pt s" by (rule sd)+
  have "bpins (set_data i v s) = bpins s" by (rule ident_transfer) (simp_all add: sd(7) is_block_def)
  moreover have "hold (set_data i v s) = hold s" by (rule hold_cong) (simp_all add: sd(7))
  ultimately show "bio_abs (set_data i v s) = a_store n v (bio_abs s)"
    using sd by (simp add: bio_abs_def a_store_def)
qed

lemma written_abs:
  assumes ok: "bio_ok p s" and n: "hold s n = Some i" and t: "written p s i s'"
  shows "bio_abs s' = a_flush n (bio_abs s)"
proof -
  note okd = bio_okD [OF ok]
  have ih: "i \<in> held s" "is_block n (bufs s i)" using n hold_Some [OF okd(2)] by auto
  have "b_blockno (bufs s i) = n" "b_data (bufs s i) = bview s n"
    using ih bview_cached [OF okd(2) _ ih(2)] heldD [OF ok ih(1)] by (auto simp: is_block_def)
  moreover have "hold s' = hold s" by (rule hold_cong) (use t in \<open>simp_all add: written_def\<close>)
  moreover have "bpins s' = bpins s" by (rule ident_transfer) (use t in \<open>simp_all add: written_def\<close>)
  ultimately show ?thesis using t by (simp add: written_def bio_abs_def a_flush_def)
qed

lemma pin_abs:
  assumes ok: "bio_ok p s" and n: "hold s n = Some i" and k: "0 \<le> b_pinned (bufs s i) + k"
  shows "\<exists>s'. s' = upd_buf i (\<lambda>b. b\<lparr>b_pinned := b_pinned b + k\<rparr>) s \<and> bio_ok p s' \<and>
     bio_abs s' = a_pin n k (bio_abs s) \<and> bio_pt s' = bio_pt s"
proof -
  note okd = bio_okD [OF ok]
  have ih: "i \<in> held s" "is_block n (bufs s i)" using n hold_Some [OF okd(2)] by auto
  then have i: "i < NBUF" by (simp add: held_def)
  let ?k = "b_pinned (bufs s i) + k"
  let ?s = "upd_buf i (\<lambda>b. b\<lparr>b_pinned := ?k\<rparr>) s"
  note ps = pin_spec [OF ok ih(1) k]
  note okd' = bio_okD [OF ps(1)]
  have e: "upd_buf i (\<lambda>b. b\<lparr>b_pinned := b_pinned b + k\<rparr>) s = ?s" by (simp add: upd_buf_def)
  have "hold ?s = hold s" by (rule hold_cong) (simp_all add: ps(6))
  moreover have "bpins ?s = (bpins s)(n := bpins s n + k)"
  proof (rule ext)
    fix m
    have blk: "is_block m (bufs ?s j) = is_block m (bufs s j)" for j m by (simp add: ps(6) is_block_def)
    show "bpins ?s m = ((bpins s)(n := bpins s n + k)) m"
    proof (cases "m = n")
      case True
      have "is_block n (bufs ?s i)" using blk ih(2) by blast
      from bpins_cached [OF okd(2) i ih(2)] bpins_cached [OF okd'(2) i this] True show ?thesis by (simp add: ps(6))
    next
      case mn: False
      show ?thesis
      proof (cases "\<exists>j<NBUF. is_block m (bufs s j)")
        case True
        then obtain j where j: "j < NBUF" "is_block m (bufs s j)" by blast
        then have "j \<noteq> i" using mn ih(2) by (auto simp: is_block_def)
        moreover have "is_block m (bufs ?s j)" using blk j(2) by blast
        ultimately show ?thesis using bpins_cached [OF okd(2) j] bpins_cached [OF okd'(2) j(1)] mn by (simp add: ps(6))
      next
        case False
        then show ?thesis using bpins_uncached [of m s] bpins_uncached [of m ?s] blk mn by auto
      qed
    qed
  qed
  ultimately show ?thesis using ps(1-5) unfolding e by (simp add: bio_abs_def a_pin_def)
qed

interpretation bc: block_cache "bio_ok p" bio_abs bio_pt "\<lambda>_. ()" "bread ROOTDEV" "\<lambda>i s. b_data (bufs s i)"
  set_data bwrite brelse bpin bunpin for p
proof (unfold_locales, goal_cases)
  case (1 s n)
  then show ?case using bview_length bio_okD(4) by (simp add: bio_abs_def)
next
  case (2 s n)
  note okd = bio_okD [OF 2]
  show ?case
  proof (cases "\<exists>i<NBUF. is_block n (bufs s i)")
    case True
    then obtain i where i: "i < NBUF" "is_block n (bufs s i)" by blast
    then show ?thesis using bpins_cached [OF okd(2) i] okd(5) [OF i(1)] by (simp add: bio_abs_def buf_ok_def)
  next
    case False
    then show ?thesis using bpins_uncached [of n s] by (simp add: bio_abs_def)
  qed
next
  case (3 s)
  have "finite (held s \<union> pinset s)" by (simp add: held_def pinset_def)
  then show ?case using busy_blocks(1) [OF 3] by (simp add: bio_abs_def)
next
  case (4 s n)
  note okd = bio_okD [OF 4(1)]
  have nh: "\<forall>i\<in>held s. \<not> is_block n (bufs s i)" using 4(2) hold_None [OF okd(2)] by (simp add: bio_abs_def)
  show ?case
  proof (cases "\<exists>i<NBUF. is_block n (bufs s i)")
    case True
    then obtain i where i: "i < NBUF" "is_block n (bufs s i)" by blast
    then show ?thesis using bview_idle [OF 4(1) i] nh bpins_cached [OF okd(2) i]
      by (auto simp: is_clean_def bio_abs_def)
  next
    case False
    then show ?thesis using bview_uncached [of n s] by (auto simp: is_clean_def bio_abs_def)
  qed
next
  case (5 s n i)
  note okd = bio_okD [OF 5(1)]
  have ih: "i \<in> held s" "is_block n (bufs s i)" using 5(2) hold_Some [OF okd(2)] by (auto simp: bio_abs_def)
  then show ?case using bview_cached [OF okd(2) _ ih(2)] heldD [OF 5(1) ih(1)] by (simp add: bio_abs_def)
next
  case (6 s n)
  note okd = bio_okD [OF 6(1)]
  have "\<And>i. i \<in> held s \<Longrightarrow> \<not> is_block n (bufs s i)" using 6(2) hold_None [OF okd(2)] by (simp add: bio_abs_def)
  moreover have "card (held s \<union> pinset s) < NBUF \<or> (\<exists>i<NBUF. is_block n (bufs s i))"
    using 6(3) busy_blocks(2) [OF 6(1)] bpins_uncached [of n s] by (auto simp: has_room_def bio_abs_def)
  ultimately obtain i s' where t: "bread ROOTDEV n s = Done i s'" "took p n s i s'"
    using bread_spec [OF 6(1)] by blast
  then have "bio_ok p s'" "bio_pt s' = bio_pt s" by (simp_all add: took_def)
  with t(1) took_abs [OF 6(1) t(2)] show ?case by blast
next
  case (7 s n i v)
  then show ?case using set_data_abs [OF 7(1), of n i v] by (simp add: bio_abs_def)
next
  case (8 s n i)
  note okd = bio_okD [OF 8(1)]
  have n: "hold s n = Some i" using 8(2) by (simp add: bio_abs_def)
  then have "i \<in> held s" using hold_Some [OF okd(2)] by blast
  then obtain s' where t: "bwrite i s = Done () s'" "written p s i s'" using bwrite_spec [OF 8(1)] by blast
  then have "bio_ok p s'" "bio_pt s' = bio_pt s" by (simp_all add: written_def)
  with t(1) written_abs [OF 8(1) n t(2)] show ?case by blast
next
  case (9 s n i)
  note okd = bio_okD [OF 9(1)]
  have n: "hold s n = Some i" using 9(2) by (simp add: bio_abs_def)
  then have ih: "i \<in> held s" "is_block n (bufs s i)" using hold_Some [OF okd(2)] by auto
  have "b_pinned (bufs s i) = 0 \<Longrightarrow> b_data (bufs s i) = d_blocks (bio_disk s) (b_blockno (bufs s i))"
    using 9(3) bpins_cached [OF okd(2) _ ih(2)] bview_cached [OF okd(2) _ ih(2)] heldD [OF 9(1) ih(1)] ih(2)
    by (auto simp: is_clean_def bio_abs_def is_block_def)
  then obtain s' where t: "brelse i s = Done () s'" "dropped p s i s'" using brelse_spec [OF 9(1) ih(1)] by blast
  then have "bio_ok p s'" "awoken (bio_pt s) (bio_pt s')" by (simp_all add: dropped_def)
  with t(1) dropped_abs [OF 9(1) n t(2)] show ?case by blast
next
  case (10 s n i)
  note okd = bio_okD [OF 10(1)]
  have n: "hold s n = Some i" using 10(2) by (simp add: bio_abs_def)
  then have "i < NBUF" using hold_Some [OF okd(2)] by (auto simp: held_def)
  then have "0 \<le> b_pinned (bufs s i) + 1" using okd(5) by (simp add: buf_ok_def)
  then show ?case using pin_abs [OF 10(1) n] by (simp add: bpin_def)
next
  case (11 s n i)
  note okd = bio_okD [OF 11(1)]
  have n: "hold s n = Some i" using 11(2) by (simp add: bio_abs_def)
  then have ih: "i < NBUF" "is_block n (bufs s i)" using hold_Some [OF okd(2)] by (auto simp: held_def)
  then have "0 < b_pinned (bufs s i)" using 11(3) bpins_cached [OF okd(2) ih] by (simp add: bio_abs_def)
  then show ?case using pin_abs [OF 11(1) n, of "- 1"] by (simp add: bunpin_def)
qed

end
