(* ===== verification/Bio_Props.thy ===== *)
theory Bio_Props
  imports Bio_Spec
begin

text \<open>
  Properties of the buffer cache that hold for every interleaving of its callers: a step
  relation over the operations of \<^verbatim>\<open>bio.c\<close> by any process, reachability from \<^verbatim>\<open>binit\<close>, and
  the invariant that every reachable cache has one well-formed list and one buffer per block.
\<close>

section \<open>Steps of the cache\<close>

inductive bio_step :: "bio \<Rightarrow> bio \<Rightarrow> bool" where
  read: "bread dev n s = Done i s' \<Longrightarrow> bio_step s s'"
| read_wait: "bread dev n s = Block s' \<Longrightarrow> bio_step s s'"
| resume: "i < NBUF \<Longrightarrow> acquiresleep_buf i s = Done () s' \<Longrightarrow> bio_step s s'"
| fill: "i < NBUF \<Longrightarrow> bio_step s (upd_buf i (\<lambda>b. b\<lparr>b_data := v, b_valid := True\<rparr>) s)"
| writeback: "i < NBUF \<Longrightarrow> bwrite i s = Done () s' \<Longrightarrow> bio_step s s'"
| release: "i < NBUF \<Longrightarrow> brelse i s = Done () s' \<Longrightarrow> bio_step s s'"
| pin: "i < NBUF \<Longrightarrow> bpin i s = Done () s' \<Longrightarrow> bio_step s s'"
| unpin: "i < NBUF \<Longrightarrow> bunpin i s = Done () s' \<Longrightarrow> bio_step s s'"
| update: "i < NBUF \<Longrightarrow> bio_step s (set_data i v s)"
| sched: "bio_step s (s\<lparr>bio_pt := pt\<rparr>)"

inductive bio_reach :: "bio \<Rightarrow> bool" where
  boot: "binit (bio_boot pt d) = Done () s \<Longrightarrow> bio_reach s"
| step: "bio_reach s \<Longrightarrow> bio_step s s' \<Longrightarrow> bio_reach s'"

definition cache_wf :: "bio \<Rightarrow> bool" where
  "cache_wf s \<longleftrightarrow> (\<exists>xs. lru (bufs s) xs) \<and> idents_unique s"

text \<open>Two caches with the same links and the same block identities.\<close>

definition same_shape :: "bio \<Rightarrow> bio \<Rightarrow> bool" where
  "same_shape s s' \<longleftrightarrow> (\<forall>j. b_next (bufs s' j) = b_next (bufs s j) \<and> b_prev (bufs s' j) = b_prev (bufs s j) \<and>
     b_dev (bufs s' j) = b_dev (bufs s j) \<and> b_blockno (bufs s' j) = b_blockno (bufs s j))"

lemma same_shape_trans: "same_shape s t \<Longrightarrow> same_shape t u \<Longrightarrow> same_shape s u"
  by (simp add: same_shape_def)

lemma same_shape_wf: "same_shape s s' \<Longrightarrow> cache_wf s \<Longrightarrow> cache_wf s'"
  using lru_cong [of "bufs s'" "bufs s"] by (auto simp: cache_wf_def same_shape_def idents_unique_def)

lemma same_shape_upd [simp]:
  "same_shape s (upd_buf i (\<lambda>b. b\<lparr>b_refcnt := f b\<rparr>) s)" "same_shape s (upd_buf i (\<lambda>b. b\<lparr>b_pinned := g b\<rparr>) s)"
  "same_shape s (upd_buf i (\<lambda>b. b\<lparr>b_data := h b\<rparr>) s)" "same_shape s (upd_buf i (\<lambda>b. b\<lparr>b_lock := l b\<rparr>) s)"
  "same_shape s (upd_buf i (\<lambda>b. b\<lparr>b_data := h b, b_valid := v b\<rparr>) s)"
  "same_shape s (s\<lparr>bio_pt := pt\<rparr>)" "same_shape s (s\<lparr>bio_disk := d\<rparr>)"
  by (simp_all add: same_shape_def upd_buf_def)

lemma acquiresleep_cases:
  "acquiresleep ch (lk, pt) = Done () r \<Longrightarrow> snd r = pt" "acquiresleep ch (lk, pt) = Block r \<Longrightarrow> fst r = lk"
  by (cases "cur pt"; cases "sl_locked lk"; auto simp: acquiresleep_def sleep_def myproc_def klift_def kbind_def)+

lemma lock_shape:
  "acquiresleep_buf i s = Done () s' \<or> acquiresleep_buf i s = Block s' \<Longrightarrow>
   same_shape s s' \<and> (\<forall>j. b_pinned (bufs s' j) = b_pinned (bufs s j))"
  by (auto simp: acquiresleep_buf_def klift_def buf_lock_put_def same_shape_def upd_buf_def split: outcome.splits)

text \<open>Where \<^verbatim>\<open>bget\<close> finds its buffer, for any device, any process and any lock state.\<close>

definition reassigned :: "nat \<Rightarrow> u32 \<Rightarrow> u32 \<Rightarrow> bio \<Rightarrow> bio" where
  "reassigned i dev n = upd_buf i (\<lambda>b. b\<lparr>b_dev := dev, b_blockno := n, b_valid := False, b_refcnt := 1\<rparr>)"

lemma bget_lru:
  assumes "lru (bufs s) xs"
  shows "bget dev n s = (case find (\<lambda>i. b_dev (bufs s i) = dev \<and> b_blockno (bufs s i) = n) xs of
      Some i \<Rightarrow> kseq (acquiresleep_buf i) (kreturn i) (upd_buf i (\<lambda>b. b\<lparr>b_refcnt := b_refcnt b + 1\<rparr>) s)
    | None \<Rightarrow> (case find (\<lambda>i. b_refcnt (bufs s i) = 0 \<and> b_pinned (bufs s i) = 0) (rev xs) of
        Some i \<Rightarrow> kseq (acquiresleep_buf i) (kreturn i) (reassigned i dev n s)
      | None \<Rightarrow> Panic ''bget: no buffers''))"
  using scan_cached_lru [OF assms, of dev n] scan_victim_lru [OF assms]
  by (auto simp: bget_def reassigned_def split: option.split)

lemma reassigned_wf:
  assumes wf: "cache_wf s" and i: "i < NBUF"
    and miss: "\<And>j. j < NBUF \<Longrightarrow> \<not> (b_dev (bufs s j) = dev \<and> b_blockno (bufs s j) = n)"
  shows "cache_wf (reassigned i dev n s)"
proof -
  obtain xs where l: "lru (bufs s) xs" and u: "idents_unique s" using wf by (auto simp: cache_wf_def)
  have l': "lru (bufs (reassigned i dev n s)) xs"
    using l lru_cong [of "bufs (reassigned i dev n s)" "bufs s" xs] by (auto simp: reassigned_def upd_buf_def)
  have "idents_unique (reassigned i dev n s)"
    unfolding idents_unique_def
  proof (intro allI impI)
    fix j k assume j: "j < NBUF" and k: "k < NBUF"
      and d: "b_dev (bufs (reassigned i dev n s) j) \<noteq> 0"
      and e1: "b_dev (bufs (reassigned i dev n s) k) = b_dev (bufs (reassigned i dev n s) j)"
      and e2: "b_blockno (bufs (reassigned i dev n s) k) = b_blockno (bufs (reassigned i dev n s) j)"
    show "k = j"
    proof (cases "j = i \<or> k = i")
      case True
      then show ?thesis
        using miss [OF j] miss [OF k] e1 e2 by (cases "j = i"; cases "k = i") (simp_all add: reassigned_def upd_buf_def)
    next
      case False
      then have "b_dev (bufs s j) \<noteq> 0" "b_dev (bufs s k) = b_dev (bufs s j)" "b_blockno (bufs s k) = b_blockno (bufs s j)"
        using d e1 e2 by (simp_all add: reassigned_def upd_buf_def)
      then show ?thesis using u j k unfolding idents_unique_def by blast
    qed
  qed
  with l' show ?thesis by (auto simp: cache_wf_def)
qed

text \<open>
  One step from a well-formed cache: the next cache is well-formed, and a buffer that is
  referenced or pinned keeps its identity.
\<close>

definition kept :: "bio \<Rightarrow> bio \<Rightarrow> bool" where
  "kept s s' \<longleftrightarrow> (\<forall>j<NBUF. b_refcnt (bufs s j) \<noteq> 0 \<or> b_pinned (bufs s j) \<noteq> 0 \<longrightarrow>
     b_dev (bufs s' j) = b_dev (bufs s j) \<and> b_blockno (bufs s' j) = b_blockno (bufs s j))"

lemma same_shape_kept: "same_shape s s' \<Longrightarrow> kept s s'"
  by (simp add: same_shape_def kept_def)

lemma kept_same: "kept s t \<Longrightarrow> same_shape t u \<Longrightarrow> kept s u"
  by (simp add: same_shape_def kept_def)

lemma bget_step:
  assumes wf: "cache_wf s" and g: "bget dev n s = Done i s' \<or> bget dev n s = Block s'"
  shows "cache_wf s' \<and> kept s s'"
proof -
  obtain xs where l: "lru (bufs s) xs" using wf by (auto simp: cache_wf_def)
  have st: "set xs = {..<NBUF}" using l by (simp add: lru_def)
  have lk: "same_shape t s'" if "kseq (acquiresleep_buf j) (kreturn j) t = Done i s' \<or>
      kseq (acquiresleep_buf j) (kreturn j) t = Block s'" for j t
    using that lock_shape [of j t s'] by (auto simp: kseq_def kbind_def split: outcome.splits)
  show ?thesis
  proof (cases "find (\<lambda>i. b_dev (bufs s i) = dev \<and> b_blockno (bufs s i) = n) xs")
    case (Some j)
    then have "same_shape (upd_buf j (\<lambda>b. b\<lparr>b_refcnt := b_refcnt b + 1\<rparr>) s) s'"
      using g lk unfolding bget_lru [OF l] by simp
    then have "same_shape s s'" by (rule same_shape_trans [rotated]) simp
    then show ?thesis using wf same_shape_wf same_shape_kept by blast
  next
    case None
    then have miss: "\<not> (b_dev (bufs s j) = dev \<and> b_blockno (bufs s j) = n)" if "j < NBUF" for j
      using that st by (auto simp: find_None_iff)
    obtain j where f: "find (\<lambda>i. b_refcnt (bufs s i) = 0 \<and> b_pinned (bufs s i) = 0) (rev xs) = Some j"
      using g None unfolding bget_lru [OF l] by (auto split: option.splits)
    then have "same_shape (reassigned j dev n s) s'" using g lk None unfolding bget_lru [OF l] by simp
    moreover have v: "j < NBUF" "b_refcnt (bufs s j) = 0" "b_pinned (bufs s j) = 0"
      using find_SomeD [OF f] st by auto
    moreover have "kept s (reassigned j dev n s)"
      using v by (auto simp: kept_def reassigned_def upd_buf_def)
    ultimately show ?thesis using reassigned_wf [OF wf v(1) miss] same_shape_wf kept_same by blast
  qed
qed

lemma bread_step:
  assumes wf: "cache_wf s" and g: "bread dev n s = Done i s' \<or> bread dev n s = Block s'"
  shows "cache_wf s' \<and> kept s s'"
proof -
  from g consider (ret) s1 where "bget dev n s = Done i s1" "same_shape s1 s'" | (wait) "bget dev n s = Block s'"
    by (auto simp: bread_def kbind_def kseq_def split: outcome.splits if_splits) (auto simp: same_shape_def)
  then show ?thesis
  proof cases
    case (ret s1)
    then show ?thesis using bget_step [OF wf, of dev n i s1] same_shape_wf kept_same by blast
  next
    case wait
    then show ?thesis using bget_step [OF wf, of dev n i s'] by blast
  qed
qed

lemma holding_same: "holdingsleep_buf i s = Done h s1 \<Longrightarrow> s1 = s"
  by (auto simp: holdingsleep_buf_def klift_def kbind_def buf_lock_get_def buf_lock_put_def holdingsleep_def
      myproc_def upd_buf_def split: outcome.splits if_splits option.splits)

lemma brelse_step:
  assumes wf: "cache_wf s" and i: "i < NBUF" and r: "brelse i s = Done () s'"
  shows "cache_wf s' \<and> kept s s'"
proof -
  define t where "t = upd_buf i (\<lambda>b. b\<lparr>b_refcnt := b_refcnt b - 1\<rparr>)
       ((upd_buf i (\<lambda>b. b\<lparr>b_lock := initsleeplock\<rparr>) s)\<lparr>bio_pt := wakeup (ChanBuf i) (bio_pt s)\<rparr>)"
  have sh: "same_shape s t" by (simp add: same_shape_def upd_buf_def t_def)
  then have wt: "cache_wf t" using wf same_shape_wf by blast
  from r obtain h s1 where h: "holdingsleep_buf i s = Done h s1"
    and k: "(if \<not> h then kpanic ''brelse'' else kseq (releasesleep_buf i)
       (kseq (kmodify (upd_buf i (\<lambda>b. b\<lparr>b_refcnt := b_refcnt b - 1\<rparr>)))
       (kbind (kget (\<lambda>s. bufs s i)) (\<lambda>b.
          if b_refcnt b = 0 \<and> b_next b \<noteq> NBUF then lru_to_tail i else kreturn ())))) s1 = Done () s'"
    unfolding brelse_def by (rule kbind_DoneE)
  have "s1 = s" using h by (rule holding_same)
  with k have "h" and "(if b_refcnt (bufs t i) = 0 \<and> b_next (bufs t i) \<noteq> NBUF then lru_to_tail i else kreturn ()) t = Done () s'"
    by (auto simp: releasesleep_buf_run kseq_def kbind_def t_def split: if_splits)
  then have rr: "s' = t \<or> (b_next (bufs t i) \<noteq> NBUF \<and> lru_to_tail i t = Done () s')"
    by (simp split: if_splits)
  show ?thesis
  proof (cases "s' = t")
    case True
    then show ?thesis using wt same_shape_kept [OF sh] by simp
  next
    case False
    with rr have ne: "b_next (bufs t i) \<noteq> NBUF" and run: "lru_to_tail i t = Done () s'" by auto
    obtain xs where l: "lru (bufs t) xs" using wt by (auto simp: cache_wf_def)
    have "i \<in> set xs" using l i by (simp add: lru_def)
    then obtain us vs where xs: "xs = us @ i # vs" by (meson split_list)
    have "vs \<noteq> []" using l xs ne by (auto simp: lru_def chain_append nxt_def)
    then obtain s2 where s2: "lru_to_tail i t = Done () s2" "lru (bufs s2) (us @ vs @ [i])"
      "\<And>j. unlinked (bufs s2 j) = unlinked (bufs t j)" using lru_to_tail_run [OF l [unfolded xs]] by metis
    have e: "s2 = s'" using run s2(1) by simp
    note un = unlinked_eqD [OF s2(3), unfolded e]
    have "idents_unique s'" using wt unfolding cache_wf_def idents_unique_def un by blast
    moreover have "kept s s'" using same_shape_kept [OF sh] unfolding kept_def un by simp
    ultimately show ?thesis using s2(2) e by (auto simp: cache_wf_def)
  qed
qed

lemma shape_step: "same_shape s s' \<Longrightarrow> cache_wf s \<Longrightarrow> cache_wf s' \<and> kept s s'"
  using same_shape_wf same_shape_kept by blast

lemma bwrite_shape: "bwrite i s = Done () s' \<Longrightarrow> same_shape s s'"
  unfolding bwrite_def by (elim kbind_DoneE) (auto dest!: holding_same split: if_splits)

lemma bio_step_wf:
  assumes "bio_step s s'" and wf: "cache_wf s"
  shows "cache_wf s' \<and> kept s s'"
  using assms(1)
proof cases
  case (read dev n i)
  then show ?thesis using bread_step [OF wf] by blast
next
  case (read_wait dev n)
  then show ?thesis using bread_step [OF wf] by blast
next
  case (release i)
  then show ?thesis using brelse_step [OF wf] by blast
next
  case (resume i)
  then show ?thesis using lock_shape [of i s s'] shape_step [OF _ wf] by blast
next
  case (writeback i)
  then show ?thesis using bwrite_shape shape_step [OF _ wf] by blast
next
  case (pin i)
  then have "same_shape s s'" by (auto simp: bpin_def)
  then show ?thesis by (rule shape_step [OF _ wf])
next
  case (unpin i)
  then have "same_shape s s'" by (auto simp: bunpin_def split: if_splits)
  then show ?thesis by (rule shape_step [OF _ wf])
next
  case (fill i v)
  show ?thesis unfolding fill(1) by (rule shape_step [OF _ wf]) simp
next
  case (update i v)
  show ?thesis unfolding update(1) set_data_def by (rule shape_step [OF _ wf]) simp
next
  case (sched pt)
  show ?thesis unfolding sched(1) by (rule shape_step [OF _ wf]) simp
qed

lemma bio_reach_wf: "bio_reach s \<Longrightarrow> cache_wf s"
proof (induction rule: bio_reach.induct)
  case (boot pt d s)
  obtain s' where s': "binit (bio_boot pt d) = Done () s'" "lru (bufs s') (rev all_bufs)"
    "\<And>j. j < NBUF \<Longrightarrow> unlinked (bufs s' j) = unlinked ((bufs (bio_boot pt d) j)\<lparr>b_lock := initsleeplock\<rparr>)"
    using binit_run [of "bio_boot pt d"] by blast
  have e: "s' = s" using boot s'(1) by simp
  have "b_dev (bufs s j) = 0" if "j < NBUF" for j
    using unlinked_eqD(2) [OF s'(3) [OF that]] e by (simp add: bio_boot_def buf0_def)
  then show ?case using s'(2) e by (auto simp: cache_wf_def idents_unique_def)
next
  case (step s s')
  then show ?case using bio_step_wf by blast
qed

section \<open>Properties\<close>

lemmas fresh = fresh_bio [of blank_disk, OF blank_len]

lemma fresh_bread: "\<exists>i s'. bread ROOTDEV n (fresh_bio blank_disk) = Done i s' \<and> took 0 n (fresh_bio blank_disk) i s'"
  by (rule bread_spec) (simp_all add: fresh)

text \<open>
  C5. \<^verbatim>\<open>bread\<close> is correct: when the running process does not hold the block and a buffer can be
  found for it, the call returns one buffer, locked by the process, that names the block and
  holds its current contents; no block changes contents and no other buffer is touched.
\<close>

theorem bread_correct:
  assumes "bio_ok p s" and "\<forall>i\<in>held s. \<not> is_block n (bufs s i)"
    and "card (held s \<union> pinset s) < NBUF \<or> (\<exists>i<NBUF. is_block n (bufs s i))"
  shows "\<exists>i s'. bread ROOTDEV n s = Done i s' \<and> bio_ok p s' \<and> i < NBUF \<and> i \<notin> held s \<and>
     held s' = insert i (held s) \<and> is_block n (bufs s' i) \<and> b_valid (bufs s' i) \<and>
     b_data (bufs s' i) = bview s n \<and> bview s' = bview s \<and> bio_disk s' = bio_disk s \<and>
     (\<forall>j. j \<noteq> i \<longrightarrow> bufs s' j = bufs s j)"
proof -
  obtain i s' where r: "bread ROOTDEV n s = Done i s'" and t: "took p n s i s'"
    using bread_spec [OF assms(1) _ assms(3)] assms(2) by blast
  have "b_valid (bufs s' i)" using t heldD [of p s' i] by (simp add: took_def)
  with r t show ?thesis unfolding took_def by blast
qed

theorem bread_correct_witness:
  "\<exists>i s'. bread ROOTDEV 7 (fresh_bio blank_disk) = Done i s' \<and> i < NBUF \<and> is_block 7 (bufs s' i) \<and>
     b_data (bufs s' i) = replicate BSIZE 0"
proof -
  have "bview (fresh_bio blank_disk) 7 = replicate BSIZE 0" by (simp add: fresh blank_disk_def)
  then show ?thesis using bread_correct [of 0 "fresh_bio blank_disk" 7] fresh(2,3,4) by auto
qed

text \<open>
  C6. In every cache reachable from \<^verbatim>\<open>binit\<close> by any interleaving of reads, waits, writes,
  releases, pins and context switches, the list visits every buffer exactly once in both
  directions, and no two buffers name the same block of a device.
\<close>

theorem one_buffer_per_block:
  assumes "bio_reach s"
  shows "(\<exists>xs. lru (bufs s) xs \<and> length xs = NBUF) \<and>
     (\<forall>i<NBUF. \<forall>j<NBUF. b_dev (bufs s i) \<noteq> 0 \<and> b_dev (bufs s i) = b_dev (bufs s j) \<and>
        b_blockno (bufs s i) = b_blockno (bufs s j) \<longrightarrow> i = j)"
proof -
  have wf: "cache_wf s" using assms by (rule bio_reach_wf)
  then obtain xs where "lru (bufs s) xs" by (auto simp: cache_wf_def)
  moreover from this have "length xs = NBUF" by (rule lru_length)
  ultimately show ?thesis using wf unfolding cache_wf_def idents_unique_def by metis
qed

theorem one_buffer_per_block_witness:
  "\<exists>i s'. bread ROOTDEV 7 (fresh_bio blank_disk) = Done i s' \<and> (\<exists>xs. lru (bufs s') xs \<and> length xs = NBUF)"
proof -
  obtain i s' where r: "bread ROOTDEV 7 (fresh_bio blank_disk) = Done i s'" using fresh_bread by blast
  have "bio_reach s'" using bio_reach.step [OF bio_reach.boot [OF fresh(1)]] bio_step.read [OF r] by blast
  with r show ?thesis using one_buffer_per_block [of s'] by blast
qed

text \<open>
  C7. An active buffer is never evicted: in a reachable cache no step of any process changes
  the device or block number of a buffer that is referenced or pinned.
\<close>

theorem active_buffer_not_evicted:
  assumes "bio_reach s" and "bio_step s s'" and "i < NBUF"
    and "b_refcnt (bufs s i) \<noteq> 0 \<or> b_pinned (bufs s i) \<noteq> 0"
  shows "b_dev (bufs s' i) = b_dev (bufs s i) \<and> b_blockno (bufs s' i) = b_blockno (bufs s i)"
  using bio_step_wf [OF assms(2) bio_reach_wf [OF assms(1)]] assms(3,4) unfolding kept_def by blast

theorem active_buffer_not_evicted_witness:
  "\<exists>i s1 j s2. bread ROOTDEV 7 (fresh_bio blank_disk) = Done i s1 \<and> bread ROOTDEV 8 s1 = Done j s2 \<and> i < NBUF \<and>
     b_refcnt (bufs s1 i) = 1 \<and> is_block 7 (bufs s2 i)"
proof -
  obtain i s1 where r: "bread ROOTDEV 7 (fresh_bio blank_disk) = Done i s1" and t: "took 0 7 (fresh_bio blank_disk) i s1"
    using fresh_bread by blast
  have h: "held s1 = {i}" "bio_ok 0 s1" "i < NBUF" "is_block 7 (bufs s1 i)" "pinset s1 = {}"
    using t fresh(3,4) by (auto simp: took_def pinset_def)
  have rc: "b_refcnt (bufs s1 i) = 1" using heldD [OF h(2), of i] h(1) by simp
  have "\<exists>j s2. bread ROOTDEV 8 s1 = Done j s2 \<and> took 0 8 s1 j s2"
    by (rule bread_spec [OF h(2)]) (use h in \<open>auto simp: is_block_def\<close>)
  then obtain j s2 where r2: "bread ROOTDEV 8 s1 = Done j s2" by blast
  have "bio_reach s1" using bio_reach.step [OF bio_reach.boot [OF fresh(1)]] bio_step.read [OF r] by blast
  then have "is_block 7 (bufs s2 i)"
    using active_buffer_not_evicted [OF _ bio_step.read [OF r2] h(3)] rc h(4) by (simp add: is_block_def)
  with r r2 h rc show ?thesis by blast
qed

text \<open>
  C8. Eviction order. Releasing an unpinned buffer puts it where the next miss looks first: the
  buffer released last is the one that is recycled next, so the cache evicts the most recently
  used free entry.
\<close>

theorem last_released_recycled_first:
  assumes "bio_ok p s" and "i \<in> held s" and "b_pinned (bufs s i) = 0"
    and "b_data (bufs s i) = d_blocks (bio_disk s) (b_blockno (bufs s i))"
    and "\<forall>j<NBUF. \<not> is_block n (bufs s j)"
  shows "\<exists>s1 s2. brelse i s = Done () s1 \<and> bread ROOTDEV n s1 = Done i s2 \<and> is_block n (bufs s2 i)"
proof -
  obtain s1 where r: "brelse i s = Done () s1" and d: "dropped p s i s1"
    using brelse_spec [OF assms(1,2)] assms(4) by blast
  obtain xs where l: "lru (bufs s1) (xs @ [i])" using d by (auto simp: dropped_def)
  have d1: "bio_ok p s1" "held s1 = held s - {i}" "b_pinned (bufs s1 i) = 0" "b_refcnt (bufs s1 i) = 0"
    "\<And>j m. is_block m (bufs s1 j) = is_block m (bufs s j)" using d assms(3) by (auto simp: dropped_def)
  have st: "set (xs @ [i]) = {..<NBUF}" using l by (simp add: lru_def)
  have miss: "find (\<lambda>j. b_dev (bufs s1 j) = ROOTDEV \<and> b_blockno (bufs s1 j) = n) (xs @ [i]) = None"
    using d1(5) assms(5) st by (auto simp: find_None_iff is_block_def)
  have cur: "cur (bio_pt s1) = Some p" using bio_okD(1) [OF d1(1)] .
  have i: "i \<in> set (xs @ [i])" by simp
  then have "i < NBUF" using st by blast
  then have nl: "\<not> sl_locked (b_lock (bufs s1 i))" using d1(2) by (auto simp: held_def)
  have "bget ROOTDEV n s1 = Done i (upd_buf i (\<lambda>b. b\<lparr>b_lock := owned (bio_pt s1) p\<rparr>) (reassigned i ROOTDEV n s1))"
    unfolding bget_lru [OF l] miss using d1(3,4) cur nl
    by (simp add: acquiresleep_buf_free reassigned_def upd_buf_def)
  then show ?thesis using r by (simp add: bread_def kbind_def kseq_def reassigned_def upd_buf_def is_block_def)
qed

theorem last_released_recycled_first_witness:
  "\<exists>i s0 s1 s2. bread ROOTDEV 7 (fresh_bio blank_disk) = Done i s0 \<and> brelse i s0 = Done () s1 \<and> bread ROOTDEV 8 s1 = Done i s2"
proof -
  obtain i s0 where r: "bread ROOTDEV 7 (fresh_bio blank_disk) = Done i s0" and t: "took 0 7 (fresh_bio blank_disk) i s0"
    using fresh_bread by blast
  have h: "i \<in> held s0" "bio_ok 0 s0" "is_block 7 (bufs s0 i)" "b_pinned (bufs s0 i) = 0"
    "b_data (bufs s0 i) = d_blocks (bio_disk s0) (b_blockno (bufs s0 i))"
    using t fresh(4) unfolding took_def is_block_def by (auto simp: pinset_def)
  have "\<forall>j<NBUF. \<not> is_block 8 (bufs s0 j)"
  proof (intro allI impI)
    fix j assume "j < NBUF"
    then show "\<not> is_block 8 (bufs s0 j)"
      using t fresh(7) [of j] h(3) by (cases "j = i") (auto simp: took_def is_block_def)
  qed
  with last_released_recycled_first [OF h(2,1,4,5)] r show ?thesis by blast
qed

text \<open>
  \<^verbatim>\<open>binit\<close> always succeeds and links every buffer once; since each buffer is inserted behind
  the sentinel, the forward order is the descending index order.
\<close>

theorem binit_order:
  "\<exists>s'. binit s = Done () s' \<and> lru (bufs s') (rev [0..<NBUF]) \<and>
     (\<forall>j<NBUF. b_lock (bufs s' j) = initsleeplock \<and> b_data (bufs s' j) = b_data (bufs s j))"
proof -
  obtain s' where "binit s = Done () s'" "lru (bufs s') (rev all_bufs)"
    "\<And>j. j < NBUF \<Longrightarrow> unlinked (bufs s' j) = unlinked ((bufs s j)\<lparr>b_lock := initsleeplock\<rparr>)"
    using binit_run by blast
  moreover from this(3) have "b_lock (bufs s' j) = initsleeplock \<and> b_data (bufs s' j) = b_data (bufs s j)" if "j < NBUF" for j
    using unlinked_eqD(4,7) [of "bufs s' j" "(bufs s j)\<lparr>b_lock := initsleeplock\<rparr>"] that by simp
  ultimately show ?thesis unfolding all_bufs_def by blast
qed

theorem binit_order_witness:
  "\<exists>s'. binit (bio_boot ptable_bss blank_disk) = Done () s' \<and> lru (bufs s') (rev [0..<NBUF])"
  using binit_order [of "bio_boot ptable_bss blank_disk"] by blast

end
