(* ===== verification/Log.thy ===== *)
theory Log
  imports Bio_Spec
begin

text \<open>
  The redo log, \<^verbatim>\<open>kernel/log.c\<close>. The state extends the buffer cache by \<^verbatim>\<open>struct log\<close> and the
  log's own copy of the superblock. The in-memory header \<^verbatim>\<open>log.lh\<close> is the count \<open>l_n\<close> and the
  array \<open>l_block\<close>; an access outside \<^verbatim>\<open>block[LOGSIZE]\<close> or outside the 1024 bytes of a buffer
  is undefined behaviour in C and a \<open>Fault\<close> here. The log spinlock only brackets code that
  cannot be interrupted, so the operations between \<^verbatim>\<open>acquire\<close> and \<^verbatim>\<open>release\<close> are one step.
\<close>

section \<open>State\<close>

abbreviation MAXOPBLOCKS :: int where "MAXOPBLOCKS \<equiv> 10"
abbreviation LOGSIZE :: nat where "LOGSIZE \<equiv> 30"
abbreviation FSMAGIC :: u32 where "FSMAGIC \<equiv> 0x10203040"

record superblock =
  sb_magic :: u32
  sb_size :: u32
  sb_nblocks :: u32
  sb_ninodes :: u32
  sb_nlog :: u32
  sb_logstart :: u32
  sb_inodestart :: u32
  sb_bmapstart :: u32

definition decode_sb :: "bytes \<Rightarrow> superblock" where
  "decode_sb d = \<lparr>sb_magic = get32 d 0, sb_size = get32 d 4, sb_nblocks = get32 d 8, sb_ninodes = get32 d 12,
     sb_nlog = get32 d 16, sb_logstart = get32 d 20, sb_inodestart = get32 d 24, sb_bmapstart = get32 d 28\<rparr>"

record logst =
  l_bio :: bio
  l_sb :: superblock
  l_start :: int
  l_size :: int
  l_outstanding :: int
  l_committing :: bool
  l_dev :: int
  l_n :: int
  l_block :: "nat \<Rightarrow> u32"

definition lbio :: "(bio, 'a) kmonad \<Rightarrow> (logst, 'a) kmonad" where
  "lbio = klift l_bio (\<lambda>b s. s\<lparr>l_bio := b\<rparr>)"

definition ldata :: "nat \<Rightarrow> logst \<Rightarrow> bytes" where
  "ldata i s = b_data (bufs (l_bio s) i)"

definition lstore :: "nat \<Rightarrow> bytes \<Rightarrow> logst \<Rightarrow> logst" where
  "lstore i v s = s\<lparr>l_bio := set_data i v (l_bio s)\<rparr>"

definition lwakeup :: "chan \<Rightarrow> logst \<Rightarrow> logst" where
  "lwakeup ch s = s\<lparr>l_bio := (l_bio s)\<lparr>bio_pt := wakeup ch (bio_pt (l_bio s))\<rparr>\<rparr>"

text \<open>\<^verbatim>\<open>struct logheader\<close> inside a block: \<open>n\<close> at offset 0, \<open>block[i]\<close> at offset \<open>4 + 4 i\<close>.\<close>

definition hdr_n :: "bytes \<Rightarrow> int" where
  "hdr_n d = int_of_u32 (get32 d 0)"

definition hdr_block :: "bytes \<Rightarrow> nat \<Rightarrow> u32" where
  "hdr_block d i = get32 d (4 + 4 * i)"

section \<open>Superblock and header\<close>

definition log_readsb :: "(logst, unit) kmonad" where
  "log_readsb = kbind (kget l_dev) (\<lambda>dev.
     kbind (lbio (bread (u32_of_int dev) 1)) (\<lambda>bp.
     kseq (kmodify (\<lambda>s. s\<lparr>l_sb := decode_sb (ldata bp s)\<rparr>))
          (lbio (brelse bp))))"

definition write_head :: "(logst, unit) kmonad" where
  "write_head = kbind (kget (\<lambda>s. s)) (\<lambda>lg.
     kbind (lbio (bread (u32_of_int (l_dev lg)) (u32_of_int (l_start lg)))) (\<lambda>b.
     kseq (kmodify (\<lambda>s. lstore b (put32 (ldata b s) 0 (u32_of_int (l_n lg))) s))
    (kseq (kfor [0..<nat (l_n lg)] (\<lambda>i.
            if LOGSIZE \<le> i then kfault ''log.lh.block''
            else kmodify (\<lambda>s. lstore b (put32 (ldata b s) (4 + 4 * i) (l_block s i)) s)))
    (kseq (lbio (bwrite b)) (lbio (brelse b))))))"

definition check_entry :: "bytes \<Rightarrow> nat \<Rightarrow> (logst, unit) kmonad" where
  "check_entry d i =
     (if BSIZE < 8 + 4 * i then kfault ''hb->block''
      else kbind (kget (\<lambda>s. s)) (\<lambda>s.
        if hdr_block d i < u32_of_int (l_size s) + u32_of_int (l_start s) \<or> sb_size (l_sb s) \<le> hdr_block d i
        then kpanic ''log: impossible block number'' else kreturn ()))"

text \<open>The rest of \<^verbatim>\<open>read_head\<close> once the header block, with contents \<open>d\<close>, is in buffer \<open>b\<close>.\<close>

definition load_head :: "nat \<Rightarrow> bytes \<Rightarrow> (logst, unit) kmonad" where
  "load_head b d = kbind (kget l_size) (\<lambda>size.
     if hdr_n d < 0 \<or> size \<le> hdr_n d
     then kseq (lbio (brelse b)) (kpanic ''log: invalid header count'')
     else kseq (kfor [0..<nat (hdr_n d)] (check_entry d))
         (kseq (kmodify (\<lambda>s. s\<lparr>l_n := hdr_n d\<rparr>))
         (kseq (kfor [0..<nat (hdr_n d)] (\<lambda>i.
                 if LOGSIZE \<le> i then kfault ''log.lh.block''
                 else kmodify (\<lambda>s. s\<lparr>l_block := (l_block s)(i := hdr_block d i)\<rparr>)))
               (lbio (brelse b)))))"

definition read_head :: "(logst, unit) kmonad" where
  "read_head = kbind (kget (\<lambda>s. s)) (\<lambda>lg.
     kbind (lbio (bread (u32_of_int (l_dev lg)) (u32_of_int (l_start lg)))) (\<lambda>b.
     kbind (kget (ldata b)) (load_head b)))"

section \<open>Copying\<close>

text \<open>The block number of log slot \<open>tail\<close>: \<^verbatim>\<open>log.start + tail + 1\<close>.\<close>

definition slot_no :: "int \<Rightarrow> nat \<Rightarrow> u32" where
  "slot_no start tail = u32_of_int (start + int tail + 1)"

definition write_log_one :: "nat \<Rightarrow> (logst, unit) kmonad" where
  "write_log_one tail = kbind (kget (\<lambda>s. s)) (\<lambda>lg.
     kbind (lbio (bread (u32_of_int (l_dev lg)) (slot_no (l_start lg) tail))) (\<lambda>to.
     kbind (if LOGSIZE \<le> tail then kfault ''log.lh.block''
            else lbio (bread (u32_of_int (l_dev lg)) (l_block lg tail))) (\<lambda>from.
     kseq (kmodify (\<lambda>s. lstore to (ldata from s) s))
    (kseq (lbio (bwrite to)) (kseq (lbio (brelse to)) (lbio (brelse from)))))))"

definition write_log :: "(logst, unit) kmonad" where
  "write_log = kbind (kget l_n) (\<lambda>n. kfor [0..<nat n] write_log_one)"

definition install_one :: "bool \<Rightarrow> nat \<Rightarrow> (logst, unit) kmonad" where
  "install_one recovering tail = kbind (kget (\<lambda>s. s)) (\<lambda>lg.
     kbind (lbio (bread (u32_of_int (l_dev lg)) (slot_no (l_start lg) tail))) (\<lambda>lbuf.
     kbind (if LOGSIZE \<le> tail then kfault ''log.lh.block''
            else lbio (bread (u32_of_int (l_dev lg)) (l_block lg tail))) (\<lambda>dbuf.
     kseq (kmodify (\<lambda>s. lstore dbuf (ldata lbuf s) s))
    (kseq (lbio (bwrite dbuf))
    (kseq (if recovering then kreturn () else lbio (bunpin dbuf))
    (kseq (lbio (brelse lbuf)) (lbio (brelse dbuf))))))))"

definition install_trans :: "bool \<Rightarrow> (logst, unit) kmonad" where
  "install_trans recovering = kbind (kget l_n) (\<lambda>n. kfor [0..<nat n] (install_one recovering))"

section \<open>Recovery and commit\<close>

definition recover_from_log :: "(logst, unit) kmonad" where
  "recover_from_log = kseq read_head (kseq (install_trans True)
     (kseq (kmodify (\<lambda>s. s\<lparr>l_n := 0\<rparr>)) write_head))"

definition commit :: "(logst, unit) kmonad" where
  "commit = kbind (kget l_n) (\<lambda>n. if 0 < n
     then kseq write_log (kseq write_head (kseq (install_trans False)
         (kseq (kmodify (\<lambda>s. s\<lparr>l_n := 0\<rparr>)) write_head)))
     else kreturn ())"

definition initlog :: "int \<Rightarrow> (logst, unit) kmonad" where
  "initlog dev =
     (if BSIZE \<le> 4 + 4 * LOGSIZE then kpanic ''log: log header does not fit a block'' else
     kseq (kmodify (\<lambda>s. s\<lparr>l_dev := dev\<rparr>)) (kseq log_readsb
    (kbind (kget l_sb) (\<lambda>sb.
       if sb_magic sb \<noteq> FSMAGIC then kpanic ''log: bad magic in superblock''
       else if sb_nlog sb \<le> 0 \<or> sb_logstart sb \<le> 1 then kpanic ''log: invalid log region''
       else if sb_size sb < sb_logstart sb + sb_nlog sb then kpanic ''log: log region out of range''
       else kseq (kmodify (\<lambda>s. s\<lparr>l_start := int_of_u32 (sb_logstart sb), l_size := int_of_u32 (sb_nlog sb),
                l_n := 0, l_outstanding := 0, l_committing := False\<rparr>))
            recover_from_log))))"

section \<open>Transactions\<close>

text \<open>One pass of the admission loop: admitted, or asleep until the next wake-up retries.\<close>

definition begin_op :: "(logst, unit) kmonad" where
  "begin_op = kbind (kget (\<lambda>s. s)) (\<lambda>s.
     if l_committing s then lbio (klift bio_pt (\<lambda>pt b. b\<lparr>bio_pt := pt\<rparr>) (sleep ChanLog))
     else if int LOGSIZE < l_n s + (l_outstanding s + 1) * MAXOPBLOCKS
     then lbio (klift bio_pt (\<lambda>pt b. b\<lparr>bio_pt := pt\<rparr>) (sleep ChanLog))
     else kmodify (\<lambda>s. s\<lparr>l_outstanding := l_outstanding s + 1\<rparr>))"

definition logged :: "logst \<Rightarrow> u32 list" where
  "logged s = map (l_block s) [0..<nat (l_n s)]"

definition log_write :: "nat \<Rightarrow> (logst, unit) kmonad" where
  "log_write b = kbind (kget (\<lambda>s. s)) (\<lambda>s.
     if int LOGSIZE \<le> l_n s \<or> l_size s - 1 \<le> l_n s then kpanic ''log: too big a transaction''
     else if l_outstanding s < 1 then kpanic ''log_write outside of transaction''
     else if b_blockno (bufs (l_bio s) b) \<in> set (logged s) then kreturn ()
     else kseq (kmodify (\<lambda>s. s\<lparr>l_block := (l_block s)(nat (l_n s) := b_blockno (bufs (l_bio s) b)), l_n := l_n s + 1\<rparr>))
               (lbio (bpin b)))"

definition end_op :: "(logst, unit) kmonad" where
  "end_op = kseq (kmodify (\<lambda>s. s\<lparr>l_outstanding := l_outstanding s - 1\<rparr>))
     (kbind (kget (\<lambda>s. s)) (\<lambda>s.
        if l_committing s then kpanic ''log committing during end_op''
        else if l_outstanding s = 0
        then kseq (kmodify (\<lambda>s. s\<lparr>l_committing := True\<rparr>))
            (kseq commit
                  (kmodify (\<lambda>s. lwakeup ChanLog (s\<lparr>l_committing := False\<rparr>))))
        else kmodify (lwakeup ChanLog)))"

end
