(* ===== verification/Log_Spec.thy ===== *)
theory Log_Spec
  imports Log
begin

text \<open>
  Correctness of the redo log: what each operation does to the cache as its clients see it, the
  exact sequence of disk writes of a commit and of a recovery, and atomicity: whatever prefix of
  a commit's writes reaches the disk, recovery yields either the old or the new contents.
\<close>

section \<open>The cache contract on the log state\<close>

interpretation lc: block_cache_lift "bio_ok p" bio_abs bio_pt "\<lambda>_. ()" "bread ROOTDEV" "\<lambda>i s. b_data (bufs s i)"
  set_data bwrite brelse bpin bunpin "l_bio :: logst \<Rightarrow> bio" "\<lambda>b s. s\<lparr>l_bio := b\<rparr>" for p
  by unfold_locales auto

definition labs :: "logst \<Rightarrow> cache_abs" where
  "labs s = bio_abs (l_bio s)"

text \<open>Only the cache changed, and at most woke somebody up.\<close>

definition lframe :: "logst \<Rightarrow> logst \<Rightarrow> bool" where
  "lframe s s' \<longleftrightarrow> s' = s\<lparr>l_bio := l_bio s'\<rparr> \<and> awoken (bio_pt (l_bio s)) (bio_pt (l_bio s'))"

lemma lframe_refl [simp]: "lframe s s"
  by (simp add: lframe_def)

lemma lframe_sel:
  assumes "lframe s s'"
  shows "l_sb s' = l_sb s" "l_start s' = l_start s" "l_size s' = l_size s" "l_outstanding s' = l_outstanding s"
    "l_committing s' = l_committing s" "l_dev s' = l_dev s" "l_n s' = l_n s" "l_block s' = l_block s"
  using assms unfolding lframe_def by (metis logst.select_convs logst.surjective logst.update_convs(1))+

lemma lframe_trans: "lframe s t \<Longrightarrow> lframe t u \<Longrightarrow> lframe s u"
  unfolding lframe_def by (metis awoken_trans logst.surjective logst.update_convs(1))

lemma lframeI:
  assumes "((), s'\<lparr>l_bio := undefined\<rparr>) = ((), s\<lparr>l_bio := undefined\<rparr>)" "awoken (bio_pt (l_bio s)) (bio_pt (l_bio s'))"
  shows "lframe s s'"
proof -
  have "s' = (s'\<lparr>l_bio := undefined\<rparr>)\<lparr>l_bio := l_bio s'\<rparr>" by simp
  also have "\<dots> = s\<lparr>l_bio := l_bio s'\<rparr>" using assms(1) by simp
  finally show ?thesis using assms(2) by (simp add: lframe_def)
qed

section \<open>Geometry\<close>

definition geom :: "logst \<Rightarrow> bool" where
  "geom s \<longleftrightarrow> l_dev s = 1 \<and> 1 < l_start s \<and> 0 < l_size s \<and> l_start s + l_size s \<le> uint (sb_size (l_sb s)) \<and>
     l_start s + l_size s < 2 ^ 31"

definition home :: "logst \<Rightarrow> u32 \<Rightarrow> bool" where
  "home s b \<longleftrightarrow> l_start s + l_size s \<le> uint b \<and> b < sb_size (l_sb s)"

definition head_no :: "logst \<Rightarrow> u32" where
  "head_no s = u32_of_int (l_start s)"

lemma uint_u32_of_int: "0 \<le> i \<Longrightarrow> i < 2 ^ 32 \<Longrightarrow> uint (u32_of_int i) = i"
  by (simp add: u32_of_int_def uint_word_of_int)

lemma uint_slot: "geom s \<Longrightarrow> int t < l_size s \<Longrightarrow> uint (slot_no (l_start s) t) = l_start s + int t + 1"
  unfolding slot_no_def geom_def by (subst uint_u32_of_int) auto

lemma uint_head: "geom s \<Longrightarrow> uint (head_no s) = l_start s"
  unfolding head_no_def geom_def by (subst uint_u32_of_int) auto

lemma geom_apart:
  assumes "geom s"
  shows "home s b \<Longrightarrow> int t < l_size s - 1 \<Longrightarrow> slot_no (l_start s) t \<noteq> b"
    and "home s b \<Longrightarrow> head_no s \<noteq> b"
    and "int t < l_size s - 1 \<Longrightarrow> slot_no (l_start s) t \<noteq> head_no s"
    and "int t < l_size s - 1 \<Longrightarrow> int u < l_size s - 1 \<Longrightarrow> slot_no (l_start s) t = slot_no (l_start s) u \<Longrightarrow> t = u"
proof -
  have st: "uint (slot_no (l_start s) v) = l_start s + int v + 1" if "int v < l_size s - 1" for v
    using uint_slot [OF assms, of v] that by simp
  have hb: "l_start s + l_size s \<le> uint b" if "home s b" using that by (simp add: home_def)
  have sz: "0 < l_size s" using assms by (simp add: geom_def)
  note hd = uint_head [OF assms]
  show "slot_no (l_start s) t \<noteq> b" if "home s b" "int t < l_size s - 1"
  proof
    assume "slot_no (l_start s) t = b"
    then have "uint b = l_start s + int t + 1" using st [OF that(2)] by metis
    then show False using hb [OF that(1)] that(2) by linarith
  qed
  show "head_no s \<noteq> b" if "home s b" using hd hb [OF that] sz by (metis add.right_neutral add_le_cancel_left leD)
  show "slot_no (l_start s) t \<noteq> head_no s" if "int t < l_size s - 1"
  proof
    assume "slot_no (l_start s) t = head_no s"
    then have "l_start s + int t + 1 = l_start s" using st [OF that] hd by metis
    then show False by linarith
  qed
  show "t = u" if "int t < l_size s - 1" "int u < l_size s - 1" "slot_no (l_start s) t = slot_no (l_start s) u"
  proof -
    have "l_start s + int t + 1 = l_start s + int u + 1" using st [OF that(1)] st [OF that(2)] that(3) by metis
    then show ?thesis by linarith
  qed
qed

lemma geom_frame: "lframe s s' \<Longrightarrow> geom s' = geom s" "lframe s s' \<Longrightarrow> home s' = home s" "lframe s s' \<Longrightarrow> head_no s' = head_no s"
  by (auto simp: geom_def home_def head_no_def lframe_sel fun_eq_iff)

section \<open>One block at a time\<close>

lemma dev1 [simp]: "u32_of_int 1 = 1"
  by (simp add: u32_of_int_def)

lemmas lfolds = lbio_def ldata_def lstore_def labs_def

lemmas lcopy_out = lc.lift.copy_out [folded lfolds]
lemmas lcopy_in = lc.lift.copy_in [folded lfolds]
lemmas lchange = lc.lift.change_through [folded lfolds]
lemmas lpeek = lc.lift.peek [folded lfolds]
lemmas lview_len = lc.lift.view_len [folded lfolds]
lemmas lclean = lc.lift.clean [folded lfolds]
lemmas lstore_ok = lc.lift.store_ok [folded lfolds]
lemmas lfetch_held = lc.lift.fetch_held [folded lfolds]
lemmas lbusy_fin = lc.lift.hold_fin [folded lfolds busy_def]

lemma write_log_one_run:
  assumes ok: "bio_ok p (l_bio s)" and g: "geom s" and t: "t < LOGSIZE" "int t < l_size s - 1" "home s (l_block s t)"
    and h: "ca_hold (labs s) = Map.empty" and r: "card (busy (labs s)) < NBUF" "ca_pins (labs s) (l_block s t) \<noteq> 0"
  obtains s' where "write_log_one t s = Done () s'" "bio_ok p (l_bio s')"
    "labs s' = a_write (slot_no (l_start s) t) (ca_view (labs s) (l_block s t)) (labs s)" "lframe s s'"
proof (rule lcopy_out [OF ok geom_apart(1) [OF g t(3,2)]])
  show "ca_hold (labs s) (slot_no (l_start s) t) = None" "ca_hold (labs s) (l_block s t) = None" by (simp_all add: h)
  show "has_room (labs s) (slot_no (l_start s) t)" "ca_pins (labs s) (l_block s t) \<noteq> 0 \<or> card (busy (labs s)) + 1 < NBUF"
    using r by (simp_all add: has_room_busy)
  fix s'
  assume run: "kbind (lbio (bread 1 (slot_no (l_start s) t))) (\<lambda>i. kbind (lbio (bread 1 (l_block s t)))
        (\<lambda>j. kseq (kmodify (\<lambda>s. lstore i (ldata j s) s)) (kseq (lbio (bwrite i)) (kseq (lbio (brelse i)) (lbio (brelse j)))))) s = Done () s'"
    and ok': "bio_ok p (l_bio s')" "labs s' = a_write (slot_no (l_start s) t) (ca_view (labs s) (l_block s t)) (labs s)"
    and f: "awoken (bio_pt (l_bio s)) (bio_pt (l_bio s'))" "((), s'\<lparr>l_bio := undefined\<rparr>) = ((), s\<lparr>l_bio := undefined\<rparr>)"
  have "write_log_one t s = Done () s'"
    unfolding write_log_one_def using run t(1) g by (simp add: geom_def)
  then show thesis using that ok' lframeI [OF f(2,1)] by blast
qed

lemma install_one_run:
  assumes ok: "bio_ok p (l_bio s)" and g: "geom s" and t: "t < LOGSIZE" "int t < l_size s - 1" "home s (l_block s t)"
    and h: "ca_hold (labs s) = Map.empty"
    and r: "card (busy (labs s)) < NBUF" "ca_pins (labs s) (l_block s t) \<noteq> 0 \<or> card (busy (labs s)) + 1 < NBUF"
    and p: "\<not> rec \<Longrightarrow> 0 < ca_pins (labs s) (l_block s t)"
  obtains s' where "install_one rec t s = Done () s'" "bio_ok p (l_bio s')"
    "labs s' = (if rec then id else a_pin (l_block s t) (- 1))
       (a_write (l_block s t) (ca_view (labs s) (slot_no (l_start s) t)) (labs s))" "lframe s s'"
proof (rule lcopy_in [OF ok geom_apart(1) [OF g t(3,2)], where keep = rec])
  show "ca_hold (labs s) (slot_no (l_start s) t) = None" "ca_hold (labs s) (l_block s t) = None" by (simp_all add: h)
  show "has_room (labs s) (slot_no (l_start s) t)" "ca_pins (labs s) (l_block s t) \<noteq> 0 \<or> card (busy (labs s)) + 1 < NBUF"
    "\<not> rec \<Longrightarrow> 0 < ca_pins (labs s) (l_block s t)"
    using r p by (simp_all add: has_room_busy)
  fix s'
  assume run: "kbind (lbio (bread 1 (slot_no (l_start s) t))) (\<lambda>j. kbind (lbio (bread 1 (l_block s t)))
        (\<lambda>i. kseq (kmodify (\<lambda>s. lstore i (ldata j s) s)) (kseq (lbio (bwrite i))
           (kseq (if rec then kreturn () else lbio (bunpin i)) (kseq (lbio (brelse j)) (lbio (brelse i))))))) s = Done () s'"
    and ok': "bio_ok p (l_bio s')" "labs s' = (if rec then id else a_pin (l_block s t) (- 1))
       (a_write (l_block s t) (ca_view (labs s) (slot_no (l_start s) t)) (labs s))"
    and f: "awoken (bio_pt (l_bio s)) (bio_pt (l_bio s'))" "((), s'\<lparr>l_bio := undefined\<rparr>) = ((), s\<lparr>l_bio := undefined\<rparr>)"
  have "install_one rec t s = Done () s'"
    unfolding install_one_def using run t(1) g by (simp add: geom_def)
  then show thesis using that ok' lframeI [OF f(2,1)] by blast
qed

section \<open>The header\<close>

text \<open>The block \<^verbatim>\<open>write_head\<close> produces from the old contents of the header block.\<close>

definition hdr_enc :: "bytes \<Rightarrow> nat \<Rightarrow> (nat \<Rightarrow> u32) \<Rightarrow> bytes" where
  "hdr_enc d n f = fold (\<lambda>i d. put32 d (4 + 4 * i) (f i)) [0..<n] (put32 d 0 (of_nat n))"

lemma hdr_fold:
  assumes "length d = BSIZE" "n \<le> LOGSIZE"
  shows "length (fold (\<lambda>i d. put32 d (4 + 4 * i) (f i)) [0..<n] d) = BSIZE"
    "get32 (fold (\<lambda>i d. put32 d (4 + 4 * i) (f i)) [0..<n] d) 0 = get32 d 0"
    "i < n \<Longrightarrow> get32 (fold (\<lambda>i d. put32 d (4 + 4 * i) (f i)) [0..<n] d) (4 + 4 * i) = f i"
  using assms(2)
proof (induction n)
  case 0
  { case 1 show ?case using assms(1) by simp }
  { case 2 show ?case by simp }
  { case 3 then show ?case by simp }
next
  case (Suc n)
  have l: "length (fold (\<lambda>i d. put32 d (4 + 4 * i) (f i)) [0..<n] d) = BSIZE" if "Suc n \<le> LOGSIZE"
    by (rule Suc.IH(1)) (use that in simp)
  { case 1 then show ?case using l by simp }
  { case 2 then show ?case using l Suc.IH(2) by (simp add: get32_put32_other) }
  { case 3 then show ?case using l Suc.IH(3) by (cases "i = n") (simp_all add: get32_put32_other) }
qed

lemma hdr_enc:
  assumes "length d = BSIZE" "n \<le> LOGSIZE"
  shows "length (hdr_enc d n f) = BSIZE" "hdr_n (hdr_enc d n f) = int n" "i < n \<Longrightarrow> hdr_block (hdr_enc d n f) i = f i"
proof -
  have l: "length (put32 d 0 (of_nat n)) = BSIZE" using assms by simp
  show "length (hdr_enc d n f) = BSIZE" "i < n \<Longrightarrow> hdr_block (hdr_enc d n f) i = f i"
    unfolding hdr_enc_def hdr_block_def using hdr_fold [OF l assms(2)] by auto
  have "int_of_u32 (of_nat n) = int n"
    using int_of_u32_of_int [of "int n"] assms(2) by (simp add: u32_of_int_def)
  then show "hdr_n (hdr_enc d n f) = int n"
    unfolding hdr_enc_def hdr_n_def hdr_fold(2) [OF l assms(2)] using assms(1) by simp
qed

lemma lstore_lstore [simp]: "lstore i v (lstore i u s) = lstore i v s"
  by (simp add: lstore_def set_data_def upd_buf_def)

lemma ldata_lstore [simp]: "ldata i (lstore i v s) = v"
  by (simp add: ldata_def lstore_def set_data_def upd_buf_def)

lemma lstore_sel [simp]: "l_block (lstore i v s) = l_block s" "l_n (lstore i v s) = l_n s"
  by (simp_all add: lstore_def)

lemma lstore_same [simp]: "lstore i (ldata i s) s = s"
  by (simp add: ldata_def lstore_def set_data_def upd_buf_def)

lemma fill_header:
  "\<forall>t\<in>set ts. t < LOGSIZE \<Longrightarrow>
   kfor ts (\<lambda>i. if LOGSIZE \<le> i then kfault e else kmodify (\<lambda>s. lstore b (put32 (ldata b s) (4 + 4 * i) (l_block s i)) s)) s =
   Done () (lstore b (fold (\<lambda>i d. put32 d (4 + 4 * i) (l_block s i)) ts (ldata b s)) s)"
  by (induction ts arbitrary: s) (auto simp: kseq_def kbind_def)

lemma write_head_run:
  assumes ok: "bio_ok p (l_bio s)" and g: "geom s" and n: "0 \<le> l_n s" "l_n s \<le> int LOGSIZE"
    and h: "ca_hold (labs s) = Map.empty" and r: "card (busy (labs s)) < NBUF"
  obtains s' where "write_head s = Done () s'" "bio_ok p (l_bio s')"
    "labs s' = a_write (head_no s) (hdr_enc (ca_view (labs s) (head_no s)) (nat (l_n s)) (l_block s)) (labs s)" "lframe s s'"
proof -
  let ?d = "ca_view (labs s) (head_no s)" and ?n = "nat (l_n s)"
  let ?v = "hdr_enc ?d ?n (l_block s)"
  define f where "f = (\<lambda>b. kseq (kmodify (\<lambda>s'. lstore b (put32 (ldata b s') 0 (u32_of_int (l_n s))) s'))
     (kfor [0..<?n] (\<lambda>i. if LOGSIZE \<le> i then kfault ''log.lh.block''
            else kmodify (\<lambda>s. lstore b (put32 (ldata b s) (4 + 4 * i) (l_block s i)) s))))"
  have n': "?n \<le> LOGSIZE" using n by simp
  have len: "length ?v = BSIZE" using hdr_enc(1) [OF lview_len [OF ok] n'] .
  have un: "u32_of_int (l_n s) = of_nat ?n" using n(1) by (simp add: u32_of_int_def)
  have fs: "\<exists>t'. f i t = Done () t' \<and> bio_ok p (l_bio t') \<and> labs t' = a_store (head_no s) ?v (labs t) \<and>
      bio_pt (l_bio t') = bio_pt (l_bio t) \<and> ((), t'\<lparr>l_bio := undefined\<rparr>) = ((), t\<lparr>l_bio := undefined\<rparr>)"
    if t: "bio_ok p (l_bio t)" "labs t = a_take (head_no s) i (labs s)" "((), t\<lparr>l_bio := undefined\<rparr>) = ((), s\<lparr>l_bio := undefined\<rparr>)" for i t
  proof -
    have hd: "ca_hold (labs t) (head_no s) = Some i" by (simp add: t a_take_def)
    have dt: "ldata i t = ?d" using lfetch_held [OF t(1) hd] by (simp add: t)
    have bl: "l_block t = l_block s" using t(3) by (metis Pair_inject logst.select_convs(9) logst.surjective logst.update_convs(1))
    have "f i t = Done () (lstore i ?v t)"
      unfolding f_def kseq_Done [OF kmodify_run]
      by (subst fill_header) (use n' in \<open>simp_all add: dt bl hdr_enc_def un\<close>)
    then show ?thesis using lstore_ok [OF t(1) hd len] by blast
  qed
  show thesis
  proof (rule lchange [OF ok, where n = "head_no s" and f = f and v = ?v])
    show "ca_hold (labs s) (head_no s) = None" by (simp add: h)
    show "has_room (labs s) (head_no s)" using r by (simp add: has_room_busy)
    fix i t assume "bio_ok p (l_bio t)" "labs t = a_take (head_no s) i (labs s)" "((), t\<lparr>l_bio := undefined\<rparr>) = ((), s\<lparr>l_bio := undefined\<rparr>)"
    then show "\<exists>t'. f i t = Done () t' \<and> bio_ok p (l_bio t') \<and> labs t' = a_store (head_no s) ?v (labs t) \<and>
      bio_pt (l_bio t') = bio_pt (l_bio t) \<and> ((), t'\<lparr>l_bio := undefined\<rparr>) = ((), t\<lparr>l_bio := undefined\<rparr>)" by (rule fs)
  next
    fix s' assume run: "kbind (lbio (bread 1 (head_no s))) (\<lambda>i. kseq (f i) (kseq (lbio (bwrite i)) (lbio (brelse i)))) s = Done () s'"
      and ok': "bio_ok p (l_bio s')" "labs s' = a_write (head_no s) ?v (labs s)"
      and fr: "awoken (bio_pt (l_bio s)) (bio_pt (l_bio s'))" "((), s'\<lparr>l_bio := undefined\<rparr>) = ((), s\<lparr>l_bio := undefined\<rparr>)"
    have "write_head s = Done () s'"
      using run g unfolding write_head_def f_def kseq_assoc by (simp add: geom_def head_no_def)
    then show thesis using that ok' lframeI [OF fr(2,1)] by blast
  qed
qed

section \<open>Loops\<close>

definition write_all :: "(u32 \<times> bytes) list \<Rightarrow> cache_abs \<Rightarrow> cache_abs" where
  "write_all ws = fold (\<lambda>(n, v). a_write n v) ws"

definition unpin_all :: "u32 list \<Rightarrow> cache_abs \<Rightarrow> cache_abs" where
  "unpin_all bs = fold (\<lambda>b. a_pin b (- 1)) bs"

lemma write_all_simps [simp]: "write_all [] a = a" "write_all ((n, v) # ws) a = write_all ws (a_write n v a)"
  "write_all (xs @ ys) a = write_all ys (write_all xs a)"
  by (simp_all add: write_all_def)

lemma unpin_all_simps [simp]: "unpin_all [] a = a" "unpin_all (b # bs) a = unpin_all bs (a_pin b (- 1) a)"
  by (simp_all add: unpin_all_def)

lemma a_write_sel [simp]: "ca_hold (a_write n v a) = ca_hold a" "ca_pins (a_write n v a) = ca_pins a"
  "ca_view (a_write n v a) = (ca_view a)(n := v)" "ca_disk (a_write n v a) = disk_write n v (ca_disk a)"
  "busy (a_write n v a) = busy a"
  by (simp_all add: a_write_def busy_def)

lemma a_pin_sel [simp]: "ca_hold (a_pin n k a) = ca_hold a" "ca_view (a_pin n k a) = ca_view a" "ca_disk (a_pin n k a) = ca_disk a"
  "ca_pins (a_pin n k a) = (ca_pins a)(n := ca_pins a n + k)"
  by (simp_all add: a_pin_def)

lemma write_pin_commute: "a_write n v (a_pin m k a) = a_pin m k (a_write n v a)"
  by (simp add: a_write_def a_pin_def)

lemma write_all_pin: "write_all ws (a_pin m k a) = a_pin m k (write_all ws a)"
  by (induction ws arbitrary: a) (auto simp: write_pin_commute)

lemma write_all_sel [simp]: "ca_hold (write_all ws a) = ca_hold a" "ca_pins (write_all ws a) = ca_pins a" "busy (write_all ws a) = busy a"
  by (induction ws arbitrary: a) auto

lemma unpin_all_sel [simp]: "ca_hold (unpin_all bs a) = ca_hold a" "ca_view (unpin_all bs a) = ca_view a" "ca_disk (unpin_all bs a) = ca_disk a"
  by (induction bs arbitrary: a) auto

lemma unpin_all_pins: "distinct bs \<Longrightarrow> ca_pins (unpin_all bs a) m = (if m \<in> set bs then ca_pins a m - 1 else ca_pins a m)"
  by (induction bs arbitrary: a) auto

lemma busy_pin_down: "ca_pins a b \<noteq> 0 \<Longrightarrow> busy (a_pin b k a) \<subseteq> busy a"
  by (auto simp: busy_def split: if_splits)

lemma write_log_loop:
  assumes "bio_ok p (l_bio s)" "geom s" "ca_hold (labs s) = Map.empty" "card (busy (labs s)) < NBUF"
    "\<forall>t\<in>set ts. t < LOGSIZE \<and> int t < l_size s - 1 \<and> home s (l_block s t) \<and> ca_pins (labs s) (l_block s t) \<noteq> 0"
  shows "\<exists>s'. kfor ts write_log_one s = Done () s' \<and> bio_ok p (l_bio s') \<and> lframe s s' \<and>
    labs s' = write_all (map (\<lambda>t. (slot_no (l_start s) t, ca_view (labs s) (l_block s t))) ts) (labs s)"
  using assms
proof (induction ts arbitrary: s)
  case Nil
  then show ?case by simp
next
  case (Cons t ts)
  have t: "t < LOGSIZE" "int t < l_size s - 1" "home s (l_block s t)" "ca_pins (labs s) (l_block s t) \<noteq> 0"
    using Cons.prems(5) by auto
  obtain s1 where 1: "write_log_one t s = Done () s1" "bio_ok p (l_bio s1)"
    "labs s1 = a_write (slot_no (l_start s) t) (ca_view (labs s) (l_block s t)) (labs s)" "lframe s s1"
    by (rule write_log_one_run [OF Cons.prems(1,2) t(1-3) Cons.prems(3,4) t(4)])
  note fr = lframe_sel [OF 1(4)] geom_frame [OF 1(4)]
  have "\<exists>s'. kfor ts write_log_one s1 = Done () s' \<and> bio_ok p (l_bio s') \<and> lframe s1 s' \<and>
    labs s' = write_all (map (\<lambda>t. (slot_no (l_start s1) t, ca_view (labs s1) (l_block s1 t))) ts) (labs s1)"
    by (rule Cons.IH) (use Cons.prems 1 fr in auto)
  then obtain s' where 2: "kfor ts write_log_one s1 = Done () s'" "bio_ok p (l_bio s')" "lframe s1 s'"
    "labs s' = write_all (map (\<lambda>t. (slot_no (l_start s1) t, ca_view (labs s1) (l_block s1 t))) ts) (labs s1)" by blast
  have "ca_view (labs s1) (l_block s1 u) = ca_view (labs s) (l_block s u)" if "u \<in> set ts" for u
    using geom_apart(1) [OF Cons.prems(2) _ t(2), of "l_block s u"] Cons.prems(5) that by (simp add: 1 fr)
  then have m: "map (\<lambda>t. (slot_no (l_start s1) t, ca_view (labs s1) (l_block s1 t))) ts =
    map (\<lambda>t. (slot_no (l_start s) t, ca_view (labs s) (l_block s t))) ts" by (simp add: fr)
  have "labs s' = write_all (map (\<lambda>t. (slot_no (l_start s) t, ca_view (labs s) (l_block s t))) (t # ts)) (labs s)"
    using 2(4) unfolding m by (simp add: 1(3))
  moreover have "kfor (t # ts) write_log_one s = Done () s'" using 1(1) 2(1) by simp
  ultimately show ?case using 2(2) lframe_trans [OF 1(4) 2(3)] by blast
qed

lemma install_loop:
  assumes "bio_ok p (l_bio s)" "geom s" "ca_hold (labs s) = Map.empty" "card (busy (labs s)) < NBUF"
    "\<forall>t\<in>set ts. t < LOGSIZE \<and> int t < l_size s - 1 \<and> home s (l_block s t)"
    "if rec then card (busy (labs s)) + 1 < NBUF else distinct (map (l_block s) ts) \<and> (\<forall>t\<in>set ts. 0 < ca_pins (labs s) (l_block s t))"
  shows "\<exists>s'. kfor ts (install_one rec) s = Done () s' \<and> bio_ok p (l_bio s') \<and> lframe s s' \<and>
    labs s' = (if rec then id else unpin_all (map (l_block s) ts))
      (write_all (map (\<lambda>t. (l_block s t, ca_view (labs s) (slot_no (l_start s) t))) ts) (labs s))"
  using assms
proof (induction ts arbitrary: s)
  case Nil
  then show ?case by simp
next
  case (Cons t ts)
  have t: "t < LOGSIZE" "int t < l_size s - 1" "home s (l_block s t)" using Cons.prems(5) by auto
  have r: "ca_pins (labs s) (l_block s t) \<noteq> 0 \<or> card (busy (labs s)) + 1 < NBUF" and p: "\<not> rec \<Longrightarrow> 0 < ca_pins (labs s) (l_block s t)"
    using Cons.prems(6) by (auto split: if_splits)
  let ?w = "a_write (l_block s t) (ca_view (labs s) (slot_no (l_start s) t)) (labs s)"
  obtain s1 where 1: "install_one rec t s = Done () s1" "bio_ok p (l_bio s1)"
    "labs s1 = (if rec then id else a_pin (l_block s t) (- 1)) ?w" "lframe s s1"
    by (rule install_one_run [OF Cons.prems(1,2) t Cons.prems(3,4) r p])
  note fr = lframe_sel [OF 1(4)] geom_frame [OF 1(4)]
  have fin: "finite (busy (labs s))" using lbusy_fin [OF Cons.prems(1)] .
  have "busy (labs s1) \<subseteq> busy (labs s)"
    using busy_pin_down [of ?w "l_block s t" "- 1"] p by (auto simp: 1)
  then have c: "card (busy (labs s1)) \<le> card (busy (labs s))" using fin by (simp add: card_mono)
  have "\<exists>s'. kfor ts (install_one rec) s1 = Done () s' \<and> bio_ok p (l_bio s') \<and> lframe s1 s' \<and>
    labs s' = (if rec then id else unpin_all (map (l_block s1) ts))
      (write_all (map (\<lambda>t. (l_block s1 t, ca_view (labs s1) (slot_no (l_start s1) t))) ts) (labs s1))"
  proof (rule Cons.IH)
    show "ca_hold (labs s1) = Map.empty" using Cons.prems(3) by (simp add: 1)
    show "if rec then card (busy (labs s1)) + 1 < NBUF
       else distinct (map (l_block s1) ts) \<and> (\<forall>t\<in>set ts. 0 < ca_pins (labs s1) (l_block s1 t))"
    proof (cases rec)
      case False
      then have "distinct (map (l_block s) ts)" "\<forall>u\<in>set ts. l_block s u \<noteq> l_block s t" "\<forall>t\<in>set ts. 0 < ca_pins (labs s) (l_block s t)"
        using Cons.prems(6) by (auto, metis imageI)
      then show ?thesis using False by (auto simp: 1 fr)
    qed (use Cons.prems(6) c in simp)
  qed (use Cons.prems 1 fr c in auto)
  then obtain s' where 2: "kfor ts (install_one rec) s1 = Done () s'" "bio_ok p (l_bio s')" "lframe s1 s'"
    "labs s' = (if rec then id else unpin_all (map (l_block s1) ts))
      (write_all (map (\<lambda>t. (l_block s1 t, ca_view (labs s1) (slot_no (l_start s1) t))) ts) (labs s1))" by blast
  have "ca_view (labs s1) (slot_no (l_start s1) u) = ca_view (labs s) (slot_no (l_start s) u)" if "u \<in> set ts" for u
    using geom_apart(1) [OF Cons.prems(2) t(3), of u] Cons.prems(5) that by (simp add: 1 fr)
  then have m: "map (\<lambda>t. (l_block s1 t, ca_view (labs s1) (slot_no (l_start s1) t))) ts =
    map (\<lambda>t. (l_block s t, ca_view (labs s) (slot_no (l_start s) t))) ts" by (simp add: fr)
  have "labs s' = (if rec then id else unpin_all (map (l_block s) (t # ts)))
      (write_all (map (\<lambda>t. (l_block s t, ca_view (labs s) (slot_no (l_start s) t))) (t # ts)) (labs s))"
    using 2(4) unfolding m by (simp add: 1(3) fr write_all_pin)
  moreover have "kfor (t # ts) (install_one rec) s = Done () s'" using 1(1) 2(1) by simp
  ultimately show ?case using 2(2) lframe_trans [OF 1(4) 2(3)] by blast
qed

section \<open>Lists of writes\<close>

definition put_blocks :: "(u32 \<times> bytes) list \<Rightarrow> (u32 \<Rightarrow> bytes) \<Rightarrow> u32 \<Rightarrow> bytes" where
  "put_blocks ws = fold (\<lambda>(n, v) d. d(n := v)) ws"

lemma put_blocks_simps [simp]: "put_blocks [] d = d" "put_blocks ((n, v) # ws) d = put_blocks ws (d(n := v))"
  "put_blocks (xs @ ys) d = put_blocks ys (put_blocks xs d)"
  by (simp_all add: put_blocks_def)

lemma write_all_effect:
  "d_blocks (ca_disk (write_all ws a)) = put_blocks ws (d_blocks (ca_disk a))"
  "d_trace (ca_disk (write_all ws a)) = d_trace (ca_disk a) @ ws" "ca_view (write_all ws a) = put_blocks ws (ca_view a)"
  by (induction ws arbitrary: a) (auto simp: disk_write_def)

lemma put_blocks_other: "b \<notin> fst ` set ws \<Longrightarrow> put_blocks ws d b = d b"
  by (induction ws arbitrary: d) auto

lemma put_blocks_in: "b \<in> fst ` set ws \<Longrightarrow> put_blocks ws d b = put_blocks ws e b"
proof (induction ws arbitrary: d e)
  case (Cons w ws)
  obtain n v where w: "w = (n, v)" by (cases w)
  show ?case
  proof (cases "b \<in> fst ` set ws")
    case True
    then show ?thesis unfolding w put_blocks_simps by (rule Cons.IH)
  next
    case False
    then have "b = n" using Cons.prems w by auto
    then show ?thesis unfolding w put_blocks_simps put_blocks_other [OF False] by simp
  qed
qed simp

lemma put_blocks_again:
  assumes "set xs \<subseteq> set ws"
  shows "put_blocks ws (put_blocks xs d) = put_blocks ws d"
proof (rule ext)
  fix b
  show "put_blocks ws (put_blocks xs d) b = put_blocks ws d b"
  proof (cases "b \<in> fst ` set ws")
    case True
    then show ?thesis by (rule put_blocks_in)
  next
    case False
    then have "b \<notin> fst ` set xs" using assms by auto
    then show ?thesis using False by (simp add: put_blocks_other)
  qed
qed

lemma put_blocks_const:
  "(b, v) \<in> set ws \<Longrightarrow> \<forall>w\<in>set ws. fst w = b \<longrightarrow> snd w = v \<Longrightarrow> put_blocks ws d b = v"
proof (induction ws rule: rev_induct)
  case (snoc w ws)
  obtain n u where w: "w = (n, u)" by (cases w)
  show ?case
  proof (cases "n = b")
    case True
    then show ?thesis using snoc.prems(2) w by simp
  next
    case False
    then have "put_blocks ws d b = v" using snoc.prems w by (intro snoc.IH) auto
    then show ?thesis using False w by simp
  qed
qed simp

lemma put_blocks_map:
  assumes "t \<in> set ts" "\<And>u. u \<in> set ts \<Longrightarrow> f u = f t \<Longrightarrow> g u = g t"
  shows "put_blocks (map (\<lambda>t. (f t, g t)) ts) d (f t) = g t"
proof (rule put_blocks_const)
  show "(f t, g t) \<in> set (map (\<lambda>t. (f t, g t)) ts)" using assms(1) by simp
  show "\<forall>w\<in>set (map (\<lambda>t. (f t, g t)) ts). fst w = f t \<longrightarrow> snd w = g t"
    by (clarsimp simp del: set_upt) (rule assms(2))
qed

section \<open>Commit\<close>

definition log_ready :: "nat \<Rightarrow> logst \<Rightarrow> bool" where
  "log_ready p s \<longleftrightarrow> bio_ok p (l_bio s) \<and> geom s \<and> ca_hold (labs s) = Map.empty \<and>
     0 \<le> l_n s \<and> l_n s < int NBUF \<and> l_n s < l_size s \<and> distinct (logged s) \<and> (\<forall>b\<in>set (logged s). home s b) \<and>
     ca_pins (labs s) = (\<lambda>b. if b \<in> set (logged s) then 1 else 0) \<and>
     hdr_n (d_blocks (ca_disk (labs s)) (head_no s)) = 0"

definition commit_writes :: "logst \<Rightarrow> (u32 \<times> bytes) list" where
  "commit_writes s = (let n = nat (l_n s); v = ca_view (labs s); h = hdr_enc (v (head_no s)) n (l_block s) in
     map (\<lambda>t. (slot_no (l_start s) t, v (l_block s t))) [0..<n] @ [(head_no s, h)] @
     map (\<lambda>t. (l_block s t, v (l_block s t))) [0..<n] @ [(head_no s, put32 h 0 0)])"

lemma logged_nth: "set (logged s) = l_block s ` {..<nat (l_n s)}"
  by (auto simp: logged_def)

lemma log_readyD:
  assumes "log_ready p s"
  shows "bio_ok p (l_bio s)" "geom s" "ca_hold (labs s) = Map.empty" "nat (l_n s) \<le> LOGSIZE" "distinct (logged s)"
    "t < nat (l_n s) \<Longrightarrow> t < LOGSIZE \<and> int t < l_size s - 1 \<and> home s (l_block s t) \<and> ca_pins (labs s) (l_block s t) = 1"
    "card (busy (labs s)) < NBUF" "0 \<le> l_n s"
proof -
  show "bio_ok p (l_bio s)" "geom s" "ca_hold (labs s) = Map.empty" "nat (l_n s) \<le> LOGSIZE" "distinct (logged s)" "0 \<le> l_n s"
    using assms by (auto simp: log_ready_def)
  show "t < LOGSIZE \<and> int t < l_size s - 1 \<and> home s (l_block s t) \<and> ca_pins (labs s) (l_block s t) = 1" if "t < nat (l_n s)"
  proof -
    have "l_block s t \<in> set (logged s)" using that by (auto simp: logged_nth)
    then show ?thesis using assms that by (auto simp: log_ready_def)
  qed
  have "busy (labs s) = set (logged s)" using assms by (auto simp: log_ready_def busy_def)
  moreover have "card (set (logged s)) = nat (l_n s)"
    using distinct_card [of "logged s"] assms by (simp add: log_ready_def logged_def)
  ultimately show "card (busy (labs s)) < NBUF" using assms by (auto simp: log_ready_def)
qed

lemma lframe_n: "lframe s t \<Longrightarrow> lframe (s\<lparr>l_n := k\<rparr>) (t\<lparr>l_n := k\<rparr>)"
  by (cases s; cases t) (simp add: lframe_def)

lemma hdr_enc_0: "hdr_enc d 0 f = put32 d 0 0"
  by (simp add: hdr_enc_def)

lemma commit_run:
  assumes rdy: "log_ready p s" and n: "0 < l_n s"
  shows "\<exists>s'. commit s = Done () s' \<and> bio_ok p (l_bio s') \<and> lframe (s\<lparr>l_n := 0\<rparr>) s' \<and>
     labs s' = unpin_all (logged s) (write_all (commit_writes s) (labs s))"
proof -
  note rd = log_readyD [OF rdy]
  let ?ts = "[0..<nat (l_n s)]" and ?v = "ca_view (labs s)"
  let ?w1 = "map (\<lambda>t. (slot_no (l_start s) t, ?v (l_block s t))) ?ts"
  have "\<exists>s1. kfor ?ts write_log_one s = Done () s1 \<and> bio_ok p (l_bio s1) \<and> lframe s s1 \<and> labs s1 = write_all ?w1 (labs s)"
    by (rule write_log_loop [OF rd(1,2,3,7)]) (use rd(6) in auto)
  then obtain s1 where 1: "write_log s = Done () s1" "bio_ok p (l_bio s1)" "lframe s s1" "labs s1 = write_all ?w1 (labs s)"
    by (auto simp: write_log_def kbind_def)
  note fr1 = lframe_sel [OF 1(3)] geom_frame [OF 1(3)]
  have hs: "head_no s \<notin> fst ` set ?w1" using geom_apart(3) [OF rd(2)] rd(6) by (auto, metis)
  have vh: "ca_view (labs s1) (head_no s) = ?v (head_no s)" using hs by (simp add: 1 write_all_effect put_blocks_other)
  let ?h = "hdr_enc (?v (head_no s)) (nat (l_n s)) (l_block s)"
  obtain s2 where 2: "write_head s1 = Done () s2" "bio_ok p (l_bio s2)"
    "labs s2 = a_write (head_no s1) (hdr_enc (ca_view (labs s1) (head_no s1)) (nat (l_n s1)) (l_block s1)) (labs s1)" "lframe s1 s2"
    by (rule write_head_run [OF 1(2)]) (use rd rdy in \<open>auto simp: fr1 1 log_ready_def\<close>)
  have l2: "labs s2 = write_all (?w1 @ [(head_no s, ?h)]) (labs s)" by (simp add: 2 fr1 vh) (simp add: 1(4))
  have f2: "lframe s s2" using lframe_trans [OF 1(3) 2(4)] .
  note fr2 = lframe_sel [OF f2] geom_frame [OF f2]
  let ?w2 = "map (\<lambda>t. (l_block s t, ?v (l_block s t))) ?ts"
  have sv: "ca_view (labs s2) (slot_no (l_start s) t) = ?v (l_block s t)" if "t < nat (l_n s)" for t
  proof -
    have "put_blocks ?w1 ?v (slot_no (l_start s) t) = ?v (l_block s t)"
      by (rule put_blocks_map) (use that geom_apart(4) [OF rd(2)] rd(6) in auto)
    then show ?thesis using geom_apart(3) [OF rd(2), of t] rd(6) [OF that] by (simp add: l2 write_all_effect)
  qed
  have "\<exists>s3. kfor ?ts (install_one False) s2 = Done () s3 \<and> bio_ok p (l_bio s3) \<and> lframe s2 s3 \<and>
    labs s3 = (if False then id else unpin_all (map (l_block s2) ?ts))
      (write_all (map (\<lambda>t. (l_block s2 t, ca_view (labs s2) (slot_no (l_start s2) t))) ?ts) (labs s2))"
    by (rule install_loop [OF 2(2)]) (use rd rdy in \<open>auto simp: fr2 l2 log_ready_def logged_def\<close>)
  moreover have m: "map (\<lambda>t. (l_block s2 t, ca_view (labs s2) (slot_no (l_start s2) t))) ?ts = ?w2"
    using sv by (auto simp: fr2)
  ultimately obtain s3 where 3: "kfor ?ts (install_one False) s2 = Done () s3" "bio_ok p (l_bio s3)" "lframe s2 s3"
    "labs s3 = (if False then id else unpin_all (map (l_block s2) ?ts)) (write_all ?w2 (labs s2))"
    unfolding m by blast
  have i3: "install_trans False s2 = Done () s3" using 3(1) by (simp add: install_trans_def fr2)
  have 3: "bio_ok p (l_bio s3)" "lframe s2 s3" "labs s3 = unpin_all (logged s) (write_all ?w2 (labs s2))"
    using 3 by (simp_all add: fr2 logged_def)
  have f3: "lframe s s3" using lframe_trans [OF f2 3(2)] .
  note fr3 = lframe_sel [OF f3] geom_frame [OF f3]
  define s3' where "s3' = s3\<lparr>l_n := 0\<rparr>"
  have hh: "head_no s \<notin> fst ` set ?w2" using geom_apart(2) [OF rd(2)] rd(6) by (auto, metis)
  have v3: "ca_view (labs s3) (head_no s) = ?h" using hh by (simp add: 3 l2 write_all_effect put_blocks_other)
  have pins3: "ca_pins (labs s3) = (\<lambda>_. 0)"
    using rdy by (auto simp: 3 l2 unpin_all_pins [OF rd(5)] log_ready_def)
  have l3': "labs s3' = labs s3" "head_no s3' = head_no s" by (simp_all add: s3'_def labs_def head_no_def fr3)
  have g3: "geom s3'" using rd(2) by (simp add: s3'_def geom_def fr3)
  have h3: "ca_hold (labs s3') = Map.empty" using rd(3) by (simp add: l3' 3 l2)
  have "busy (labs s3') = {}" using h3 pins3 by (auto simp: busy_def l3')
  then have r3: "card (busy (labs s3')) < NBUF" by simp
  have o3: "bio_ok p (l_bio s3')" "0 \<le> l_n s3'" "l_n s3' \<le> int LOGSIZE" using 3(1) by (simp_all add: s3'_def)
  obtain s4 where 4: "write_head s3' = Done () s4" "bio_ok p (l_bio s4)"
    "labs s4 = a_write (head_no s3') (hdr_enc (ca_view (labs s3') (head_no s3')) (nat (l_n s3')) (l_block s3')) (labs s3')" "lframe s3' s4"
    by (rule write_head_run [OF o3(1) g3 o3(2,3) h3 r3])
  have l4: "labs s4 = a_write (head_no s) (put32 ?h 0 0) (labs s3)" by (simp add: 4 l3' v3) (simp add: s3'_def hdr_enc_0)
  have up: "a_write m v (unpin_all bs a) = unpin_all bs (a_write m v a)" for m v bs a
    by (induction bs arbitrary: a) (simp_all add: write_pin_commute)
  have "labs s4 = unpin_all (logged s) (write_all (commit_writes s) (labs s))"
    by (simp add: l4 3 l2 commit_writes_def Let_def up)
  moreover have "commit s = Done () s4"
    using n 1(1) 2(1) i3 4(1) by (simp add: commit_def s3'_def)
  moreover have "lframe (s\<lparr>l_n := 0\<rparr>) s4"
    by (rule lframe_trans [OF lframe_n [OF f3] 4(4) [unfolded s3'_def]])
  ultimately show ?thesis using 4(2) by blast
qed

section \<open>Recovery\<close>

lemma lbio_Done: "m (l_bio s) = Done x b \<Longrightarrow> lbio m s = Done x (s\<lparr>l_bio := b\<rparr>)"
  by (simp add: lbio_def)

definition hdr_valid :: "logst \<Rightarrow> bytes \<Rightarrow> bool" where
  "hdr_valid s h \<longleftrightarrow> 0 \<le> hdr_n h \<and> hdr_n h < l_size s \<and> hdr_n h \<le> int LOGSIZE \<and>
     (\<forall>i<nat (hdr_n h). home s (hdr_block h i))"

text \<open>The writes of a recovery that finds the disk contents \<open>d\<close>.\<close>

definition recovery :: "int \<Rightarrow> (u32 \<Rightarrow> bytes) \<Rightarrow> (u32 \<times> bytes) list" where
  "recovery start d = (let h = d (u32_of_int start) in
     map (\<lambda>i. (hdr_block h i, d (slot_no start i))) [0..<nat (hdr_n h)] @ [(u32_of_int start, put32 h 0 0)])"

lemma uint_bound32: "uint (w :: u32) < 2 ^ 32"
  using uint_lt2p [of w] by simp

lemma home_word:
  assumes "geom s"
  shows "home s b \<longleftrightarrow> \<not> (b < u32_of_int (l_size s) + u32_of_int (l_start s) \<or> sb_size (l_sb s) \<le> b)"
proof -
  have "u32_of_int (l_size s) + u32_of_int (l_start s) = u32_of_int (l_size s + l_start s)"
    by (simp add: u32_of_int_def)
  moreover have "uint (u32_of_int (l_size s + l_start s)) = l_size s + l_start s"
    using assms by (intro uint_u32_of_int) (auto simp: geom_def)
  ultimately show ?thesis
    by (auto simp: home_def word_less_def word_le_def)
qed

lemma check_loop:
  assumes "geom s" "\<forall>i\<in>set ts. i < LOGSIZE \<and> home s (hdr_block d i)"
  shows "kfor ts (check_entry d) s = Done () s"
  using assms(2)
proof (induction ts)
  case (Cons t ts)
  then have "check_entry d t s = Done () s"
    using home_word [OF assms(1), of "hdr_block d t"] by (auto simp: check_entry_def)
  with Cons show ?case by simp
qed simp

lemma load_loop:
  "\<forall>i\<in>set ts. i < LOGSIZE \<Longrightarrow>
   kfor ts (\<lambda>i. if LOGSIZE \<le> i then kfault e else kmodify (\<lambda>s. s\<lparr>l_block := (l_block s)(i := hdr_block d i)\<rparr>)) s =
   Done () (s\<lparr>l_block := (\<lambda>i. if i \<in> set ts then hdr_block d i else l_block s i)\<rparr>)"
proof (induction ts arbitrary: s)
  case (Cons t ts)
  have "(\<lambda>i. if i \<in> set ts then hdr_block d i else ((l_block s)(t := hdr_block d t)) i) =
    (\<lambda>i. if i \<in> set (t # ts) then hdr_block d i else l_block s i)" by auto
  with Cons show ?case by (simp add: kseq_def kbind_def cong: if_cong)
qed simp

definition with_header :: "bytes \<Rightarrow> logst \<Rightarrow> logst" where
  "with_header h s = s\<lparr>l_n := hdr_n h, l_block := (\<lambda>i. if i < nat (hdr_n h) then hdr_block h i else l_block s i)\<rparr>"

lemma read_head_run:
  assumes ok: "bio_ok p (l_bio s)" and g: "geom s" and h: "ca_hold (labs s) = Map.empty" and r: "card (busy (labs s)) < NBUF"
    and v: "hdr_valid s (ca_view (labs s) (head_no s))"
  obtains s' where "read_head s = Done () s'" "bio_ok p (l_bio s')" "labs s' = labs s"
    "lframe (with_header (ca_view (labs s) (head_no s)) s) s'"
proof -
  let ?d = "ca_view (labs s) (head_no s)"
  have hr: "ca_hold (bio_abs (l_bio s)) (head_no s) = None" "has_room (bio_abs (l_bio s)) (head_no s)"
    using h r by (simp_all add: has_room_busy labs_def)
  obtain i b1 b2 where b: "bread 1 (head_no s) (l_bio s) = Done i b1" "b_data (bufs b1 i) = ca_view (bio_abs (l_bio s)) (head_no s)"
    "brelse i b1 = Done () b2" "bio_ok p b2" "bio_abs b2 = bio_abs (l_bio s)" "awoken (bio_pt (l_bio s)) (bio_pt b2)"
    by (rule bc.peek [OF ok hr])
  have v': "0 \<le> hdr_n ?d" "hdr_n ?d < l_size s" "hdr_n ?d \<le> int LOGSIZE" "\<And>i. i < nat (hdr_n ?d) \<Longrightarrow> home s (hdr_block ?d i)"
    using v by (auto simp: hdr_valid_def)
  define s1 where "s1 = s\<lparr>l_bio := b1\<rparr>"
  have dt: "ldata i s1 = ?d" using b(2) by (simp add: ldata_def labs_def s1_def)
  have g1: "geom s1" "home s1 = home s" "l_size s1 = l_size s"
    using g by (simp_all add: geom_def home_def fun_eq_iff s1_def)
  define s4 where "s4 = (with_header ?d s1)\<lparr>l_bio := b2\<rparr>"
  have c: "kfor [0..<nat (hdr_n ?d)] (check_entry ?d) s1 = Done () s1"
    by (rule check_loop [OF g1(1)]) (use v' g1(2) in auto)
  have l: "kfor [0..<nat (hdr_n ?d)] (\<lambda>i. if LOGSIZE \<le> i then kfault ''log.lh.block'' else
      kmodify (\<lambda>s. s\<lparr>l_block := (l_block s)(i := hdr_block ?d i)\<rparr>)) (s1\<lparr>l_n := hdr_n ?d\<rparr>) = Done () (with_header ?d s1)"
    by (subst load_loop) (use v' in \<open>auto simp: with_header_def cong: if_cong\<close>)
  have rel: "lbio (brelse i) (with_header ?d s1) = Done () s4"
    by (simp add: lbio_def b(3) s4_def with_header_def s1_def)
  have rd: "lbio (bread 1 (head_no s)) s = Done i s1" by (simp add: lbio_def b(1) s1_def)
  have dev: "l_dev s = 1" using g by (simp add: geom_def)
  have "load_head i ?d s1 = Done () s4"
    unfolding load_head_def using v'(1,2) g1(3) c l rel by (simp add: kseq_def kbind_def)
  then have "read_head s = Done () s4"
    unfolding read_head_def by (simp add: dev head_no_def [symmetric] rd dt kbind_def)
  moreover have "lframe (with_header ?d s) s4" using b(6) by (simp add: lframe_def with_header_def s4_def s1_def cong: if_cong)
  moreover have "labs s4 = labs s" using b(5) by (simp add: labs_def s4_def)
  ultimately show thesis using that b(4) by (simp add: s4_def)
qed

definition idle :: "cache_abs \<Rightarrow> bool" where
  "idle a \<longleftrightarrow> ca_hold a = Map.empty \<and> ca_pins a = (\<lambda>_. 0)"

lemma idle_busy [simp]: "idle a \<Longrightarrow> busy a = {}"
  by (simp add: idle_def busy_def)

lemma idle_view: "bio_ok p (l_bio s) \<Longrightarrow> idle (labs s) \<Longrightarrow> ca_view (labs s) = d_blocks (ca_disk (labs s))"
  using lclean [of p s] by (auto simp: is_clean_def idle_def fun_eq_iff)

lemma recover_run:
  assumes ok: "bio_ok p (l_bio s)" and g: "geom s" and i: "idle (labs s)"
    and v: "hdr_valid s (d_blocks (ca_disk (labs s)) (head_no s))"
  shows "\<exists>s'. recover_from_log s = Done () s' \<and> bio_ok p (l_bio s') \<and>
     labs s' = write_all (recovery (l_start s) (d_blocks (ca_disk (labs s)))) (labs s) \<and>
     l_n s' = 0 \<and> l_sb s' = l_sb s \<and> l_start s' = l_start s \<and> l_size s' = l_size s \<and> l_dev s' = l_dev s \<and>
     l_outstanding s' = l_outstanding s \<and> l_committing s' = l_committing s \<and> awoken (bio_pt (l_bio s)) (bio_pt (l_bio s'))"
proof -
  let ?d = "d_blocks (ca_disk (labs s))"
  have vd: "ca_view (labs s) = ?d" by (rule idle_view [OF ok i])
  let ?h = "?d (head_no s)"
  have hn: "ca_hold (labs s) = Map.empty" "card (busy (labs s)) < NBUF" using i by (simp_all add: idle_def [of "labs s"])
  obtain s1 where 1: "read_head s = Done () s1" "bio_ok p (l_bio s1)" "labs s1 = labs s" "lframe (with_header ?h s) s1"
    by (rule read_head_run [OF ok g hn]) (use v vd in auto)
  note fr1 = lframe_sel [OF 1(4)]
  have n1: "l_n s1 = hdr_n ?h" "l_start s1 = l_start s" "l_size s1 = l_size s" "l_sb s1 = l_sb s" "l_dev s1 = l_dev s"
    "l_outstanding s1 = l_outstanding s" "l_committing s1 = l_committing s"
    and bl: "\<And>t. t < nat (hdr_n ?h) \<Longrightarrow> l_block s1 t = hdr_block ?h t"
    using fr1 by (simp_all add: with_header_def)
  have g1: "geom s1" "home s1 = home s" "head_no s1 = head_no s" using g n1 by (auto simp: geom_def home_def head_no_def fun_eq_iff)
  have v': "0 \<le> hdr_n ?h" "hdr_n ?h < l_size s" "hdr_n ?h \<le> int LOGSIZE" "\<And>i. i < nat (hdr_n ?h) \<Longrightarrow> home s (hdr_block ?h i)"
    using v by (auto simp: hdr_valid_def)
  let ?ts = "[0..<nat (hdr_n ?h)]"
  let ?w = "map (\<lambda>t. (hdr_block ?h t, ?d (slot_no (l_start s) t))) ?ts"
  have "\<exists>s2. kfor ?ts (install_one True) s1 = Done () s2 \<and> bio_ok p (l_bio s2) \<and> lframe s1 s2 \<and>
    labs s2 = (if True then id else unpin_all (map (l_block s1) ?ts))
      (write_all (map (\<lambda>t. (l_block s1 t, ca_view (labs s1) (slot_no (l_start s1) t))) ?ts) (labs s1))"
    by (rule install_loop [OF 1(2) g1(1)]) (use i v' bl in \<open>auto simp: 1(3) g1 n1 idle_def [of "labs s"]\<close>)
  moreover have m: "map (\<lambda>t. (l_block s1 t, ca_view (labs s1) (slot_no (l_start s1) t))) ?ts = ?w"
    using bl by (auto simp: n1 1(3) vd)
  ultimately obtain s2 where 2: "kfor ?ts (install_one True) s1 = Done () s2" "bio_ok p (l_bio s2)" "lframe s1 s2"
    "labs s2 = write_all ?w (labs s)"
    unfolding m by (auto simp: 1(3))
  have i2: "install_trans True s1 = Done () s2" using 2(1) by (simp add: install_trans_def n1)
  note fr2 = lframe_sel [OF 2(3)]
  define s2' where "s2' = s2\<lparr>l_n := 0\<rparr>"
  have l2: "labs s2' = labs s2" "head_no s2' = head_no s" by (simp_all add: s2'_def labs_def head_no_def fr2 n1)
  have g2: "geom s2'" using g by (simp add: s2'_def geom_def fr2 n1)
  have h2: "ca_hold (labs s2') = Map.empty" "card (busy (labs s2')) < NBUF" using hn i by (simp_all add: l2 2)
  have o2: "bio_ok p (l_bio s2')" "0 \<le> l_n s2'" "l_n s2' \<le> int LOGSIZE" using 2(2) by (simp_all add: s2'_def)
  obtain s3 where 3: "write_head s2' = Done () s3" "bio_ok p (l_bio s3)"
    "labs s3 = a_write (head_no s2') (hdr_enc (ca_view (labs s2') (head_no s2')) (nat (l_n s2')) (l_block s2')) (labs s2')" "lframe s2' s3"
    by (rule write_head_run [OF o2(1) g2 o2(2,3) h2])
  have "head_no s \<notin> fst ` set ?w"
  proof
    assume "head_no s \<in> fst ` set ?w"
    then obtain t where "t < nat (hdr_n ?h)" "head_no s = hdr_block ?h t" by auto
    then show False using geom_apart(2) [OF g v'(4)] by blast
  qed
  then have "ca_view (labs s2) (head_no s) = ?h" by (simp add: 2 write_all_effect put_blocks_other vd)
  then have "labs s3 = write_all (recovery (l_start s) ?d) (labs s)"
    by (simp add: 3 l2) (simp add: s2'_def hdr_enc_0 2(4) recovery_def Let_def head_no_def)
  moreover have "recover_from_log s = Done () s3"
    using 1(1) i2 3(1) by (simp add: recover_from_log_def s2'_def)
  moreover note fr3 = lframe_sel [OF 3(4)]
  moreover have "awoken (bio_pt (l_bio s)) (bio_pt (l_bio s3))"
    using 1(4) 2(3) 3(4) unfolding lframe_def s2'_def by (auto simp: with_header_def intro: awoken_trans)
  ultimately show ?thesis using 3(2) by (simp add: s2'_def fr2 n1)
qed

section \<open>Mounting\<close>

definition sb_geom :: "superblock \<Rightarrow> bool" where
  "sb_geom sb \<longleftrightarrow> sb_magic sb = FSMAGIC \<and> 0 < uint (sb_nlog sb) \<and> 1 < uint (sb_logstart sb) \<and>
     uint (sb_logstart sb) + uint (sb_nlog sb) \<le> uint (sb_size sb) \<and> uint (sb_logstart sb) + uint (sb_nlog sb) < 2 ^ 31"

definition mounted :: "superblock \<Rightarrow> logst \<Rightarrow> bool" where
  "mounted sb s \<longleftrightarrow> l_sb s = sb \<and> l_start s = uint (sb_logstart sb) \<and> l_size s = uint (sb_nlog sb) \<and> l_dev s = 1"

text \<open>A home block: inside the image and behind the log region.\<close>

definition home_blk :: "superblock \<Rightarrow> u32 \<Rightarrow> bool" where
  "home_blk sb b \<longleftrightarrow> uint (sb_logstart sb) + uint (sb_nlog sb) \<le> uint b \<and> b < sb_size sb"

definition hdr_ok :: "superblock \<Rightarrow> bytes \<Rightarrow> bool" where
  "hdr_ok sb h \<longleftrightarrow> 0 \<le> hdr_n h \<and> hdr_n h < uint (sb_nlog sb) \<and> hdr_n h \<le> int LOGSIZE \<and>
     (\<forall>i<nat (hdr_n h). home_blk sb (hdr_block h i))"

lemma int_of_u32_small: "uint w < 2 ^ 31 \<Longrightarrow> int_of_u32 w = uint w"
  using int_of_u32_of_int [of "uint w"] order_trans [OF _ uint_ge_0 [of w], of "- 2147483648"] by (simp add: u32_of_int_def)

lemma u32_of_uint [simp]: "u32_of_int (uint w) = w"
  by (simp add: u32_of_int_def)

lemma mounted_geom: "mounted sb s \<Longrightarrow> sb_geom sb \<Longrightarrow> geom s"
  by (simp add: mounted_def sb_geom_def geom_def)

lemma mounted_home: "mounted sb s \<Longrightarrow> home s = home_blk sb" "mounted sb s \<Longrightarrow> head_no s = sb_logstart sb"
  by (auto simp: mounted_def home_def home_blk_def head_no_def fun_eq_iff)

lemma mounted_hdr: "mounted sb s \<Longrightarrow> hdr_valid s h = hdr_ok sb h"
  by (simp add: hdr_valid_def hdr_ok_def mounted_home) (simp add: mounted_def)

lemma readsb_run:
  assumes ok: "bio_ok p (l_bio s)" and i: "idle (labs s)" and d: "l_dev s = 1"
  obtains s' where "log_readsb s = Done () s'" "bio_ok p (l_bio s')" "labs s' = labs s"
    "lframe (s\<lparr>l_sb := decode_sb (d_blocks (ca_disk (labs s)) 1)\<rparr>) s'"
proof -
  have hr: "ca_hold (bio_abs (l_bio s)) 1 = None" "has_room (bio_abs (l_bio s)) 1"
    using i idle_busy [OF i] by (simp_all add: has_room_busy labs_def idle_def [of "bio_abs (l_bio s)"])
  obtain i b1 b2 where b: "bread 1 1 (l_bio s) = Done i b1" "b_data (bufs b1 i) = ca_view (bio_abs (l_bio s)) 1"
    "brelse i b1 = Done () b2" "bio_ok p b2" "bio_abs b2 = bio_abs (l_bio s)" "awoken (bio_pt (l_bio s)) (bio_pt b2)"
    by (rule bc.peek [OF ok hr])
  define s1 where "s1 = s\<lparr>l_bio := b1\<rparr>"
  define s2 where "s2 = (s1\<lparr>l_sb := decode_sb (ldata i s1)\<rparr>)\<lparr>l_bio := b2\<rparr>"
  have rd: "lbio (bread 1 1) s = Done i s1" by (simp add: lbio_def b(1) s1_def)
  have rl: "lbio (brelse i) (s1\<lparr>l_sb := decode_sb (ldata i s1)\<rparr>) = Done () s2" by (simp add: lbio_def b(3) s2_def s1_def)
  have dt: "ldata i s1 = d_blocks (ca_disk (labs s)) 1"
    using b(2) idle_view [OF ok assms(2)] by (simp add: ldata_def s1_def labs_def)
  have "log_readsb s = Done () s2" unfolding log_readsb_def using rl by (simp add: d rd kbind_def kseq_def)
  moreover have "lframe (s\<lparr>l_sb := decode_sb (d_blocks (ca_disk (labs s)) 1)\<rparr>) s2"
    using b(6) unfolding s2_def dt by (simp add: lframe_def s1_def)
  ultimately show thesis using that b(4,5) by (simp add: s2_def labs_def)
qed

lemma initlog_run:
  assumes ok: "bio_ok p (l_bio r)" and i: "idle (labs r)" and d: "d = d_blocks (ca_disk (labs r))"
    and sb: "decode_sb (d 1) = sb" "sb_geom sb" and h: "hdr_ok sb (d (sb_logstart sb))"
  obtains r' where "initlog 1 r = Done () r'" "bio_ok p (l_bio r')" "mounted sb r'" "l_n r' = 0" "l_outstanding r' = 0"
    "\<not> l_committing r'" "labs r' = write_all (recovery (uint (sb_logstart sb)) d) (labs r)"
proof -
  define r0 where "r0 = r\<lparr>l_dev := 1\<rparr>"
  have r0: "bio_ok p (l_bio r0)" "labs r0 = labs r" "l_dev r0 = 1" using ok by (simp_all add: r0_def labs_def)
  have i0: "idle (labs r0)" using i by (simp add: r0)
  obtain r1 where 1: "log_readsb r0 = Done () r1" "bio_ok p (l_bio r1)" "labs r1 = labs r0"
    "lframe (r0\<lparr>l_sb := decode_sb (d_blocks (ca_disk (labs r0)) 1)\<rparr>) r1"
    by (rule readsb_run [OF r0(1) i0 r0(3)])
  note fr = lframe_sel [OF 1(4)]
  have sb1: "l_sb r1 = sb" using fr(1) sb(1) d by (simp add: r0)
  have dev1: "l_dev r1 = 1" using fr(6) by (simp add: r0)
  have sg: "sb_magic sb = FSMAGIC" "0 < uint (sb_nlog sb)" "1 < uint (sb_logstart sb)" "uint (sb_nlog sb) < 2 ^ 31" "uint (sb_logstart sb) < 2 ^ 31"
    "uint (sb_logstart sb) + uint (sb_nlog sb) \<le> uint (sb_size sb)" "uint (sb_logstart sb) + uint (sb_nlog sb) < 2 ^ 31"
    using sb(2) by (auto simp: sb_geom_def)
  define r2 where "r2 = r1\<lparr>l_start := int_of_u32 (sb_logstart sb), l_size := int_of_u32 (sb_nlog sb), l_n := 0, l_outstanding := 0, l_committing := False\<rparr>"
  have m2: "mounted sb r2" using sb1 dev1 sg by (simp add: mounted_def r2_def int_of_u32_small)
  have l2: "labs r2 = labs r" "bio_ok p (l_bio r2)" using 1 r0 by (simp_all add: r2_def labs_def)
  have "\<exists>r3. recover_from_log r2 = Done () r3 \<and> bio_ok p (l_bio r3) \<and>
     labs r3 = write_all (recovery (l_start r2) (d_blocks (ca_disk (labs r2)))) (labs r2) \<and>
     l_n r3 = 0 \<and> l_sb r3 = l_sb r2 \<and> l_start r3 = l_start r2 \<and> l_size r3 = l_size r2 \<and> l_dev r3 = l_dev r2 \<and>
     l_outstanding r3 = l_outstanding r2 \<and> l_committing r3 = l_committing r2 \<and> awoken (bio_pt (l_bio r2)) (bio_pt (l_bio r3))"
    by (rule recover_run [OF l2(2) mounted_geom [OF m2 sb(2)]])
      (use i h d in \<open>simp_all add: l2 mounted_hdr [OF m2] mounted_home [OF m2]\<close>)
  then obtain r3 where 3: "recover_from_log r2 = Done () r3" "bio_ok p (l_bio r3)"
     "labs r3 = write_all (recovery (l_start r2) (d_blocks (ca_disk (labs r2)))) (labs r2)"
     "l_n r3 = 0" "l_sb r3 = l_sb r2" "l_start r3 = l_start r2" "l_size r3 = l_size r2" "l_dev r3 = l_dev r2"
     "l_outstanding r3 = l_outstanding r2" "l_committing r3 = l_committing r2" by blast
  have nl: "\<not> sb_nlog sb \<le> 0" "\<not> sb_logstart sb \<le> 1" using sg(2,3) by (simp_all add: word_le_def)
  have sz: "\<not> sb_size sb < sb_logstart sb + sb_nlog sb"
  proof -
    have "uint (sb_logstart sb + sb_nlog sb) = uint (sb_logstart sb) + uint (sb_nlog sb)"
      using sg(7) by (simp add: uint_word_ariths)
    then show ?thesis using sg(6) by (simp add: word_less_def)
  qed
  have "initlog 1 r = Done () r3"
    using 1(1) 3(1) sb1 sg(1) nl sz by (simp add: initlog_def r0_def [symmetric] kbind_def kseq_def r2_def)
  moreover have "mounted sb r3" using m2 3 by (simp add: mounted_def)
  moreover have "l_start r2 = uint (sb_logstart sb)" using m2 by (simp add: mounted_def)
  ultimately show thesis using that 3 d by (simp add: l2) (simp add: r2_def)
qed

section \<open>Crashes\<close>

lemma geom_blocks:
  assumes "sb_geom sb" "int t < uint (sb_nlog sb) - 1"
  shows "uint (slot_no (uint (sb_logstart sb)) t) = uint (sb_logstart sb) + int t + 1"
    "slot_no (uint (sb_logstart sb)) t \<noteq> 1" "sb_logstart sb \<noteq> 1" "slot_no (uint (sb_logstart sb)) t \<noteq> sb_logstart sb"
    "home_blk sb b \<Longrightarrow> b \<noteq> slot_no (uint (sb_logstart sb)) t"
proof -
  show u: "uint (slot_no (uint (sb_logstart sb)) t) = uint (sb_logstart sb) + int t + 1"
    unfolding slot_no_def using assms by (intro uint_u32_of_int) (auto simp: sb_geom_def)
  show "slot_no (uint (sb_logstart sb)) t \<noteq> 1" "sb_logstart sb \<noteq> 1" "slot_no (uint (sb_logstart sb)) t \<noteq> sb_logstart sb"
    using assms u by (auto simp: sb_geom_def)
  assume "home_blk sb b"
  then have "uint (sb_logstart sb) + uint (sb_nlog sb) \<le> uint b" by (simp add: home_blk_def)
  then show "b \<noteq> slot_no (uint (sb_logstart sb)) t" using u assms(2) by auto
qed

lemma home_apart:
  assumes "sb_geom sb" "home_blk sb b"
  shows "b \<noteq> 1" "b \<noteq> sb_logstart sb"
  using assms by (auto simp: sb_geom_def home_blk_def)

text \<open>What recovery leaves in the home blocks depends only on the header, its slots and the homes.\<close>

lemma recovery_home:
  assumes sb: "sb_geom sb" and b: "home_blk sb b"
  shows "put_blocks (recovery (uint (sb_logstart sb)) d) d b =
    put_blocks (map (\<lambda>i. (hdr_block (d (sb_logstart sb)) i, d (slot_no (uint (sb_logstart sb)) i))) [0..<nat (hdr_n (d (sb_logstart sb)))]) d b"
  using home_apart(2) [OF assms] by (simp add: recovery_def Let_def)

lemma recovery_empty: "sb_geom sb \<Longrightarrow> home_blk sb b \<Longrightarrow> hdr_n (d (sb_logstart sb)) = 0 \<Longrightarrow>
  put_blocks (recovery (uint (sb_logstart sb)) d) d b = d b"
  by (simp add: recovery_home)

lemma hdr_clear: "length h = BSIZE \<Longrightarrow> hdr_n (put32 h 0 0) = 0"
  by (simp add: hdr_n_def int_of_u32_def)

lemma hdr_ok_0: "sb_geom sb \<Longrightarrow> hdr_n h = 0 \<Longrightarrow> hdr_ok sb h"
  by (simp add: hdr_ok_def sb_geom_def)

lemma take_map_writes: "b \<notin> f ` set ts \<Longrightarrow> put_blocks (take k (map (\<lambda>t. (f t, g t)) ts)) d b = d b"
  by (rule put_blocks_other) (auto simp: take_map dest: in_set_takeD)

lemma ready_view:
  assumes "log_ready p s" "b \<notin> set (logged s)"
  shows "ca_view (labs s) b = d_blocks (ca_disk (labs s)) b"
proof -
  have "is_clean (labs s) b" using lclean [OF log_readyD(1) [OF assms(1)]] log_readyD(3) [OF assms(1)] by simp
  then show ?thesis using assms by (simp add: is_clean_def log_ready_def)
qed

text \<open>The disk after the first \<open>k\<close> writes of a commit, and what recovery makes of it.\<close>

lemma commit_crash:
  assumes rdy: "log_ready p s" and m: "mounted sb s" and g: "sb_geom sb"
    and d: "d = d_blocks (ca_disk (labs s))" and sbd: "decode_sb (d 1) = sb"
    and dk: "dk = put_blocks (take k (commit_writes s)) d"
  shows "decode_sb (dk 1) = sb" "hdr_ok sb (dk (sb_logstart sb))"
    "home_blk sb b \<Longrightarrow> put_blocks (recovery (uint (sb_logstart sb)) dk) dk b =
       (if k \<le> nat (l_n s) then d b else ca_view (labs s) b)"
proof -
  note rd = log_readyD [OF rdy]
  let ?n = "nat (l_n s)" and ?v = "ca_view (labs s)" and ?hd = "sb_logstart sb" and ?st = "uint (sb_logstart sb)"
  let ?ts = "[0..<?n]"
  let ?slot = "slot_no ?st"
  have st: "l_start s = ?st" "head_no s = ?hd" "l_size s = uint (sb_nlog sb)" "home s = home_blk sb"
    using m mounted_home [OF m] by (auto simp: mounted_def)
  have tt: "int t < uint (sb_nlog sb) - 1" "home_blk sb (l_block s t)" if "t < ?n" for t using rd(6) [OF that] by (simp_all add: st)
  define h1 where "h1 = hdr_enc (?v ?hd) ?n (l_block s)"
  define w1 where "w1 = map (\<lambda>t. (?slot t, ?v (l_block s t))) ?ts"
  define w2 where "w2 = map (\<lambda>t. (l_block s t, ?v (l_block s t))) ?ts"
  have cw: "commit_writes s = w1 @ [(?hd, h1)] @ w2 @ [(?hd, put32 h1 0 0)]"
    by (simp add: commit_writes_def Let_def st h1_def w1_def w2_def)
  have lw: "length w1 = ?n" "length w2 = ?n" by (simp_all add: w1_def w2_def)
  have len: "length (?v ?hd) = BSIZE" by (rule lview_len [OF rd(1)])
  note he = hdr_enc [OF len rd(4), where f = "l_block s", folded h1_def]
  have sl: "?slot t \<noteq> 1" "?slot t \<noteq> ?hd" "home_blk sb c \<Longrightarrow> c \<noteq> ?slot t" if "t < ?n" for t c
    using geom_blocks(2,4,5) [OF g tt(1) [OF that]] by auto
  have hd1: "?hd \<noteq> 1" using g by (auto simp: sb_geom_def)
  have w1_other: "put_blocks (take j w1) e c = e c" if "c = 1 \<or> c = ?hd \<or> home_blk sb c" for j e c
    unfolding w1_def
  proof (rule take_map_writes)
    show "c \<notin> ?slot ` set ?ts"
    proof
      assume "c \<in> ?slot ` set ?ts"
      then obtain u where u: "u < ?n" "c = ?slot u" by auto
      then show False using that sl [OF u(1)] by blast
    qed
  qed
  have w2_other: "put_blocks (take j w2) e c = e c" if "c = 1 \<or> c = ?hd \<or> (\<exists>t<?n. c = ?slot t)" for j e c
    unfolding w2_def
  proof (rule take_map_writes)
    show "c \<notin> l_block s ` set ?ts"
    proof
      assume "c \<in> l_block s ` set ?ts"
      then obtain u where u: "u < ?n" "c = l_block s u" by auto
      then show False using that home_apart [OF g tt(2) [OF u(1)]] sl(3) tt(2) [OF u(1)] by blast
    qed
  qed
  have h0: "hdr_n (d ?hd) = 0" using rdy by (simp add: log_ready_def st d)
  have "decode_sb (dk 1) = sb \<and> hdr_ok sb (dk ?hd) \<and>
    (home_blk sb b \<longrightarrow> put_blocks (recovery ?st dk) dk b = (if k \<le> ?n then d b else ?v b))"
  proof (cases "k \<le> ?n")
    case True
    then have dk1: "dk = put_blocks (take k w1) d" by (simp add: dk cw lw)
    have e: "dk 1 = d 1" "dk ?hd = d ?hd" "home_blk sb b \<Longrightarrow> dk b = d b"
      using w1_other by (auto simp: dk1)
    show ?thesis
    proof (intro conjI impI)
    show "decode_sb (dk 1) = sb" using sbd e by simp
    show "hdr_ok sb (dk ?hd)" using hdr_ok_0 [OF g h0] e by simp
    assume b: "home_blk sb b"
    have "put_blocks (recovery ?st dk) dk b = dk b" by (rule recovery_empty [OF g b]) (simp add: e h0)
    then show "put_blocks (recovery ?st dk) dk b = (if k \<le> ?n then d b else ?v b)" using True e(3) [OF b] by simp
    qed
  next
    case False
    define e where "e = put_blocks (w1 @ [(?hd, h1)]) d"
    define j where "j = k - ?n - 1"
    have kj: "k = ?n + 1 + j" using False by (simp add: j_def)
    have dk1: "dk = put_blocks (take j (w2 @ [(?hd, put32 h1 0 0)])) e"
      unfolding dk cw kj e_def by (simp add: lw)
    have e1: "e 1 = d 1" "e ?hd = h1" "\<And>c. home_blk sb c \<Longrightarrow> e c = d c"
      using w1_other [of _ ?n d] hd1 home_apart(2) [OF g] by (auto simp: e_def lw [symmetric])
    have es: "e (?slot t) = ?v (l_block s t)" if "t < ?n" for t
    proof -
      have "put_blocks w1 d (?slot t) = ?v (l_block s t)" unfolding w1_def
      proof (rule put_blocks_map)
        fix u assume "u \<in> set ?ts" "?slot u = ?slot t"
        then have "u = t" using geom_blocks(1) [OF g tt(1)] that by (metis add_left_cancel add_right_cancel atLeastLessThan_iff of_nat_eq_iff set_upt)
        then show "?v (l_block s u) = ?v (l_block s t)" by simp
      qed (use that in simp)
      then show ?thesis using sl(2) [OF that] by (simp add: e_def)
    qed
    have fin: "put_blocks w2 e c = ?v c" if "home_blk sb c" for c
    proof (cases "c \<in> set (logged s)")
      case True
      then obtain t where t: "t < ?n" "c = l_block s t" by (auto simp: logged_nth)
      show ?thesis unfolding t(2) w2_def by (rule put_blocks_map) (use t in auto)
    next
      case False
      have "c \<notin> fst ` set w2" using False by (auto simp: w2_def logged_nth)
      then show ?thesis using e1(3) [OF that] ready_view [OF rdy False] by (simp add: put_blocks_other d)
    qed
    show ?thesis
    proof (cases "j \<le> ?n")
      case True
      then have dk2: "dk = put_blocks (take j w2) e" by (simp add: dk1 lw)
      have f: "dk 1 = d 1" "dk ?hd = h1" "\<And>t. t < ?n \<Longrightarrow> dk (?slot t) = ?v (l_block s t)"
        unfolding dk2 using w2_other [of _ j e] e1 es by (auto, metis)
      show ?thesis
      proof (intro conjI impI)
      show "decode_sb (dk 1) = sb" using sbd f by simp
      show "hdr_ok sb (dk ?hd)"
        using he(2,3) tt rd(4) rdy unfolding f(2) hdr_ok_def by (auto simp: log_ready_def st)
      assume b: "home_blk sb b"
      have "map (\<lambda>i. (hdr_block (dk ?hd) i, dk (?slot i))) [0..<nat (hdr_n (dk ?hd))] = w2"
        unfolding f(2) he(2) w2_def using f(3) he(3) by auto
      then have "put_blocks (recovery ?st dk) dk b = put_blocks w2 dk b" using recovery_home [OF g b, of dk] by simp
      also have "\<dots> = put_blocks w2 e b" unfolding dk2 by (subst put_blocks_again) (auto dest: in_set_takeD)
      finally show "put_blocks (recovery ?st dk) dk b = (if k \<le> ?n then d b else ?v b)"
        using fin [OF b] False by simp
      qed
    next
      case jn: False
      then have dk2: "dk = (put_blocks w2 e)(?hd := put32 h1 0 0)" by (simp add: dk1 lw)
      have z: "hdr_n (dk ?hd) = 0" using hdr_clear [OF he(1)] by (simp add: dk2)
      have o1: "dk 1 = d 1" using w2_other [of 1 ?n e] e1 hd1 by (simp add: dk2 lw)
      show ?thesis
      proof (intro conjI impI)
      show "decode_sb (dk 1) = sb" using sbd o1 by simp
      show "hdr_ok sb (dk ?hd)" by (rule hdr_ok_0 [OF g z])
      assume b: "home_blk sb b"
      have "put_blocks (recovery ?st dk) dk b = dk b" by (rule recovery_empty [OF g b]) (rule z)
      then show "put_blocks (recovery ?st dk) dk b = (if k \<le> ?n then d b else ?v b)"
        using fin [OF b] False home_apart(2) [OF g b] by (simp add: dk2)
      qed
    qed
  qed
  then show "decode_sb (dk 1) = sb" "hdr_ok sb (dk ?hd)"
    "home_blk sb b \<Longrightarrow> put_blocks (recovery ?st dk) dk b = (if k \<le> ?n then d b else ?v b)" by blast+
qed

text \<open>The disk after the first \<open>j\<close> writes of a recovery.\<close>

lemma recovery_crash:
  assumes g: "sb_geom sb" and sbd: "decode_sb (d 1) = sb" and h: "hdr_ok sb (d (sb_logstart sb))" and len: "length (d (sb_logstart sb)) = BSIZE"
    and ws: "ws = recovery (uint (sb_logstart sb)) d" and dj: "dj = put_blocks (take j ws) d"
  shows "decode_sb (dj 1) = sb" "hdr_ok sb (dj (sb_logstart sb))"
    "home_blk sb b \<Longrightarrow> put_blocks (recovery (uint (sb_logstart sb)) dj) dj b = put_blocks ws d b"
proof -
  let ?hd = "sb_logstart sb" and ?st = "uint (sb_logstart sb)"
  define n where "n = nat (hdr_n (d ?hd))"
  have hn: "home_blk sb (hdr_block (d ?hd) t)" "int t < uint (sb_nlog sb) - 1" if "t < n" for t
    using h that by (auto simp: hdr_ok_def n_def)
  define w where "w = map (\<lambda>i. (hdr_block (d ?hd) i, d (slot_no ?st i))) [0..<n]"
  have ws': "ws = w @ [(?hd, put32 (d ?hd) 0 0)]" by (simp add: ws recovery_def Let_def w_def n_def)
  have lw: "length w = n" by (simp add: w_def)
  have hd1: "?hd \<noteq> 1" using g by (auto simp: sb_geom_def)
  have other: "put_blocks (take i w) e c = e c" if "c = 1 \<or> c = ?hd \<or> (\<exists>t<n. c = slot_no ?st t)" for i e c
    unfolding w_def
  proof (rule take_map_writes)
    show "c \<notin> hdr_block (d ?hd) ` set [0..<n]"
    proof
      assume "c \<in> hdr_block (d ?hd) ` set [0..<n]"
      then obtain u where u: "u < n" "c = hdr_block (d ?hd) u" by auto
      then show False using that home_apart [OF g hn(1) [OF u(1)]] geom_blocks(5) [OF g hn(2) hn(1) [OF u(1)]] by blast
    qed
  qed
  have home: "put_blocks ws d b = put_blocks w d b" if "home_blk sb b" for b
    using home_apart(2) [OF g that] by (simp add: ws')
  have "decode_sb (dj 1) = sb \<and> hdr_ok sb (dj ?hd) \<and>
    (home_blk sb b \<longrightarrow> put_blocks (recovery ?st dj) dj b = put_blocks ws d b)"
  proof (cases "j \<le> n")
    case True
    then have dj': "dj = put_blocks (take j w) d" by (simp add: dj ws' lw)
    have f: "dj 1 = d 1" "dj ?hd = d ?hd" "\<And>t. t < n \<Longrightarrow> dj (slot_no ?st t) = d (slot_no ?st t)"
      unfolding dj' using other [of _ j d] by auto
    show ?thesis
    proof (intro conjI impI)
    show "decode_sb (dj 1) = sb" "hdr_ok sb (dj ?hd)" using sbd h f by simp_all
    assume b: "home_blk sb b"
    have "map (\<lambda>i. (hdr_block (dj ?hd) i, dj (slot_no ?st i))) [0..<nat (hdr_n (dj ?hd))] = w"
      unfolding f(2) w_def n_def [symmetric] using f(3) by auto
    then have "put_blocks (recovery ?st dj) dj b = put_blocks w dj b" using recovery_home [OF g b, of dj] by simp
    also have "\<dots> = put_blocks w d b" unfolding dj' by (subst put_blocks_again) (auto dest: in_set_takeD)
    finally show "put_blocks (recovery ?st dj) dj b = put_blocks ws d b" using home [OF b] by simp
    qed
  next
    case False
    then have dj': "dj = (put_blocks w d)(?hd := put32 (d ?hd) 0 0)" by (simp add: dj ws' lw)
    have z: "hdr_n (dj ?hd) = 0" using hdr_clear [OF len] by (simp add: dj')
    have o1: "dj 1 = d 1" using other [of 1 n d] hd1 by (simp add: dj' lw)
    show ?thesis
    proof (intro conjI impI)
    show "decode_sb (dj 1) = sb" using sbd o1 by simp
    show "hdr_ok sb (dj ?hd)" by (rule hdr_ok_0 [OF g z])
    assume b: "home_blk sb b"
    have "put_blocks (recovery ?st dj) dj b = dj b" by (rule recovery_empty [OF g b]) (rule z)
    then show "put_blocks (recovery ?st dj) dj b = put_blocks ws d b"
      using home [OF b] home_apart(2) [OF g b] by (simp add: dj')
    qed
  qed
  then show "decode_sb (dj 1) = sb" "hdr_ok sb (dj ?hd)"
    "home_blk sb b \<Longrightarrow> put_blocks (recovery ?st dj) dj b = put_blocks ws d b" by blast+
qed

section \<open>Transactions\<close>

text \<open>The invariant of an open transaction: as \<open>log_ready\<close>, while buffers may be held.\<close>

definition log_inv :: "nat \<Rightarrow> logst \<Rightarrow> bool" where
  "log_inv p s \<longleftrightarrow> bio_ok p (l_bio s) \<and> geom s \<and> 0 \<le> l_n s \<and> l_n s < int NBUF \<and> l_n s < l_size s \<and>
     distinct (logged s) \<and> (\<forall>b\<in>set (logged s). home s b) \<and>
     ca_pins (labs s) = (\<lambda>b. if b \<in> set (logged s) then 1 else 0) \<and>
     hdr_n (d_blocks (ca_disk (labs s)) (head_no s)) = 0"

lemma log_ready_inv: "log_ready p s \<longleftrightarrow> log_inv p s \<and> ca_hold (labs s) = Map.empty"
  by (auto simp: log_ready_def log_inv_def)

text \<open>What a transaction leaves alone.\<close>

definition tframe :: "logst \<Rightarrow> logst \<Rightarrow> bool" where
  "tframe s s' \<longleftrightarrow> l_sb s' = l_sb s \<and> l_start s' = l_start s \<and> l_size s' = l_size s \<and> l_outstanding s' = l_outstanding s \<and>
     l_committing s' = l_committing s \<and> l_dev s' = l_dev s \<and> awoken (bio_pt (l_bio s)) (bio_pt (l_bio s'))"

lemma tframe_refl [simp]: "tframe s s"
  by (simp add: tframe_def)

lemma tframe_trans: "tframe s t \<Longrightarrow> tframe t u \<Longrightarrow> tframe s u"
  unfolding tframe_def using awoken_trans by auto

lemma lframe_tframe: "lframe s s' \<Longrightarrow> tframe s s'"
  unfolding tframe_def using lframe_sel [of s s'] by (simp only: lframe_def)

definition log_slack :: "logst \<Rightarrow> bool" where
  "log_slack s \<longleftrightarrow> l_n s + 1 < int NBUF \<and> l_n s + 1 < l_size s \<and> 1 \<le> l_outstanding s"

lemma logged_snoc:
  "0 \<le> l_n s \<Longrightarrow> logged (s\<lparr>l_block := (l_block s)(nat (l_n s) := b), l_n := l_n s + 1\<rparr>) = logged s @ [b]"
  by (simp add: logged_def nat_add_distrib)

lemma log_write_run:
  assumes inv: "log_inv p s" and sl: "log_slack s" and h: "ca_hold (labs s) n = Some i" and hm: "home s n"
  obtains s' where "log_write i s = Done () s'" "log_inv p s'" "bio_ok p (l_bio s')"
    "labs s' = (if n \<in> set (logged s) then labs s else a_pin n 1 (labs s))"
    "logged s' = (if n \<in> set (logged s) then logged s else logged s @ [n])"
    "tframe s s'"
proof -
  have iv: "bio_ok p (l_bio s)" "geom s" "0 \<le> l_n s" "l_n s < int NBUF" "l_n s < l_size s" "distinct (logged s)" "\<forall>b\<in>set (logged s). home s b"
     "ca_pins (labs s) = (\<lambda>b. if b \<in> set (logged s) then 1 else 0)" "hdr_n (d_blocks (ca_disk (labs s)) (head_no s)) = 0"
    using inv by (auto simp: log_inv_def)
  have h': "hold (l_bio s) n = Some i" using h by (simp add: labs_def bio_abs_def)
  have bn: "b_blockno (bufs (l_bio s) i) = n"
    using h' hold_Some [OF bio_okD(2) [OF iv(1)]] by (auto simp: is_block_def)
  show thesis
  proof (cases "n \<in> set (logged s)")
    case True
    then have "log_write i s = Done () s" using sl bn by (simp add: log_write_def log_slack_def)
    then show thesis using that [of s] inv iv(1) True by simp
  next
    case False
    let ?s1 = "s\<lparr>l_block := (l_block s)(nat (l_n s) := n), l_n := l_n s + 1\<rparr>"
    obtain b where b: "bpin i (l_bio s) = Done () b" "bio_ok p b" "bio_abs b = a_pin n 1 (bio_abs (l_bio s))" "bio_pt b = bio_pt (l_bio s)"
      using bc.pin_ok [OF iv(1) h [unfolded labs_def]] by blast
    let ?s2 = "?s1\<lparr>l_bio := b\<rparr>"
    have run: "log_write i s = Done () ?s2"
      using sl bn False b(1) by (simp add: log_write_def log_slack_def lbio_def)
    have lg: "logged ?s2 = logged s @ [n]" using logged_snoc [OF iv(3), of n] by (simp add: logged_def)
    have l2: "labs ?s2 = a_pin n 1 (labs s)" using b(3) by (simp add: labs_def)
    have "ca_pins (labs ?s2) = (\<lambda>b. if b \<in> set (logged ?s2) then 1 else 0)"
      unfolding l2 lg using iv(8) False by (auto simp: fun_eq_iff)
    moreover have "geom ?s2" "home ?s2 = home s" "head_no ?s2 = head_no s" using iv(2) by (simp_all add: geom_def home_def head_no_def fun_eq_iff)
    ultimately have "log_inv p ?s2"
      unfolding log_inv_def lg using iv False hm sl b(2) by (simp add: l2 log_slack_def)
    moreover have "tframe s ?s2" using b(4) by (simp add: tframe_def)
    ultimately show thesis using that [OF run] False l2 lg b(2) by simp
  qed
qed

lemma log_inv_frame:
  assumes inv: "log_inv p s" and f: "lframe s s'" and ok: "bio_ok p (l_bio s')"
    and a: "ca_pins (labs s') = ca_pins (labs s)" "d_blocks (ca_disk (labs s')) (head_no s) = d_blocks (ca_disk (labs s)) (head_no s)"
  shows "log_inv p s'"
  using inv ok a unfolding log_inv_def logged_def by (simp add: lframe_sel [OF f] geom_frame [OF f])

text \<open>Busy blocks inside a transaction: those it logged and those it holds.\<close>

lemma inv_busy:
  assumes "log_inv p s"
  shows "card (busy (labs s)) \<le> nat (l_n s) + card (dom (ca_hold (labs s)))"
proof -
  have "busy (labs s) = set (logged s) \<union> dom (ca_hold (labs s))"
    using assms by (auto simp: log_inv_def busy_def)
  also have "card \<dots> \<le> card (set (logged s)) + card (dom (ca_hold (labs s)))" by (rule card_Un_le)
  also have "card (set (logged s)) \<le> nat (l_n s)" using card_length [of "logged s"] by (simp add: logged_def)
  finally show ?thesis by simp
qed

text \<open>
  The access pattern of every file-system update: read a block, change it, log it, release it.
\<close>

lemma logged_update:
  assumes inv: "log_inv p s" and sl: "log_slack s" and h: "ca_hold (labs s) n = None" and hm: "home s n"
    and r: "nat (l_n s) + card (dom (ca_hold (labs s))) < NBUF" and v: "length v = BSIZE" and vv: "f (ca_view (labs s) n) = v"
  obtains s' where "kbind (lbio (bread 1 n)) (\<lambda>i. kseq (kmodify (\<lambda>s. lstore i (f (ldata i s)) s))
      (kseq (log_write i) (lbio (brelse i)))) s = Done () s'" "log_inv p s'"
    "ca_view (labs s') = (ca_view (labs s))(n := v)" "ca_disk (labs s') = ca_disk (labs s)" "ca_hold (labs s') = ca_hold (labs s)"
    "logged s' = (if n \<in> set (logged s) then logged s else logged s @ [n])"
    "tframe s s'"
proof -
  have ok: "bio_ok p (l_bio s)" using inv by (simp add: log_inv_def)
  have room: "has_room (labs s) n" using inv_busy [OF inv] r by (simp add: has_room_busy)
  obtain i s1 where 1: "lbio (bread 1 n) s = Done i s1" "bio_ok p (l_bio s1)" "labs s1 = a_take n i (labs s)"
    "bio_pt (l_bio s1) = bio_pt (l_bio s)" "((), s1\<lparr>l_bio := undefined\<rparr>) = ((), s\<lparr>l_bio := undefined\<rparr>)"
    using lc.lift.rd_ok [folded lfolds, OF ok h room] by blast
  have h1: "ca_hold (labs s1) n = Some i" by (simp add: 1 a_take_def)
  have dt: "ldata i s1 = ca_view (labs s) n" using lfetch_held [OF 1(2) h1] by (simp add: 1)
  define s2 where "s2 = lstore i v s1"
  have 2: "bio_ok p (l_bio s2)" "labs s2 = a_store n v (labs s1)" "bio_pt (l_bio s2) = bio_pt (l_bio s1)"
    "((), s2\<lparr>l_bio := undefined\<rparr>) = ((), s1\<lparr>l_bio := undefined\<rparr>)"
    using lstore_ok [OF 1(2) h1 v] by (auto simp: s2_def)
  have f2: "lframe s s2" by (rule lframeI) (use 1 2 in auto)
  note fr2 = lframe_sel [OF f2] geom_frame [OF f2]
  have inv2: "log_inv p s2" by (rule log_inv_frame [OF inv f2 2(1)]) (simp_all add: 1 2 a_defs)
  have lg2: "logged s2 = logged s" by (simp only: logged_def fr2)
  obtain s3 where 3: "log_write i s2 = Done () s3" "log_inv p s3" "bio_ok p (l_bio s3)"
    "labs s3 = (if n \<in> set (logged s2) then labs s2 else a_pin n 1 (labs s2))"
    "logged s3 = (if n \<in> set (logged s2) then logged s2 else logged s2 @ [n])"
    "tframe s2 s3"
    by (rule log_write_run [OF inv2, where n = n and i = i]) (use sl hm h1 2(2) in \<open>simp_all add: log_slack_def fr2 a_store_def\<close>)
  have h3: "ca_hold (labs s3) n = Some i" using h1 by (simp add: 3(4) 2(2) a_store_def a_pin_def)
  have "ca_pins (labs s3) n \<noteq> 0"
    using 3(2,5) unfolding log_inv_def by (auto simp: lg2 split: if_splits)
  then have "is_clean (labs s3) n" by (simp add: is_clean_def)
  then obtain s4 where 4: "lbio (brelse i) s3 = Done () s4" "bio_ok p (l_bio s4)" "labs s4 = a_drop n (labs s3)"
    "awoken (bio_pt (l_bio s3)) (bio_pt (l_bio s4))" "((), s4\<lparr>l_bio := undefined\<rparr>) = ((), s3\<lparr>l_bio := undefined\<rparr>)"
    using lc.lift.rel_ok [folded lfolds, OF 3(3) h3] by blast
  have f4: "lframe s3 s4" by (rule lframeI [OF 4(5,4)])
  have inv4: "log_inv p s4" by (rule log_inv_frame [OF 3(2) f4 4(2)]) (simp_all add: 4(3) a_drop_def)
  have run: "kbind (lbio (bread 1 n)) (\<lambda>i. kseq (kmodify (\<lambda>s. lstore i (f (ldata i s)) s))
      (kseq (log_write i) (lbio (brelse i)))) s = Done () s4"
    using 1(1) 3(1) 4(1) dt vv by (simp add: kbind_def kseq_def s2_def)
  have "tframe s s4" using lframe_tframe [OF f2] 3(6) lframe_tframe [OF f4] tframe_trans by blast
  moreover have "logged s4 = logged s3" by (simp add: logged_def lframe_sel [OF f4])
  moreover have "ca_view (labs s4) = (ca_view (labs s))(n := v)" "ca_disk (labs s4) = ca_disk (labs s)"
    by (simp_all add: 4(3) 3(4) 2(2) 1(3) a_defs)
  moreover have "ca_hold (labs s4) = ca_hold (labs s)"
    using h by (auto simp add: 4(3) 3(4) 2(2) 1(3) a_defs fun_eq_iff)
  ultimately show thesis using that [OF run inv4] 3(5) lg2 by simp
qed

end
