(* ===== verification/Log_Props.thy ===== *)
theory Log_Props
  imports Log_Spec
begin

text \<open>
  Properties of the redo log: the write order of a commit, atomicity of a commit and of a
  recovery under a crash after any number of disk writes, the invariant of the in-memory header
  under every interleaving of transactions, and the limits of the admission control.
\<close>

section \<open>Interleavings of transactions\<close>

text \<open>Everything of the log state but the cache.\<close>

definition lrest :: "logst \<Rightarrow> superblock \<times> int \<times> int \<times> int \<times> bool \<times> int \<times> int \<times> (nat \<Rightarrow> u32)" where
  "lrest s = (l_sb s, l_start s, l_size s, l_outstanding s, l_committing s, l_dev s, l_n s, l_block s)"

definition ladm :: "logst \<Rightarrow> int \<times> bool \<times> int" where
  "ladm s = (l_outstanding s, l_committing s, l_size s)"

lemma keeps_lbio [keeps_intros]: "keeps lrest (lbio m)" "keeps ladm (lbio m)"
  unfolding lbio_def by (auto intro!: keeps_lift simp: lrest_def ladm_def)

lemma keeps_lstore [keeps_intros]: "keeps lrest (kmodify (\<lambda>s. lstore i (g s) s))" "keeps ladm (kmodify (\<lambda>s. lstore i (g s) s))"
  by (auto intro!: keeps_modify simp: lrest_def ladm_def lstore_def)

lemma keeps_header [keeps_intros]: "keeps ladm (kmodify (\<lambda>s. s\<lparr>l_n := k\<rparr>))" "keeps ladm (kmodify (\<lambda>s. s\<lparr>l_block := h s\<rparr>))"
  by (auto intro!: keeps_modify simp: ladm_def)

lemma keeps_ops: "keeps lrest write_head" "keeps lrest write_log" "keeps lrest (install_trans r)" "keeps ladm write_head"
  "keeps ladm (install_trans r)" "keeps ladm read_head"
  unfolding write_head_def write_log_def write_log_one_def install_trans_def install_one_def read_head_def load_head_def check_entry_def
  by (intro keeps_intros)+

lemma commit_resets:
  assumes "commit s = Done () s'" "0 \<le> l_n s"
  shows "l_n s' = 0 \<and> l_outstanding s' = l_outstanding s \<and> l_committing s' = l_committing s \<and> l_size s' = l_size s"
proof (cases "0 < l_n s")
  case False
  then show ?thesis using assms by (simp add: commit_def)
next
  case True
  then have "kseq write_log (kseq write_head (kseq (install_trans False)
     (kseq (kmodify (\<lambda>s. s\<lparr>l_n := 0\<rparr>)) write_head))) s = Done () s'"
    using assms by (simp add: commit_def)
  then obtain s1 s2 s3 where "write_log s = Done () s1" "write_head s1 = Done () s2" "install_trans False s2 = Done () s3"
    "write_head (s3\<lparr>l_n := 0\<rparr>) = Done () s'" by (auto elim!: kseq_DoneE)
  then have "lrest s1 = lrest s" "lrest s2 = lrest s1" "lrest s3 = lrest s2" "lrest s' = lrest (s3\<lparr>l_n := 0\<rparr>)"
    by (auto dest: keepsD [OF keeps_ops(1)] keepsD [OF keeps_ops(2)] keepsD [OF keeps_ops(3)])
  then show ?thesis by (simp add: lrest_def)
qed

lemma recover_resets:
  assumes "recover_from_log s = Done () s'"
  shows "l_n s' = 0 \<and> ladm s' = ladm s"
proof -
  obtain s1 s2 where "read_head s = Done () s1" "install_trans True s1 = Done () s2" "write_head (s2\<lparr>l_n := 0\<rparr>) = Done () s'"
    using assms by (auto simp: recover_from_log_def elim!: kseq_DoneE)
  then have "ladm s1 = ladm s" "ladm s2 = ladm s1" "lrest s' = lrest (s2\<lparr>l_n := 0\<rparr>)"
    by (auto dest: keepsD [OF keeps_ops(6)] keepsD [OF keeps_ops(5)] keepsD [OF keeps_ops(1)])
  then show ?thesis by (simp add: lrest_def ladm_def)
qed

lemma initlog_resets:
  assumes "initlog dev s = Done () s'"
  shows "l_n s' = 0 \<and> l_outstanding s' = 0 \<and> \<not> l_committing s'"
proof -
  obtain t where "recover_from_log (t\<lparr>l_start := int_of_u32 (sb_logstart (l_sb t)), l_size := int_of_u32 (sb_nlog (l_sb t)),
      l_n := 0, l_outstanding := 0, l_committing := False\<rparr>) = Done () s'"
    using assms by (auto simp: initlog_def elim!: kseq_DoneE kbind_DoneE split: if_splits)
  from recover_resets [OF this] show ?thesis by (simp add: ladm_def)
qed

inductive log_step :: "logst \<Rightarrow> logst \<Rightarrow> bool" where
  admit: "begin_op s = Done () s' \<Longrightarrow> log_step s s'"
| wait: "begin_op s = Block s' \<Longrightarrow> log_step s s'"
| enter: "log_write b s = Done () s' \<Longrightarrow> log_step s s'"
| finish: "1 \<le> l_outstanding s \<Longrightarrow> end_op s = Done () s' \<Longrightarrow> log_step s s'"
| cache: "log_step s (s\<lparr>l_bio := b\<rparr>)"

inductive log_reach :: "logst \<Rightarrow> bool" where
  mount: "initlog dev s0 = Done () s \<Longrightarrow> log_reach s"
| step: "log_reach s \<Longrightarrow> log_step s s' \<Longrightarrow> log_reach s'"

definition log_wf :: "logst \<Rightarrow> bool" where
  "log_wf s \<longleftrightarrow> 0 \<le> l_n s \<and> l_n s \<le> int LOGSIZE \<and> (l_n s = 0 \<or> l_n s < l_size s) \<and> distinct (logged s) \<and>
     0 \<le> l_outstanding s \<and> l_outstanding s \<le> 3 \<and> \<not> l_committing s \<and> (l_outstanding s = 0 \<longrightarrow> l_n s = 0)"

lemma lrest_wf: "lrest s' = lrest s \<Longrightarrow> log_wf s \<Longrightarrow> log_wf s'"
  by (simp add: lrest_def log_wf_def logged_def)

lemma begin_op_Done:
  "begin_op s = Done () s' \<Longrightarrow> \<not> l_committing s \<and> l_n s + (l_outstanding s + 1) * MAXOPBLOCKS \<le> int LOGSIZE \<and>
     s' = s\<lparr>l_outstanding := l_outstanding s + 1\<rparr>"
  by (auto simp: begin_op_def lbio_def klift_def sleep_def kbind_def split: if_splits outcome.splits)

lemma begin_op_Block: "begin_op s = Block s' \<Longrightarrow> lrest s' = lrest s"
  by (auto simp: begin_op_def lbio_def klift_def lrest_def split: if_splits outcome.splits)

lemma log_write_Done:
  assumes "log_write b s = Done () s'"
  shows "l_n s < int LOGSIZE \<and> l_n s < l_size s - 1 \<and> 1 \<le> l_outstanding s \<and>
     (if b_blockno (bufs (l_bio s) b) \<in> set (logged s) then s' = s
      else \<exists>c. s' = s\<lparr>l_block := (l_block s)(nat (l_n s) := b_blockno (bufs (l_bio s) b)), l_n := l_n s + 1, l_bio := c\<rparr>)"
  using assms by (auto simp: log_write_def lbio_def bpin_def split: if_splits)

lemma log_step_wf:
  assumes "log_step s s'" and wf: "log_wf s"
  shows "log_wf s'"
  using assms(1)
proof cases
  case admit
  from begin_op_Done [OF this] show ?thesis using wf by (auto simp: log_wf_def logged_def)
next
  case wait
  then show ?thesis using begin_op_Block lrest_wf wf by blast
next
  case (enter b)
  let ?b = "b_blockno (bufs (l_bio s) b)"
  note w = log_write_Done [OF enter]
  show ?thesis
  proof (cases "?b \<in> set (logged s)")
    case True
    then show ?thesis using w wf by simp
  next
    case False
    then obtain c where s': "s' = s\<lparr>l_block := (l_block s)(nat (l_n s) := ?b), l_n := l_n s + 1, l_bio := c\<rparr>" using w by auto
    have "logged s' = logged s @ [?b]"
      using logged_snoc [of s ?b] wf by (simp add: s' log_wf_def logged_def)
    then show ?thesis using w wf False by (auto simp: log_wf_def s')
  qed
next
  case finish
  have nc: "\<not> l_committing s" "0 \<le> l_n s" using wf by (auto simp: log_wf_def)
  show ?thesis
  proof (cases "l_outstanding s = 1")
    case True
    then obtain s1 where "commit (s\<lparr>l_outstanding := 0, l_committing := True\<rparr>) = Done () s1" and s': "s' = lwakeup ChanLog (s1\<lparr>l_committing := False\<rparr>)"
      using finish(2) nc by (auto simp: end_op_def elim!: kseq_DoneE)
    then show ?thesis using commit_resets [of "s\<lparr>l_outstanding := 0, l_committing := True\<rparr>" s1] nc
      by (simp add: log_wf_def logged_def lwakeup_def)
  next
    case False
    then have "s' = lwakeup ChanLog (s\<lparr>l_outstanding := l_outstanding s - 1\<rparr>)"
      using finish nc by (auto simp: end_op_def)
    then show ?thesis using wf False finish(1) by (auto simp: log_wf_def logged_def lwakeup_def)
  qed
next
  case (cache b)
  then show ?thesis using wf by (simp add: log_wf_def logged_def)
qed

lemma log_reach_wf: "log_reach s \<Longrightarrow> log_wf s"
proof (induction rule: log_reach.induct)
  case (mount dev s0 s)
  from initlog_resets [OF mount] show ?case by (simp add: log_wf_def logged_def)
next
  case (step s s')
  then show ?case using log_step_wf by blast
qed

section \<open>A concrete log\<close>

definition encode_sb :: "superblock \<Rightarrow> bytes" where
  "encode_sb sb = put32 (put32 (put32 (put32 (put32 (put32 (put32 (put32 (replicate BSIZE 0) 0 (sb_magic sb)) 4 (sb_size sb))
     8 (sb_nblocks sb)) 12 (sb_ninodes sb)) 16 (sb_nlog sb)) 20 (sb_logstart sb)) 24 (sb_inodestart sb)) 28 (sb_bmapstart sb)"

lemma decode_encode_sb: "decode_sb (encode_sb sb) = sb" and length_encode_sb [simp]: "length (encode_sb sb) = BSIZE"
  by (simp_all add: decode_sb_def encode_sb_def get32_put32_other)

definition demo_sb :: superblock where
  "demo_sb = \<lparr>sb_magic = FSMAGIC, sb_size = 1000, sb_nblocks = 954, sb_ninodes = 200, sb_nlog = 30, sb_logstart = 2,
     sb_inodestart = 32, sb_bmapstart = 45\<rparr>"

definition demo_disk :: "u32 \<Rightarrow> bytes" where
  "demo_disk n = (if n = 1 then encode_sb demo_sb else replicate BSIZE 0)"

definition log_bss :: "bio \<Rightarrow> logst" where
  "log_bss b = \<lparr>l_bio = b, l_sb = decode_sb (replicate BSIZE 0), l_start = 0, l_size = 0, l_outstanding = 0, l_committing = False,
     l_dev = 0, l_n = 0, l_block = (\<lambda>_. 0)\<rparr>"

lemma demo_facts: "length (demo_disk n) = BSIZE" "decode_sb (demo_disk 1) = demo_sb" "sb_geom demo_sb" "hdr_n (demo_disk 2) = 0"
  "home_blk demo_sb b \<longleftrightarrow> 32 \<le> uint b \<and> uint b < 1000"
  by (simp_all add: demo_disk_def decode_encode_sb sb_geom_def demo_sb_def hdr_n_def int_of_u32_def home_blk_def word_less_def)

lemma fresh_idle:
  assumes "\<And>n. length (d n) = BSIZE"
  shows "bio_ok 0 (l_bio (log_bss (fresh_bio d)))" "idle (labs (log_bss (fresh_bio d)))"
    "d_blocks (ca_disk (labs (log_bss (fresh_bio d)))) = d"
proof -
  note f = fresh_bio [of d, OF assms]
  have u: "idents_unique (fresh_bio d)" using bio_okD(2) [OF f(2)] .
  have "hold (fresh_bio d) n = None" for n using hold_None [OF u] f(3) by simp
  moreover have "bpins (fresh_bio d) n = 0" for n using bpins_cases [OF _ u] f(4) by blast
  ultimately show "bio_ok 0 (l_bio (log_bss (fresh_bio d)))" "idle (labs (log_bss (fresh_bio d)))"
    "d_blocks (ca_disk (labs (log_bss (fresh_bio d)))) = d"
    using f by (auto simp: log_bss_def labs_def bio_abs_def idle_def fun_eq_iff)
qed

text \<open>A mounted, empty log.\<close>

lemma mount_disk:
  assumes d: "\<And>n. length (d n) = BSIZE" "decode_sb (d 1) = demo_sb" "hdr_n (d 2) = 0"
  obtains s where "initlog 1 (log_bss (fresh_bio d)) = Done () s" "log_ready 0 s" "mounted demo_sb s" "l_n s = 0" "l_outstanding s = 0"
    "\<not> l_committing s" "ca_view (labs s) = put_blocks (recovery 2 d) d"
    "d_blocks (ca_disk (labs s)) = put_blocks (recovery 2 d) d"
proof -
  note f = fresh_idle [of d, OF d(1)]
  have st: "sb_logstart demo_sb = 2" "uint (sb_logstart demo_sb) = 2" by (simp_all add: demo_sb_def)
  have h: "hdr_ok demo_sb (d (sb_logstart demo_sb))" using hdr_ok_0 [OF demo_facts(3)] d(3) by (simp add: st)
  obtain s where s: "initlog 1 (log_bss (fresh_bio d)) = Done () s" "bio_ok 0 (l_bio s)" "mounted demo_sb s" "l_n s = 0"
    "l_outstanding s = 0" "\<not> l_committing s" "labs s = write_all (recovery (uint (sb_logstart demo_sb)) d) (labs (log_bss (fresh_bio d)))"
    by (rule initlog_run [OF f(1,2) f(3) [symmetric] d(2) demo_facts(3) h])
  have r: "recovery 2 d = [(2, put32 (d 2) 0 0)]"
    using d(3) by (simp add: recovery_def Let_def u32_of_int_def)
  have v: "ca_view (labs (log_bss (fresh_bio d))) = d" using idle_view [OF f(1,2)] f(3) by simp
  have l: "ca_view (labs s) = put_blocks (recovery 2 d) d" "d_blocks (ca_disk (labs s)) = put_blocks (recovery 2 d) d"
    by (simp_all add: s(7) st write_all_effect v f(3))
  have "idle (labs s)" using f(2) by (simp add: s(7) idle_def)
  moreover have "head_no s = 2" using mounted_home(2) [OF s(3)] by (simp add: st)
  moreover have "hdr_n (put32 (d 2) 0 0) = 0" by (rule hdr_clear) (rule d(1))
  ultimately have "log_ready 0 s"
    using s(2-4) mounted_geom [OF s(3) demo_facts(3)] l(2)
    by (simp add: log_ready_def logged_def r idle_def mounted_def demo_sb_def)
  then show thesis using that s l by blast
qed

lemmas demo_mount = mount_disk [of demo_disk, OF demo_facts(1,2,4)]

text \<open>A process logs the blocks 40, 41, ... one after the other.\<close>

definition demo_write :: "nat \<Rightarrow> (logst, unit) kmonad" where
  "demo_write k = kbind (lbio (bread 1 (of_nat (40 + k)))) (\<lambda>i. kseq (kmodify (\<lambda>s. lstore i ((\<lambda>_. replicate BSIZE 7) (ldata i s)) s))
      (kseq (log_write i) (lbio (brelse i))))"

lemma demo_run:
  assumes "k \<le> 29" "1 \<le> q" "q \<le> 3"
  shows "\<exists>s. log_reach s \<and> log_ready 0 s \<and> mounted demo_sb s \<and> l_n s = int k \<and> l_outstanding s = int q \<and>
    logged s = map (\<lambda>i. of_nat (40 + i)) [0..<k] \<and> decode_sb (d_blocks (ca_disk (labs s)) 1) = demo_sb"
  using assms(1)
proof (induction k)
  case 0
  obtain s0 where s0: "initlog 1 (log_bss (fresh_bio demo_disk)) = Done () s0" "log_ready 0 s0" "mounted demo_sb s0" "l_n s0 = 0"
    "l_outstanding s0 = 0" "\<not> l_committing s0" "d_blocks (ca_disk (labs s0)) = put_blocks (recovery 2 demo_disk) demo_disk"
    by (rule demo_mount)
  have d1: "decode_sb (d_blocks (ca_disk (labs s0)) 1) = demo_sb"
    using demo_facts(2,4) by (simp add: s0(7) recovery_def Let_def u32_of_int_def)
  have "\<exists>s. log_reach s \<and> s = s0\<lparr>l_outstanding := int j\<rparr>" if "j \<le> 3" for j
    using that
  proof (induction j)
    case 0
    then show ?case using log_reach.mount [OF s0(1)] s0(5) by (intro exI [of _ s0]) (cases s0, simp)
  next
    case (Suc j)
    then have r: "log_reach (s0\<lparr>l_outstanding := int j\<rparr>)" by simp
    have "begin_op (s0\<lparr>l_outstanding := int j\<rparr>) = Done () (s0\<lparr>l_outstanding := int (Suc j)\<rparr>)"
      using Suc.prems s0(4,6) by (simp add: begin_op_def)
    then show ?case using log_reach.step [OF r log_step.admit] by blast
  qed
  from this [OF assms(3)] have "log_reach (s0\<lparr>l_outstanding := int q\<rparr>)" by simp
  moreover have "log_ready 0 (s0\<lparr>l_outstanding := int q\<rparr>)"
    using s0(2) by (simp add: log_ready_def geom_def home_def labs_def logged_def head_no_def)
  moreover have "mounted demo_sb (s0\<lparr>l_outstanding := int q\<rparr>)" using s0(3) by (simp add: mounted_def)
  ultimately show ?case using s0(4) d1 by (intro exI [of _ "s0\<lparr>l_outstanding := int q\<rparr>"]) (simp add: logged_def labs_def)
next
  case (Suc k)
  then obtain s where s: "log_reach s" "log_ready 0 s" "mounted demo_sb s" "l_n s = int k" "l_outstanding s = int q"
    "logged s = map (\<lambda>i. of_nat (40 + i)) [0..<k]" "decode_sb (d_blocks (ca_disk (labs s)) 1) = demo_sb" by auto
  let ?n = "of_nat (40 + k) :: u32"
  have un: "uint (of_nat (40 + i) :: u32) = 40 + int i" if "i \<le> 29" for i
  proof -
    have "(of_nat (40 + i) :: u32) = u32_of_int (int (40 + i))" by (simp add: u32_of_int_def)
    then show ?thesis using uint_u32_of_int [of "int (40 + i)"] that by simp
  qed
  have ne: "?n \<notin> set (logged s)"
  proof
    assume "?n \<in> set (logged s)"
    then obtain i where i: "i < k" "?n = of_nat (40 + i)" by (auto simp: s(6))
    then have "uint ?n = uint (of_nat (40 + i) :: u32)" by simp
    then show False using un [of k] un [of i] i(1) Suc.prems by simp
  qed
  have sl: "log_slack s" using Suc.prems assms(2) s(3-5) by (simp add: log_slack_def mounted_def demo_sb_def)
  have inv: "log_inv 0 s" "ca_hold (labs s) = Map.empty" using s(2) by (auto simp: log_ready_inv)
  have hm: "home s ?n" using mounted_home(1) [OF s(3)] demo_facts(5) [of ?n] un [of k] Suc.prems by simp
  obtain s' where s': "demo_write k s = Done () s'" "log_inv 0 s'" "ca_disk (labs s') = ca_disk (labs s)" "ca_hold (labs s') = ca_hold (labs s)"
    "logged s' = (if ?n \<in> set (logged s) then logged s else logged s @ [?n])" "tframe s s'"
    unfolding demo_write_def
    by (rule logged_update [OF inv(1) sl _ hm, where f = "\<lambda>_. replicate BSIZE 7" and v = "replicate BSIZE 7"])
      (use inv(2) Suc.prems s(4) in simp_all)
  have lg: "logged s' = map (\<lambda>i. of_nat (40 + i)) [0..<Suc k]" using s'(5) ne s(6) by simp
  then have "length (logged s') = Suc k" by simp
  then have n': "l_n s' = int (Suc k)" by (simp add: logged_def)
  have m': "mounted demo_sb s'" "l_outstanding s' = int q" using s(3,5) s'(6) by (simp_all add: mounted_def tframe_def)
  have rch: "log_reach s'"
  proof -
    obtain i s1 s2 where r: "lbio (bread 1 ?n) s = Done i s1" "log_write i (lstore i (replicate BSIZE 7) s1) = Done () s2" "lbio (brelse i) s2 = Done () s'"
      using s'(1) unfolding demo_write_def by (auto elim!: kbind_DoneE kseq_DoneE)
    have c: "log_reach t \<Longrightarrow> lbio m t = Done x t' \<Longrightarrow> log_reach t'" for t t' m and x :: 'a
      using log_reach.step [OF _ log_step.cache] by (auto simp: lbio_def dest!: klift_DoneD)
    have "log_reach s1" using c [OF s(1) r(1)] .
    then have "log_reach (lstore i (replicate BSIZE 7) s1)" unfolding lstore_def by (rule log_reach.step [OF _ log_step.cache])
    then have "log_reach s2" using log_reach.step log_step.enter [OF r(2)] by blast
    then show ?thesis using c [OF _ r(3)] by blast
  qed
  have "log_ready 0 s'" using s'(2,4) inv(2) by (simp add: log_ready_inv)
  then show ?case using rch m' n' lg s(7) s'(3) by auto
qed

section \<open>Properties\<close>

lemma labs_bio: "ca_view (labs s) = bview (l_bio s)" "ca_pins (labs s) = bpins (l_bio s)" "ca_disk (labs s) = bio_disk (l_bio s)"
  by (simp_all add: labs_def bio_abs_def)

text \<open>
  C1. A commit is atomic under crashes. Take a mounted log with at least one logged block: \<^verbatim>\<open>commit\<close>
  returns, and if the machine stops after the first \<open>k\<close> of the disk writes \<open>ws\<close> that this run of
  \<^verbatim>\<open>commit\<close> makes, a kernel booted on that disk mounts the log, and every home block then has its
  contents from before the transaction if the header write had not happened (\<open>k\<close> at most the number
  of logged blocks), and its contents at the commit otherwise. No mixture is possible.
\<close>

theorem commit_crash_atomic:
  assumes "log_ready p s" and "mounted sb s" and "sb_geom sb"
    and "decode_sb (d_blocks (bio_disk (l_bio s)) 1) = sb" and "0 < l_n s"
  shows "\<exists>s' ws. commit s = Done () s' \<and> d_trace (bio_disk (l_bio s')) = d_trace (bio_disk (l_bio s)) @ ws \<and>
     d_blocks (bio_disk (l_bio s')) = put_blocks ws (d_blocks (bio_disk (l_bio s))) \<and>
     (\<forall>k q r. bio_ok q (l_bio r) \<and> idle (labs r) \<and>
        d_blocks (bio_disk (l_bio r)) = put_blocks (take k ws) (d_blocks (bio_disk (l_bio s))) \<longrightarrow>
        (\<exists>r'. initlog 1 r = Done () r' \<and> (\<forall>b. home_blk sb b \<longrightarrow>
           d_blocks (bio_disk (l_bio r')) b =
             (if k \<le> nat (l_n s) then d_blocks (bio_disk (l_bio s)) b else bview (l_bio s) b))))"
proof -
  obtain s' where s': "commit s = Done () s'" "labs s' = unpin_all (logged s) (write_all (commit_writes s) (labs s))"
    using commit_run [OF assms(1,5)] by blast
  have tr: "d_trace (bio_disk (l_bio s')) = d_trace (bio_disk (l_bio s)) @ commit_writes s"
    "d_blocks (bio_disk (l_bio s')) = put_blocks (commit_writes s) (d_blocks (bio_disk (l_bio s)))"
    using arg_cong [OF s'(2), of "\<lambda>a. d_trace (ca_disk a)"] arg_cong [OF s'(2), of "\<lambda>a. d_blocks (ca_disk a)"]
    by (simp_all add: write_all_effect labs_bio)
  have sb: "decode_sb (d_blocks (ca_disk (labs s)) 1) = sb" using assms(4) by (simp add: labs_bio)
  have "\<exists>r'. initlog 1 r = Done () r' \<and> (\<forall>b. home_blk sb b \<longrightarrow> d_blocks (bio_disk (l_bio r')) b =
      (if k \<le> nat (l_n s) then d_blocks (bio_disk (l_bio s)) b else bview (l_bio s) b))"
    if r: "bio_ok q (l_bio r)" "idle (labs r)"
      and dk: "d_blocks (bio_disk (l_bio r)) = put_blocks (take k (commit_writes s)) (d_blocks (bio_disk (l_bio s)))" for k q r
  proof -
    let ?dk = "d_blocks (ca_disk (labs r))"
    have "?dk = put_blocks (take k (commit_writes s)) (d_blocks (ca_disk (labs s)))" using dk by (simp add: labs_bio)
    note c = commit_crash [OF assms(1-3) refl sb this]
    obtain r' where r': "initlog 1 r = Done () r'" "labs r' = write_all (recovery (uint (sb_logstart sb)) ?dk) (labs r)"
      by (rule initlog_run [OF r refl c(1) assms(3) c(2)])
    have "d_blocks (bio_disk (l_bio r')) b = (if k \<le> nat (l_n s) then d_blocks (bio_disk (l_bio s)) b else bview (l_bio s) b)"
      if "home_blk sb b" for b
      using c(3) [OF that] arg_cong [OF r'(2), of "\<lambda>a. d_blocks (ca_disk a) b"] by (simp add: write_all_effect labs_bio)
    with r'(1) show ?thesis by blast
  qed
  then show ?thesis using s'(1) tr by blast
qed

theorem commit_crash_atomic_witness:
  "\<exists>s s' ws r'. l_n s = 2 \<and> commit s = Done () s' \<and> d_trace (bio_disk (l_bio s')) = d_trace (bio_disk (l_bio s)) @ ws \<and>
     initlog 1 (log_bss (fresh_bio (put_blocks (take 1 ws) (d_blocks (bio_disk (l_bio s)))))) = Done () r' \<and>
     d_blocks (bio_disk (l_bio r')) 40 = d_blocks (bio_disk (l_bio s)) 40"
proof -
  obtain s where s: "log_ready 0 s" "mounted demo_sb s" "l_n s = 2" "decode_sb (d_blocks (ca_disk (labs s)) 1) = demo_sb"
    using demo_run [of 2 1] by auto
  obtain s' ws where c: "commit s = Done () s'" "d_trace (bio_disk (l_bio s')) = d_trace (bio_disk (l_bio s)) @ ws"
    and r: "\<forall>k q r. bio_ok q (l_bio r) \<and> idle (labs r) \<and>
        d_blocks (bio_disk (l_bio r)) = put_blocks (take k ws) (d_blocks (bio_disk (l_bio s))) \<longrightarrow>
        (\<exists>r'. initlog 1 r = Done () r' \<and> (\<forall>b. home_blk demo_sb b \<longrightarrow> d_blocks (bio_disk (l_bio r')) b =
             (if k \<le> nat (l_n s) then d_blocks (bio_disk (l_bio s)) b else bview (l_bio s) b)))"
    using commit_crash_atomic [OF s(1,2) demo_facts(3)] s(3,4) by (auto simp: labs_bio)
  have "\<exists>a. commit s = Done () a \<and> labs a = unpin_all (logged s) (write_all (commit_writes s) (labs s))"
    using commit_run [OF s(1)] s(3) by auto
  then have "labs s' = unpin_all (logged s) (write_all (commit_writes s) (labs s))" using c(1) by auto
  from arg_cong [OF this, of "\<lambda>a. d_trace (ca_disk a)"] have "ws = commit_writes s" using c(2) by (simp add: write_all_effect labs_bio)
  then have w: "take 1 ws = [(slot_no (l_start s) 0, bview (l_bio s) (l_block s 0))]"
    using s(3) by (simp add: commit_writes_def Let_def labs_bio upt_rec)
  let ?d = "put_blocks (take 1 ws) (d_blocks (bio_disk (l_bio s)))"
  have bs: "blocks_sized (l_bio s)" using bio_okD(4) [OF log_readyD(1) [OF s(1)]] .
  then have "length (?d n) = BSIZE" for n using bview_length [OF bs] unfolding w by (simp add: blocks_sized_def)
  note f = fresh_idle [of ?d, OF this]
  obtain r' where "initlog 1 (log_bss (fresh_bio ?d)) = Done () r'" "\<forall>b. home_blk demo_sb b \<longrightarrow>
      d_blocks (bio_disk (l_bio r')) b = (if 1 \<le> nat (l_n s) then d_blocks (bio_disk (l_bio s)) b else bview (l_bio s) b)"
    using r [rule_format, of 0 "log_bss (fresh_bio ?d)" 1] f by (auto simp: labs_bio)
  then show ?thesis using s(3) c demo_facts(5) [of 40] by (intro exI [of _ s] exI [of _ s'] exI [of _ ws] exI [of _ r']) simp
qed

text \<open>
  C2. A commit writes, in this order: the logged blocks to their log slots, the header, the
  logged blocks to their homes, the cleared header; nothing else reaches the disk. Afterwards
  the disk agrees with the cache on every home block, no buffer is pinned, and the log is empty
  and ready for the next transaction.
\<close>

theorem commit_write_order:
  assumes "log_ready p s" and "0 < l_n s"
  shows "\<exists>s'. commit s = Done () s' \<and>
     d_trace (bio_disk (l_bio s')) = d_trace (bio_disk (l_bio s)) @
       map (\<lambda>t. (slot_no (l_start s) t, bview (l_bio s) (l_block s t))) [0..<nat (l_n s)] @
       [(head_no s, hdr_enc (bview (l_bio s) (head_no s)) (nat (l_n s)) (l_block s))] @
       map (\<lambda>t. (l_block s t, bview (l_bio s) (l_block s t))) [0..<nat (l_n s)] @
       [(head_no s, put32 (hdr_enc (bview (l_bio s) (head_no s)) (nat (l_n s)) (l_block s)) 0 0)] \<and>
     log_ready p s' \<and> l_n s' = 0 \<and> (\<forall>b. bpins (l_bio s') b = 0) \<and>
     (\<forall>b. home s b \<longrightarrow> bview (l_bio s') b = bview (l_bio s) b \<and> d_blocks (bio_disk (l_bio s')) b = bview (l_bio s) b)"
proof -
  obtain s' where s': "commit s = Done () s'" "bio_ok p (l_bio s')" "lframe (s\<lparr>l_n := 0\<rparr>) s'"
    "labs s' = unpin_all (logged s) (write_all (commit_writes s) (labs s))"
    using commit_run [OF assms] by blast
  note rd = log_readyD [OF assms(1)]
  note fr = lframe_sel [OF s'(3)] geom_frame [OF s'(3)]
  let ?w = "commit_writes s" and ?v = "ca_view (labs s)" and ?h = "hdr_enc (ca_view (labs s) (head_no s)) (nat (l_n s)) (l_block s)"
  have len: "length (?v (head_no s)) = BSIZE" by (rule lview_len [OF rd(1)])
  have pins: "ca_pins (labs s') = (\<lambda>_. 0)"
    using assms(1) by (auto simp: s'(4) unpin_all_pins [OF rd(5)] log_ready_def)
  have hd: "put_blocks ?w e (head_no s) = put32 ?h 0 0" for e by (simp add: commit_writes_def Let_def)
  have "hdr_n (put32 ?h 0 0) = 0" using hdr_clear hdr_enc(1) [OF len rd(4)] by blast
  then have "hdr_n (d_blocks (ca_disk (labs s')) (head_no s)) = 0" by (simp add: s'(4) write_all_effect hd)
  then have rdy: "log_ready p s'"
    using s'(2) rd(2,3) pins fr assms(1)
    by (simp add: log_ready_def s'(4) logged_def geom_def [of "s\<lparr>l_n := 0\<rparr>"] geom_def [of s] head_no_def)
  have hm: "put_blocks ?w e b = ?v b" if "home s b" "b \<in> set (logged s) \<or> e b = ?v b" for b e
  proof -
    have nh: "b \<noteq> head_no s" using geom_apart(2) [OF rd(2) that(1)] by blast
    let ?w2 = "map (\<lambda>t. (l_block s t, ?v (l_block s t))) [0..<nat (l_n s)]"
    let ?w1 = "map (\<lambda>t. (slot_no (l_start s) t, ?v (l_block s t))) [0..<nat (l_n s)]"
    have e: "put_blocks ?w e b = put_blocks ?w2 ((put_blocks ?w1 e)(head_no s := ?h)) b"
      using nh by (simp add: commit_writes_def Let_def)
    show ?thesis
    proof (cases "b \<in> set (logged s)")
      case True
      then obtain t where t: "t < nat (l_n s)" "b = l_block s t" by (auto simp: logged_nth)
      show ?thesis unfolding e unfolding t(2) by (rule put_blocks_map) (use t in auto)
    next
      case False
      then have "b \<notin> fst ` set ?w2" by (auto simp: logged_nth)
      moreover have "b \<notin> fst ` set ?w1" using geom_apart(1) [OF rd(2) that(1)] rd(6) by (auto, metis)
      ultimately show ?thesis unfolding e using nh that(2) False by (simp add: put_blocks_other)
    qed
  qed
  have "bview (l_bio s') b = bview (l_bio s) b \<and> d_blocks (bio_disk (l_bio s')) b = bview (l_bio s) b" if "home s b" for b
  proof -
    have "ca_view (labs s') b = ?v b" using hm [OF that, of ?v] by (simp add: s'(4) write_all_effect)
    moreover have "b \<in> set (logged s) \<or> d_blocks (ca_disk (labs s)) b = ?v b" using ready_view [OF assms(1)] by metis
    then have "d_blocks (ca_disk (labs s')) b = ?v b" using hm [OF that] by (simp add: s'(4) write_all_effect)
    ultimately show ?thesis by (simp add: labs_bio)
  qed
  moreover have "d_trace (bio_disk (l_bio s')) = d_trace (bio_disk (l_bio s)) @ ?w"
    using arg_cong [OF s'(4), of "\<lambda>a. d_trace (ca_disk a)"] by (simp add: write_all_effect labs_bio)
  ultimately show ?thesis using s'(1) rdy pins fr(7) by (simp add: commit_writes_def Let_def labs_bio fun_eq_iff)
qed

theorem commit_write_order_witness:
  "\<exists>s s'. l_n s = 3 \<and> commit s = Done () s' \<and> l_n s' = 0 \<and> d_blocks (bio_disk (l_bio s')) 40 = bview (l_bio s) 40"
proof -
  obtain s where s: "log_ready 0 s" "mounted demo_sb s" "l_n s = 3" using demo_run [of 3 1] by auto
  have "home s 40" using mounted_home(1) [OF s(2)] demo_facts(5) [of 40] by simp
  then show ?thesis using commit_write_order [OF s(1)] s(3) by auto
qed

text \<open>
  C3. Recovery is idempotent, also when it is itself interrupted. Mounting a disk with a valid header
  installs the log slots into the home blocks the header names; and if the machine stops after the
  first \<open>j\<close> of the disk writes \<open>ws\<close> that this run of \<^verbatim>\<open>initlog\<close> makes, the next boot recovers and leaves
  every home block as the undisturbed recovery did.
\<close>

theorem recovery_crash_idempotent:
  assumes "sb_geom sb" and "d = d_blocks (bio_disk (l_bio r0))" and "decode_sb (d 1) = sb" and "hdr_ok sb (d (sb_logstart sb))"
    and "length (d (sb_logstart sb)) = BSIZE" and "bio_ok q0 (l_bio r0)" and "idle (labs r0)"
  shows "\<exists>r1 ws. initlog 1 r0 = Done () r1 \<and> l_n r1 = 0 \<and> d_trace (bio_disk (l_bio r1)) = d_trace (bio_disk (l_bio r0)) @ ws \<and>
     d_blocks (bio_disk (l_bio r1)) = put_blocks ws d \<and>
     (\<forall>b. home_blk sb b \<longrightarrow> d_blocks (bio_disk (l_bio r1)) b =
        put_blocks (map (\<lambda>t. (hdr_block (d (sb_logstart sb)) t, d (slot_no (uint (sb_logstart sb)) t))) [0..<nat (hdr_n (d (sb_logstart sb)))]) d b) \<and>
     (\<forall>j q r. bio_ok q (l_bio r) \<and> idle (labs r) \<and> d_blocks (bio_disk (l_bio r)) = put_blocks (take j ws) d \<longrightarrow>
        (\<exists>r'. initlog 1 r = Done () r' \<and> l_n r' = 0 \<and>
           (\<forall>b. home_blk sb b \<longrightarrow> d_blocks (bio_disk (l_bio r')) b = d_blocks (bio_disk (l_bio r1)) b)))"
proof -
  let ?st = "uint (sb_logstart sb)"
  define ws where "ws = recovery ?st d"
  have d: "d = d_blocks (ca_disk (labs r0))" using assms(2) by (simp add: labs_bio)
  obtain r1 where r1: "initlog 1 r0 = Done () r1" "l_n r1 = 0" "labs r1 = write_all ws (labs r0)"
    unfolding ws_def by (rule initlog_run [OF assms(6,7) d assms(3,1,4)])
  have eff: "d_trace (bio_disk (l_bio r1)) = d_trace (bio_disk (l_bio r0)) @ ws" "d_blocks (bio_disk (l_bio r1)) = put_blocks ws d"
    using arg_cong [OF r1(3), of "\<lambda>a. d_trace (ca_disk a)"] arg_cong [OF r1(3), of "\<lambda>a. d_blocks (ca_disk a)"]
    by (simp_all add: write_all_effect labs_bio assms(2))
  have again: "\<exists>r'. initlog 1 r = Done () r' \<and> l_n r' = 0 \<and>
      (\<forall>b. home_blk sb b \<longrightarrow> d_blocks (bio_disk (l_bio r')) b = d_blocks (bio_disk (l_bio r1)) b)"
    if r: "bio_ok q (l_bio r)" "idle (labs r)" and "d_blocks (bio_disk (l_bio r)) = put_blocks (take j ws) d" for j q r
  proof -
    let ?dj = "d_blocks (ca_disk (labs r))"
    have "?dj = put_blocks (take j ws) d" using that(3) by (simp add: labs_bio)
    note c = recovery_crash [OF assms(1,3-5) ws_def this]
    obtain r' where r': "initlog 1 r = Done () r'" "l_n r' = 0" "labs r' = write_all (recovery ?st ?dj) (labs r)"
      by (rule initlog_run [OF r refl c(1) assms(1) c(2)])
    have "d_blocks (bio_disk (l_bio r')) b = d_blocks (bio_disk (l_bio r1)) b" if "home_blk sb b" for b
      using c(3) [OF that] arg_cong [OF r'(3), of "\<lambda>a. d_blocks (ca_disk a) b"] by (simp add: write_all_effect labs_bio eff(2))
    with r'(1,2) show ?thesis by blast
  qed
  have "b \<noteq> sb_logstart sb" if "home_blk sb b" for b using that assms(1) by (auto simp: home_blk_def sb_geom_def)
  then have "put_blocks ws d b = put_blocks (map (\<lambda>t. (hdr_block (d (sb_logstart sb)) t, d (slot_no ?st t))) [0..<nat (hdr_n (d (sb_logstart sb)))]) d b"
    if "home_blk sb b" for b using that by (simp add: ws_def recovery_def Let_def)
  then have "\<forall>b. home_blk sb b \<longrightarrow> d_blocks (bio_disk (l_bio r1)) b =
      put_blocks (map (\<lambda>t. (hdr_block (d (sb_logstart sb)) t, d (slot_no ?st t))) [0..<nat (hdr_n (d (sb_logstart sb)))]) d b"
    by (simp add: eff(2))
  then show ?thesis using r1(1,2) eff again by blast
qed

definition demo_hdr :: bytes where
  "demo_hdr = put32 (put32 (replicate BSIZE 0) 0 1) 4 50"

theorem recovery_crash_idempotent_witness:
  "\<exists>r1 ws r'. initlog 1 (log_bss (fresh_bio (demo_disk(2 := demo_hdr, 3 := replicate BSIZE 9)))) = Done () r1 \<and>
     d_trace (bio_disk (l_bio r1)) = d_trace (bio_disk (l_bio (log_bss (fresh_bio (demo_disk(2 := demo_hdr, 3 := replicate BSIZE 9)))))) @ ws \<and>
     d_blocks (bio_disk (l_bio r1)) 50 = replicate BSIZE 9 \<and>
     initlog 1 (log_bss (fresh_bio (put_blocks (take 0 ws) (demo_disk(2 := demo_hdr, 3 := replicate BSIZE 9))))) = Done () r' \<and>
     d_blocks (bio_disk (l_bio r')) 50 = replicate BSIZE 9"
proof -
  define d where "d = demo_disk(2 := demo_hdr, 3 := replicate BSIZE 9)"
  have st: "sb_logstart demo_sb = 2" by (simp add: demo_sb_def)
  have h: "hdr_n demo_hdr = 1" "hdr_block demo_hdr 0 = 50" "length demo_hdr = BSIZE"
    by (simp_all add: hdr_n_def hdr_block_def demo_hdr_def get32_put32_other int_of_u32_def)
  have d2: "d 2 = demo_hdr" "d 1 = demo_disk 1" "d 3 = replicate BSIZE 9" "\<And>n. length (d n) = BSIZE"
    using h(3) demo_facts(1) by (simp_all add: d_def)
  have ok: "hdr_ok demo_sb demo_hdr"
    using h demo_facts(5) [of 50] by (simp add: hdr_ok_def) (simp add: demo_sb_def)
  note f = fresh_idle [of d, OF d2(4)]
  have dd: "d = d_blocks (bio_disk (l_bio (log_bss (fresh_bio d))))" using f(3) by (simp add: labs_bio)
  obtain r1 ws where r1: "initlog 1 (log_bss (fresh_bio d)) = Done () r1"
    "d_trace (bio_disk (l_bio r1)) = d_trace (bio_disk (l_bio (log_bss (fresh_bio d)))) @ ws"
    "\<forall>b. home_blk demo_sb b \<longrightarrow> d_blocks (bio_disk (l_bio r1)) b =
        put_blocks (map (\<lambda>t. (hdr_block (d (sb_logstart demo_sb)) t, d (slot_no (uint (sb_logstart demo_sb)) t))) [0..<nat (hdr_n (d (sb_logstart demo_sb)))]) d b"
    and again: "\<forall>j q r. bio_ok q (l_bio r) \<and> idle (labs r) \<and> d_blocks (bio_disk (l_bio r)) = put_blocks (take j ws) d \<longrightarrow>
        (\<exists>r'. initlog 1 r = Done () r' \<and> l_n r' = 0 \<and>
           (\<forall>b. home_blk demo_sb b \<longrightarrow> d_blocks (bio_disk (l_bio r')) b = d_blocks (bio_disk (l_bio r1)) b))"
    using recovery_crash_idempotent [OF demo_facts(3) dd _ _ _ f(1,2)] d2(1,2) ok demo_facts(2) h(3) by (auto simp: st)
  have hb: "home_blk demo_sb 50" using demo_facts(5) [of 50] by simp
  have r50: "d_blocks (bio_disk (l_bio r1)) 50 = replicate BSIZE 9"
    using r1(3) hb h d2 by (simp add: st slot_no_def u32_of_int_def)
  obtain r' where "initlog 1 (log_bss (fresh_bio d)) = Done () r'"
      "\<forall>b. home_blk demo_sb b \<longrightarrow> d_blocks (bio_disk (l_bio r')) b = d_blocks (bio_disk (l_bio r1)) b"
    using again [rule_format, of 0 "log_bss (fresh_bio d)" 0] f dd by auto
  then show ?thesis using r1(1,2) r50 hb unfolding d_def [symmetric] by (intro exI [of _ r1] exI [of _ ws] exI [of _ r']) simp
qed



text \<open>
  C11. Admission control and capacity disagree. With the log region of 30 blocks that the image
  builder lays out, \<^verbatim>\<open>begin_op\<close> admits three operations of ten blocks each, but a state is reachable
  in which they have logged 29 distinct blocks and every further \<^verbatim>\<open>log_write\<close> panics, even for a
  block that is already logged.
\<close>

theorem log_capacity_gap:
  "\<exists>s. log_reach s \<and> log_ready 0 s \<and> l_size s = 30 \<and> l_outstanding s = 3 \<and> l_n s = 29 \<and>
     (\<forall>b. log_write b s = Panic ''log: too big a transaction'')"
proof -
  obtain s where s: "log_reach s" "log_ready 0 s" "mounted demo_sb s" "l_n s = 29" "l_outstanding s = 3"
    using demo_run [of 29 3] by auto
  then have "l_size s = 30" by (simp add: mounted_def demo_sb_def)
  then show ?thesis using s by (intro exI [of _ s]) (simp add: log_write_def)
qed

text \<open>
  C12. \<^verbatim>\<open>read_head\<close> checks the header count against the size of the log region only. On a disk
  whose log region is larger than the in-memory header, a header with 31 entries, all of them
  valid home blocks, passes the checks and is then stored past the end of \<^verbatim>\<open>log.lh.block\<close>.
\<close>

theorem read_head_overflow:
  assumes "bio_ok p (l_bio s)" and "geom s" and "idle (labs s)" and "hdr_n (d_blocks (bio_disk (l_bio s)) (head_no s)) = 31"
    and "31 < l_size s" and "\<forall>i<31. home s (hdr_block (d_blocks (bio_disk (l_bio s)) (head_no s)) i)"
  shows "read_head s = Fault ''log.lh.block''"
proof -
  let ?d = "d_blocks (bio_disk (l_bio s)) (head_no s)"
  have hr: "ca_hold (bio_abs (l_bio s)) (head_no s) = None" "has_room (bio_abs (l_bio s)) (head_no s)"
    using assms(3) idle_busy [OF assms(3)] by (simp_all add: has_room_busy labs_def idle_def [of "bio_abs (l_bio s)"])
  obtain i b1 where b: "bread 1 (head_no s) (l_bio s) = Done i b1" "b_data (bufs b1 i) = ca_view (bio_abs (l_bio s)) (head_no s)"
    by (rule bc.peek [OF assms(1) hr])
  define s1 where "s1 = s\<lparr>l_bio := b1\<rparr>"
  have g1: "geom s1" "home s1 = home s" "l_size s1 = l_size s" using assms(2) by (simp_all add: s1_def geom_def home_def fun_eq_iff)
  have dt: "ldata i s1 = ?d" using b(2) idle_view [OF assms(1,3)] by (simp add: ldata_def s1_def labs_def bio_abs_def)
  have rd: "lbio (bread 1 (head_no s)) s = Done i s1" by (simp add: lbio_def b(1) s1_def)
  have c: "kfor [0..<31] (check_entry ?d) s1 = Done () s1"
  proof -
    have ce: "check_entry ?d t s1 = Done () s1" if "t < 31" for t
      using home_word [OF g1(1), of "hdr_block ?d t"] assms(6) g1(2) that by (auto simp: check_entry_def)
    have "kfor ts (check_entry ?d) s1 = Done () s1" if "set ts \<subseteq> {..<31}" for ts
      using that by (induction ts) (auto simp: ce)
    from this [of "[0..<31]"] show ?thesis by (simp add: atLeast0LessThan del: upt_rec_numeral)
  qed
  let ?f = "\<lambda>i. if LOGSIZE \<le> i then kfault ''log.lh.block'' else kmodify (\<lambda>s. s\<lparr>l_block := (l_block s)(i := hdr_block ?d i)\<rparr>)"
  have l: "kfor [0..<31] ?f t = Fault ''log.lh.block''" for t :: logst
  proof -
    have u: "[0..<31] = [0..<30] @ [30::nat]" using upt_Suc_append [of 0 30] by (simp del: upt_rec_numeral)
    have "\<exists>t'. kfor [0..<30] ?f t = Done () t'" by (subst load_loop) (auto simp del: upt_rec_numeral)
    then obtain t' where "kfor [0..<30] ?f t = Done () t'" by blast
    then show ?thesis unfolding u kfor_append by (simp del: upt_rec_numeral)
  qed
  have "load_head i ?d s1 = Fault ''log.lh.block''"
    using assms(4,5) g1(3) c l by (simp add: load_head_def kseq_def kbind_def del: upt_rec_numeral)
  then show ?thesis using assms(2) by (simp add: read_head_def geom_def head_no_def [symmetric] rd dt kbind_def)
qed

definition big_hdr :: bytes where
  "big_hdr = put32 (concat (replicate 256 [50, 0, 0, 0])) 0 31"

theorem read_head_overflow_witness:
  "\<exists>s. hdr_n (d_blocks (bio_disk (l_bio s)) 2) = 31 \<and> read_head s = Fault ''log.lh.block''"
proof -
  define d where "d = demo_disk(2 := big_hdr)"
  have len: "length (concat (replicate k xs)) = k * length xs" for k and xs :: bytes by (induction k) auto
  have h: "hdr_n big_hdr = 31" "length big_hdr = BSIZE" by (simp_all add: hdr_n_def big_hdr_def int_of_u32_def len)
  have sl: "bslice (concat (replicate k [50, 0, 0, 0 :: u8])) (4 + 4 * i) 4 = [50, 0, 0, 0]" if "i + 1 < k" for i k
    using that
  proof (induction i arbitrary: k)
    case 0
    then obtain k' where "k = Suc (Suc k')" by (metis add_0 One_nat_def less_imp_Suc_add plus_nat.simps(2) Suc_eq_plus1)
    then show ?case by (simp add: bslice_def)
  next
    case (Suc i)
    then obtain k' where k: "k = Suc k'" by (cases k) auto
    have "drop (4 + 4 * Suc i) xs = drop (4 + 4 * i) (drop 4 xs)" for xs :: bytes by (simp add: add.commute)
    moreover have "drop 4 (concat (replicate k [50, 0, 0, 0 :: u8])) = concat (replicate k' [50, 0, 0, 0])" by (simp add: k)
    ultimately show ?case using Suc.IH [of k'] Suc.prems k unfolding bslice_def by (simp only: Suc_less_eq add_Suc)
  qed
  have hb: "hdr_block big_hdr i = 50" if "i < 31" for i
    using sl [of i 256] that by (simp add: hdr_block_def big_hdr_def get32_put32_other len) (simp add: get32_def)
  define s where "s = (log_bss (fresh_bio d))\<lparr>l_sb := demo_sb, l_start := 2, l_size := 40, l_dev := 1\<rparr>"
  have "length (d n) = BSIZE" for n using demo_facts(1) h(2) by (simp add: d_def)
  note f = fresh_idle [of d, OF this]
  have s: "bio_ok 0 (l_bio s)" "geom s" "idle (labs s)" "head_no s = 2" "d_blocks (bio_disk (l_bio s)) 2 = big_hdr"
    using f by (simp_all add: s_def labs_def geom_def demo_sb_def head_no_def u32_of_int_def bio_abs_def) (simp add: d_def)
  have "home s 50" by (simp add: home_def s_def demo_sb_def)
  with read_head_overflow [OF s(1-3)] s(4,5) h(1) hb have "read_head s = Fault ''log.lh.block''"
    by (simp add: s_def)
  then show ?thesis using h(1) s(5) by (intro exI [of _ s]) simp
qed

end
