(* ===== verification/Spinlock.thy ===== *)
theory Spinlock
  imports Prelude
begin

text \<open>
  The spinlock of \<^verbatim>\<open>kernel/spinlock.c\<close> on the single boot hart: the supervisor interrupt-enable
  bit of \<^verbatim>\<open>sstatus\<close>, the nesting depth \<^verbatim>\<open>noff\<close>, the saved bit, and the lock words, named by a
  type of locks.
\<close>

section \<open>Definitions\<close>

definition SSTATUS_SIE :: u64 where "SSTATUS_SIE = 2"

record 'l spin =
  sstatus :: u64
  saved_sie :: u64
  noff :: int
  locked :: "'l \<Rightarrow> u32"

definition initlock :: "'l \<Rightarrow> 'l spin \<Rightarrow> 'l spin" where
  "initlock lk s = s\<lparr>locked := (locked s)(lk := 0)\<rparr>"

definition push_off :: "'l spin \<Rightarrow> 'l spin" where
  "push_off s = (let x = sstatus s in
     s\<lparr>saved_sie := (if noff s = 0 then x AND SSTATUS_SIE else saved_sie s), noff := noff s + 1,
       sstatus := x AND NOT SSTATUS_SIE\<rparr>)"

definition pop_off :: "'l spin \<Rightarrow> 'l spin" where
  "pop_off s = (let n = noff s - 1 in
     if n = 0 then s\<lparr>noff := n, sstatus := (if saved_sie s \<noteq> 0 then sstatus s OR SSTATUS_SIE else sstatus s AND NOT SSTATUS_SIE)\<rparr>
     else s\<lparr>noff := n\<rparr>)"

definition holding :: "'l \<Rightarrow> 'l spin \<Rightarrow> bool" where
  "holding lk s \<longleftrightarrow> locked s lk \<noteq> 0"

text \<open>
  \<^verbatim>\<open>acquire\<close>: the test-and-set loop would spin while the word is nonzero; the check before it has
  already panicked in that case, so the first exchange succeeds.
\<close>

definition acquire :: "'l \<Rightarrow> ('l spin, unit) kmonad" where
  "acquire lk = kseq (kmodify push_off) (kbind (kget (holding lk)) (\<lambda>h.
     if h then kpanic ''acquire'' else kmodify (\<lambda>s. s\<lparr>locked := (locked s)(lk := 1)\<rparr>)))"

definition release :: "'l \<Rightarrow> ('l spin, unit) kmonad" where
  "release lk = kbind (kget (holding lk)) (\<lambda>h.
     if \<not> h then kpanic ''release''
     else kseq (kmodify (\<lambda>s. s\<lparr>locked := (locked s)(lk := 0)\<rparr>)) (kmodify pop_off))"

section \<open>Nesting\<close>

definition irq_on :: "'l spin \<Rightarrow> bool" where
  "irq_on s \<longleftrightarrow> sstatus s AND SSTATUS_SIE \<noteq> 0"

text \<open>The state inside critical sections: what it will look like when all of them are left.\<close>

definition inside :: "'l set \<Rightarrow> 'l spin \<Rightarrow> 'l spin \<Rightarrow> bool" where
  "inside held s0 s \<longleftrightarrow> noff s = int (card held) \<and> sstatus s = (if held = {} then sstatus s0 else sstatus s0 AND NOT SSTATUS_SIE) \<and>
     (held \<noteq> {} \<longrightarrow> saved_sie s = sstatus s0 AND SSTATUS_SIE) \<and>
     locked s = (\<lambda>l. if l \<in> held then 1 else locked s0 l)"

lemma sie_mask:
  "(x AND NOT SSTATUS_SIE) AND NOT SSTATUS_SIE = x AND NOT SSTATUS_SIE"
  "x AND SSTATUS_SIE \<noteq> 0 \<Longrightarrow> (x AND NOT SSTATUS_SIE) OR SSTATUS_SIE = x"
  "x AND SSTATUS_SIE = 0 \<Longrightarrow> x AND NOT SSTATUS_SIE = x"
proof -
  have s: "SSTATUS_SIE = 2 ^ 1" by (simp add: SSTATUS_SIE_def)
  show "(x AND NOT SSTATUS_SIE) AND NOT SSTATUS_SIE = x AND NOT SSTATUS_SIE" by (simp add: and.assoc)
  have b: "x AND SSTATUS_SIE = 0 \<longleftrightarrow> \<not> bit x 1"
    unfolding s by (rule and_exp_eq_0_iff_not_bit)
  have n: "bit SSTATUS_SIE n \<longleftrightarrow> n = 1" for n
    unfolding s by (auto simp: bit_simps)
  show "(x AND NOT SSTATUS_SIE) OR SSTATUS_SIE = x" if "x AND SSTATUS_SIE \<noteq> 0"
    by (rule bit_word_eqI) (use that b n in \<open>auto simp: bit_or_iff bit_and_iff bit_not_iff\<close>)
  show "x AND NOT SSTATUS_SIE = x" if "x AND SSTATUS_SIE = 0"
    by (rule bit_word_eqI) (use that b n in \<open>auto simp: bit_or_iff bit_and_iff bit_not_iff\<close>)
qed

lemma acquire_inside:
  assumes "inside held s0 s" "finite held" "l \<notin> held" "locked s0 l = 0"
  shows "\<exists>s'. acquire l s = Done () s' \<and> inside (insert l held) s0 s'"
  using assms
  by (auto simp: acquire_def inside_def holding_def push_off_def Let_def sie_mask fun_eq_iff)

lemma release_inside:
  assumes "inside (insert l held) s0 s" "finite held" "l \<notin> held" "locked s0 l = 0"
  shows "\<exists>s'. release l s = Done () s' \<and> inside held s0 s'"
proof -
  have l: "locked s l = 1" "noff s = int (card held) + 1" "sstatus s = sstatus s0 AND NOT SSTATUS_SIE"
    "saved_sie s = sstatus s0 AND SSTATUS_SIE" "locked s = (\<lambda>k. if k \<in> insert l held then 1 else locked s0 k)"
    using assms by (auto simp: inside_def)
  show ?thesis
  proof (cases "held = {}")
    case True
    then show ?thesis using l assms(4)
      by (auto simp: release_def holding_def inside_def pop_off_def Let_def fun_eq_iff sie_mask)
  next
    case False
    then have "card held \<noteq> 0" using assms(2) by simp
    then show ?thesis using l False assms(3,4)
      by (auto simp: release_def holding_def inside_def pop_off_def Let_def fun_eq_iff)
  qed
qed

lemma acquire_all:
  assumes "inside held s0 s" "finite held" "distinct ls" "set ls \<inter> held = {}" "\<forall>l\<in>set ls. locked s0 l = 0"
  shows "\<exists>s'. kfor ls acquire s = Done () s' \<and> inside (set ls \<union> held) s0 s'"
  using assms
proof (induction ls arbitrary: s held)
  case (Cons l ls)
  obtain s1 where 1: "acquire l s = Done () s1" "inside (insert l held) s0 s1"
    using acquire_inside [of held s0 s l] Cons.prems by auto
  obtain s2 where "kfor ls acquire s1 = Done () s2" "inside (set ls \<union> insert l held) s0 s2"
    using Cons.IH [OF 1(2)] Cons.prems by auto
  with 1(1) show ?case by auto
qed auto

lemma release_all:
  assumes "inside (set ls \<union> held) s0 s" "finite held" "distinct ls" "set ls \<inter> held = {}" "\<forall>l\<in>set ls. locked s0 l = 0"
  shows "\<exists>s'. kfor ls release s = Done () s' \<and> inside held s0 s'"
  using assms
proof (induction ls arbitrary: s)
  case (Cons l ls)
  have "inside (insert l (set ls \<union> held)) s0 s" using Cons.prems(1) by simp
  then obtain s1 where 1: "release l s = Done () s1" "inside (set ls \<union> held) s0 s1"
    using release_inside [of l "set ls \<union> held" s0 s] Cons.prems by auto
  obtain s2 where "kfor ls release s1 = Done () s2" "inside held s0 s2"
    using Cons.IH [OF 1(2)] Cons.prems by auto
  with 1(1) show ?case by auto
qed auto

text \<open>
  C20. Nested critical sections restore the interrupt state. Acquiring any free locks in any order
  succeeds and leaves interrupts off while at least one is held; releasing the same locks in any
  order succeeds and gives back the \<^verbatim>\<open>sstatus\<close> register, the nesting depth and the lock words
  from before.
\<close>

theorem critical_sections_restore:
  assumes "distinct ls" and "set ls' = set ls" and "distinct ls'" and "noff s = 0" and "\<forall>l\<in>set ls. locked s l = 0"
  shows "\<exists>s1 s2. kfor ls acquire s = Done () s1 \<and> (ls \<noteq> [] \<longrightarrow> \<not> irq_on s1) \<and> (\<forall>l\<in>set ls. acquire l s1 = Panic ''acquire'') \<and>
     kfor ls' release s1 = Done () s2 \<and> sstatus s2 = sstatus s \<and> noff s2 = 0 \<and> locked s2 = locked s"
proof -
  have i0: "inside {} s s" using assms(4) by (simp add: inside_def)
  obtain s1 where 1: "kfor ls acquire s = Done () s1" "inside (set ls) s s1"
    using acquire_all [OF i0 _ assms(1) _ assms(5)] by auto
  have "inside (set ls' \<union> {}) s s1" using 1(2) assms(2) by simp
  then obtain s2 where 2: "kfor ls' release s1 = Done () s2" "inside {} s s2"
    using release_all [of ls' "{}" s s1] assms(2,3,5) by auto
  have "\<not> irq_on s1" if "ls \<noteq> []"
    using 1(2) that by (simp add: irq_on_def inside_def and.assoc)
  moreover have "acquire l s1 = Panic ''acquire''" if "l \<in> set ls" for l
    using 1(2) that by (simp add: acquire_def inside_def holding_def push_off_def Let_def)
  ultimately show ?thesis using 1(1) 2 by (auto simp: inside_def)
qed

theorem critical_sections_restore_witness:
  "\<exists>s1 s2. kfor [1, 2] acquire \<lparr>sstatus = 2, saved_sie = 0, noff = 0, locked = (\<lambda>_ :: nat. 0)\<rparr> = Done () s1 \<and> \<not> irq_on s1 \<and>
     kfor [1, 2] release s1 = Done () s2 \<and> sstatus s2 = 2 \<and> noff s2 = 0"
  using critical_sections_restore [of "[1, 2]" "[1, 2]" "\<lparr>sstatus = 2, saved_sie = 0, noff = 0, locked = (\<lambda>_ :: nat. 0)\<rparr>"] by auto

end
