(* ===== verification/Kstring.thy ===== *)
theory Kstring
  imports Prelude
begin

text \<open>
  The byte-string routines of \<^verbatim>\<open>kernel/string.c\<close>. A pointer that is only read is the function
  from offsets to bytes; a routine that stores works on the byte-addressed memory, one byte per
  iteration and in the order of the C loop, so that overlapping arguments mean what they mean in
  the code. \<^verbatim>\<open>char\<close> is unsigned on RISC-V.
\<close>

section \<open>Definitions\<close>

definition memset :: "(u64 \<Rightarrow> u8) \<Rightarrow> u64 \<Rightarrow> u8 \<Rightarrow> u32 \<Rightarrow> u64 \<Rightarrow> u8" where
  "memset m dst c n = fold (\<lambda>i m. m(dst + of_nat i := c)) [0..<unat n] m"

primrec memcmp_loop :: "nat \<Rightarrow> (nat \<Rightarrow> u8) \<Rightarrow> (nat \<Rightarrow> u8) \<Rightarrow> nat \<Rightarrow> int" where
  "memcmp_loop 0 s1 s2 i = 0"
| "memcmp_loop (Suc n) s1 s2 i = (if s1 i \<noteq> s2 i then uint (s1 i) - uint (s2 i) else memcmp_loop n s1 s2 (Suc i))"

definition memcmp :: "(nat \<Rightarrow> u8) \<Rightarrow> (nat \<Rightarrow> u8) \<Rightarrow> u32 \<Rightarrow> int" where
  "memcmp s1 s2 n = memcmp_loop (unat n) s1 s2 0"

text \<open>\<^verbatim>\<open>while(n-- > 0) *--d = *--s\<close> and \<^verbatim>\<open>while(n-- > 0) *d++ = *s++\<close>.\<close>

primrec copy_down :: "nat \<Rightarrow> u64 \<Rightarrow> u64 \<Rightarrow> (u64 \<Rightarrow> u8) \<Rightarrow> u64 \<Rightarrow> u8" where
  "copy_down 0 d s m = m"
| "copy_down (Suc n) d s m = copy_down n (d - 1) (s - 1) (m(d - 1 := m (s - 1)))"

primrec copy_up :: "nat \<Rightarrow> u64 \<Rightarrow> u64 \<Rightarrow> (u64 \<Rightarrow> u8) \<Rightarrow> u64 \<Rightarrow> u8" where
  "copy_up 0 d s m = m"
| "copy_up (Suc n) d s m = copy_up n (d + 1) (s + 1) (m(d := m s))"

definition memmove :: "(u64 \<Rightarrow> u8) \<Rightarrow> u64 \<Rightarrow> u64 \<Rightarrow> u32 \<Rightarrow> u64 \<Rightarrow> u8" where
  "memmove m dst src n =
     (if n = 0 then m
      else if src < dst \<and> src + ucast n > dst then copy_down (unat n) (dst + ucast n) (src + ucast n) m
      else copy_up (unat n) dst src m)"

definition memcpy :: "(u64 \<Rightarrow> u8) \<Rightarrow> u64 \<Rightarrow> u64 \<Rightarrow> u32 \<Rightarrow> u64 \<Rightarrow> u8" where
  "memcpy m dst src n = memmove m dst src n"

primrec strncmp_loop :: "nat \<Rightarrow> (nat \<Rightarrow> u8) \<Rightarrow> (nat \<Rightarrow> u8) \<Rightarrow> nat \<Rightarrow> int" where
  "strncmp_loop 0 p q i = 0"
| "strncmp_loop (Suc n) p q i =
     (if p i \<noteq> 0 \<and> p i = q i then strncmp_loop n p q (Suc i) else uint (p i) - uint (q i))"

definition strncmp :: "(nat \<Rightarrow> u8) \<Rightarrow> (nat \<Rightarrow> u8) \<Rightarrow> u32 \<Rightarrow> int" where
  "strncmp p q n = strncmp_loop (unat n) p q 0"

text \<open>The two loops of \<^verbatim>\<open>strncpy\<close>; the argument counts the iterations left.\<close>

primrec fill_zero :: "nat \<Rightarrow> u64 \<Rightarrow> (u64 \<Rightarrow> u8) \<Rightarrow> u64 \<Rightarrow> u8" where
  "fill_zero 0 s m = m"
| "fill_zero (Suc n) s m = fill_zero n (s + 1) (m(s := 0))"

primrec strncpy_loop :: "nat \<Rightarrow> u64 \<Rightarrow> u64 \<Rightarrow> (u64 \<Rightarrow> u8) \<Rightarrow> u64 \<Rightarrow> u8" where
  "strncpy_loop 0 s t m = m"
| "strncpy_loop (Suc n) s t m =
     (if m t \<noteq> 0 then strncpy_loop n (s + 1) (t + 1) (m(s := m t)) else fill_zero n (s + 1) (m(s := 0)))"

definition strncpy :: "(u64 \<Rightarrow> u8) \<Rightarrow> u64 \<Rightarrow> u64 \<Rightarrow> int \<Rightarrow> u64 \<Rightarrow> u8" where
  "strncpy m s t n = strncpy_loop (nat n) s t m"

primrec safestrcpy_loop :: "nat \<Rightarrow> u64 \<Rightarrow> u64 \<Rightarrow> (u64 \<Rightarrow> u8) \<Rightarrow> u64 \<Rightarrow> u8" where
  "safestrcpy_loop 0 s t m = m(s := 0)"
| "safestrcpy_loop (Suc n) s t m =
     (if m t \<noteq> 0 then safestrcpy_loop n (s + 1) (t + 1) (m(s := m t)) else (m(s := 0))(s + 1 := 0))"

definition safestrcpy :: "(u64 \<Rightarrow> u8) \<Rightarrow> u64 \<Rightarrow> u64 \<Rightarrow> int \<Rightarrow> u64 \<Rightarrow> u8" where
  "safestrcpy m s t n =
     (if n \<le> 0 then m else if n = 1 then m(s := 0) else safestrcpy_loop (nat (n - 1)) s t m)"

text \<open>\<^verbatim>\<open>strlen\<close> has no bound of its own: without a NUL it does not return.\<close>

partial_function (option) strlen_loop :: "(nat \<Rightarrow> u8) \<Rightarrow> nat \<Rightarrow> nat option" where
  "strlen_loop s n = (if s n = 0 then Some n else strlen_loop s (Suc n))"

definition strlen :: "(nat \<Rightarrow> u8) \<Rightarrow> nat option" where
  "strlen s = strlen_loop s 0"

section \<open>Lemmas\<close>

lemma wr_snoc: "length xs < 2 ^ 64 \<Longrightarrow> wr_bytes m a (xs @ [x]) = (wr_bytes m a xs)(a + of_nat (length xs) := x)"
proof (rule ext)
  fix b
  assume l: "length xs < 2 ^ 64"
  have u: "unat (of_nat (length xs) :: u64) = length xs" using l by (simp add: unat_of_nat)
  show "wr_bytes m a (xs @ [x]) b = ((wr_bytes m a xs)(a + of_nat (length xs) := x)) b"
  proof (cases "b = a + of_nat (length xs)")
    case True
    then show ?thesis using u by (simp add: wr_bytes_def)
  next
    case False
    then have "unat (b - a) \<noteq> length xs"
      by (metis add.commute diff_add_cancel word_unat_eq_iff u)
    then show ?thesis using False by (auto simp: wr_bytes_def nth_append)
  qed
qed

lemma memset_wr: "memset m dst c n = wr_bytes m dst (replicate (unat n) c)"
proof -
  have "fold (\<lambda>i m. m(dst + of_nat i := c)) [0..<k] m = wr_bytes m dst (replicate k c)" if "k < 2 ^ 64" for k
    using that
  proof (induction k)
    case 0
    then show ?case by (simp add: wr_bytes_def)
  next
    case (Suc k)
    then show ?case using wr_snoc [of "replicate k c" m dst c] by (simp add: replicate_append_same del: fun_upd_apply)
  qed
  moreover have "unat n < 2 ^ 64" using unat_bound [of n] by simp
  ultimately show ?thesis by (simp add: memset_def)
qed

lemma wr_at:
  assumes "length xs < 2 ^ 64" "i < 2 ^ 64"
  shows "wr_bytes m a xs (a + of_nat i) = (if i < length xs then xs ! i else m (a + of_nat i))"
  using assms by (simp add: wr_bytes_def unat_of_nat_64)

lemma wr_cong: "(\<And>x. length xs \<le> unat (x - a) \<Longrightarrow> m x = m' x) \<Longrightarrow> wr_bytes m a xs = wr_bytes m' a xs"
  by (rule ext) (auto simp: wr_bytes_def not_less)

lemma wr_Cons:
  assumes "length xs + 1 < 2 ^ 64"
  shows "wr_bytes (m(d := x)) (d + 1) xs = wr_bytes m d (x # xs)"
proof (rule ext)
  fix b
  show "wr_bytes (m(d := x)) (d + 1) xs b = wr_bytes m d (x # xs) b"
  proof (cases "b = d")
    case True
    have "unat (d - (d + 1)) = 2 ^ 64 - 1" by (simp add: unsigned_minus_1_eq_mask mask_eq_exp_minus_1)
    then show ?thesis using True assms by (simp add: wr_bytes_def)
  next
    case False
    then have "b - d \<noteq> 0" by simp
    then have "unat (b - (d + 1)) = unat (b - d) - 1" by (metis diff_diff_add unat_minus_one)
    moreover have "0 < unat (b - d)" using False by (simp add: unat_gt_0)
    ultimately show ?thesis using False by (auto simp: wr_bytes_def nth_Cons')
  qed
qed

lemma rd_Suc: "rd_bytes m a (Suc n) = m a # rd_bytes m (a + 1) n"
  by (simp add: rd_bytes_def upt_conv_Cons map_Suc_upt [symmetric] add.assoc del: upt_Suc map_Suc_upt)

lemma rd_snoc: "rd_bytes m a (Suc n) = rd_bytes m a n @ [m (a + of_nat n)]"
  by (simp add: rd_bytes_def)

lemma rd_cong: "(\<And>i. i < n \<Longrightarrow> m (a + of_nat i) = m' (a + of_nat i)) \<Longrightarrow> rd_bytes m a n = rd_bytes m' a n"
  by (simp add: rd_bytes_def)

lemma copy_up_wr:
  assumes "n < 2 ^ 32" "\<And>i j. i < j \<Longrightarrow> j < n \<Longrightarrow> d + of_nat i \<noteq> s + of_nat j"
  shows "copy_up n d s m = wr_bytes m d (rd_bytes m s n)"
  using assms
proof (induction n arbitrary: d s m)
  case 0
  then show ?case by (simp add: rd_bytes_def wr_bytes_def)
next
  case (Suc n)
  have "copy_up n (d + 1) (s + 1) (m(d := m s)) = wr_bytes (m(d := m s)) (d + 1) (rd_bytes (m(d := m s)) (s + 1) n)"
  proof (rule Suc.IH)
    show "n < 2 ^ 32" using Suc.prems(1) by simp
    show "d + 1 + of_nat i \<noteq> s + 1 + of_nat j" if "i < j" "j < n" for i j
      using Suc.prems(2) [of "Suc i" "Suc j"] that by (simp add: algebra_simps)
  qed
  moreover have "rd_bytes (m(d := m s)) (s + 1) n = rd_bytes m (s + 1) n"
  proof (rule rd_cong)
    fix i assume "i < n"
    then show "(m(d := m s)) (s + 1 + of_nat i) = m (s + 1 + of_nat i)"
      using Suc.prems(2) [of 0 "Suc i"] by (auto simp: algebra_simps)
  qed
  ultimately show ?case using wr_Cons [of "rd_bytes m (s + 1) n" m d "m s"] Suc.prems(1) by (simp add: rd_Suc)
qed

lemma copy_down_wr:
  assumes "n < 2 ^ 32" "\<And>i j. j < i \<Longrightarrow> i < n \<Longrightarrow> d + of_nat i \<noteq> s + of_nat j"
  shows "copy_down n (d + of_nat n) (s + of_nat n) m = wr_bytes m d (rd_bytes m s n)"
  using assms
proof (induction n arbitrary: m)
  case 0
  then show ?case by (simp add: rd_bytes_def wr_bytes_def)
next
  case (Suc n)
  let ?m = "m(d + of_nat n := m (s + of_nat n))"
  have "copy_down n (d + of_nat n) (s + of_nat n) ?m = wr_bytes ?m d (rd_bytes ?m s n)"
    by (rule Suc.IH) (use Suc.prems in auto)
  moreover have "rd_bytes ?m s n = rd_bytes m s n"
  proof (rule rd_cong)
    fix i assume "i < n"
    then show "?m (s + of_nat i) = m (s + of_nat i)" using Suc.prems(2) [of i n] by auto
  qed
  moreover have "wr_bytes ?m d (rd_bytes m s n) = (wr_bytes m d (rd_bytes m s n))(d + of_nat n := m (s + of_nat n))"
  proof (rule ext)
    fix b
    show "wr_bytes ?m d (rd_bytes m s n) b = ((wr_bytes m d (rd_bytes m s n))(d + of_nat n := m (s + of_nat n))) b"
      using wr_at [of "rd_bytes m s n" n ?m d] Suc.prems(1) by (auto simp: wr_bytes_def)
  qed
  ultimately show ?case
    using wr_snoc [of "rd_bytes m s n" m d "m (s + of_nat n)"] Suc.prems(1) by (simp add: rd_snoc)
qed

lemma unat_add_no_wrap: "unat (a :: u64) + n < 2 ^ 64 \<Longrightarrow> unat (a + of_nat n) = unat a + n"
  by (simp add: unat_word_ariths unat_of_nat)

lemma memcmp_loop_0: "memcmp_loop n s1 s2 i = 0 \<longleftrightarrow> (\<forall>k<n. s1 (i + k) = s2 (i + k))"
proof (induction n arbitrary: i)
  case (Suc n)
  have "uint (s1 i) - uint (s2 i) = 0 \<longleftrightarrow> s1 i = s2 i" by (simp add: word_uint_eq_iff)
  then show ?case using Suc.IH [of "Suc i"] by (auto simp: less_Suc_eq_0_disj)
qed simp

lemma strncmp_loop_0:
  "strncmp_loop n p q i = 0 \<longleftrightarrow> (\<forall>k<n. (\<forall>j<k. p (i + j) \<noteq> 0) \<longrightarrow> p (i + k) = q (i + k))"
proof (induction n arbitrary: i)
  case (Suc n)
  have u: "uint (p i) - uint (q i) = 0 \<longleftrightarrow> p i = q i" by (simp add: word_uint_eq_iff)
  show ?case
  proof (cases "p i \<noteq> 0 \<and> p i = q i")
    case True
    then show ?thesis using Suc.IH [of "Suc i"] by (simp add: All_less_Suc2)
  next
    case False
    then show ?thesis using u by (auto simp: less_Suc_eq_0_disj)
  qed
qed simp

lemma strlen_loop_found:
  assumes "s (n + k) = 0" "\<And>j. j < k \<Longrightarrow> s (n + j) \<noteq> 0"
  shows "strlen_loop s n = Some (n + k)"
  using assms
proof (induction k arbitrary: n)
  case 0
  then show ?case by (subst strlen_loop.simps) simp
next
  case (Suc k)
  have "strlen_loop s (Suc n) = Some (Suc n + k)" using Suc.IH [of "Suc n"] Suc.prems by (metis add_Suc_right add_Suc Suc_less_eq)
  moreover have "s n \<noteq> 0" using Suc.prems(2) [of 0] by simp
  ultimately show ?case by (subst strlen_loop.simps) simp
qed

lemma safestrcpy_loop_frame:
  assumes "n < 2 ^ 32" "n < unat (b - s)"
  shows "safestrcpy_loop n s t m b = m b"
  using assms
proof (induction n arbitrary: s t m)
  case 0
  then have "b \<noteq> s" by (metis diff_self less_numeral_extra(3) unat_0)
  then show ?case by simp
next
  case (Suc n)
  have bs: "b \<noteq> s" using Suc.prems(2) by (metis diff_self not_less0 unat_0)
  then have "b - s \<noteq> 0" by simp
  moreover have "b - (s + 1) = (b - s) - 1" by simp
  ultimately have u: "unat (b - (s + 1)) = unat (b - s) - 1" using unat_minus_one [of "b - s"] by metis
  have b1: "b \<noteq> s + 1"
  proof
    assume "b = s + 1"
    then have "unat (b - (s + 1)) = 0" by simp
    then show False using u Suc.prems(2) by linarith
  qed
  have lt: "n < 2 ^ 32" "n < unat (b - (s + 1))" using Suc.prems u by linarith+
  have "safestrcpy_loop n (s + 1) (t + 1) (m(s := m t)) b = (m(s := m t)) b" by (rule Suc.IH [OF lt])
  then show ?case using bs b1 by simp
qed


lemma safestrcpy_loop_nul:
  assumes "n < 2 ^ 32"
  shows "\<exists>k\<le>n. safestrcpy_loop n s t m (s + of_nat k) = 0"
  using assms
proof (induction n arbitrary: s t m)
  case 0
  then show ?case by simp
next
  case (Suc n)
  show ?case
  proof (cases "m t = 0")
    case True
    then have "safestrcpy_loop (Suc n) s t m (s + of_nat 0) = 0" by simp
    then show ?thesis by blast
  next
    case False
    obtain k where "k \<le> n" "safestrcpy_loop n (s + 1) (t + 1) (m(s := m t)) (s + 1 + of_nat k) = 0"
      using Suc.IH [OF Suc_lessD [OF Suc.prems], of "s + 1" "t + 1" "m(s := m t)"] by blast
    then show ?thesis using False by (intro exI [of _ "Suc k"]) (simp add: add.assoc)
  qed
qed

text \<open>
  C30. \<^verbatim>\<open>memmove\<close> copies correctly whatever the overlap of source and destination: it is the write of
  the bytes the source had before the call.
\<close>

theorem memmove_correct:
  assumes "unat src + unat n < 2 ^ 64" and "unat dst + unat n < 2 ^ 64"
  shows "memmove m dst src n = wr_bytes m dst (rd_bytes m src (unat n))"
proof -
  let ?n = "unat n"
  have n: "?n < 2 ^ 32" using unat_bound [of n] by simp
  have nn: "(ucast n :: u64) = of_nat ?n" by simp
  have us: "unat (src + of_nat i) = unat src + i" if "i \<le> ?n" for i using unat_add_no_wrap [of src i] assms(1) that by linarith
  have ud: "unat (dst + of_nat i) = unat dst + i" if "i \<le> ?n" for i using unat_add_no_wrap [of dst i] assms(2) that by linarith
  have ne: "dst + of_nat i \<noteq> src + of_nat j" if "i < ?n" "j < ?n" "unat dst + i \<noteq> unat src + j" for i j
    using us [of j] ud [of i] that by (metis less_imp_le)
  show ?thesis
  proof (cases "n = 0")
    case True
    then show ?thesis by (simp add: memmove_def rd_bytes_def wr_bytes_def)
  next
    case False
    show ?thesis
    proof (cases "src < dst \<and> src + ucast n > dst")
      case True
      then have lt: "unat src < unat dst" by (simp add: word_less_nat_alt)
      have "copy_down ?n (dst + of_nat ?n) (src + of_nat ?n) m = wr_bytes m dst (rd_bytes m src ?n)"
        by (rule copy_down_wr [OF n]) (use ne lt in auto)
      then show ?thesis using False True unfolding memmove_def nn by simp
    next
      case no: False
      have le: "unat dst \<le> unat src \<or> unat src + ?n \<le> unat dst"
      proof -
        have "\<not> unat src < unat dst \<or> \<not> unat dst < unat (src + of_nat ?n)"
          using no unfolding nn word_less_nat_alt by blast
        then show ?thesis using us [OF order_refl] by linarith
      qed
      have "copy_up ?n dst src m = wr_bytes m dst (rd_bytes m src ?n)"
      proof (rule copy_up_wr [OF n])
        fix i j assume "i < j" "j < ?n"
        then show "dst + of_nat i \<noteq> src + of_nat j" using le by (intro ne) auto
      qed
      then show ?thesis using False no unfolding memmove_def by (simp only: if_False)
    qed
  qed
qed

theorem memmove_correct_witness:
  "memmove (\<lambda>a. ucast a) 0x1001 0x1000 4 = wr_bytes (\<lambda>a. ucast a) 0x1001 [0, 1, 2, 3]"
proof -
  have "rd_bytes (\<lambda>a. ucast a) 0x1000 (unat (4 :: u32)) = [0, 1, 2, 3]" by (simp add: rd_bytes_def upt_rec)
  then show ?thesis using memmove_correct [of "0x1000" 4 "0x1001" "\<lambda>a. ucast a"] by simp
qed

text \<open>
  C31. \<^verbatim>\<open>safestrcpy\<close> with a buffer of \<open>n\<close> bytes stores only into that buffer and always leaves a NUL in it.
\<close>

theorem safestrcpy_safe:
  assumes "0 < n" and "n < 2 ^ 31"
  shows "(\<exists>k<nat n. safestrcpy m s t n (s + of_nat k) = 0) \<and> (\<forall>b. nat n \<le> unat (b - s) \<longrightarrow> safestrcpy m s t n b = m b)"
proof (cases "n = 1")
  case True
  have "b \<noteq> s" if "1 \<le> unat (b - s)" for b using that by (metis diff_self not_one_le_zero unat_0)
  with True show ?thesis by (auto simp: safestrcpy_def)
next
  case False
  let ?k = "nat (n - 1)"
  have k: "?k < 2 ^ 32" "nat n = Suc ?k" using assms by auto
  have e: "safestrcpy m s t n = safestrcpy_loop ?k s t m" using assms False by (simp add: safestrcpy_def)
  have "\<exists>j<nat n. safestrcpy m s t n (s + of_nat j) = 0"
    using safestrcpy_loop_nul [OF k(1), of s t m] unfolding e k(2) by (auto simp: less_Suc_eq_le)
  moreover have "safestrcpy m s t n b = m b" if "nat n \<le> unat (b - s)" for b
    unfolding e by (rule safestrcpy_loop_frame [OF k(1)]) (use that k(2) in linarith)
  ultimately show ?thesis by blast
qed

theorem safestrcpy_safe_witness:
  "(\<exists>k<4. safestrcpy (\<lambda>_. 65) 0x1000 0x2000 4 (0x1000 + of_nat k) = 0) \<and> safestrcpy (\<lambda>_. 65) 0x1000 0x2000 4 0x1004 = 65"
proof -
  have u: "nat 4 \<le> unat ((0x1004 :: u64) - 0x1000)" "(0 :: int) < 4" "(4 :: int) < 2 ^ 31" "nat 4 = 4" by simp_all
  from safestrcpy_safe [OF u(2,3), of "\<lambda>_. 65" "0x1000" "0x2000"] u(1) show ?thesis unfolding u(4) by blast
qed

end
