(* ===== verification/Kalloc.thy ===== *)
theory Kalloc
  imports Kstring
begin

text \<open>
  The physical page allocator of \<^verbatim>\<open>kernel/kalloc.c\<close>: free pages are linked through their own
  first eight bytes. The state is the physical memory, the address \<^verbatim>\<open>end\<close> that the linker gives the
  end of the kernel image, and the head of the list. The spinlock of the list makes the update of
  the list one atomic step.
\<close>

section \<open>Definitions\<close>

definition PGSIZE :: u64 where "PGSIZE = 4096"

definition PHYSTOP :: u64 where "PHYSTOP = 0x80000000 + 128 * 1024 * 1024"

definition PGROUNDUP :: "u64 \<Rightarrow> u64" where
  "PGROUNDUP sz = (sz + PGSIZE - 1) AND NOT (PGSIZE - 1)"

definition PGROUNDDOWN :: "u64 \<Rightarrow> u64" where
  "PGROUNDDOWN a = a AND NOT (PGSIZE - 1)"

definition KALLOC_POISON :: u8 where "KALLOC_POISON = 0x5a"

record kmem =
  k_mem :: "u64 \<Rightarrow> u8"
  k_end :: u64
  freelist :: u64

definition kfree :: "u64 \<Rightarrow> (kmem, unit) kmonad" where
  "kfree pa = kbind (kget k_end) (\<lambda>kend.
     if pa mod PGSIZE \<noteq> 0 \<or> pa < kend \<or> pa \<ge> PHYSTOP then kpanic ''kfree''
     else kseq (kmodify (\<lambda>s. s\<lparr>k_mem := memset (k_mem s) pa KALLOC_POISON (ucast PGSIZE)\<rparr>))
       (kmodify (\<lambda>s. s\<lparr>k_mem := st64 (k_mem s) pa (freelist s), freelist := pa\<rparr>)))"

definition kalloc :: "(kmem, u64) kmonad" where
  "kalloc = kbind (kget freelist) (\<lambda>r.
     if r \<noteq> 0
     then kseq (kmodify (\<lambda>s. s\<lparr>freelist := ld64 (k_mem s) r\<rparr>))
       (kseq (kmodify (\<lambda>s. s\<lparr>k_mem := memset (k_mem s) r 0 (ucast PGSIZE)\<rparr>)) (kreturn r))
     else kreturn r)"

lemma kfree_Done: "kfree pa s = Done x s' \<Longrightarrow> pa mod PGSIZE = 0 \<and> k_end s \<le> pa \<and> pa < PHYSTOP"
  by (auto simp: kfree_def split: if_splits)

lemma page_step:
  assumes "unat p < 0xFFFFFFFFFFFFF000"
  shows "unat (p + PGSIZE) = unat p + 4096"
  using assms unat_add_no_wrap [of p 4096] by (simp add: PGSIZE_def)

text \<open>The loop of \<^verbatim>\<open>freerange\<close>: \<^verbatim>\<open>kfree\<close> panics at \<^verbatim>\<open>PHYSTOP\<close>, so the pointer cannot wrap around.\<close>

function (domintros) freerange_loop :: "u64 \<Rightarrow> u64 \<Rightarrow> (kmem, unit) kmonad" where
  "freerange_loop pa_end p s =
     (if p + PGSIZE \<le> pa_end then kseq (kfree p) (freerange_loop pa_end (p + PGSIZE)) s else kreturn () s)"
  by auto

termination
proof (relation "measure (\<lambda>(e, p, s). 2 ^ 64 - unat p)", goal_cases)
  case (2 pa_end p s x t)
  then have "p < PHYSTOP" using kfree_Done by metis
  then have "unat p < 2 ^ 32" by (simp add: PHYSTOP_def word_less_nat_alt)
  then show ?case by (simp add: page_step)
qed simp

definition freerange :: "u64 \<Rightarrow> u64 \<Rightarrow> (kmem, unit) kmonad" where
  "freerange pa_start pa_end =
     (let p = PGROUNDUP pa_start in
      if pa_start \<ge> pa_end then kpanic ''freerange: empty''
      else if pa_end > PHYSTOP then kpanic ''freerange: end out of bounds''
      else freerange_loop pa_end p)"

definition kinit :: "(kmem, unit) kmonad" where
  "kinit = kbind (kget k_end) (\<lambda>kend. freerange kend PHYSTOP)"

section \<open>Pages\<close>

definition page :: "u64 \<Rightarrow> u64 set" where
  "page p = {a. unat (a - p) < 4096}"

definition is_page :: "u64 \<Rightarrow> u64 \<Rightarrow> bool" where
  "is_page kend p \<longleftrightarrow> p mod PGSIZE = 0 \<and> kend \<le> p \<and> p < PHYSTOP \<and> p \<noteq> 0"

lemma is_page_nat: "is_page kend p \<Longrightarrow> unat p mod 4096 = 0 \<and> 0 < unat p \<and> unat p < 0x88000000"
proof -
  assume a: "is_page kend p"
  have "unat (p mod 4096) = 0" using a by (simp add: is_page_def PGSIZE_def)
  then have "unat p mod 4096 = 0" by (simp add: unat_mod)
  moreover have "unat p < unat PHYSTOP" using a by (simp add: is_page_def word_less_nat_alt)
  moreover have "0 < unat p" using a by (simp add: is_page_def unat_gt_0)
  ultimately show ?thesis by (simp add: PHYSTOP_def)
qed

lemma page_nat:
  assumes "unat p < 0x88000000"
  shows "a \<in> page p \<longleftrightarrow> unat p \<le> unat a \<and> unat a < unat p + 4096"
proof -
  have "unat a < 2 ^ 64" using unat_bound [of a] by simp
  then show ?thesis using assms by (auto simp: page_def unat_sub_if_size word_size)
qed

lemma pages_disjoint:
  assumes "is_page kend p" "is_page kend q" "p \<noteq> q"
  shows "page p \<inter> page q = {}"
proof -
  have "unat p \<noteq> unat q" using assms(3) by (simp add: word_unat_eq_iff)
  moreover have "unat p mod 4096 = 0" "unat q mod 4096 = 0" using is_page_nat assms by blast+
  ultimately have "unat p div 4096 \<noteq> unat q div 4096" "unat p = 4096 * (unat p div 4096)" "unat q = 4096 * (unat q div 4096)"
    by (metis mult_div_mod_eq add.right_neutral)+
  then have "unat p + 4096 \<le> unat q \<or> unat q + 4096 \<le> unat p" by linarith
  moreover have "unat p < 0x88000000" "unat q < 0x88000000" using is_page_nat assms by blast+
  ultimately have "\<not> (a \<in> page p \<and> a \<in> page q)" for a unfolding page_nat [OF \<open>unat p < 0x88000000\<close>] page_nat [OF \<open>unat q < 0x88000000\<close>] by linarith
  then show ?thesis by blast
qed

lemma wr_bytes_agree: "a \<notin> page p \<Longrightarrow> length xs \<le> 4096 \<Longrightarrow> wr_bytes m p xs a = m a"
  by (auto simp: wr_bytes_def page_def)

lemma ld64_agree:
  assumes "\<And>a. a \<in> page p \<Longrightarrow> m a = m' a"
  shows "ld64 m p = ld64 m' p"
proof -
  have "p + of_nat i \<in> page p" if "i < 8" for i
    using that by (simp add: page_def unat_of_nat)
  then have "rd_bytes m p 8 = rd_bytes m' p 8" using assms by (intro rd_cong) blast
  then show ?thesis by (simp add: ld64_def)
qed

section \<open>The free list\<close>

primrec flist :: "(u64 \<Rightarrow> u8) \<Rightarrow> u64 \<Rightarrow> u64 list \<Rightarrow> bool" where
  "flist m a [] \<longleftrightarrow> a = 0"
| "flist m a (p # ps) \<longleftrightarrow> a = p \<and> flist m (ld64 m p) ps"

definition free_list :: "kmem \<Rightarrow> u64 list \<Rightarrow> bool" where
  "free_list s ps \<longleftrightarrow> flist (k_mem s) (freelist s) ps \<and> distinct ps \<and> (\<forall>p\<in>set ps. is_page (k_end s) p)"

lemma flist_agree:
  "(\<And>p a. p \<in> set ps \<Longrightarrow> a \<in> page p \<Longrightarrow> m a = m' a) \<Longrightarrow> flist m h ps = flist m' h ps"
proof (induction ps arbitrary: h)
  case (Cons p ps)
  have "ld64 m p = ld64 m' p" by (rule ld64_agree) (rule Cons.prems, simp_all)
  moreover have "flist m h' ps = flist m' h' ps" for h' by (rule Cons.IH) (rule Cons.prems, simp_all)
  ultimately show ?case by simp
qed simp

lemma free_list_agree:
  assumes "free_list s ps" "freelist s' = freelist s" "k_end s' = k_end s"
    "\<And>p a. p \<in> set ps \<Longrightarrow> a \<in> page p \<Longrightarrow> k_mem s' a = k_mem s a"
  shows "free_list s' ps"
  using assms flist_agree [of ps "k_mem s'" "k_mem s"] by (simp add: free_list_def)

lemma memset_page: "memset m p c (ucast PGSIZE) = wr_bytes m p (replicate 4096 c)"
  by (simp add: memset_wr PGSIZE_def)

lemma kfree_run:
  assumes "free_list s ps" "is_page (k_end s) p" "p \<notin> set ps"
  shows "\<exists>s'. kfree p s = Done () s' \<and> free_list s' (p # ps) \<and> k_end s' = k_end s \<and>
    (\<forall>a. a \<notin> page p \<longrightarrow> k_mem s' a = k_mem s a) \<and> rd_bytes (k_mem s') (p + 8) 4088 = replicate 4088 KALLOC_POISON"
proof -
  let ?m1 = "wr_bytes (k_mem s) p (replicate 4096 KALLOC_POISON)"
  let ?m = "st64 ?m1 p (freelist s)"
  let ?s = "s\<lparr>k_mem := ?m, freelist := p\<rparr>"
  have run: "kfree p s = Done () ?s"
    using assms(2) by (auto simp: kfree_def is_page_def memset_page not_less)
  have keep: "?m a = k_mem s a" if "a \<notin> page p" for a
    using that by (simp add: st64_def wr_bytes_agree)
  have "flist ?m (freelist s) ps"
  proof -
    have "?m a = k_mem s a" if "q \<in> set ps" "a \<in> page q" for q a
    proof (rule keep)
      have "page p \<inter> page q = {}"
        using that(1) assms by (intro pages_disjoint [of "k_end s"]) (auto simp: free_list_def)
      then show "a \<notin> page p" using that(2) by blast
    qed
    then show ?thesis using assms(1) flist_agree [of ps ?m "k_mem s"] by (simp add: free_list_def)
  qed
  then have "free_list ?s (p # ps)" using assms by (simp add: free_list_def)
  moreover have "rd_bytes ?m (p + 8) 4088 = replicate 4088 KALLOC_POISON"
  proof -
    have "apart p 8 (p + 8) 4088" by (simp add: apart_def unsigned_minus_1_eq_mask)
    then have "rd_bytes ?m (p + 8) 4088 = rd_bytes ?m1 (p + of_nat 8) 4088"
      by (simp add: st64_def rd_wr_apart)
    also have "\<dots> = replicate 4088 KALLOC_POISON" by (subst rd_bytes_replicate) (simp_all add: slice_replicate)
    finally show ?thesis .
  qed
  ultimately show ?thesis using run keep by auto
qed

lemma kalloc_run:
  assumes "free_list s (p # ps)"
  shows "\<exists>s'. kalloc s = Done p s' \<and> free_list s' ps \<and> k_end s' = k_end s \<and>
    k_mem s' = wr_bytes (k_mem s) p (replicate 4096 0)"
proof -
  let ?m = "wr_bytes (k_mem s) p (replicate 4096 0)"
  let ?s = "s\<lparr>freelist := ld64 (k_mem s) p, k_mem := ?m\<rparr>"
  have f: "freelist s = p" "p \<noteq> 0" "flist (k_mem s) (ld64 (k_mem s) p) ps" using assms by (auto simp: free_list_def is_page_def)
  have run: "kalloc s = Done p ?s" using f by (simp add: kalloc_def memset_page)
  have "?m a = k_mem s a" if "q \<in> set ps" "a \<in> page q" for q a
  proof (rule wr_bytes_agree)
    have "page p \<inter> page q = {}"
      using that(1) assms by (intro pages_disjoint [of "k_end s"]) (auto simp: free_list_def)
    then show "a \<notin> page p" using that(2) by blast
  qed simp
  then have "flist ?m (ld64 (k_mem s) p) ps" using f(3) flist_agree [of ps ?m "k_mem s"] by simp
  then have "free_list ?s ps" using assms by (simp add: free_list_def)
  with run show ?thesis by auto
qed

lemma kalloc_empty: "free_list s [] \<Longrightarrow> kalloc s = Done 0 s"
  by (simp add: free_list_def kalloc_def)

section \<open>Rounding\<close>

lemma round_down_nat: "unat (PGROUNDDOWN a) = unat a div 4096 * 4096"
proof -
  have "PGROUNDDOWN a = a AND NOT (mask 12)" by (simp add: PGROUNDDOWN_def PGSIZE_def mask_eq_exp_minus_1)
  also have "\<dots> = push_bit 12 (drop_bit 12 a)"
    by (rule bit_word_eqI) (auto simp: bit_and_iff bit_not_iff bit_mask_iff bit_push_bit_iff bit_drop_bit_eq)
  finally have "unat (PGROUNDDOWN a) = take_bit 64 (push_bit 12 (drop_bit 12 (unat a)))"
    by (simp add: unsigned_push_bit_eq unat_drop_bit_eq)
  also have "\<dots> = unat a div 4096 * 4096 mod 2 ^ 64"
    by (simp add: take_bit_eq_mod push_bit_eq_mult drop_bit_eq_div)
  also have "\<dots> = unat a div 4096 * 4096"
  proof -
    have "unat a div 4096 * 4096 \<le> unat a" by (simp add: div_mult2_eq)
    then show ?thesis using unat_bound [of a] by simp
  qed
  finally show ?thesis .
qed

lemma round_up_nat:
  assumes "unat a + 4095 < 2 ^ 64"
  shows "unat (PGROUNDUP a) = (unat a + 4095) div 4096 * 4096"
proof -
  have "PGROUNDUP a = PGROUNDDOWN (a + of_nat 4095)" by (simp add: PGROUNDUP_def PGROUNDDOWN_def PGSIZE_def add.commute)
  then show ?thesis using unat_add_no_wrap [of a 4095] assms by (simp add: round_down_nat)
qed

lemma page_aligned: "p mod PGSIZE = 0 \<longleftrightarrow> unat p mod 4096 = 0"
proof -
  have "p mod PGSIZE = 0 \<longleftrightarrow> unat (p mod PGSIZE) = 0" by (simp add: unat_eq_zero)
  then show ?thesis by (simp add: unat_mod PGSIZE_def)
qed

section \<open>Initialisation\<close>

lemma freerange_loop_run:
  assumes "free_list s ps" "unat p + 4096 * n = 0x88000000" "unat p mod 4096 = 0" "k_end s \<le> p" "p \<noteq> 0"
    "\<And>q. q \<in> set ps \<Longrightarrow> q < p"
  shows "\<exists>s'. freerange_loop PHYSTOP p s = Done () s' \<and> k_end s' = k_end s \<and>
    free_list s' (rev (map (\<lambda>i. p + of_nat (4096 * i)) [0..<n]) @ ps)"
  using assms
proof (induction n arbitrary: p s ps)
  case 0
  then have "unat (p + PGSIZE) = 0x88001000" by (simp add: page_step)
  then have "\<not> p + PGSIZE \<le> PHYSTOP" by (simp add: PHYSTOP_def word_le_nat_alt)
  then show ?case using 0 by simp
next
  case (Suc n)
  have up: "unat (p + PGSIZE) = unat p + 4096" by (rule page_step) (use Suc.prems(2) in linarith)
  have "p + PGSIZE \<le> PHYSTOP" using up Suc.prems(2) by (simp add: PHYSTOP_def word_le_nat_alt)
  moreover have page: "is_page (k_end s) p"
    using Suc.prems by (auto simp: is_page_def page_aligned PHYSTOP_def word_less_nat_alt)
  moreover obtain s1 where s1: "kfree p s = Done () s1" "free_list s1 (p # ps)" "k_end s1 = k_end s"
    using kfree_run [OF Suc.prems(1) page] Suc.prems(6) by blast
  moreover have "\<exists>s'. freerange_loop PHYSTOP (p + PGSIZE) s1 = Done () s' \<and> k_end s' = k_end s1 \<and>
    free_list s' (rev (map (\<lambda>i. p + PGSIZE + of_nat (4096 * i)) [0..<n]) @ p # ps)"
  proof (rule Suc.IH [OF s1(2)])
    show "unat (p + PGSIZE) + 4096 * n = 0x88000000" using up Suc.prems(2) by simp
    show "unat (p + PGSIZE) mod 4096 = 0" using up Suc.prems(3) by simp
    have lt: "p < p + PGSIZE" using up by (simp add: word_less_nat_alt)
    show "k_end s1 \<le> p + PGSIZE" using lt Suc.prems(4) s1(3) by simp
    show "p + PGSIZE \<noteq> 0" using lt by (metis word_not_simps(1))
    show "q < p + PGSIZE" if "q \<in> set (p # ps)" for q
      using that lt Suc.prems(6) by (auto intro: less_trans)
  qed
  moreover have "rev (map (\<lambda>i. p + of_nat (4096 * i)) [0..<Suc n]) = rev (map (\<lambda>i. p + PGSIZE + of_nat (4096 * i)) [0..<n]) @ [p]"
    by (simp only: upt_conv_Cons zero_less_Suc map_Suc_upt [symmetric])
      (simp add: PGSIZE_def algebra_simps comp_def)
  ultimately show ?case by auto
qed

section \<open>The contract of the allocator\<close>

text \<open>
  What the clients rely on: the pool of free pages as a set. A page handed out is zero-filled and
  leaves the pool, a page given back joins it, and stores outside free pages do not disturb it.
\<close>

primrec alloc_many :: "('s, u64) kmonad \<Rightarrow> nat \<Rightarrow> ('s, u64 list) kmonad" where
  "alloc_many al 0 = kreturn []"
| "alloc_many al (Suc n) = kbind al (\<lambda>p. kbind (alloc_many al n) (\<lambda>ps. kreturn (p # ps)))"

locale page_allocator =
  fixes alloc :: "('s, u64) kmonad"
    and free :: "u64 \<Rightarrow> ('s, unit) kmonad"
    and mem :: "'s \<Rightarrow> u64 \<Rightarrow> u8"
    and setmem :: "(u64 \<Rightarrow> u8) \<Rightarrow> 's \<Rightarrow> 's"
    and bound :: "'s \<Rightarrow> 'b"
    and valid :: "'b \<Rightarrow> u64 \<Rightarrow> bool"
    and pool :: "'s \<Rightarrow> u64 set \<Rightarrow> bool"
  assumes alloc_none: "pool s {} \<Longrightarrow> alloc s = Done 0 s"
    and alloc_some: "pool s F \<Longrightarrow> F \<noteq> {} \<Longrightarrow> \<exists>p s'. alloc s = Done p s' \<and> p \<in> F \<and> pool s' (F - {p}) \<and>
      bound s' = bound s \<and> mem s' = wr_bytes (mem s) p (replicate 4096 0)"
    and free_page: "pool s F \<Longrightarrow> valid (bound s) p \<Longrightarrow> p \<notin> F \<Longrightarrow> \<exists>s'. free p s = Done () s' \<and> pool s' (insert p F) \<and>
      bound s' = bound s \<and> (\<forall>a. a \<notin> page p \<longrightarrow> mem s' a = mem s a)"
    and free_bad: "\<not> valid (bound s) p \<Longrightarrow> p \<noteq> 0 \<Longrightarrow> free p s = Panic ''kfree''"
    and pool_valid: "pool s F \<Longrightarrow> p \<in> F \<Longrightarrow> valid (bound s) p"
    and pool_finite: "pool s F \<Longrightarrow> finite F"
    and valid_nonnull: "valid b p \<Longrightarrow> p \<noteq> 0"
    and valid_disjoint: "valid b p \<Longrightarrow> valid b q \<Longrightarrow> p \<noteq> q \<Longrightarrow> page p \<inter> page q = {}"
    and store: "pool s F \<Longrightarrow> (\<And>p a. p \<in> F \<Longrightarrow> a \<in> page p \<Longrightarrow> m a = mem s a) \<Longrightarrow> pool (setmem m s) F"
    and store_mem: "mem (setmem m s) = m"
    and store_valid: "bound (setmem m s) = bound s"
begin

text \<open>An allocation that is given back leaves the pool as it was and other memory untouched.\<close>

lemma alloc_free:
  assumes "pool s F" "F \<noteq> {}"
  shows "\<exists>p s1 s2. alloc s = Done p s1 \<and> free p s1 = Done () s2 \<and> pool s2 F \<and>
    (\<forall>a. a \<notin> page p \<longrightarrow> mem s2 a = mem s a)"
proof -
  obtain p s1 where 1: "alloc s = Done p s1" "p \<in> F" "pool s1 (F - {p})" "bound s1 = bound s"
      "mem s1 = wr_bytes (mem s) p (replicate 4096 0)"
    using alloc_some [OF assms] by blast
  have "valid (bound s1) p" using 1(2,4) pool_valid [OF assms(1)] by simp
  then obtain s2 where 2: "free p s1 = Done () s2" "pool s2 (insert p (F - {p}))" "\<forall>a. a \<notin> page p \<longrightarrow> mem s2 a = mem s1 a"
    using free_page [OF 1(3)] by blast
  have "insert p (F - {p}) = F" using 1(2) by blast
  moreover have "mem s1 a = mem s a" if "a \<notin> page p" for a using that 1(5) by (simp add: wr_bytes_agree)
  ultimately show ?thesis using 1(1) 2 by auto
qed

text \<open>A store into a page that was handed out, of at most a page, keeps the pool.\<close>

lemma store_page:
  assumes "pool s F" "valid (bound s) p" "p \<notin> F" "\<And>a. a \<notin> page p \<Longrightarrow> m a = mem s a"
  shows "pool (setmem m s) F"
proof (rule store [OF assms(1)])
  fix q a assume "q \<in> F" "a \<in> page q"
  then have "a \<notin> page p" using valid_disjoint [of "bound s" p q] pool_valid [OF assms(1)] assms(2,3) by blast
  then show "m a = mem s a" by (rule assms(4))
qed

text \<open>Allocating until the pool is empty hands out every page of it exactly once.\<close>

lemma alloc_all:
  assumes "pool s F" "card F = n"
  shows "\<exists>ps s'. alloc_many alloc n s = Done ps s' \<and> distinct ps \<and> set ps = F \<and> pool s' {}"
  using assms
proof (induction n arbitrary: s F)
  case 0
  then have "F = {}" using pool_finite by auto
  then show ?case using 0 by simp
next
  case (Suc n)
  then have "F \<noteq> {}" by auto
  then obtain p s1 where 1: "alloc s = Done p s1" "p \<in> F" "pool s1 (F - {p})" using alloc_some [OF Suc.prems(1)] by blast
  have "card (F - {p}) = n" using Suc.prems 1(2) pool_finite [OF Suc.prems(1)] by simp
  then obtain ps s2 where "alloc_many alloc n s1 = Done ps s2" "distinct ps" "set ps = F - {p}" "pool s2 {}"
    using Suc.IH [OF 1(3)] by blast
  then show ?case using 1 by (auto intro!: exI [of _ "p # ps"])
qed

end

definition pool :: "kmem \<Rightarrow> u64 set \<Rightarrow> bool" where
  "pool s F \<longleftrightarrow> k_end s \<noteq> 0 \<and> (\<exists>ps. free_list s ps \<and> set ps = F)"

interpretation ka: page_allocator kalloc kfree k_mem "\<lambda>m s. s\<lparr>k_mem := m\<rparr>" k_end is_page pool
proof
  fix s :: kmem
  show "pool s {} \<Longrightarrow> kalloc s = Done 0 s" by (auto simp: pool_def kalloc_empty)
next
  fix s :: kmem and F
  assume "pool s F" "F \<noteq> {}"
  then obtain p ps where ps: "free_list s (p # ps)" "insert p (set ps) = F" "k_end s \<noteq> 0"
    unfolding pool_def by (metis list.exhaust list.set(1) list.simps(15))
  obtain s' where "kalloc s = Done p s'" "free_list s' ps" "k_end s' = k_end s" "k_mem s' = wr_bytes (k_mem s) p (replicate 4096 0)"
    using kalloc_run [OF ps(1)] by blast
  moreover have "set ps = F - {p}" "p \<in> F" using ps by (auto simp: free_list_def)
  ultimately show "\<exists>p s'. kalloc s = Done p s' \<and> p \<in> F \<and> pool s' (F - {p}) \<and>
      k_end s' = k_end s \<and> k_mem s' = wr_bytes (k_mem s) p (replicate 4096 0)"
    using ps(3) unfolding pool_def by metis
next
  fix s :: kmem and F p
  assume a: "pool s F" "is_page (k_end s) p" "p \<notin> F"
  then obtain ps where ps: "free_list s ps" "set ps = F" "k_end s \<noteq> 0" unfolding pool_def by blast
  obtain s' where "kfree p s = Done () s'" "free_list s' (p # ps)" "k_end s' = k_end s" "\<forall>a. a \<notin> page p \<longrightarrow> k_mem s' a = k_mem s a"
    using kfree_run [OF ps(1) a(2)] a(3) ps(2) by blast
  moreover have "set (p # ps) = insert p F" using ps by simp
  ultimately show "\<exists>s'. kfree p s = Done () s' \<and> pool s' (insert p F) \<and>
      k_end s' = k_end s \<and> (\<forall>a. a \<notin> page p \<longrightarrow> k_mem s' a = k_mem s a)"
    using ps(3) unfolding pool_def by metis
next
  fix s :: kmem and p
  show "\<not> is_page (k_end s) p \<Longrightarrow> p \<noteq> 0 \<Longrightarrow> kfree p s = Panic ''kfree''"
    by (simp add: is_page_def kfree_def not_le)
next
  fix b p q
  show "is_page b p \<Longrightarrow> is_page b q \<Longrightarrow> p \<noteq> q \<Longrightarrow> page p \<inter> page q = {}"
    by (rule pages_disjoint)
next
  fix s :: kmem and F m
  assume "pool s F" "\<And>p a. p \<in> F \<Longrightarrow> a \<in> page p \<Longrightarrow> m a = k_mem s a"
  then show "pool (s\<lparr>k_mem := m\<rparr>) F"
    unfolding pool_def using free_list_agree [of s _ "s\<lparr>k_mem := m\<rparr>"] by auto
qed (auto simp: pool_def free_list_def is_page_def)

definition ram_pages :: "u64 \<Rightarrow> u64 list" where
  "ram_pages kend = map (\<lambda>i. PGROUNDUP kend + of_nat (4096 * i)) [0..<(0x88000000 - unat (PGROUNDUP kend)) div 4096]"

text \<open>
  C19. \<^verbatim>\<open>kinit\<close> puts every whole page between the end of the kernel image and \<^verbatim>\<open>PHYSTOP\<close> on the free
  list exactly once, and \<^verbatim>\<open>kalloc\<close> then hands out each of them exactly once before it returns null.
\<close>

theorem kinit_all_pages:
  assumes "k_end s \<noteq> 0" and "k_end s < PHYSTOP" and "freelist s = 0"
  shows "\<exists>s' ps s''. kinit s = Done () s' \<and> free_list s' (rev (ram_pages (k_end s))) \<and>
    alloc_many kalloc (length (ram_pages (k_end s))) s' = Done ps s'' \<and> distinct ps \<and> set ps = set (ram_pages (k_end s)) \<and> kalloc s'' = Done 0 s''"
proof -
  let ?p = "PGROUNDUP (k_end s)"
  let ?n = "(0x88000000 - unat ?p) div 4096"
  have e: "unat (k_end s) < 0x88000000" "0 < unat (k_end s)" using assms(1,2) by (simp_all add: PHYSTOP_def word_less_nat_alt unat_gt_0)
  then have u: "unat ?p = (unat (k_end s) + 4095) div 4096 * 4096" by (intro round_up_nat) simp
  then have al: "unat ?p mod 4096 = 0" by simp
  let ?k = "(unat (k_end s) + 4095) div 4096"
  have k: "?k < 0x88001" by (rule less_mult_imp_div_less) (use e in simp)
  have bounds: "unat (k_end s) \<le> unat ?p" using u by linarith
  have "0x88000000 - unat ?p = (0x88000 - ?k) * 4096" unfolding u diff_mult_distrib by simp
  then have "?n = 0x88000 - ?k" by simp
  then have sum: "unat ?p + 4096 * ?n = 0x88000000" using u k by linarith
  have f0: "free_list s []" using assms(3) by (simp add: free_list_def)
  have "k_end s \<le> ?p" using bounds by (simp add: word_le_nat_alt)
  moreover have "?p \<noteq> 0" using bounds e(2) by (metis le_zero_eq less_irrefl unat_0)
  ultimately obtain s1 where s1: "freerange_loop PHYSTOP ?p s = Done () s1" "free_list s1 (rev (ram_pages (k_end s)))" "k_end s1 = k_end s"
    using freerange_loop_run [OF f0 sum al] unfolding ram_pages_def by auto
  have "kinit s = Done () s1" using s1(1) assms(2) by (simp add: kinit_def freerange_def Let_def)
  moreover have "distinct (ram_pages (k_end s))" using s1(2) by (simp add: free_list_def)
  then have "card (set (ram_pages (k_end s))) = length (ram_pages (k_end s))" by (rule distinct_card)
  moreover have "pool s1 (set (ram_pages (k_end s)))" using s1(2,3) assms(1) unfolding pool_def by (metis set_rev)
  ultimately show ?thesis using ka.alloc_all ka.alloc_none s1(2) by blast
qed

theorem kinit_all_pages_witness:
  "\<exists>s' ps s''. kinit \<lparr>k_mem = (\<lambda>_. 0), k_end = 0x87ffe001, freelist = 0\<rparr> = Done () s' \<and> alloc_many kalloc 1 s' = Done ps s'' \<and>
     set ps = {0x87fff000} \<and> kalloc s'' = Done 0 s''"
proof -
  have r: "ram_pages 0x87ffe001 = [0x87fff000]" by (simp add: ram_pages_def PGROUNDUP_def PGSIZE_def)
  show ?thesis
    using kinit_all_pages [of "\<lparr>k_mem = (\<lambda>_. 0), k_end = 0x87ffe001, freelist = 0\<rparr>"]
    by (auto simp: r PHYSTOP_def)
qed

end
