(* ===== verification/Vm.thy ===== *)
theory Vm
  imports Kalloc
begin

text \<open>
  Sv39 page tables, \<^verbatim>\<open>kernel/vm.c\<close>. Page-table pages and user pages live in the physical memory of
  the page allocator; a page table is the address of its root page. A kernel buffer handed to
  \<^verbatim>\<open>copyout\<close> is the list of its bytes, and \<^verbatim>\<open>copyin\<close> and \<^verbatim>\<open>copyinstr\<close> give their return value
  together with the bytes they stored.
\<close>

section \<open>Layout of addresses and entries\<close>

definition PTE_V :: u64 where "PTE_V = 1"

definition PTE_R :: u64 where "PTE_R = 2"

definition PTE_W :: u64 where "PTE_W = 4"

definition PTE_X :: u64 where "PTE_X = 8"

definition PTE_U :: u64 where "PTE_U = 16"

definition PTE2PA :: "u64 \<Rightarrow> u64" where
  "PTE2PA pte = push_bit 12 (drop_bit 10 pte)"

definition PA2PTE :: "u64 \<Rightarrow> u64" where
  "PA2PTE pa = push_bit 10 (drop_bit 12 pa)"

definition PTE_FLAGS :: "u64 \<Rightarrow> u64" where
  "PTE_FLAGS pte = pte AND 0x3FF"

definition PX :: "nat \<Rightarrow> u64 \<Rightarrow> u64" where
  "PX level va = drop_bit (12 + 9 * level) va AND 0x1FF"

definition MAXVA :: u64 where "MAXVA = 2 ^ 39"

definition TRAMPOLINE :: u64 where "TRAMPOLINE = MAXVA - PGSIZE"

definition TRAPFRAME :: u64 where "TRAPFRAME = TRAMPOLINE - PGSIZE"

definition KSTACK :: "nat \<Rightarrow> u64" where
  "KSTACK i = TRAMPOLINE - (of_nat i + 1) * 2 * PGSIZE"

definition KERNBASE :: u64 where "KERNBASE = 0x80000000"

definition UART0 :: u64 where "UART0 = 0x10000000"

definition PLIC :: u64 where "PLIC = 0x0c000000"

definition VIRTIO0 :: u64 where "VIRTIO0 = 0x10001000"

abbreviation load_pte :: "u64 \<Rightarrow> (kmem, u64) kmonad" where
  "load_pte a \<equiv> kget (\<lambda>s. ld64 (k_mem s) a)"

abbreviation store_pte :: "u64 \<Rightarrow> u64 \<Rightarrow> (kmem, unit) kmonad" where
  "store_pte a v \<equiv> kmodify (\<lambda>s. s\<lparr>k_mem := st64 (k_mem s) a v\<rparr>)"

abbreviation zero_page :: "u64 \<Rightarrow> (kmem, unit) kmonad" where
  "zero_page p \<equiv> kmodify (\<lambda>s. s\<lparr>k_mem := memset (k_mem s) p 0 (ucast PGSIZE)\<rparr>)"

section \<open>Walking and mapping\<close>

primrec walk_levels :: "nat \<Rightarrow> u64 \<Rightarrow> bool \<Rightarrow> u64 \<Rightarrow> (kmem, u64) kmonad" where
  "walk_levels 0 va alloc pagetable = kreturn (pagetable + 8 * PX 0 va)"
| "walk_levels (Suc l) va alloc pagetable =
     (let pte = pagetable + 8 * PX (Suc l) va in
      kbind (load_pte pte) (\<lambda>e.
        if e AND PTE_V \<noteq> 0 then walk_levels l va alloc (PTE2PA e)
        else if \<not> alloc then kreturn 0
        else kbind kalloc (\<lambda>p.
          if p = 0 then kreturn 0
          else kseq (zero_page p) (kseq (store_pte pte (PA2PTE p OR PTE_V)) (walk_levels l va alloc p)))))"

definition walk :: "u64 \<Rightarrow> u64 \<Rightarrow> bool \<Rightarrow> (kmem, u64) kmonad" where
  "walk pagetable va alloc = (if va \<ge> MAXVA then kpanic ''walk'' else walk_levels 2 va alloc pagetable)"

lemma walk_Done: "walk pagetable va alloc s = Done x s' \<Longrightarrow> va < MAXVA"
  by (auto simp: walk_def not_le split: if_splits)

text \<open>What is left of the address space above an address: the loops over pages move up.\<close>

definition above :: "u64 \<Rightarrow> nat" where
  "above a = 2 ^ 64 - unat a"

lemma page_step_less: "a < MAXVA \<Longrightarrow> above (a + PGSIZE) < above a"
  by (simp add: above_def page_step MAXVA_def word_less_nat_alt)

function mappages_loop :: "u64 \<Rightarrow> u64 \<Rightarrow> u64 \<Rightarrow> u64 \<Rightarrow> u64 \<Rightarrow> (kmem, int) kmonad" where
  "mappages_loop pagetable lst perm a pa s =
     kbind (walk pagetable a True) (\<lambda>pte s.
       if pte = 0 then kreturn (-1) s
       else kbind (load_pte pte) (\<lambda>e s.
         if e AND PTE_V \<noteq> 0 then kpanic ''mappages: remap'' s
         else kseq (store_pte pte (PA2PTE pa OR perm OR PTE_V)) (\<lambda>s.
           if a = lst then kreturn 0 s else mappages_loop pagetable lst perm (a + PGSIZE) (pa + PGSIZE) s) s) s) s"
  by pat_completeness auto

termination
  by (relation "measure (\<lambda>(_, _, _, a, _, _). above a)") (auto dest!: walk_Done intro!: page_step_less)

declare mappages_loop.simps [simp del]

definition mappages :: "u64 \<Rightarrow> u64 \<Rightarrow> u64 \<Rightarrow> u64 \<Rightarrow> u64 \<Rightarrow> (kmem, int) kmonad" where
  "mappages pagetable va sz pa perm =
     (if sz = 0 then kpanic ''mappages: size''
      else mappages_loop pagetable (PGROUNDDOWN (va + sz - 1)) perm (PGROUNDDOWN va) pa)"

definition kvmmap :: "u64 \<Rightarrow> u64 \<Rightarrow> u64 \<Rightarrow> u64 \<Rightarrow> u64 \<Rightarrow> (kmem, unit) kmonad" where
  "kvmmap kpgtbl va pa sz perm =
     kbind (mappages kpgtbl va sz pa perm) (\<lambda>r. if r \<noteq> 0 then kpanic ''kvmmap'' else kreturn ())"

definition uvmmap :: "u64 \<Rightarrow> u64 \<Rightarrow> u64 \<Rightarrow> u64 \<Rightarrow> u64 \<Rightarrow> (kmem, unit) kmonad" where
  "uvmmap pagetable va pa sz perm =
     kbind (mappages pagetable va sz pa perm) (\<lambda>r. if r \<noteq> 0 then kpanic ''uvmmap'' else kreturn ())"

text \<open>\<^verbatim>\<open>etext\<close> and \<^verbatim>\<open>trampoline\<close> are addresses the linker assigns.\<close>

definition kvmmake :: "u64 \<Rightarrow> u64 \<Rightarrow> (kmem, u64) kmonad" where
  "kvmmake etext trampoline = kbind kalloc (\<lambda>kpgtbl.
     if kpgtbl = 0 then kfault ''kvmmake: null page''
     else kseq (zero_page kpgtbl)
       (kseq (kvmmap kpgtbl UART0 UART0 PGSIZE (PTE_R OR PTE_W))
       (kseq (kvmmap kpgtbl VIRTIO0 VIRTIO0 PGSIZE (PTE_R OR PTE_W))
       (kseq (kvmmap kpgtbl PLIC PLIC 0x400000 (PTE_R OR PTE_W))
       (kseq (kvmmap kpgtbl KERNBASE KERNBASE (etext - KERNBASE) (PTE_R OR PTE_X))
       (kseq (kvmmap kpgtbl etext etext (PHYSTOP - etext) (PTE_R OR PTE_W))
       (kseq (kvmmap kpgtbl TRAMPOLINE trampoline PGSIZE (PTE_R OR PTE_X))
       (kreturn kpgtbl))))))))"

record vmst =
  v_kmem :: kmem
  kernel_pagetable :: u64
  satp :: u64

abbreviation vkmem :: "(kmem, 'a) kmonad \<Rightarrow> (vmst, 'a) kmonad" where
  "vkmem \<equiv> klift v_kmem (\<lambda>k s. s\<lparr>v_kmem := k\<rparr>)"

definition kvminit :: "u64 \<Rightarrow> u64 \<Rightarrow> (vmst, unit) kmonad" where
  "kvminit etext trampoline =
     kbind (vkmem (kvmmake etext trampoline)) (\<lambda>p. kmodify (\<lambda>s. s\<lparr>kernel_pagetable := p\<rparr>))"

definition MAKE_SATP :: "u64 \<Rightarrow> u64" where
  "MAKE_SATP pagetable = drop_bit 12 pagetable OR push_bit 60 8"

definition kvminithart :: "(vmst, unit) kmonad" where
  "kvminithart = kmodify (\<lambda>s. s\<lparr>satp := MAKE_SATP (kernel_pagetable s)\<rparr>)"

section \<open>User address spaces\<close>

definition uvmcreate :: "(kmem, u64) kmonad" where
  "uvmcreate = kbind kalloc (\<lambda>pagetable.
     if pagetable = 0 then kreturn 0 else kseq (zero_page pagetable) (kreturn pagetable))"

definition uvmfirst :: "u64 \<Rightarrow> u8 list \<Rightarrow> u32 \<Rightarrow> (kmem, int) kmonad" where
  "uvmfirst pagetable src sz =
     (if sz \<ge> 4096 then kpanic ''uvmfirst: too big''
      else kbind kalloc (\<lambda>mem.
        if mem = 0 then kreturn (-1)
        else kseq (zero_page mem) (kseq (kmodify (\<lambda>s. s\<lparr>k_mem := wr_bytes (k_mem s) mem (take (unat sz) src)\<rparr>))
          (kbind (mappages pagetable 0 PGSIZE mem (PTE_W OR PTE_X OR PTE_R OR PTE_U)) (\<lambda>r.
             if r \<noteq> 0 then kseq (kfree mem) (kreturn (-1)) else kreturn 0)))))"

definition unmap_one :: "bool \<Rightarrow> u64 \<Rightarrow> (kmem, unit) kmonad" where
  "unmap_one do_free pte =
     (if pte = 0 then kreturn ()
      else kbind (load_pte pte) (\<lambda>e.
        if e AND PTE_V = 0 then kreturn ()
        else if e AND (PTE_R OR PTE_W OR PTE_X) = 0 then kpanic ''uvmunmap: not leaf''
        else kseq (if do_free then kfree (PTE2PA e) else kreturn ()) (store_pte pte 0)))"

function uvmunmap_loop :: "u64 \<Rightarrow> u64 \<Rightarrow> bool \<Rightarrow> u64 \<Rightarrow> (kmem, unit) kmonad" where
  "uvmunmap_loop pagetable stop do_free a s =
     (if a < stop
      then kbind (walk pagetable a False) (\<lambda>pte.
        kseq (unmap_one do_free pte) (uvmunmap_loop pagetable stop do_free (a + PGSIZE))) s
      else kreturn () s)"
  by pat_completeness auto

termination
  by (relation "measure (\<lambda>(_, _, _, a, _). above a)") (auto dest!: walk_Done intro!: page_step_less)

declare uvmunmap_loop.simps [simp del]

definition uvmunmap :: "u64 \<Rightarrow> u64 \<Rightarrow> u64 \<Rightarrow> bool \<Rightarrow> (kmem, unit) kmonad" where
  "uvmunmap pagetable va npages do_free =
     (if va mod PGSIZE \<noteq> 0 \<or> va \<ge> MAXVA \<or> npages > (MAXVA - va) div PGSIZE then kpanic ''uvmunmap''
      else uvmunmap_loop pagetable (va + npages * PGSIZE) do_free va)"

text \<open>
  \<^verbatim>\<open>freewalk\<close> calls itself for every interior entry, with no bound of its own. The first argument
  is the number of activations the kernel stack admits; a well-formed Sv39 tree needs three.
\<close>

primrec freewalk :: "nat \<Rightarrow> u64 \<Rightarrow> (kmem, unit) kmonad" where
  "freewalk 0 pagetable = kfault ''freewalk: stack''"
| "freewalk (Suc d) pagetable =
     kseq (kfor [0..<512] (\<lambda>i. kbind (load_pte (pagetable + 8 * of_nat i)) (\<lambda>pte.
       if pte AND PTE_V \<noteq> 0 \<and> pte AND (PTE_R OR PTE_W OR PTE_X) = 0
       then kseq (freewalk d (PTE2PA pte)) (store_pte (pagetable + 8 * of_nat i) 0)
       else if pte AND PTE_V \<noteq> 0 then kpanic ''freewalk: leaf''
       else kreturn ())))
     (kfree pagetable)"

definition uvmfree :: "u64 \<Rightarrow> u64 \<Rightarrow> (kmem, unit) kmonad" where
  "uvmfree pagetable sz =
     kseq (if sz > 0 then uvmunmap pagetable 0 (PGROUNDUP sz div PGSIZE) True else kreturn ()) (freewalk 3 pagetable)"

definition uvmalloc_fail :: "u64 \<Rightarrow> u64 \<Rightarrow> u64 \<Rightarrow> (kmem, u64) kmonad" where
  "uvmalloc_fail pagetable oldsz a =
     kseq (uvmunmap pagetable oldsz ((a - oldsz) div PGSIZE) True) (kreturn 0)"

lemma mappages_page_Done:
  assumes "mappages pagetable a PGSIZE pa perm s = Done x s'"
  shows "a < MAXVA"
proof -
  have "mappages_loop pagetable (PGROUNDDOWN (a + PGSIZE - 1)) perm (PGROUNDDOWN a) pa s = Done x s'"
    using assms by (simp add: mappages_def PGSIZE_def)
  then obtain pte t where "walk pagetable (PGROUNDDOWN a) True s = Done pte t"
    unfolding mappages_loop.simps [of pagetable _ perm "PGROUNDDOWN a"] by (rule kbind_DoneE)
  then have "PGROUNDDOWN a < MAXVA" by (rule walk_Done)
  then have "unat a div 4096 * 4096 < 2 ^ 39" by (simp add: round_down_nat MAXVA_def word_less_nat_alt)
  then have "unat a < 2 ^ 39" by simp
  then show ?thesis by (simp add: MAXVA_def word_less_nat_alt)
qed

function uvmalloc_loop :: "u64 \<Rightarrow> u64 \<Rightarrow> u64 \<Rightarrow> u64 \<Rightarrow> u64 \<Rightarrow> (kmem, u64) kmonad" where
  "uvmalloc_loop pagetable oldsz newsz xperm a s =
     (if a < newsz
      then kbind kalloc (\<lambda>mem s.
        if mem = 0 then uvmalloc_fail pagetable oldsz a s
        else kbind (mappages pagetable a PGSIZE mem (PTE_R OR PTE_U OR xperm)) (\<lambda>r s.
          if r \<noteq> 0 then kseq (kfree mem) (uvmalloc_fail pagetable oldsz a) s
          else uvmalloc_loop pagetable oldsz newsz xperm (a + PGSIZE) s) s) s
      else kreturn newsz s)"
  by pat_completeness auto

termination
  by (relation "measure (\<lambda>(_, _, _, _, a, _). above a)") (auto dest!: mappages_page_Done intro!: page_step_less)

declare uvmalloc_loop.simps [simp del]

definition uvmalloc :: "u64 \<Rightarrow> u64 \<Rightarrow> u64 \<Rightarrow> u64 \<Rightarrow> (kmem, u64) kmonad" where
  "uvmalloc pagetable oldsz newsz xperm =
     (if newsz < oldsz \<or> newsz \<ge> MAXVA then kreturn oldsz
      else uvmalloc_loop pagetable (PGROUNDUP oldsz) newsz xperm (PGROUNDUP oldsz))"

definition uvmdealloc :: "u64 \<Rightarrow> u64 \<Rightarrow> u64 \<Rightarrow> (kmem, u64) kmonad" where
  "uvmdealloc pagetable oldsz newsz =
     (if newsz \<ge> oldsz then kreturn oldsz
      else kseq (if PGROUNDUP newsz < PGROUNDUP oldsz
                 then uvmunmap pagetable (PGROUNDUP newsz) ((PGROUNDUP oldsz - PGROUNDUP newsz) div PGSIZE) True
                 else kreturn ()) (kreturn newsz))"

definition uvmcopy_fail :: "u64 \<Rightarrow> u64 \<Rightarrow> (kmem, int) kmonad" where
  "uvmcopy_fail new i = kseq (uvmunmap new 0 (i div PGSIZE) True) (kreturn (-1))"

function uvmcopy_loop :: "u64 \<Rightarrow> u64 \<Rightarrow> u64 \<Rightarrow> u64 \<Rightarrow> (kmem, int) kmonad" where
  "uvmcopy_loop old new sz i s =
     (if i < sz
      then kbind (walk old i False) (\<lambda>pte s.
        if pte = 0 then uvmcopy_loop old new sz (i + PGSIZE) s
        else kbind (load_pte pte) (\<lambda>e s.
          if e AND PTE_V = 0 then uvmcopy_loop old new sz (i + PGSIZE) s
          else if e AND (PTE_R OR PTE_W OR PTE_X) = 0 then kpanic ''uvmcopy: not leaf'' s
          else kbind kalloc (\<lambda>mem s.
            if mem = 0 then uvmcopy_fail new i s
            else kseq (kmodify (\<lambda>s. s\<lparr>k_mem := memmove (k_mem s) mem (PTE2PA e) (ucast PGSIZE)\<rparr>))
              (kbind (mappages new i PGSIZE mem (PTE_FLAGS e)) (\<lambda>r s.
                if r \<noteq> 0 then kseq (kfree mem) (uvmcopy_fail new i) s
                else uvmcopy_loop old new sz (i + PGSIZE) s)) s) s) s) s
      else kreturn 0 s)"
  by pat_completeness auto

termination
  by (relation "measure (\<lambda>(_, _, _, i, _). above i)") (auto dest!: walk_Done intro!: page_step_less)

declare uvmcopy_loop.simps [simp del]

definition uvmcopy :: "u64 \<Rightarrow> u64 \<Rightarrow> u64 \<Rightarrow> (kmem, int) kmonad" where
  "uvmcopy old new sz = uvmcopy_loop old new sz 0"

section \<open>Copying between kernel and user\<close>

definition walkaddr :: "u64 \<Rightarrow> u64 \<Rightarrow> (kmem, u64) kmonad" where
  "walkaddr pagetable va =
     (if va \<ge> MAXVA then kreturn 0
      else kbind (walk pagetable va False) (\<lambda>pte.
        if pte = 0 then kreturn 0
        else kbind (load_pte pte) (\<lambda>e.
          if e AND PTE_V = 0 then kreturn 0
          else if e AND PTE_U = 0 then kreturn 0
          else kreturn (PTE2PA e))))"

text \<open>The number of bytes of the current page that an iteration copies.\<close>

definition chunk :: "u64 \<Rightarrow> u64 \<Rightarrow> u64" where
  "chunk va len = (let n = PGSIZE - (va - PGROUNDDOWN va) in if n > len then len else n)"

lemma chunk_step:
  assumes "0 < len"
  shows "0 < unat (chunk va len)" "unat (chunk va len) \<le> unat len" "unat (chunk va len) \<le> 4096"
proof -
  have d: "unat (va - PGROUNDDOWN va) = unat va mod 4096"
    by (simp add: unat_sub word_le_nat_alt round_down_nat minus_div_mult_eq_mod)
  have "unat (PGSIZE - (va - PGROUNDDOWN va)) = 4096 - unat va mod 4096"
    by (subst unat_sub) (simp_all add: word_le_nat_alt d PGSIZE_def less_imp_le)
  moreover have "unat va mod 4096 < 4096" by simp
  ultimately have n: "0 < unat (PGSIZE - (va - PGROUNDDOWN va))" "unat (PGSIZE - (va - PGROUNDDOWN va)) \<le> 4096" by linarith+
  show "0 < unat (chunk va len)" using assms n by (simp add: chunk_def Let_def word_less_nat_alt)
  show "unat (chunk va len) \<le> unat len" by (auto simp: chunk_def Let_def word_less_nat_alt)
  show "unat (chunk va len) \<le> 4096" using n by (auto simp: chunk_def Let_def word_less_nat_alt)
qed

lemma chunk_less: "0 < len \<Longrightarrow> unat (len - chunk va len) < unat len"
  using chunk_step [of len va] by (subst unat_sub) (auto simp: word_le_nat_alt)

function copyin :: "u64 \<Rightarrow> u64 \<Rightarrow> u64 \<Rightarrow> (kmem, int \<times> u8 list) kmonad" where
  "copyin pagetable srcva len s =
     (if len > 0
      then (let va0 = PGROUNDDOWN srcva; n = chunk srcva len in
        kbind (walkaddr pagetable va0) (\<lambda>pa0 s.
          if pa0 = 0 then kreturn (-1, []) s
          else kbind (kget (\<lambda>s. rd_bytes (k_mem s) (pa0 + (srcva - va0)) (unat n))) (\<lambda>bs.
            kbind (copyin pagetable (va0 + PGSIZE) (len - n)) (\<lambda>(r, rest). kreturn (r, bs @ rest))) s) s)
      else kreturn (0, []) s)"
  by pat_completeness auto

termination
  by (relation "measure (\<lambda>(_, _, len, _). unat len)") (auto intro: chunk_less)

declare copyin.simps [simp del]

text \<open>The inner loop of \<^verbatim>\<open>copyinstr\<close>: bytes up to and including the first NUL, and whether there was one.\<close>

primrec scan_nul :: "nat \<Rightarrow> (u64 \<Rightarrow> u8) \<Rightarrow> u64 \<Rightarrow> bool \<times> u8 list" where
  "scan_nul 0 m p = (False, [])"
| "scan_nul (Suc n) m p =
     (if m p = 0 then (True, [0]) else (case scan_nul n m (p + 1) of (got, bs) \<Rightarrow> (got, m p # bs)))"

function copyinstr :: "u64 \<Rightarrow> u64 \<Rightarrow> u64 \<Rightarrow> (kmem, int \<times> u8 list) kmonad" where
  "copyinstr pagetable srcva mx s =
     (if mx = 0 then kreturn (-1, []) s
      else (let va0 = PGROUNDDOWN srcva; n = chunk srcva mx in
        kbind (walkaddr pagetable va0) (\<lambda>pa0 s.
          if pa0 = 0 then kreturn (-1, []) s
          else kbind (kget (\<lambda>s. scan_nul (unat n) (k_mem s) (pa0 + (srcva - va0)))) (\<lambda>g s.
            if fst g then kreturn (0, snd g) s
            else kbind (copyinstr pagetable (va0 + PGSIZE) (mx - n)) (\<lambda>(r, rest). kreturn (r, snd g @ rest)) s) s) s))"
  by pat_completeness auto

termination
  by (relation "measure (\<lambda>(_, _, mx, _). unat mx)") (auto intro: chunk_less simp: word_neq_0_conv)

declare copyinstr.simps [simp del]

function copyout :: "u64 \<Rightarrow> u64 \<Rightarrow> u8 list \<Rightarrow> u64 \<Rightarrow> (kmem, int) kmonad" where
  "copyout pagetable dstva src len s =
     (if len > 0
      then (let va0 = PGROUNDDOWN dstva; n = chunk dstva len in
        kbind (walkaddr pagetable va0) (\<lambda>pa0 s.
          if pa0 = 0 then kreturn (-1) s
          else kseq (kmodify (\<lambda>s. s\<lparr>k_mem := wr_bytes (k_mem s) (pa0 + (dstva - va0)) (take (unat n) src)\<rparr>))
            (copyout pagetable (va0 + PGSIZE) (drop (unat n) src) (len - n)) s) s)
      else kreturn 0 s)"
  by pat_completeness auto

termination
  by (relation "measure (\<lambda>(_, _, _, len, _). unat len)") (auto intro: chunk_less)

declare copyout.simps [simp del]

end
