(* ===== verification/Vm_Spec.thy ===== *)
theory Vm_Spec
  imports Vm
begin

text \<open>
  Page tables as trees of pages. \<open>pages\<close> is the set of table pages below a node, \<open>tree\<close> says that
  they are valid, distinct pages, \<open>lookup\<close> is the leaf entry the tree gives a virtual address (0 when
  a table is missing) and \<open>slot\<close> the address of that entry. The lemmas describe every operation of
  \<^verbatim>\<open>vm.c\<close> by its effect on \<open>lookup\<close>, on the set of table pages and on the pool of free pages.
\<close>

type_synonym mem = "u64 \<Rightarrow> u8"

section \<open>Entries of a table page\<close>

definition ent :: "mem \<Rightarrow> u64 \<Rightarrow> nat \<Rightarrow> u64" where
  "ent m p i = ld64 m (p + 8 * of_nat i)"

definition px :: "nat \<Rightarrow> u64 \<Rightarrow> nat" where
  "px l va = unat va div 2 ^ (12 + 9 * l) mod 512"

lemma px_less [simp]: "px l va < 512"
  by (simp add: px_def)

lemma PX_px: "PX l va = of_nat (px l va)"
proof -
  have "unat (PX l va) = px l va"
  proof -
    have "PX l va = take_bit 9 (drop_bit (12 + 9 * l) va)"
      by (simp add: PX_def take_bit_eq_mask mask_eq_exp_minus_1)
    then have "unat (PX l va) = take_bit 9 (drop_bit (12 + 9 * l) (unat va))"
      by (simp add: unsigned_take_bit_eq unat_drop_bit_eq)
    then show ?thesis by (simp add: px_def take_bit_eq_mod drop_bit_eq_div)
  qed
  then show ?thesis by (metis of_nat_unat ucast_id)
qed

lemma slot_offset: "i < 512 \<Longrightarrow> j < 8 \<Longrightarrow> unat (8 * of_nat i + of_nat j :: u64) = 8 * i + j"
  using unat_of_nat_64 [of "8 * i + j"] by simp

lemma slot_in_page: "i < 512 \<Longrightarrow> j < 8 \<Longrightarrow> p + 8 * of_nat i + of_nat j \<in> page p"
  using slot_offset [of i j] by (simp add: page_def add.assoc)

lemma ent_agree:
  assumes "i < 512" "\<And>a. a \<in> page p \<Longrightarrow> m a = m' a"
  shows "ent m p i = ent m' p i"
proof -
  have "rd_bytes m (p + 8 * of_nat i) 8 = rd_bytes m' (p + 8 * of_nat i) 8"
    by (rule rd_cong) (rule assms(2), rule slot_in_page [OF assms(1)])
  then show ?thesis by (simp add: ent_def ld64_def)
qed

lemma slots_apart:
  assumes "i < 512" "j < 512" "i \<noteq> j"
  shows "apart (p + 8 * of_nat i) 8 (p + 8 * of_nat j) 8"
proof -
  have u: "unat (8 * of_nat j - 8 * of_nat i :: u64) = (if i < j then 8 * j - 8 * i else 8 * j + 2 ^ 64 - 8 * i)"
    if "i < 512" "j < 512" "i \<noteq> j" for i j
  proof -
    have "unat (8 * of_nat j :: u64) = 8 * j" "unat (8 * of_nat i :: u64) = 8 * i"
      using that slot_offset [of j 0] slot_offset [of i 0] by simp_all
    then show ?thesis using that by (simp add: unat_sub_if_size word_size)
  qed
  then show ?thesis using assms by (auto simp: apart_def)
qed

lemma ent_st_same [simp]: "ent (st64 m (p + 8 * of_nat i) v) p i = v"
  by (simp add: ent_def)

lemma ent_st_other: "i < 512 \<Longrightarrow> j < 512 \<Longrightarrow> i \<noteq> j \<Longrightarrow> ent (st64 m (p + 8 * of_nat i) v) p j = ent m p j"
  by (simp add: ent_def ld64_st64_apart slots_apart)

lemma st_off_page:
  assumes "i < 512" "a \<notin> page p"
  shows "st64 m (p + 8 * of_nat i) v a = m a"
proof -
  have "\<not> unat (a - (p + 8 * of_nat i)) < 8"
  proof
    assume lt: "unat (a - (p + 8 * of_nat i)) < 8"
    have "a = p + 8 * of_nat i + of_nat (unat (a - (p + 8 * of_nat i)))" by simp
    then show False using slot_in_page [OF assms(1) lt, of p] assms(2) by simp
  qed
  then show ?thesis by (simp add: st64_def wr_bytes_def)
qed

lemma ent_zero [simp]: "i < 512 \<Longrightarrow> ent (wr_bytes m p (replicate 4096 0)) p i = 0"
  using ld64_zeros [of "8 * i" 4096 m p] by (simp add: ent_def)

lemma ld_slot [simp]: "ld64 m (p + 8 * PX l va) = ent m p (px l va)"
  by (simp add: ent_def PX_px)

lemma page_slot_nonzero:
  assumes "is_page kend p" "i < 512"
  shows "p + 8 * of_nat i \<noteq> 0"
proof -
  have "unat p < 0x88000000" "0 < unat p" using is_page_nat [OF assms(1)] by auto
  moreover have "unat (p + of_nat (8 * i)) = unat p + 8 * i"
    by (rule unat_add_no_wrap) (use assms(2) \<open>unat p < _\<close> in simp)
  ultimately have "unat (p + 8 * of_nat i) \<noteq> 0" by simp
  then show ?thesis by (metis unat_0)
qed

section \<open>Entries\<close>

definition pte_valid :: "u64 \<Rightarrow> bool" where
  "pte_valid e \<longleftrightarrow> e AND PTE_V \<noteq> 0"

lemma bit_small:
  assumes "(f :: u64) < 2 ^ k" "k \<le> n" "k < 64"
  shows "\<not> bit f n"
proof
  assume b: "bit f n"
  have "take_bit k f = f" using assms by (metis less_mask_eq take_bit_eq_mask)
  then have "bit (take_bit k f) n" using b by simp
  then show False using assms(2) by (simp add: bit_take_bit_iff)
qed

lemma PTE2PA_PA2PTE:
  assumes "unat pa mod 4096 = 0" "f < 1024"
  shows "PTE2PA (PA2PTE pa OR f) = pa"
proof -
  have low: "\<not> bit pa n" if "n < 12" for n
  proof -
    have "take_bit 12 (unat pa) = 0" using assms(1) by (simp add: take_bit_eq_mod)
    then have "\<not> bit (take_bit 12 (unat pa)) n" by simp
    then show ?thesis using that by (simp add: bit_take_bit_iff bit_unsigned_iff)
  qed
  have f: "\<not> bit f n" if "10 \<le> n" for n using bit_small [of f 10 n] assms(2) that by simp
  show ?thesis
  proof (rule bit_word_eqI)
    fix n assume n: "n < LENGTH(64)"
    show "bit (PTE2PA (PA2PTE pa OR f)) n = bit pa n"
    proof (cases "n < 12")
      case True
      then show ?thesis using low by (simp add: PTE2PA_def bit_push_bit_iff bit_or_iff)
    next
      case False
      then have "10 \<le> n - 2" "n - 2 < 64" using n by simp_all
      then show ?thesis using n f [of "n - 2"] False
        by (simp add: PTE2PA_def PA2PTE_def bit_push_bit_iff bit_drop_bit_eq bit_or_iff)
    qed
  qed
qed

lemma pte_valid_or [simp]: "pte_valid (x OR PTE_V)" "pte_valid (x OR y OR PTE_V)"
proof -
  have "pte_valid (x OR PTE_V)" for x
  proof -
    have "bit ((x OR PTE_V) AND PTE_V) 0" by (simp add: PTE_V_def bit_and_iff bit_or_iff)
    then show ?thesis unfolding pte_valid_def by auto
  qed
  then show "pte_valid (x OR PTE_V)" "pte_valid (x OR y OR PTE_V)" by (simp_all add: or.assoc [symmetric])
qed

lemma pte_valid_0 [simp]: "\<not> pte_valid 0"
  by (simp add: pte_valid_def)

section \<open>Trees of table pages\<close>

definition child :: "mem \<Rightarrow> u64 \<Rightarrow> nat \<Rightarrow> u64 option" where
  "child m p i = (if pte_valid (ent m p i) then Some (PTE2PA (ent m p i)) else None)"

primrec pages :: "mem \<Rightarrow> nat \<Rightarrow> u64 \<Rightarrow> u64 set" where
  "pages m 0 p = {p}"
| "pages m (Suc l) p = insert p (\<Union>i<512. case child m p i of None \<Rightarrow> {} | Some q \<Rightarrow> pages m l q)"

primrec tree :: "(u64 \<Rightarrow> bool) \<Rightarrow> mem \<Rightarrow> nat \<Rightarrow> u64 \<Rightarrow> bool" where
  "tree V m 0 p \<longleftrightarrow> V p"
| "tree V m (Suc l) p \<longleftrightarrow> V p \<and>
     (\<forall>i<512. \<forall>q. child m p i = Some q \<longrightarrow> tree V m l q \<and> p \<notin> pages m l q) \<and>
     (\<forall>i<512. \<forall>j<512. \<forall>q r. i \<noteq> j \<longrightarrow> child m p i = Some q \<longrightarrow> child m p j = Some r \<longrightarrow> pages m l q \<inter> pages m l r = {})"

primrec lookup :: "mem \<Rightarrow> nat \<Rightarrow> u64 \<Rightarrow> u64 \<Rightarrow> u64" where
  "lookup m 0 p va = ent m p (px 0 va)"
| "lookup m (Suc l) p va = (case child m p (px (Suc l) va) of None \<Rightarrow> 0 | Some q \<Rightarrow> lookup m l q va)"

primrec slot :: "mem \<Rightarrow> nat \<Rightarrow> u64 \<Rightarrow> u64 \<Rightarrow> u64 option" where
  "slot m 0 p va = Some (p + 8 * PX 0 va)"
| "slot m (Suc l) p va = (case child m p (px (Suc l) va) of None \<Rightarrow> None | Some q \<Rightarrow> slot m l q va)"

text \<open>Two memories that agree on a set of pages, and a memory changed only on a set of pages.\<close>

definition same_on :: "u64 set \<Rightarrow> mem \<Rightarrow> mem \<Rightarrow> bool" where
  "same_on S m m' \<longleftrightarrow> (\<forall>q\<in>S. \<forall>a\<in>page q. m' a = m a)"

definition only_on :: "u64 set \<Rightarrow> mem \<Rightarrow> mem \<Rightarrow> bool" where
  "only_on S m m' \<longleftrightarrow> (\<forall>a. (\<forall>q\<in>S. a \<notin> page q) \<longrightarrow> m' a = m a)"

lemma same_on_sub: "same_on S m m' \<Longrightarrow> T \<subseteq> S \<Longrightarrow> same_on T m m'"
  by (auto simp: same_on_def)

lemma same_on_trans: "same_on S m m1 \<Longrightarrow> same_on S m1 m2 \<Longrightarrow> same_on S m m2"
  by (auto simp: same_on_def)

lemma only_on_refl [simp]: "only_on S m m"
  by (simp add: only_on_def)

lemma only_on_mono: "only_on S m m' \<Longrightarrow> S \<subseteq> T \<Longrightarrow> only_on T m m'"
  by (auto simp: only_on_def)

lemma only_on_trans: "only_on S m m1 \<Longrightarrow> only_on S m1 m2 \<Longrightarrow> only_on S m m2"
  by (auto simp: only_on_def)

lemma only_same:
  assumes "only_on S m m'" "S \<inter> T = {}" "\<And>q. q \<in> S \<union> T \<Longrightarrow> is_page e q"
  shows "same_on T m m'"
  unfolding same_on_def
proof (intro ballI)
  fix q a assume q: "q \<in> T" "a \<in> page q"
  have "a \<notin> page r" if "r \<in> S" for r
  proof -
    have "page r \<inter> page q = {}" using assms that q(1) by (intro pages_disjoint [of e]) auto
    then show ?thesis using q(2) by blast
  qed
  then show "m' a = m a" using assms(1) by (simp add: only_on_def)
qed

lemma only_on_st: "i < 512 \<Longrightarrow> p \<in> S \<Longrightarrow> only_on S m (st64 m (p + 8 * of_nat i) v)"
  by (auto simp: only_on_def st_off_page)

lemma only_on_wr: "p \<in> S \<Longrightarrow> length xs \<le> 4096 \<Longrightarrow> only_on S m (wr_bytes m p xs)"
  by (auto simp: only_on_def wr_bytes_agree)

lemma same_on_ent: "same_on S m m' \<Longrightarrow> p \<in> S \<Longrightarrow> i < 512 \<Longrightarrow> ent m' p i = ent m p i"
  by (rule ent_agree) (auto simp: same_on_def)

lemma same_on_child: "same_on S m m' \<Longrightarrow> p \<in> S \<Longrightarrow> i < 512 \<Longrightarrow> child m' p i = child m p i"
  by (simp add: child_def same_on_ent)

lemma pages_root [simp]: "p \<in> pages m l p"
  by (cases l) auto

lemma pages_child: "child m p i = Some q \<Longrightarrow> i < 512 \<Longrightarrow> pages m l q \<subseteq> pages m (Suc l) p"
  by force

lemma tree_root: "tree V m l p \<Longrightarrow> V p"
  by (cases l) auto

lemma pages_Suc: "q \<in> pages m (Suc l) p \<longleftrightarrow> q = p \<or> (\<exists>i<512. \<exists>c. child m p i = Some c \<and> q \<in> pages m l c)"
  by (force split: option.splits)

lemma tree_child: "tree V m (Suc l) p \<Longrightarrow> child m p i = Some c \<Longrightarrow> i < 512 \<Longrightarrow> tree V m l c \<and> p \<notin> pages m l c"
  by simp

lemma tree_pages: "tree V m l p \<Longrightarrow> q \<in> pages m l p \<Longrightarrow> V q"
proof (induction l arbitrary: p)
  case (Suc l)
  from Suc.prems(2) consider "q = p" | i c where "i < 512" "child m p i = Some c" "q \<in> pages m l c" unfolding pages_Suc by blast
  then show ?case
  proof cases
    case 1
    then show ?thesis using tree_root [OF Suc.prems(1)] by simp
  next
    case 2
    then show ?thesis using tree_child [OF Suc.prems(1) 2(2,1)] Suc.IH by blast
  qed
qed simp

lemma pages_same: "same_on (pages m l p) m m' \<Longrightarrow> pages m' l p = pages m l p"
proof (induction l arbitrary: p)
  case (Suc l)
  have c: "child m' p i = child m p i" if "i < 512" for i
    by (rule same_on_child [OF Suc.prems pages_root that])
  have "pages m' l q = pages m l q" if "child m p i = Some q" "i < 512" for i q
    by (rule Suc.IH, rule same_on_sub [OF Suc.prems], rule pages_child [OF that])
  then have "(case child m' p i of None \<Rightarrow> {} | Some q \<Rightarrow> pages m' l q) = (case child m p i of None \<Rightarrow> {} | Some q \<Rightarrow> pages m l q)"
    if "i < 512" for i
    using that c by (auto split: option.split)
  then show ?case by simp
qed simp

lemma tree_same: "same_on (pages m l p) m m' \<Longrightarrow> tree V m l p \<Longrightarrow> tree V m' l p"
proof (induction l arbitrary: p)
  case (Suc l)
  have c: "child m' p i = child m p i" if "i < 512" for i
    by (rule same_on_child [OF Suc.prems(1) pages_root that])
  have s: "same_on (pages m l q) m m'" if "child m p i = Some q" "i < 512" for i q
    by (rule same_on_sub [OF Suc.prems(1)], rule pages_child [OF that])
  have g: "pages m' l q = pages m l q" if "child m p i = Some q" "i < 512" for i q
    by (rule pages_same, rule s [OF that])
  show ?case unfolding tree.simps
  proof (intro conjI allI impI)
    show "V p" using Suc.prems(2) by simp
  next
    fix i q assume i: "i < 512" "child m' p i = Some q"
    then have i': "child m p i = Some q" using c by simp
    show "tree V m' l q" using Suc.IH [OF s [OF i' i(1)]] Suc.prems(2) i' i(1) by simp
    show "p \<notin> pages m' l q" using g [OF i' i(1)] Suc.prems(2) i' i(1) by simp
  next
    fix i j q r assume i: "i < 512" "j < 512" "i \<noteq> j" "child m' p i = Some q" "child m' p j = Some r"
    then have i': "child m p i = Some q" "child m p j = Some r" using c by simp_all
    show "pages m' l q \<inter> pages m' l r = {}"
      unfolding g [OF i'(1) i(1)] g [OF i'(2) i(2)] using Suc.prems(2) i(1,2,3) i' unfolding tree.simps by blast
  qed
qed simp

lemma lookup_same: "same_on (pages m l p) m m' \<Longrightarrow> lookup m' l p va = lookup m l p va"
proof (induction l arbitrary: p)
  case 0
  then show ?case by (simp add: same_on_ent)
next
  case (Suc l)
  have c: "child m' p i = child m p i" if "i < 512" for i
    by (rule same_on_child [OF Suc.prems(1) pages_root that])
  have "lookup m' l q va = lookup m l q va" if "child m p i = Some q" "i < 512" for i q
    by (rule Suc.IH, rule same_on_sub [OF Suc.prems(1)], rule pages_child [OF that])
  then show ?case using c by (simp split: option.split)
qed

lemma slot_same: "same_on (pages m l p) m m' \<Longrightarrow> slot m' l p va = slot m l p va"
proof (induction l arbitrary: p)
  case (Suc l)
  have c: "child m' p i = child m p i" if "i < 512" for i
    by (rule same_on_child [OF Suc.prems(1) pages_root that])
  have "slot m' l q va = slot m l q va" if "child m p i = Some q" "i < 512" for i q
    by (rule Suc.IH, rule same_on_sub [OF Suc.prems(1)], rule pages_child [OF that])
  then show ?case using c by (simp split: option.split)
qed simp

text \<open>A zero-filled page is an empty tree of any height.\<close>

lemma zero_tree:
  assumes "\<And>i. i < 512 \<Longrightarrow> ent m p i = 0" "V p"
  shows "tree V m l p" "pages m l p = {p}" "lookup m l p va = 0"
proof -
  have "child m p i = None" if "i < 512" for i using assms(1) that by (simp add: child_def)
  then show "tree V m l p" "pages m l p = {p}" "lookup m l p va = 0"
    using assms by (cases l; simp)+
qed

text \<open>Replacing, or adding, one subtree of a node.\<close>

lemma tree_graft:
  assumes t: "tree V m (Suc l) p" and i: "i < 512"
    and ents: "\<And>j. j < 512 \<Longrightarrow> j \<noteq> i \<Longrightarrow> ent m' p j = ent m p j"
    and new: "child m' p i = Some q" "tree V m' l q" "p \<notin> pages m' l q"
    and sib: "\<And>j r. j < 512 \<Longrightarrow> j \<noteq> i \<Longrightarrow> child m p j = Some r \<Longrightarrow> same_on (pages m l r) m m' \<and> pages m l r \<inter> pages m' l q = {}"
  shows "tree V m' (Suc l) p"
    and "pages m' (Suc l) p = insert p (pages m' l q \<union> (\<Union>j\<in>{..<512} - {i}. case child m p j of None \<Rightarrow> {} | Some r \<Rightarrow> pages m l r))"
    and "px (Suc l) va \<noteq> i \<Longrightarrow> lookup m' (Suc l) p va = lookup m (Suc l) p va"
proof -
  have c: "child m' p j = child m p j" if "j < 512" "j \<noteq> i" for j using ents [OF that] by (simp add: child_def)
  have g: "pages m' l r = pages m l r" "tree V m' l r" "lookup m' l r va = lookup m l r va"
    if "j < 512" "j \<noteq> i" "child m p j = Some r" for j r va
  proof -
    have s: "same_on (pages m l r) m m'" using sib [OF that] by blast
    show "pages m' l r = pages m l r" by (rule pages_same [OF s])
    show "tree V m' l r" by (rule tree_same [OF s]) (use t that in auto)
    show "lookup m' l r va = lookup m l r va" by (rule lookup_same [OF s])
  qed
  show "tree V m' (Suc l) p" unfolding tree.simps
  proof (intro conjI allI impI)
    show "V p" using t by simp
  next
    fix j r assume j: "j < 512" "child m' p j = Some r"
    show "tree V m' l r" using g(2) j c new by (cases "j = i") auto
    show "p \<notin> pages m' l r"
    proof (cases "j = i")
      case False
      then have "child m p j = Some r" using j c by simp
      then show ?thesis using g(1) [OF j(1) False] t j(1) by auto
    qed (use new j in auto)
  next
    fix j k r u assume j: "j < 512" "k < 512" "j \<noteq> k" "child m' p j = Some r" "child m' p k = Some u"
    consider "j = i" "k \<noteq> i" | "j \<noteq> i" "k = i" | "j \<noteq> i" "k \<noteq> i" using j(3) by blast
    then show "pages m' l r \<inter> pages m' l u = {}"
    proof cases
      case 1
      then have "child m p k = Some u" "r = q" using j c new by auto
      then show ?thesis using sib [OF j(2) 1(2)] g(1) [OF j(2) 1(2)] by blast
    next
      case 2
      then have "child m p j = Some r" "u = q" using j c new by auto
      then show ?thesis using sib [OF j(1) 2(1)] g(1) [OF j(1) 2(1)] by blast
    next
      case 3
      then have "child m p j = Some r" "child m p k = Some u" using j c by auto
      moreover have "pages m l r \<inter> pages m l u = {}" using t j(1,2,3) calculation unfolding tree.simps by blast
      ultimately show ?thesis using g(1) [OF j(1) 3(1)] g(1) [OF j(2) 3(2)] by simp
    qed
  qed
  have "(case child m' p j of None \<Rightarrow> {} | Some r \<Rightarrow> pages m' l r) = (case child m p j of None \<Rightarrow> {} | Some r \<Rightarrow> pages m l r)"
    if "j \<in> {..<512} - {i}" for j
    using that c [of j] g(1) [of j] by (auto split: option.split)
  moreover have "{..<512} = insert i ({..<512} - {i})" using i by auto
  ultimately show "pages m' (Suc l) p = insert p (pages m' l q \<union> (\<Union>j\<in>{..<512} - {i}. case child m p j of None \<Rightarrow> {} | Some r \<Rightarrow> pages m l r))"
    using new(1) unfolding pages.simps by (metis (no_types, lifting) SUP_cong UN_insert option.simps(5))
  show "lookup m' (Suc l) p va = lookup m (Suc l) p va" if "px (Suc l) va \<noteq> i"
    using c [of "px (Suc l) va"] g(3) [of "px (Suc l) va"] that by (auto split: option.split)
qed

section \<open>Walking\<close>

declare tree.simps(2) [simp del] pages.simps(2) [simp del]

lemma tree_siblings:
  "tree V m (Suc l) p \<Longrightarrow> i < 512 \<Longrightarrow> j < 512 \<Longrightarrow> i \<noteq> j \<Longrightarrow> child m p i = Some q \<Longrightarrow> child m p j = Some r \<Longrightarrow>
   pages m l q \<inter> pages m l r = {}"
  unfolding tree.simps by blast

lemma walk_levels_look:
  "walk_levels l va False p s = Done (case slot (k_mem s) l p va of None \<Rightarrow> 0 | Some a \<Rightarrow> a) s"
  by (induction l arbitrary: p) (auto simp: child_def pte_valid_def Let_def)

lemma walk_look:
  "va < MAXVA \<Longrightarrow> walk p va False s = Done (case slot (k_mem s) 2 p va of None \<Rightarrow> 0 | Some a \<Rightarrow> a) s"
  by (simp add: walk_def walk_levels_look)

text \<open>A page table and the pool it grows from.\<close>

definition space :: "kmem \<Rightarrow> u64 set \<Rightarrow> nat \<Rightarrow> u64 \<Rightarrow> bool" where
  "space s F l p \<longleftrightarrow> tree (is_page (k_end s)) (k_mem s) l p \<and> pool s F \<and> pages (k_mem s) l p \<inter> F = {}"

definition grown :: "kmem \<Rightarrow> u64 set \<Rightarrow> nat \<Rightarrow> u64 \<Rightarrow> kmem \<Rightarrow> u64 set \<Rightarrow> bool" where
  "grown s F l p s' F' \<longleftrightarrow> k_end s' = k_end s \<and> space s' F' l p \<and> F' \<subseteq> F \<and>
     pages (k_mem s') l p = pages (k_mem s) l p \<union> (F - F') \<and>
     (\<forall>v. lookup (k_mem s') l p v = lookup (k_mem s) l p v) \<and>
     only_on (pages (k_mem s') l p) (k_mem s) (k_mem s')"

lemma space_pages: "space s F l p \<Longrightarrow> q \<in> pages (k_mem s) l p \<union> F \<Longrightarrow> is_page (k_end s) q"
  using tree_pages ka.pool_valid by (auto simp: space_def)

lemma space_root: "space s F l p \<Longrightarrow> is_page (k_end s) p"
  using tree_root by (auto simp: space_def)

lemma space_child:
  "space s F (Suc l) p \<Longrightarrow> child (k_mem s) p i = Some q \<Longrightarrow> i < 512 \<Longrightarrow> space s F l q"
  using pages_child [of "k_mem s" p i q l] tree_child [of "is_page (k_end s)" "k_mem s" l p i q] by (auto simp: space_def)

lemma grown_refl: "space s F l p \<Longrightarrow> grown s F l p s F"
  by (simp add: grown_def)

lemma regroup: "A = insert p (Q \<union> R) \<Longrightarrow> B = insert p (C \<union> R) \<Longrightarrow> Q = C \<union> D \<Longrightarrow> A = B \<union> D"
  by auto

text \<open>Growing one subtree grows the whole tree.\<close>

lemma grown_child:
  assumes sp: "space s F (Suc l) p" and i: "i < 512"
    and mid: "k_end s1 = k_end s" "G \<subseteq> F" "only_on (insert p (F - G)) (k_mem s) (k_mem s1)"
      "\<And>j. j < 512 \<Longrightarrow> j \<noteq> i \<Longrightarrow> ent (k_mem s1) p j = ent (k_mem s) p j"
      "child (k_mem s1) p i = Some q" "p \<notin> pages (k_mem s1) l q"
    and old: "pages (k_mem s1) l q = (case child (k_mem s) p i of None \<Rightarrow> {} | Some q \<Rightarrow> pages (k_mem s) l q) \<union> (F - G)"
      "\<And>v. lookup (k_mem s1) l q v = (case child (k_mem s) p i of None \<Rightarrow> 0 | Some q \<Rightarrow> lookup (k_mem s) l q v)"
    and g: "grown s1 G l q s' F'"
  shows "grown s F (Suc l) p s' F'" "px (Suc l) va = i \<Longrightarrow> slot (k_mem s') (Suc l) p va = slot (k_mem s') l q va"
proof -
  let ?m = "k_mem s" and ?m1 = "k_mem s1" and ?m' = "k_mem s'"
  let ?C = "case child ?m p i of None \<Rightarrow> {} | Some q \<Rightarrow> pages ?m l q"
  have g': "k_end s' = k_end s" "F' \<subseteq> G" "pages ?m' l q = pages ?m1 l q \<union> (G - F')" "only_on (pages ?m' l q) ?m1 ?m'"
    "\<And>v. lookup ?m' l q v = lookup ?m1 l q v" "tree (is_page (k_end s)) ?m' l q" "pool s' F'"
    using g mid(1) by (auto simp: grown_def space_def)
  have pq: "pages ?m' l q = ?C \<union> (F - F')" using g'(2,3) old(1) mid(2) by auto
  have valid: "is_page (k_end s) x" if "x \<in> pages ?m (Suc l) p \<union> F" for x using space_pages [OF sp that] .
  have C: "?C \<subseteq> pages ?m (Suc l) p" using i by (auto split: option.split simp: pages_Suc)
  have t: "tree (is_page (k_end s)) ?m (Suc l) p" using sp by (simp add: space_def)
  have pC: "p \<notin> ?C" using tree_child [OF t _ i] by (auto split: option.split)
  have dis: "pages ?m (Suc l) p \<inter> F = {}" using sp by (simp add: space_def)
  have p: "p \<notin> pages ?m' l q" using pq pC dis pages_root [of p ?m "Suc l"] by blast
  have e1: "same_on {p} ?m1 ?m'"
  proof (rule only_same [OF g'(4)])
    show "pages ?m' l q \<inter> {p} = {}" using p by blast
    show "is_page (k_end s) x" if "x \<in> pages ?m' l q \<union> {p}" for x using that valid pq C pages_root [of p ?m "Suc l"] by blast
  qed
  have ents: "ent ?m' p j = ent ?m p j" if "j < 512" "j \<noteq> i" for j
    using mid(4) [OF that] same_on_ent [OF e1 _ that(1)] by simp
  have new: "child ?m' p i = Some q" using same_on_child [OF e1 _ i] mid(5) by simp
  have only: "only_on (insert p (pages ?m' l q)) ?m ?m'"
  proof (rule only_on_trans)
    have "F - G \<subseteq> pages ?m' l q" using pq g'(2) by blast
    then show "only_on (insert p (pages ?m' l q)) ?m ?m1" by (intro only_on_mono [OF mid(3)]) blast
    show "only_on (insert p (pages ?m' l q)) ?m1 ?m'" by (rule only_on_mono [OF g'(4)]) blast
  qed
  have sib: "same_on (pages ?m l r) ?m ?m' \<and> pages ?m l r \<inter> pages ?m' l q = {}" if "j < 512" "j \<noteq> i" "child ?m p j = Some r" for j r
  proof -
    have sub: "pages ?m l r \<subseteq> pages ?m (Suc l) p" by (rule pages_child [OF that(3,1)])
    have "pages ?m l r \<inter> ?C = {}" using tree_siblings [OF t that(1) i that(2,3)] by (auto split: option.split)
    then have d: "pages ?m l r \<inter> pages ?m' l q = {}" unfolding pq using sub dis by blast
    have "p \<notin> pages ?m l r" using tree_child [OF t that(3,1)] by blast
    then have "same_on (pages ?m l r) ?m ?m'"
      using d valid sub C pq pages_root [of p ?m "Suc l"] by (intro only_same [OF only, of _ "k_end s"]) blast+
    with d show ?thesis by blast
  qed
  have gr: "tree (is_page (k_end s)) ?m' (Suc l) p"
    "pages ?m' (Suc l) p = insert p (pages ?m' l q \<union> (\<Union>j\<in>{..<512} - {i}. case child ?m p j of None \<Rightarrow> {} | Some r \<Rightarrow> pages ?m l r))"
    "\<And>va. px (Suc l) va \<noteq> i \<Longrightarrow> lookup ?m' (Suc l) p va = lookup ?m (Suc l) p va"
    using tree_graft [OF t i, of ?m' q] ents new g'(6) p sib by blast+
  have split: "pages ?m (Suc l) p = insert p (?C \<union> (\<Union>j\<in>{..<512} - {i}. case child ?m p j of None \<Rightarrow> {} | Some r \<Rightarrow> pages ?m l r))"
    using i unfolding pages.simps by blast
  have pp: "pages ?m' (Suc l) p = pages ?m (Suc l) p \<union> (F - F')"
    by (rule regroup [OF gr(2) split pq])
  have look: "lookup ?m' (Suc l) p v = lookup ?m (Suc l) p v" for v
  proof (cases "px (Suc l) v = i")
    case True
    then show ?thesis using new g'(5) old(2) by simp
  qed (rule gr(3))
  have "only_on (pages ?m' (Suc l) p) ?m ?m'"
    by (rule only_on_mono [OF only]) (use pages_child [OF new i] pages_root [of p ?m' "Suc l"] in blast)
  then show "grown s F (Suc l) p s' F'"
    using gr(1) pp look g'(1,2,7) dis mid(2) unfolding grown_def space_def by (auto simp del: lookup.simps)
  show "px (Suc l) va = i \<Longrightarrow> slot ?m' (Suc l) p va = slot ?m' l q va" using new by simp
qed

lemma walk_levels_alloc:
  assumes "space s F l p"
  shows "\<exists>r s' F'. walk_levels l va True p s = Done r s' \<and> grown s F l p s' F' \<and>
    (if r = 0 then F' = {} \<and> slot (k_mem s') l p va = None else slot (k_mem s') l p va = Some r)"
  using assms
proof (induction l arbitrary: p s F)
  case 0
  then show ?case using grown_refl [OF 0] page_slot_nonzero [OF space_root [OF 0], of "px 0 va"] by (auto simp: PX_px)
next
  case (Suc l)
  let ?i = "px (Suc l) va"
  let ?e = "ent (k_mem s) p ?i"
  show ?case
  proof (cases "pte_valid ?e")
    case True
    then have c: "child (k_mem s) p ?i = Some (PTE2PA ?e)" by (simp add: child_def)
    obtain r s' F' where r: "walk_levels l va True (PTE2PA ?e) s = Done r s'" "grown s F l (PTE2PA ?e) s' F'"
        "if r = 0 then F' = {} \<and> slot (k_mem s') l (PTE2PA ?e) va = None else slot (k_mem s') l (PTE2PA ?e) va = Some r"
      using Suc.IH [OF space_child [OF Suc.prems c px_less]] by blast
    have "p \<notin> pages (k_mem s) l (PTE2PA ?e)"
      using Suc.prems tree_child [OF _ c px_less] unfolding space_def by blast
    note gc = grown_child [OF Suc.prems px_less [of "Suc l" va] _ subset_refl _ _ c this _ _ r(2)]
    have "grown s F (Suc l) p s' F'" by (rule gc(1)) (simp_all add: c)
    moreover have "slot (k_mem s') (Suc l) p va = slot (k_mem s') l (PTE2PA ?e) va"
      by (rule gc(2)) (simp_all add: c)
    moreover have "walk_levels (Suc l) va True p s = walk_levels l va True (PTE2PA ?e) s"
      using True by (simp add: Let_def pte_valid_def)
    ultimately show ?thesis using r by (metis (no_types, lifting))
  next
    case False
    then have none: "child (k_mem s) p ?i = None" by (simp add: child_def)
    have pl: "pool s F" using Suc.prems by (simp add: space_def)
    show ?thesis
    proof (cases "F = {}")
      case True
      then show ?thesis using False pl grown_refl [OF Suc.prems] ka.alloc_none [of s]
        by (auto simp: Let_def pte_valid_def none)
    next
      case ne: False
      let ?v = "\<lambda>n. PA2PTE n OR PTE_V"
      obtain n s1 where n: "kalloc s = Done n s1" "n \<in> F" "pool s1 (F - {n})" "k_end s1 = k_end s"
          "k_mem s1 = wr_bytes (k_mem s) n (replicate 4096 0)"
        using ka.alloc_some [OF pl ne] by blast
      let ?m2 = "memset (k_mem s1) n 0 (ucast PGSIZE)"
      let ?m3 = "st64 ?m2 (p + 8 * of_nat ?i) (?v n)"
      let ?s3 = "s1\<lparr>k_mem := ?m3\<rparr>"
      have np: "is_page (k_end s) n" "is_page (k_end s) p" "n \<noteq> p" "n \<noteq> 0" "p \<notin> F"
        using space_pages [OF Suc.prems, of n] space_root [OF Suc.prems] n(2) Suc.prems ka.valid_nonnull
          pages_root [of p "k_mem s" "Suc l"] unfolding space_def by blast+
      have off: "?m2 a = k_mem s a" if "a \<notin> page n" for a
        using that n(5) by (simp add: memset_page wr_bytes_agree)
      have only: "only_on (insert p (F - (F - {n}))) (k_mem s) ?m3"
        using n(2) off by (auto simp: only_on_def st_off_page)
      have p3: "pool ?s3 (F - {n})"
      proof -
        have 2: "pool (s1\<lparr>k_mem := ?m2\<rparr>) (F - {n})"
          by (rule ka.store_page [OF n(3)]) (use np n(4) in \<open>auto simp: memset_page wr_bytes_agree\<close>)
        have "pool ((s1\<lparr>k_mem := ?m2\<rparr>)\<lparr>k_mem := ?m3\<rparr>) (F - {n})"
          by (rule ka.store_page [OF 2, of p]) (use np n(4) in \<open>auto simp: st_off_page\<close>)
        then show ?thesis by simp
      qed
      have pn: "p \<noteq> n" using np(3) by simp
      have same: "same_on {n} ?m2 ?m3" "same_on {p} (k_mem s) ?m2"
      proof -
        have "only_on {p} ?m2 ?m3" by (rule only_on_st) auto
        then show "same_on {n} ?m2 ?m3" by (rule only_same [where e = "k_end s"]) (use np in auto)
        have "only_on {n} (k_mem s) ?m2" using off by (auto simp: only_on_def)
        then show "same_on {p} (k_mem s) ?m2" by (rule only_same [where e = "k_end s"]) (use np in auto)
      qed
      have zero: "ent ?m3 n j = 0" if "j < 512" for j
        using same_on_ent [OF same(1) _ that] that by (simp add: memset_page)
      note zt = zero_tree [where V = "is_page (k_end s)" and l = l, OF zero np(1)]
      have sp3: "space ?s3 (F - {n}) l n" using zt p3 n(4) by (simp add: space_def)
      obtain r s' F' where r: "walk_levels l va True n ?s3 = Done r s'" "grown ?s3 (F - {n}) l n s' F'"
          "if r = 0 then F' = {} \<and> slot (k_mem s') l n va = None else slot (k_mem s') l n va = Some r"
        using Suc.IH [OF sp3] by blast
      have c3: "child ?m3 p ?i = Some n"
      proof -
        have "PTE_V < 1024" by (simp add: PTE_V_def)
        then show ?thesis using PTE2PA_PA2PTE [of n PTE_V] is_page_nat [OF np(1)] by (simp add: child_def)
      qed
      have ents: "ent ?m3 p j = ent (k_mem s) p j" if "j < 512" "j \<noteq> ?i" for j
        using that same_on_ent [OF same(2) _ that(1)] by (simp add: ent_st_other)
      note gc1 = grown_child(1) [where ?s1.0 = ?s3 and G = "F - {n}" and q = n and s' = s' and F' = F' and i = ?i, OF Suc.prems px_less]
      note gc2 = grown_child(2) [where ?s1.0 = ?s3 and G = "F - {n}" and q = n and s' = s' and F' = F' and i = ?i and va = va, OF Suc.prems px_less]
      have "grown s F (Suc l) p s' F'"
        by (rule gc1) (use n only ents c3 zt pn none r(2) in \<open>auto simp: none\<close>)
      moreover have "slot (k_mem s') (Suc l) p va = slot (k_mem s') l n va"
        by (rule gc2) (use n only ents c3 zt pn none r(2) in \<open>auto simp: none\<close>)
      moreover have "walk_levels (Suc l) va True p s = walk_levels l va True n ?s3"
        using False n(1) np(4) by (simp add: Let_def pte_valid_def PX_px ent_def)
      ultimately show ?thesis using r by (metis (no_types, lifting))
    qed
  qed
qed

section \<open>Storing a leaf entry\<close>

definition same_slot :: "nat \<Rightarrow> u64 \<Rightarrow> u64 \<Rightarrow> bool" where
  "same_slot l v w \<longleftrightarrow> (\<forall>k\<le>l. px k v = px k w)"

lemma same_slot_Suc: "same_slot (Suc l) v w \<longleftrightarrow> px (Suc l) v = px (Suc l) w \<and> same_slot l v w"
  by (auto simp: same_slot_def le_Suc_eq)

lemma slot_place:
  assumes "slot m l p va = Some r"
  shows "\<exists>q i. q \<in> pages m l p \<and> i < 512 \<and> r = q + 8 * of_nat i \<and> ent m q i = lookup m l p va"
  using assms
proof (induction l arbitrary: p)
  case 0
  then show ?case by (auto simp: PX_px intro!: exI [of _ "px 0 va"])
next
  case (Suc l)
  then obtain c where c: "child m p (px (Suc l) va) = Some c" "slot m l c va = Some r" by (auto split: option.splits)
  then show ?case using Suc.IH [OF c(2)] pages_child [OF c(1) px_less, of l] by auto
qed

lemma slot_store:
  assumes "tree (is_page e) m l p" "slot m l p va = Some r"
  shows "tree (is_page e) (st64 m r v) l p" "pages (st64 m r v) l p = pages m l p"
    "lookup (st64 m r v) l p w = (if same_slot l va w then v else lookup m l p w)"
  using assms
proof (atomize (full), induction l arbitrary: p w)
  case 0
  then have r: "r = p + 8 * of_nat (px 0 va)" by (simp add: PX_px)
  then show ?case using 0 ent_st_other [of "px 0 va" "px 0 w" m p v] by (auto simp: same_slot_def)
next
  case (Suc l)
  let ?m = "st64 m r v" and ?i = "px (Suc l) va"
  show ?case
  proof -
    note a = Suc.prems
    from a(2) obtain c where c: "child m p ?i = Some c" "slot m l c va = Some r" by (auto split: option.splits)
    have tc: "tree (is_page e) m l c" "p \<notin> pages m l c" using tree_child [OF a(1) c(1) px_less] by auto
    have ih: "tree (is_page e) ?m l c" "pages ?m l c = pages m l c"
      "\<And>w. lookup ?m l c w = (if same_slot l va w then v else lookup m l c w)"
      using Suc.IH tc(1) c(2) by blast+
    have valid: "is_page e x" if "x \<in> pages m (Suc l) p" for x using tree_pages [OF a(1) that] .
    have sub: "pages m l c \<subseteq> pages m (Suc l) p" by (rule pages_child [OF c(1) px_less])
    have only: "only_on (pages m l c) m ?m"
      using slot_place [OF c(2)] only_on_st by blast
    have sp: "same_on {p} m ?m" by (rule only_same [OF only, of _ e]) (use tc(2) valid sub pages_root [of p m "Suc l"] in blast)+
    have new: "child ?m p ?i = Some c" using same_on_child [OF sp _ px_less] c(1) by simp
    have ents: "ent ?m p j = ent m p j" if "j < 512" "j \<noteq> ?i" for j using same_on_ent [OF sp _ that(1)] by simp
    have sib: "same_on (pages m l x) m ?m \<and> pages m l x \<inter> pages ?m l c = {}" if "j < 512" "j \<noteq> ?i" "child m p j = Some x" for j x
    proof -
      have d: "pages m l x \<inter> pages m l c = {}" by (rule tree_siblings [OF a(1) that(1) px_less that(2,3) c(1)])
      have "same_on (pages m l x) m ?m"
        by (rule only_same [OF only, of _ e]) (use d valid sub pages_child [OF that(3,1), of l] in blast)+
      then show ?thesis using d ih(2) by simp
    qed
    have gr: "tree (is_page e) ?m (Suc l) p"
      "pages ?m (Suc l) p = insert p (pages ?m l c \<union> (\<Union>j\<in>{..<512} - {?i}. case child m p j of None \<Rightarrow> {} | Some r \<Rightarrow> pages m l r))"
      "\<And>w. px (Suc l) w \<noteq> ?i \<Longrightarrow> lookup ?m (Suc l) p w = lookup m (Suc l) p w"
    proof -
      have np: "p \<notin> pages ?m l c" using ih(2) tc(2) by simp
      note gr = tree_graft [where q = c and m' = ?m, OF a(1) px_less [of "Suc l" va]]
      show "tree (is_page e) ?m (Suc l) p" by (rule gr(1)) (assumption | rule ents new ih(1) np sib)+
      show "pages ?m (Suc l) p = insert p (pages ?m l c \<union> (\<Union>j\<in>{..<512} - {?i}. case child m p j of None \<Rightarrow> {} | Some r \<Rightarrow> pages m l r))"
        by (rule gr(2)) (assumption | rule ents new ih(1) np sib)+
      show "lookup ?m (Suc l) p w = lookup m (Suc l) p w" if "px (Suc l) w \<noteq> ?i" for w
        by (rule gr(3)) (assumption | rule ents new ih(1) np sib that)+
    qed
    have split: "pages m (Suc l) p = insert p (pages m l c \<union> (\<Union>j\<in>{..<512} - {?i}. case child m p j of None \<Rightarrow> {} | Some r \<Rightarrow> pages m l r))"
    proof -
      have "{..<512} = insert ?i ({..<512} - {?i})" using px_less [of "Suc l" va] by auto
      then show ?thesis using c(1) unfolding pages.simps by (metis (no_types, lifting) UN_insert option.simps(5))
    qed
    have "pages ?m (Suc l) p = pages m (Suc l) p" unfolding gr(2) ih(2) by (rule split [symmetric])
    moreover have "lookup ?m (Suc l) p w = (if same_slot (Suc l) va w then v else lookup m (Suc l) p w)"
    proof (cases "px (Suc l) w = ?i")
      case True
      then show ?thesis using new c(1) ih(3) by (simp add: same_slot_Suc)
    next
      case False
      then show ?thesis using gr(3) by (auto simp: same_slot_Suc)
    qed
    ultimately show "tree (is_page e) ?m (Suc l) p \<and> pages ?m (Suc l) p = pages m (Suc l) p \<and>
      lookup ?m (Suc l) p w = (if same_slot (Suc l) va w then v else lookup m (Suc l) p w)"
      using gr(1) by blast
  qed
qed

section \<open>Virtual page numbers\<close>

abbreviation vpn :: "u64 \<Rightarrow> nat" where
  "vpn va \<equiv> unat va div 4096"

lemma MAXVA_nat: "va < MAXVA \<longleftrightarrow> unat va < 2 ^ 39"
  by (simp add: MAXVA_def word_less_nat_alt)

lemma same_slot_vpn:
  assumes "unat v < 2 ^ 39" "unat w < 2 ^ 39"
  shows "same_slot 2 v w \<longleftrightarrow> vpn v = vpn w"
proof -
  have d: "px 0 x = vpn x mod 512" "px 1 x = vpn x div 512 mod 512" "px 2 x = vpn x div 512 div 512 mod 512" for x
    by (simp_all add: px_def div_mult2_eq [symmetric])
  have s: "vpn x = px 0 x + 512 * (px 1 x + 512 * px 2 x)" if "unat x < 2 ^ 39" for x
  proof -
    have "vpn x < 512 * 512 * 512" using that by (simp add: div_less_iff_less_mult)
    then have "vpn x div 512 div 512 < 512" by (simp add: div_mult2_eq [symmetric] div_less_iff_less_mult)
    then have "vpn x div 512 div 512 mod 512 = vpn x div 512 div 512" by simp
    then show ?thesis unfolding d by (metis mod_mult_div_eq)
  qed
  have "same_slot 2 v w \<longleftrightarrow> px 0 v = px 0 w \<and> px 1 v = px 1 w \<and> px 2 v = px 2 w"
    by (auto simp: same_slot_def numeral_2_eq_2 le_Suc_eq)
  also have "\<dots> \<longleftrightarrow> vpn v = vpn w"
  proof
    assume "px 0 v = px 0 w \<and> px 1 v = px 1 w \<and> px 2 v = px 2 w"
    then show "vpn v = vpn w" using s [OF assms(1)] s [OF assms(2)] by simp
  qed (simp only: d)
  finally show ?thesis .
qed

section \<open>Mapping\<close>

text \<open>
  The page table at \<open>pt\<close> gained leaf entries (\<open>upd\<close>, by page number) and, when interior tables were
  missing, table pages taken from the pool; nothing else in memory changed.
\<close>

definition mapped :: "kmem \<Rightarrow> u64 set \<Rightarrow> u64 \<Rightarrow> kmem \<Rightarrow> u64 set \<Rightarrow> (nat \<rightharpoonup> u64) \<Rightarrow> bool" where
  "mapped s F pt s' F' upd \<longleftrightarrow> k_end s' = k_end s \<and> space s' F' 2 pt \<and> F' \<subseteq> F \<and>
     pages (k_mem s') 2 pt = pages (k_mem s) 2 pt \<union> (F - F') \<and> only_on (pages (k_mem s') 2 pt) (k_mem s) (k_mem s') \<and>
     (\<forall>w<MAXVA. lookup (k_mem s') 2 pt w = (case upd (vpn w) of Some e \<Rightarrow> e | None \<Rightarrow> lookup (k_mem s) 2 pt w))"

lemma mapped_grown: "grown s F 2 pt s' F' \<Longrightarrow> mapped s F pt s' F' Map.empty"
  by (auto simp only: grown_def mapped_def option.simps)

lemma mapped_trans:
  assumes "mapped s F pt s1 F1 u1" "mapped s1 F1 pt s2 F2 u2"
  shows "mapped s F pt s2 F2 (u1 ++ u2)"
proof -
  have "only_on (pages (k_mem s2) 2 pt) (k_mem s) (k_mem s2)"
    using assms only_on_trans [of "pages (k_mem s2) 2 pt" "k_mem s" "k_mem s1" "k_mem s2"]
      only_on_mono [of "pages (k_mem s1) 2 pt" "k_mem s" "k_mem s1" "pages (k_mem s2) 2 pt"]
    unfolding mapped_def by blast
  moreover have "lookup (k_mem s2) 2 pt w = (case (u1 ++ u2) (vpn w) of Some e \<Rightarrow> e | None \<Rightarrow> lookup (k_mem s) 2 pt w)"
    if "w < MAXVA" for w
    using assms that unfolding mapped_def by (auto simp: map_add_def split: option.splits)
  moreover have "pages (k_mem s2) 2 pt = pages (k_mem s) 2 pt \<union> (F - F2)" using assms unfolding mapped_def by blast
  ultimately show ?thesis using assms unfolding mapped_def by auto
qed

lemma store_leaf:
  assumes "space s F 2 pt" "slot (k_mem s) 2 pt va = Some r" "va < MAXVA"
  shows "mapped s F pt (s\<lparr>k_mem := st64 (k_mem s) r v\<rparr>) F [vpn va \<mapsto> v]"
proof -
  have t: "tree (is_page (k_end s)) (k_mem s) 2 pt" "pool s F" "pages (k_mem s) 2 pt \<inter> F = {}"
    using assms(1) by (auto simp: space_def)
  obtain q i where q: "q \<in> pages (k_mem s) 2 pt" "i < 512" "r = q + 8 * of_nat i" using slot_place [OF assms(2)] by blast
  have "pool (s\<lparr>k_mem := st64 (k_mem s) r v\<rparr>) F"
    by (rule ka.store_page [OF t(2), of q]) (use q t(3) tree_pages [OF t(1) q(1)] in \<open>auto simp: st_off_page\<close>)
  moreover have "only_on (pages (k_mem s) 2 pt) (k_mem s) (st64 (k_mem s) r v)"
    using only_on_st [OF q(2,1)] q(3) by simp
  moreover note slot_store [OF t(1) assms(2), of v]
  ultimately show ?thesis
    using assms(3) t(3) same_slot_vpn [of va] by (auto simp: mapped_def space_def MAXVA_nat)
qed

lemma walk_alloc:
  assumes "space s F 2 pt" "va < MAXVA"
  obtains r s' F' where "walk pt va True s = Done r s'" "mapped s F pt s' F' Map.empty"
    "r = 0 \<Longrightarrow> F' = {} \<and> slot (k_mem s') 2 pt va = None" "r \<noteq> 0 \<Longrightarrow> slot (k_mem s') 2 pt va = Some r"
proof -
  obtain r s' F' where "walk_levels 2 va True pt s = Done r s'" "grown s F 2 pt s' F'"
      "if r = 0 then F' = {} \<and> slot (k_mem s') 2 pt va = None else slot (k_mem s') 2 pt va = Some r"
    using walk_levels_alloc [OF assms(1)] by blast
  then show thesis using assms(2) mapped_grown by (intro that [of r s' F']) (auto simp: walk_def split: if_splits)
qed

text \<open>The entries \<^verbatim>\<open>mappages\<close> writes for its first \<open>k\<close> pages.\<close>

definition leaves :: "nat \<Rightarrow> u64 \<Rightarrow> u64 \<Rightarrow> nat \<Rightarrow> (nat \<rightharpoonup> u64)" where
  "leaves v pa perm k = (\<lambda>u. if v \<le> u \<and> u < v + k then Some (PA2PTE (pa + of_nat (4096 * (u - v))) OR perm OR PTE_V) else None)"

lemma leaves_0 [simp]: "leaves v pa perm 0 = Map.empty"
  by (rule ext) (auto simp: leaves_def)

lemma leaves_Suc:
  "[v \<mapsto> PA2PTE pa OR perm OR PTE_V] ++ leaves (Suc v) (pa + PGSIZE) perm k = leaves v pa perm (Suc k)"
proof (rule ext)
  fix u
  have "pa + PGSIZE + of_nat (4096 * (u - Suc v)) = pa + of_nat (4096 * (u - v))" if "Suc v \<le> u"
  proof -
    have "u - v = Suc (u - Suc v)" using that by simp
    then show ?thesis by (simp add: PGSIZE_def)
  qed
  then show "([v \<mapsto> PA2PTE pa OR perm OR PTE_V] ++ leaves (Suc v) (pa + PGSIZE) perm k) u = leaves v pa perm (Suc k) u"
    by (auto simp: leaves_def map_add_def add.assoc simp del: of_nat_mult of_nat_diff split: option.splits)
qed

lemma map_step:
  assumes sp: "space s F 2 pt" and a: "a < MAXVA" and free: "\<not> pte_valid (lookup (k_mem s) 2 pt a)"
  obtains s1 where "mappages_loop pt lst perm a pa s = Done (-1) s1" "mapped s F pt s1 {} Map.empty" "slot (k_mem s1) 2 pt a = None"
  | s2 F2 where "mappages_loop pt lst perm a pa s =
        (if a = lst then Done 0 s2 else mappages_loop pt lst perm (a + PGSIZE) (pa + PGSIZE) s2)"
      "mapped s F pt s2 F2 [vpn a \<mapsto> PA2PTE pa OR perm OR PTE_V]"
proof -
  obtain r s1 F1 where r: "walk pt a True s = Done r s1" "mapped s F pt s1 F1 Map.empty"
      "r = 0 \<Longrightarrow> F1 = {} \<and> slot (k_mem s1) 2 pt a = None" "r \<noteq> 0 \<Longrightarrow> slot (k_mem s1) 2 pt a = Some r"
    using walk_alloc [OF sp a] by blast
  show thesis
  proof (cases "r = 0")
    case True
    then show thesis using r by (intro that(1) [of s1]) (simp_all add: mappages_loop.simps [of pt _ _ a])
  next
    case False
    let ?v = "PA2PTE pa OR perm OR PTE_V"
    let ?s2 = "s1\<lparr>k_mem := st64 (k_mem s1) r ?v\<rparr>"
    have sp1: "space s1 F1 2 pt" using r(2) by (simp add: mapped_def)
    have "ld64 (k_mem s1) r = lookup (k_mem s1) 2 pt a"
      using slot_place [OF r(4) [OF False]] by (auto simp: ent_def)
    also have "\<dots> = lookup (k_mem s) 2 pt a" using r(2) a by (simp add: mapped_def)
    finally have "ld64 (k_mem s1) r AND PTE_V = 0" using free by (simp add: pte_valid_def)
    then have run: "mappages_loop pt lst perm a pa s =
        (if a = lst then Done 0 ?s2 else mappages_loop pt lst perm (a + PGSIZE) (pa + PGSIZE) ?s2)"
      using r(1) False by (simp add: mappages_loop.simps [of pt _ _ a])
    have "mapped s F pt ?s2 F1 (Map.empty ++ [vpn a \<mapsto> ?v])"
      by (rule mapped_trans [OF r(2) store_leaf [OF sp1 r(4) [OF False] a]])
    then show thesis using run by (intro that(2) [of ?s2 F1]) simp_all
  qed
qed

lemma mappages_loop_run:
  assumes "space s F 2 pt" "unat a mod 4096 = 0" "unat a + 4096 * n < 2 ^ 39"
    "\<And>w. w < MAXVA \<Longrightarrow> vpn a \<le> vpn w \<Longrightarrow> vpn w \<le> vpn a + n \<Longrightarrow> \<not> pte_valid (lookup (k_mem s) 2 pt w)"
  shows "\<exists>r s' F' k. mappages_loop pt (a + of_nat (4096 * n)) perm a pa s = Done r s' \<and>
    mapped s F pt s' F' (leaves (vpn a) pa perm k) \<and> (r = 0 \<and> k = Suc n \<or> r = -1 \<and> k \<le> n \<and> F' = {} \<and> slot (k_mem s') 2 pt (a + of_nat (4096 * k)) = None)"
  using assms
proof (induction n arbitrary: a pa s F)
  case 0
  have a: "a < MAXVA" using 0 by (simp add: MAXVA_nat)
  have free: "\<not> pte_valid (lookup (k_mem s) 2 pt a)" using 0(4) [OF a] by simp
  show ?case
  proof (rule map_step [OF 0(1) a free, of a perm pa])
    fix s1 assume "mappages_loop pt a perm a pa s = Done (-1) s1" "mapped s F pt s1 {} Map.empty" "slot (k_mem s1) 2 pt a = None"
    then show ?thesis by (intro exI [of _ "-1"] exI [of _ s1] exI [of _ "{}"] exI [of _ 0]) simp
  next
    fix s2 F2 assume "mappages_loop pt a perm a pa s =
        (if a = a then Done 0 s2 else mappages_loop pt a perm (a + PGSIZE) (pa + PGSIZE) s2)"
      "mapped s F pt s2 F2 [vpn a \<mapsto> PA2PTE pa OR perm OR PTE_V]"
    moreover have "leaves (vpn a) pa perm (Suc 0) = [vpn a \<mapsto> PA2PTE pa OR perm OR PTE_V]"
      by (rule ext) (auto simp: leaves_def)
    ultimately have "mappages_loop pt (a + of_nat (4096 * 0)) perm a pa s = Done 0 s2 \<and> mapped s F pt s2 F2 (leaves (vpn a) pa perm (Suc 0))"
      by (simp only: if_True mult_0_right of_nat_simps(1) add_0_right simp_thms)
    then show ?thesis by blast
  qed
next
  case (Suc n)
  let ?lst = "a + of_nat (4096 * Suc n)"
  have a: "a < MAXVA" using Suc.prems(3) by (simp add: MAXVA_nat)
  have free: "\<not> pte_valid (lookup (k_mem s) 2 pt a)" using Suc.prems(4) [OF a] by simp
  have up: "unat (a + PGSIZE) = unat a + 4096" by (rule page_step) (use Suc.prems(3) in simp)
  then have v: "vpn (a + PGSIZE) = Suc (vpn a)" by simp
  have "unat ?lst = unat a + 4096 * Suc n" by (rule unat_add_no_wrap) (use Suc.prems(3) in simp)
  then have ne: "a \<noteq> ?lst" by (metis add_cancel_left_right mult_eq_0_iff nat.simps(3) zero_neq_numeral)
  have lst: "?lst = (a + PGSIZE) + of_nat (4096 * n)" by (simp add: PGSIZE_def)
  show ?case
  proof (rule map_step [OF Suc.prems(1) a free, of ?lst perm pa])
    fix s1 assume "mappages_loop pt ?lst perm a pa s = Done (-1) s1" "mapped s F pt s1 {} Map.empty" "slot (k_mem s1) 2 pt a = None"
    then show ?thesis by (intro exI [of _ "-1"] exI [of _ s1] exI [of _ "{}"] exI [of _ 0]) simp
  next
    fix s2 F2 assume m: "mappages_loop pt ?lst perm a pa s =
        (if a = ?lst then Done 0 s2 else mappages_loop pt ?lst perm (a + PGSIZE) (pa + PGSIZE) s2)"
      "mapped s F pt s2 F2 [vpn a \<mapsto> PA2PTE pa OR perm OR PTE_V]"
    have run: "mappages_loop pt ?lst perm a pa s = mappages_loop pt ((a + PGSIZE) + of_nat (4096 * n)) perm (a + PGSIZE) (pa + PGSIZE) s2"
      using m(1) ne unfolding lst by (simp only: if_False)
    have sp2: "space s2 F2 2 pt" using m(2) by (simp add: mapped_def)
    have "\<exists>r s' F' k. mappages_loop pt ((a + PGSIZE) + of_nat (4096 * n)) perm (a + PGSIZE) (pa + PGSIZE) s2 = Done r s' \<and>
      mapped s2 F2 pt s' F' (leaves (vpn (a + PGSIZE)) (pa + PGSIZE) perm k) \<and> (r = 0 \<and> k = Suc n \<or> r = -1 \<and> k \<le> n \<and> F' = {} \<and> slot (k_mem s') 2 pt (a + PGSIZE + of_nat (4096 * k)) = None)"
    proof (rule Suc.IH [OF sp2])
      show "unat (a + PGSIZE) mod 4096 = 0" using up Suc.prems(2) by simp
      show "unat (a + PGSIZE) + 4096 * n < 2 ^ 39" using up Suc.prems(3) by simp
      fix w assume w: "w < MAXVA" "vpn (a + PGSIZE) \<le> vpn w" "vpn w \<le> vpn (a + PGSIZE) + n"
      then have "lookup (k_mem s2) 2 pt w = lookup (k_mem s) 2 pt w" using m(2) v unfolding mapped_def by simp
      then show "\<not> pte_valid (lookup (k_mem s2) 2 pt w)" using Suc.prems(4) [OF w(1)] w(2,3) v by simp
    qed
    then obtain r s' F' k where ih: "mappages_loop pt ((a + PGSIZE) + of_nat (4096 * n)) perm (a + PGSIZE) (pa + PGSIZE) s2 = Done r s'"
        "mapped s2 F2 pt s' F' (leaves (Suc (vpn a)) (pa + PGSIZE) perm k)" "r = 0 \<and> k = Suc n \<or> r = -1 \<and> k \<le> n \<and> F' = {} \<and> slot (k_mem s') 2 pt (a + PGSIZE + of_nat (4096 * k)) = None"
      unfolding v by blast
    have "mapped s F pt s' F' (leaves (vpn a) pa perm (Suc k))"
      using mapped_trans [OF m(2) ih(2)] unfolding leaves_Suc .
    moreover have "a + PGSIZE + of_nat (4096 * k) = a + of_nat (4096 * Suc k)" by (simp add: PGSIZE_def)
    ultimately have "r = 0 \<and> Suc k = Suc (Suc n) \<or> r = -1 \<and> Suc k \<le> Suc n \<and> F' = {} \<and> slot (k_mem s') 2 pt (a + of_nat (4096 * Suc k)) = None"
      "mapped s F pt s' F' (leaves (vpn a) pa perm (Suc k))" using ih(3) by (simp_all only: Suc_le_mono simp_thms nat.inject)
    then show ?thesis unfolding run ih(1) by blast
  qed
qed

end
