(* ===== verification/Vm_User.thy ===== *)
theory Vm_User
  imports Vm_Spec
begin

text \<open>
  User memory as the kernel's copy routines see it: \<open>umapped\<close> says that a user address is translated
  by a valid user leaf, \<open>uaddr\<close> is the physical byte it names.
\<close>

section \<open>Translation\<close>

definition umapped :: "mem \<Rightarrow> u64 \<Rightarrow> u64 \<Rightarrow> bool" where
  "umapped m pt va \<longleftrightarrow> va < MAXVA \<and> pte_valid (lookup m 2 pt va) \<and> lookup m 2 pt va AND PTE_U \<noteq> 0 \<and> PTE2PA (lookup m 2 pt va) \<noteq> 0"

definition uaddr :: "mem \<Rightarrow> u64 \<Rightarrow> u64 \<Rightarrow> u64" where
  "uaddr m pt va = PTE2PA (lookup m 2 pt va) + of_nat (unat va mod 4096)"

definition urange :: "mem \<Rightarrow> u64 \<Rightarrow> u64 \<Rightarrow> nat \<Rightarrow> bool" where
  "urange m pt va n \<longleftrightarrow> (\<forall>i<n. unat va + i < 2 ^ 39 \<and> umapped m pt (va + of_nat i))"

lemma slot_none: "slot m l p va = None \<Longrightarrow> lookup m l p va = 0"
  by (induction l arbitrary: p) (auto split: option.splits)

lemma slot_some: "slot m l p va = Some r \<Longrightarrow> ld64 m r = lookup m l p va"
  using slot_place by (force simp: ent_def)

lemma slot_nonzero: "tree (is_page e) m l p \<Longrightarrow> slot m l p va = Some r \<Longrightarrow> r \<noteq> 0"
  using slot_place tree_pages page_slot_nonzero by metis

lemma walkaddr_run:
  assumes "tree (is_page e) (k_mem s) 2 pt"
  shows "walkaddr pt va s = Done (if umapped (k_mem s) pt va then PTE2PA (lookup (k_mem s) 2 pt va) else 0) s"
proof (cases "va < MAXVA")
  case True
  show ?thesis
  proof (cases "slot (k_mem s) 2 pt va")
    case None
    then show ?thesis using True by (auto simp: walkaddr_def walk_look umapped_def slot_none)
  next
    case (Some r)
    then show ?thesis using True slot_some [OF Some] slot_nonzero [OF assms Some]
      by (auto simp: walkaddr_def walk_look umapped_def pte_valid_def)
  qed
qed (auto simp: walkaddr_def umapped_def)

lemma lookup_vpn: "vpn v = vpn w \<Longrightarrow> lookup m l p v = lookup m l p w"
proof -
  assume "vpn v = vpn w"
  then have "px k v = px k w" for k by (simp add: px_def power_add div_mult2_eq)
  then show ?thesis by (induction l arbitrary: p) (auto split: option.split)
qed

lemma vpn_max: "vpn v = vpn w \<Longrightarrow> (v < MAXVA) = (w < MAXVA)"
proof -
  have "x < 2 ^ 39 \<longleftrightarrow> x div 4096 < 2 ^ 27" for x :: nat by (simp add: div_less_iff_less_mult)
  then show "vpn v = vpn w \<Longrightarrow> (v < MAXVA) = (w < MAXVA)" by (simp add: MAXVA_nat)
qed

lemma umapped_vpn: "vpn v = vpn w \<Longrightarrow> umapped m pt v = umapped m pt w"
  using lookup_vpn [of v w m 2 pt] vpn_max [of v w] by (simp add: umapped_def)

lemma in_page:
  assumes "unat va mod 4096 + i < 4096"
  shows "unat (va + of_nat i) = unat va + i" "vpn (va + of_nat i) = vpn va" "unat (va + of_nat i) mod 4096 = unat va mod 4096 + i"
proof -
  have "vpn va * 4096 + unat va mod 4096 = unat va" by simp
  moreover have "vpn va < 4503599627370496" using unat_bound [of va] by (simp add: div_less_iff_less_mult)
  ultimately have "unat va + i < 18446744073709551616" using assms by linarith
  then have "unat va + i < 2 ^ 64" by simp
  then show u: "unat (va + of_nat i) = unat va + i" by (rule unat_add_no_wrap)
  have "unat va + i = vpn va * 4096 + (unat va mod 4096 + i)" by simp
  then show "vpn (va + of_nat i) = vpn va" "unat (va + of_nat i) mod 4096 = unat va mod 4096 + i"
    unfolding u using assms by (metis div_mult_self3 div_less add_0_right zero_neq_numeral, metis mod_mult_self3 mod_less)
qed

lemma in_page_uaddr: "unat va mod 4096 + i < 4096 \<Longrightarrow> uaddr m pt (va + of_nat i) = PTE2PA (lookup m 2 pt va) + (of_nat (unat va mod 4096) + of_nat i)"
  using in_page [of va i] lookup_vpn [of "va + of_nat i" va m 2 pt] by (simp add: uaddr_def)

lemma round_down_diff: "va - PGROUNDDOWN va = of_nat (unat va mod 4096)"
proof -
  have "unat (va - PGROUNDDOWN va) = unat va mod 4096"
    by (simp add: unat_sub word_le_nat_alt round_down_nat minus_div_mult_eq_mod)
  then show ?thesis by (metis of_nat_unat ucast_id)
qed

lemma chunk_nat: "unat (chunk va len) = min (4096 - unat va mod 4096) (unat len)"
proof -
  have "unat (PGSIZE - (va - PGROUNDDOWN va)) = 4096 - unat va mod 4096"
    unfolding round_down_diff by (subst unat_sub) (simp_all add: word_le_nat_alt PGSIZE_def unat_of_nat less_imp_le)
  then show ?thesis by (auto simp: chunk_def Let_def word_less_nat_alt min_def)
qed

lemma next_page:
  assumes "unat va < 2 ^ 39"
  shows "PGROUNDDOWN va + PGSIZE = va + of_nat (4096 - unat va mod 4096)" "unat (PGROUNDDOWN va + PGSIZE) = unat va + (4096 - unat va mod 4096)"
proof -
  have "PGROUNDDOWN va = va - of_nat (unat va mod 4096)" using round_down_diff [of va] by (metis add_diff_cancel_left' diff_add_cancel diff_diff_eq2)
  then show 1: "PGROUNDDOWN va + PGSIZE = va + of_nat (4096 - unat va mod 4096)"
    by (simp add: PGSIZE_def less_imp_le)
  show "unat (PGROUNDDOWN va + PGSIZE) = unat va + (4096 - unat va mod 4096)"
    unfolding 1 by (rule unat_add_no_wrap) (use assms in simp)
qed

lemma round_down_page: "umapped m pt (PGROUNDDOWN va) = umapped m pt va" "lookup m l p (PGROUNDDOWN va) = lookup m l p va"
  by (rule umapped_vpn lookup_vpn; simp add: round_down_nat)+

text \<open>The first page of a range and the rest of it.\<close>

lemma urange_step:
  assumes "0 < unat len" "umapped m pt va"
  defines "n \<equiv> unat (chunk va len)"
  shows "urange m pt va (unat len) \<longleftrightarrow> urange m pt (PGROUNDDOWN va + PGSIZE) (unat len - n)"
    "n < unat len \<Longrightarrow> PGROUNDDOWN va + PGSIZE = va + of_nat n" "n < unat len \<Longrightarrow> unat (PGROUNDDOWN va + PGSIZE) = unat va + n"
    "\<And>i. i < n \<Longrightarrow> unat va mod 4096 + i < 4096" "n \<le> unat len" "unat (len - chunk va len) = unat len - n"
proof -
  have va: "unat va < 2 ^ 39" using assms(2) by (simp add: umapped_def MAXVA_nat)
  have n: "n = min (4096 - unat va mod 4096) (unat len)" unfolding n_def by (rule chunk_nat)
  show lt: "unat va mod 4096 + i < 4096" if "i < n" for i using that n by linarith
  show nl: "n \<le> unat len" using n by simp
  then show "unat (len - chunk va len) = unat len - n" unfolding n_def by (simp add: unat_sub word_le_nat_alt)
  show nx: "PGROUNDDOWN va + PGSIZE = va + of_nat n" "unat (PGROUNDDOWN va + PGSIZE) = unat va + n" if "n < unat len"
  proof -
    have "n = 4096 - unat va mod 4096" using that n by simp
    then show "PGROUNDDOWN va + PGSIZE = va + of_nat n" "unat (PGROUNDDOWN va + PGSIZE) = unat va + n" using next_page [OF va] by simp_all
  qed
  have first: "unat va + i < 2 ^ 39 \<and> umapped m pt (va + of_nat i)" if "i < n" for i
  proof -
    have "umapped m pt (va + of_nat i)" using umapped_vpn [OF in_page(2) [OF lt [OF that]]] assms(2) by simp
    then show ?thesis using in_page(1) [OF lt [OF that]] by (simp add: umapped_def MAXVA_nat)
  qed
  show "urange m pt va (unat len) \<longleftrightarrow> urange m pt (PGROUNDDOWN va + PGSIZE) (unat len - n)"
  proof (cases "n < unat len")
    case True
    have "urange m pt va (unat len) \<longleftrightarrow> (\<forall>i<unat len - n. unat va + (n + i) < 2 ^ 39 \<and> umapped m pt (va + of_nat (n + i)))"
      unfolding urange_def
    proof (intro iffI allI impI)
      fix i assume a: "\<forall>i<unat len - n. unat va + (n + i) < 2 ^ 39 \<and> umapped m pt (va + of_nat (n + i))" "i < unat len"
      show "unat va + i < 2 ^ 39 \<and> umapped m pt (va + of_nat i)"
      proof (cases "i < n")
        case False
        then show ?thesis using a(1) [rule_format, of "i - n"] a(2) by simp
      qed (rule first)
    next
      fix i assume a: "\<forall>i<unat len. unat va + i < 2 ^ 39 \<and> umapped m pt (va + of_nat i)" "i < unat len - n"
      have "n + i < unat len" using a(2) by linarith
      then show "unat va + (n + i) < 2 ^ 39 \<and> umapped m pt (va + of_nat (n + i))" using a(1) by blast
    qed
    then show ?thesis unfolding urange_def nx(2) [OF True] unfolding nx(1) [OF True] by (simp add: add.assoc)
  next
    case False
    then have "n = unat len" using nl by simp
    then show ?thesis using first by (simp add: urange_def)
  qed
qed

section \<open>Reading\<close>

lemma copyin_run:
  assumes t: "tree (is_page e) (k_mem s) 2 pt"
  shows "\<exists>bs. copyin pt va len s = Done (if urange (k_mem s) pt va (unat len) then 0 else -1, bs) s \<and>
    (urange (k_mem s) pt va (unat len) \<longrightarrow> bs = map (\<lambda>i. k_mem s (uaddr (k_mem s) pt (va + of_nat i))) [0..<unat len])"
proof (induction "unat len" arbitrary: va len rule: less_induct)
  case less
  let ?m = "k_mem s" and ?va0 = "PGROUNDDOWN va" and ?n = "unat (chunk va len)"
  show ?case
  proof (cases "len = 0")
    case True
    then show ?thesis by (simp add: copyin.simps [of pt va] urange_def)
  next
    case False
    then have pos: "0 < unat len" "0 < len" by (simp_all add: unat_gt_0 word_neq_0_conv)
    show ?thesis
    proof (cases "umapped ?m pt va")
      case no: False
      then have "\<not> urange ?m pt va (unat len)" using pos(1) unfolding urange_def by (metis add.right_neutral of_nat_simps(1))
      moreover have "copyin pt va len s = Done (-1, []) s"
        using pos(2) no walkaddr_run [OF t, of ?va0] by (simp add: copyin.simps [of pt va] round_down_page)
      ultimately show ?thesis by auto
    next
      case True
      note st = urange_step [OF pos(1) True]
      have "PTE2PA (lookup ?m 2 pt va) \<noteq> 0" using True by (simp add: umapped_def)
      moreover obtain bs where bs: "copyin pt (?va0 + PGSIZE) (len - chunk va len) s =
            Done (if urange ?m pt (?va0 + PGSIZE) (unat len - ?n) then 0 else -1, bs) s"
          "urange ?m pt (?va0 + PGSIZE) (unat len - ?n) \<Longrightarrow>
            bs = map (\<lambda>i. ?m (uaddr ?m pt (?va0 + PGSIZE + of_nat i))) [0..<unat len - ?n]"
        using less [OF chunk_less [OF pos(2)], of "?va0 + PGSIZE" va] unfolding st(6) by blast
      ultimately have run: "copyin pt va len s =
          Done (if urange ?m pt va (unat len) then 0 else -1, rd_bytes ?m (PTE2PA (lookup ?m 2 pt va) + (va - ?va0)) ?n @ bs) s"
        using pos(2) True walkaddr_run [OF t, of ?va0] st(1) by (simp add: copyin.simps [of pt va] round_down_page Let_def)
      have first: "rd_bytes ?m (PTE2PA (lookup ?m 2 pt va) + (va - ?va0)) ?n = map (\<lambda>i. ?m (uaddr ?m pt (va + of_nat i))) [0..<?n]"
        using in_page_uaddr st(4) by (auto simp: rd_bytes_def round_down_diff add.assoc)
      have "rd_bytes ?m (PTE2PA (lookup ?m 2 pt va) + (va - ?va0)) ?n @ bs = map (\<lambda>i. ?m (uaddr ?m pt (va + of_nat i))) [0..<unat len]"
        if r: "urange ?m pt va (unat len)"
      proof (cases "?n < unat len")
        case lt: True
        have "bs = map (\<lambda>i. ?m (uaddr ?m pt (va + of_nat (?n + i)))) [0..<unat len - ?n]"
          using bs(2) st(1) r st(2) [OF lt] by (simp add: add.assoc)
        also have "\<dots> = map (\<lambda>i. ?m (uaddr ?m pt (va + of_nat i))) [?n..<unat len]"
          using lt by (intro nth_equalityI) auto
        finally show ?thesis unfolding first using lt upt_add_eq_append [of 0 ?n "unat len - ?n"] by simp
      next
        case False
        then have "?n = unat len" using st(5) by simp
        moreover have "bs = []" using bs(2) st(1) r calculation by simp
        ultimately show ?thesis unfolding first by simp
      qed
      with run show ?thesis by blast
    qed
  qed
qed

section \<open>Writing\<close>

text \<open>
  User frames are pages of their own: valid, no table pages, and one per page number.
\<close>

definition user_ok :: "u64 \<Rightarrow> mem \<Rightarrow> u64 \<Rightarrow> bool" where
  "user_ok e m pt \<longleftrightarrow> tree (is_page e) m 2 pt \<and>
     (\<forall>w. umapped m pt w \<longrightarrow> is_page e (PTE2PA (lookup m 2 pt w)) \<and> PTE2PA (lookup m 2 pt w) \<notin> pages m 2 pt) \<and>
     (\<forall>v w. umapped m pt v \<longrightarrow> umapped m pt w \<longrightarrow> PTE2PA (lookup m 2 pt v) = PTE2PA (lookup m 2 pt w) \<longrightarrow> vpn v = vpn w)"

text \<open>Storing a byte string at a user address changes exactly the bytes it names.\<close>

definition ustored :: "mem \<Rightarrow> u64 \<Rightarrow> u64 \<Rightarrow> u8 list \<Rightarrow> mem \<Rightarrow> bool" where
  "ustored m pt va xs m' \<longleftrightarrow> (\<forall>i<length xs. m' (uaddr m pt (va + of_nat i)) = xs ! i) \<and>
     (\<forall>a. (\<forall>i<length xs. a \<noteq> uaddr m pt (va + of_nat i)) \<longrightarrow> m' a = m a)"

lemma uaddr_page: "uaddr m pt w \<in> page (PTE2PA (lookup m 2 pt w))"
  by (simp add: uaddr_def page_def unat_of_nat)

lemma uaddr_inj:
  assumes "user_ok e m pt" "umapped m pt v" "umapped m pt w" "uaddr m pt v = uaddr m pt w"
  shows "v = w"
proof -
  let ?f = "\<lambda>v. PTE2PA (lookup m 2 pt v)"
  have "is_page e (?f v)" "is_page e (?f w)" using assms(1-3) by (auto simp: user_ok_def)
  then have "?f v = ?f w" using pages_disjoint [of e "?f v" "?f w"] uaddr_page [of m pt v] uaddr_page [of m pt w] assms(4) by auto
  then have "vpn v = vpn w" using assms(1-3) unfolding user_ok_def by blast
  moreover have "unat v mod 4096 = unat w mod 4096"
  proof -
    have "(of_nat (unat v mod 4096) :: u64) = of_nat (unat w mod 4096)" using assms(4) \<open>?f v = ?f w\<close> by (simp add: uaddr_def)
    then have "unat (of_nat (unat v mod 4096) :: u64) = unat (of_nat (unat w mod 4096) :: u64)" by simp
    then show ?thesis by (simp add: unat_of_nat)
  qed
  ultimately show ?thesis by (metis div_mult_mod_eq word_unat_eq_iff)
qed

lemma ustored_tables:
  assumes "user_ok e m pt" "urange m pt va (length xs)" "ustored m pt va xs m'"
  shows "same_on (pages m 2 pt) m m'"
  unfolding same_on_def
proof (intro ballI)
  fix q a assume q: "q \<in> pages m 2 pt" "a \<in> page q"
  have "a \<noteq> uaddr m pt (va + of_nat i)" if "i < length xs" for i
  proof
    let ?w = "va + of_nat i"
    assume a: "a = uaddr m pt ?w"
    have u: "umapped m pt ?w" using assms(2) that by (simp add: urange_def)
    have "page (PTE2PA (lookup m 2 pt ?w)) \<inter> page q = {}"
      using assms(1) u q(1) tree_pages [of "is_page e" m 2 pt q] by (intro pages_disjoint [of e]) (auto simp: user_ok_def)
    then show False using a q(2) uaddr_page by blast
  qed
  then show "m' a = m a" using assms(3) by (auto simp: ustored_def)
qed

lemma same_on_user:
  assumes "same_on (pages m 2 pt) m m'"
  shows "umapped m' pt = umapped m pt" "uaddr m' pt = uaddr m pt" "user_ok e m pt \<Longrightarrow> user_ok e m' pt" "urange m' pt = urange m pt"
proof -
  have l: "lookup m' 2 pt w = lookup m 2 pt w" for w by (rule lookup_same [OF assms])
  show u: "umapped m' pt = umapped m pt" by (rule ext) (simp add: umapped_def l)
  show "uaddr m' pt = uaddr m pt" by (rule ext) (simp add: uaddr_def l)
  show "user_ok e m' pt" if "user_ok e m pt"
    using that tree_same [OF assms] unfolding user_ok_def l u pages_same [OF assms] by blast
  show "urange m' pt = urange m pt" by (intro ext) (simp add: urange_def u)
qed

lemma ustored_append:
  assumes ok: "user_ok e m pt" and r: "urange m pt va (length (xs @ ys))"
    and 1: "ustored m pt va xs m1" and 2: "ustored m1 pt (va + of_nat (length xs)) ys m2"
  shows "ustored m pt va (xs @ ys) m2"
proof -
  let ?u = "\<lambda>i. uaddr m pt (va + of_nat i)"
  have "urange m pt va (length xs)" using r by (auto simp: urange_def)
  then have "uaddr m1 pt = uaddr m pt" by (intro same_on_user(2) ustored_tables [OF ok _ 1])
  then have 2: "\<And>i. i < length ys \<Longrightarrow> m2 (?u (length xs + i)) = ys ! i"
      "\<And>a. (\<And>i. i < length ys \<Longrightarrow> a \<noteq> ?u (length xs + i)) \<Longrightarrow> m2 a = m1 a"
    using 2 by (auto simp: ustored_def add.assoc)
  have inj: "?u i = ?u j \<Longrightarrow> i = j" if "i < length (xs @ ys)" "j < length (xs @ ys)" for i j
  proof -
    assume "?u i = ?u j"
    moreover have "umapped m pt (va + of_nat i)" "umapped m pt (va + of_nat j)" "unat va + i < 2 ^ 39" "unat va + j < 2 ^ 39"
      using r that unfolding urange_def by blast+
    ultimately have "va + of_nat i = va + of_nat j" "i < 2 ^ 64" "j < 2 ^ 64" using uaddr_inj [OF ok] by (blast, simp_all)
    then show "i = j" by (metis add_left_cancel unat_of_nat_64)
  qed
  have "m2 (?u i) = (xs @ ys) ! i" if i: "i < length (xs @ ys)" for i
  proof (cases "i < length xs")
    case True
    have "?u i \<noteq> ?u (length xs + j)" if "j < length ys" for j using inj [of i "length xs + j"] True that by auto
    then have "m2 (?u i) = m1 (?u i)" by (rule 2(2))
    then show ?thesis using 1 True by (simp add: ustored_def nth_append)
  next
    case False
    then show ?thesis using 2(1) [of "i - length xs"] i by (simp add: nth_append)
  qed
  moreover have "m2 a = m a" if a: "\<forall>i<length (xs @ ys). a \<noteq> ?u i" for a
  proof -
    have "a \<noteq> ?u (length xs + i)" if "i < length ys" for i using a that by (simp del: of_nat_add)
    then have "m2 a = m1 a" by (rule 2(2))
    also have "\<dots> = m a" using 1 a by (simp add: ustored_def)
    finally show ?thesis .
  qed
  ultimately show ?thesis by (simp add: ustored_def)
qed

lemma wr_bytes_ustored:
  assumes "\<And>i. i < length xs \<Longrightarrow> unat va mod 4096 + i < 4096" "length xs \<le> 4096"
  shows "ustored m pt va xs (wr_bytes m (PTE2PA (lookup m 2 pt va) + (va - PGROUNDDOWN va)) xs)"
proof -
  let ?b = "PTE2PA (lookup m 2 pt va) + (va - PGROUNDDOWN va)"
  have u: "uaddr m pt (va + of_nat i) = ?b + of_nat i" if "i < length xs" for i
    using in_page_uaddr [OF assms(1) [OF that], of m pt] by (simp add: round_down_diff add.assoc)
  have "wr_bytes m ?b xs a = m a" if a: "\<forall>i<length xs. a \<noteq> uaddr m pt (va + of_nat i)" for a
  proof -
    have "\<not> unat (a - ?b) < length xs"
    proof
      assume l: "unat (a - ?b) < length xs"
      have "a = ?b + of_nat (unat (a - ?b))" by simp
      then show False using a u [OF l] l by metis
    qed
    then show ?thesis by (simp add: wr_bytes_def)
  qed
  moreover have "wr_bytes m ?b xs (uaddr m pt (va + of_nat i)) = xs ! i" if "i < length xs" for i
    unfolding u [OF that] using wr_at [of xs i m ?b] that assms(2) by simp
  ultimately show ?thesis by (simp add: ustored_def)
qed

lemma copyout_run:
  assumes "user_ok e (k_mem s) pt" "length src = unat len" "urange (k_mem s) pt va (unat len)"
  shows "\<exists>m'. copyout pt va src len s = Done 0 (s\<lparr>k_mem := m'\<rparr>) \<and> ustored (k_mem s) pt va src m'"
  using assms
proof (induction "unat len" arbitrary: va len src s rule: less_induct)
  case less
  let ?m = "k_mem s" and ?va0 = "PGROUNDDOWN va" and ?n = "unat (chunk va len)"
  show ?case
  proof (cases "len = 0")
    case True
    then show ?thesis using less.prems(2) by (auto simp: copyout.simps [of pt va] ustored_def intro!: exI [of _ ?m])
  next
    case False
    then have pos: "0 < unat len" "0 < len" by (simp_all add: unat_gt_0 word_neq_0_conv)
    have um: "umapped ?m pt va" using less.prems(3) pos(1) unfolding urange_def by (metis add.right_neutral of_nat_simps(1))
    note st = urange_step [OF pos(1) um]
    let ?m1 = "wr_bytes ?m (PTE2PA (lookup ?m 2 pt va) + (va - ?va0)) (take ?n src)"
    let ?s1 = "s\<lparr>k_mem := ?m1\<rparr>"
    have len: "length (take ?n src) = ?n" "length (drop ?n src) = unat (len - chunk va len)" using less.prems(2) st(5,6) by simp_all
    have s1: "ustored ?m pt va (take ?n src) ?m1"
      by (rule wr_bytes_ustored) (use len st(4) chunk_step(3) [OF pos(2), of va] in auto)
    have tab: "same_on (pages ?m 2 pt) ?m ?m1"
      by (rule ustored_tables [OF less.prems(1) _ s1]) (use less.prems(3) len st(5) in \<open>auto simp: urange_def\<close>)
    note su = same_on_user [OF tab]
    have r1: "urange ?m1 pt (?va0 + PGSIZE) (unat (len - chunk va len))" using less.prems(3) st(1,6) su(4) by simp
    have "\<exists>m'. copyout pt (?va0 + PGSIZE) (drop ?n src) (len - chunk va len) ?s1 = Done 0 (?s1\<lparr>k_mem := m'\<rparr>) \<and>
      ustored (k_mem ?s1) pt (?va0 + PGSIZE) (drop ?n src) m'"
      by (rule less.hyps) (use chunk_less [OF pos(2)] su(3) [OF less.prems(1)] len(2) r1 in simp_all)
    then obtain m' where m': "copyout pt (?va0 + PGSIZE) (drop ?n src) (len - chunk va len) ?s1 = Done 0 (s\<lparr>k_mem := m'\<rparr>)"
      "ustored ?m1 pt (?va0 + PGSIZE) (drop ?n src) m'" by auto
    have t: "tree (is_page e) ?m 2 pt" using less.prems(1) by (simp add: user_ok_def)
    have "PTE2PA (lookup ?m 2 pt va) \<noteq> 0" using um by (simp add: umapped_def)
    then have run: "copyout pt va src len s = Done 0 (s\<lparr>k_mem := m'\<rparr>)"
      using pos(2) um walkaddr_run [OF t, of ?va0] m'(1) by (simp add: copyout.simps [of pt va] round_down_page Let_def)
    have "ustored ?m pt va (take ?n src @ drop ?n src) m'"
    proof (cases "?n < unat len")
      case True
      have "ustored ?m1 pt (va + of_nat (length (take ?n src))) (drop ?n src) m'" using m'(2) st(2) [OF True] len(1) by simp
      then show ?thesis using less.prems by (intro ustored_append [OF less.prems(1) _ s1]) simp_all
    next
      case False
      then have "drop ?n src = []" using less.prems(2) by simp
      moreover have "m' = ?m1" using m'(2) calculation by (auto simp: ustored_def)
      ultimately show ?thesis using s1 by simp
    qed
    with run show ?thesis by auto
  qed
qed

end
