(* ===== verification/Pipe.thy ===== *)
theory Pipe
  imports Vm_User Proc_State
begin

text \<open>
  Anonymous pipes, \<^verbatim>\<open>kernel/pipe.c\<close>. A pipe lives in a page of its own; the model keeps its
  fields in a table indexed by the address of that page, with no entry once the page is freed, so
  that a use after the free is undefined behaviour. The pipe lock makes the stretch between two
  sleeps one atomic step: an activation of \<^verbatim>\<open>pipewrite\<close> or \<^verbatim>\<open>piperead\<close> runs until it returns or
  sleeps, and a writer that slept is resumed with the count of bytes it had accepted.
\<close>

section \<open>Definitions\<close>

abbreviation PIPESIZE :: nat where "PIPESIZE \<equiv> 512"

record pipe =
  pi_data :: "nat \<Rightarrow> u8"
  nread :: u32
  nwrite :: u32
  readopen :: bool
  writeopen :: bool

record pipest =
  pp_pt :: ptable
  pp_km :: kmem
  pp_pipes :: "u64 \<Rightarrow> pipe option"

text \<open>How an activation ends: it returns, or it sleeps with that many bytes accepted.\<close>

datatype pipe_out = Ret int | Sleep_at nat

abbreviation ppt :: "(ptable, 'a) kmonad \<Rightarrow> (pipest, 'a) kmonad" where
  "ppt \<equiv> klift pp_pt (\<lambda>t s. s\<lparr>pp_pt := t\<rparr>)"

abbreviation pkm :: "(kmem, 'a) kmonad \<Rightarrow> (pipest, 'a) kmonad" where
  "pkm \<equiv> klift pp_km (\<lambda>t s. s\<lparr>pp_km := t\<rparr>)"

definition pwake :: "chan \<Rightarrow> (pipest, unit) kmonad" where
  "pwake ch = kmodify (\<lambda>s. s\<lparr>pp_pt := wakeup ch (pp_pt s)\<rparr>)"

definition psleep :: "chan \<Rightarrow> nat \<Rightarrow> (pipest, pipe_out) kmonad" where
  "psleep ch i = (\<lambda>s. case sleep ch (pp_pt s) of Block t \<Rightarrow> Done (Sleep_at i) (s\<lparr>pp_pt := t\<rparr>)
     | Done x t \<Rightarrow> Done x (s\<lparr>pp_pt := t\<rparr>) | Panic e \<Rightarrow> Panic e | Fault e \<Rightarrow> Fault e)"

definition pget :: "u64 \<Rightarrow> (pipest, pipe) kmonad" where
  "pget pi = (\<lambda>s. case pp_pipes s pi of None \<Rightarrow> Fault ''pipe freed'' | Some p \<Rightarrow> Done p s)"

definition pupd :: "u64 \<Rightarrow> (pipe \<Rightarrow> pipe) \<Rightarrow> (pipest, unit) kmonad" where
  "pupd pi f = kbind (pget pi) (\<lambda>p. kmodify (\<lambda>s. s\<lparr>pp_pipes := (pp_pipes s)(pi := Some (f p))\<rparr>))"

definition new_pipe :: pipe where
  "new_pipe = \<lparr>pi_data = (\<lambda>_. 0), nread = 0, nwrite = 0, readopen = True, writeopen = True\<rparr>"

definition pipeclose :: "u64 \<Rightarrow> bool \<Rightarrow> (pipest, unit) kmonad" where
  "pipeclose pi writable =
     kseq (if writable
           then kseq (pupd pi (\<lambda>p. p\<lparr>writeopen := False\<rparr>)) (kseq (pwake (ChanPipeRead pi)) (pwake (ChanPipeWrite pi)))
           else kseq (pupd pi (\<lambda>p. p\<lparr>readopen := False\<rparr>)) (kseq (pwake (ChanPipeRead pi)) (pwake (ChanPipeWrite pi))))
     (kbind (pget pi) (\<lambda>p.
        if \<not> readopen p \<and> \<not> writeopen p
        then kseq (pkm (kfree pi)) (kmodify (\<lambda>s. s\<lparr>pp_pipes := (pp_pipes s)(pi := None)\<rparr>))
        else kreturn ()))"

definition put_byte :: "u8 \<Rightarrow> pipe \<Rightarrow> pipe" where
  "put_byte ch p = p\<lparr>pi_data := (pi_data p)(unat (nwrite p) mod PIPESIZE := ch), nwrite := nwrite p + 1\<rparr>"

definition pagetable_of :: "(pipest, u64) kmonad" where
  "pagetable_of = kbind (ppt myproc) (\<lambda>i. kget (\<lambda>s. p_pagetable (procs (pp_pt s) i)))"

definition pipewrite_end :: "u64 \<Rightarrow> nat \<Rightarrow> (pipest, pipe_out) kmonad" where
  "pipewrite_end pi i = kseq (pwake (ChanPipeRead pi)) (kreturn (Ret (int i)))"

function pipewrite_from :: "u64 \<Rightarrow> u64 \<Rightarrow> int \<Rightarrow> nat \<Rightarrow> (pipest, pipe_out) kmonad" where
  "pipewrite_from pi addr n i s =
     (if int i < n
      then kbind (pget pi) (\<lambda>p s.
        if \<not> readopen p then kreturn (Ret (-1)) s
        else if nwrite p = nread p + of_nat PIPESIZE
        then kseq (pwake (ChanPipeRead pi)) (psleep (ChanPipeWrite pi) i) s
        else kbind pagetable_of (\<lambda>pgt. kbind (pkm (copyin pgt (addr + of_nat i) 1)) (\<lambda>c s.
          if fst c = -1 then (if i = 0 then kreturn (Ret (-1)) s else pipewrite_end pi i s)
          else kseq (pupd pi (put_byte (hd (snd c)))) (pipewrite_from pi addr n (Suc i)) s)) s) s
      else pipewrite_end pi i s)"
  by pat_completeness auto

termination
  by (relation "measure (\<lambda>(_, _, n, i, _). nat (n - int i))") auto

declare pipewrite_from.simps [simp del]

definition pipewrite :: "u64 \<Rightarrow> u64 \<Rightarrow> int \<Rightarrow> (pipest, pipe_out) kmonad" where
  "pipewrite pi addr n = kseq (pget pi) (pipewrite_from pi addr n 0)"

definition piperead_end :: "u64 \<Rightarrow> nat \<Rightarrow> (pipest, pipe_out) kmonad" where
  "piperead_end pi i = kseq (pwake (ChanPipeWrite pi)) (kreturn (Ret (int i)))"

function piperead_loop :: "u64 \<Rightarrow> u64 \<Rightarrow> int \<Rightarrow> nat \<Rightarrow> (pipest, pipe_out) kmonad" where
  "piperead_loop pi addr n i s =
     (if int i < n
      then kbind (pget pi) (\<lambda>p s.
        if nread p = nwrite p then piperead_end pi i s
        else kbind pagetable_of (\<lambda>pgt.
          kbind (pkm (copyout pgt (addr + of_nat i) [pi_data p (unat (nread p) mod PIPESIZE)] 1)) (\<lambda>r s.
            if r = -1 then (if i = 0 then kreturn (Ret (-1)) s else piperead_end pi i s)
            else kseq (pupd pi (\<lambda>p. p\<lparr>nread := nread p + 1\<rparr>)) (piperead_loop pi addr n (Suc i)) s)) s) s
      else piperead_end pi i s)"
  by pat_completeness auto

termination
  by (relation "measure (\<lambda>(_, _, n, i, _). nat (n - int i))") auto

declare piperead_loop.simps [simp del]

definition piperead :: "u64 \<Rightarrow> u64 \<Rightarrow> int \<Rightarrow> (pipest, pipe_out) kmonad" where
  "piperead pi addr n = kbind (pget pi) (\<lambda>p.
     if nread p = nwrite p \<and> writeopen p then psleep (ChanPipeRead pi) 0 else piperead_loop pi addr n 0)"

end
