(* ===== verification/Vm_Props.thy ===== *)
theory Vm_Props
  imports Vm_User
begin

text \<open>Properties of the page-table code, and a small concrete page table on which they apply.\<close>

section \<open>A page table with one user page\<close>

lemma ent_st:
  assumes "is_page e p" "is_page e q" "i < 512" "j < 512"
  shows "ent (st64 m (p + 8 * of_nat i) v) q j = (if p = q \<and> i = j then v else ent m q j)"
proof (cases "p = q")
  case True
  then show ?thesis using assms ent_st_other [of i j m q v] by auto
next
  case False
  have "same_on {q} m (st64 m (p + 8 * of_nat i) v)"
    by (rule only_same [of "{p}" _ _ _ e]) (use assms False in \<open>auto intro: only_on_st\<close>)
  then show ?thesis using same_on_ent assms(4) False by auto
qed

definition demo_mem :: mem where
  "demo_mem = st64 (st64 (st64 (\<lambda>_. 0) (0x80001000 + 8 * of_nat 0) (PA2PTE 0x80002000 OR PTE_V)) (0x80002000 + 8 * of_nat 0) (PA2PTE 0x80003000 OR PTE_V))
     (0x80003000 + 8 * of_nat 0) (PA2PTE 0x80004000 OR (PTE_R OR PTE_W OR PTE_U) OR PTE_V)"

definition demo_vm :: kmem where
  "demo_vm = \<lparr>k_mem = demo_mem, k_end = 0x80001000, freelist = 0\<rparr>"

lemma demo_mem_of: "k_mem demo_vm = demo_mem"
  by (simp add: demo_vm_def)

lemma demo_pages:
  "is_page 0x80001000 0x80001000" "is_page 0x80001000 0x80002000" "is_page 0x80001000 0x80003000" "is_page 0x80001000 0x80004000"
  by (simp_all add: is_page_def PGSIZE_def PHYSTOP_def)

lemma demo_ent:
  assumes "i < 512"
  shows "ent demo_mem 0x80001000 i = (if i = 0 then PA2PTE 0x80002000 OR PTE_V else 0)"
    "ent demo_mem 0x80002000 i = (if i = 0 then PA2PTE 0x80003000 OR PTE_V else 0)"
    "ent demo_mem 0x80003000 i = (if i = 0 then PA2PTE 0x80004000 OR (PTE_R OR PTE_W OR PTE_U) OR PTE_V else 0)"
proof -
  have z: "ent (\<lambda>_. 0) q j = 0" for q j by (simp add: ent_def ld64_def rd_bytes_def map_replicate_const)
  note st = ent_st [where e = "0x80001000" and i = 0, OF demo_pages(1)] ent_st [where e = "0x80001000" and i = 0, OF demo_pages(2)]
    ent_st [where e = "0x80001000" and i = 0, OF demo_pages(3)]
  show "ent demo_mem 0x80001000 i = (if i = 0 then PA2PTE 0x80002000 OR PTE_V else 0)"
    unfolding demo_mem_def using assms by (simp only: st demo_pages z) simp
  show "ent demo_mem 0x80002000 i = (if i = 0 then PA2PTE 0x80003000 OR PTE_V else 0)"
    unfolding demo_mem_def using assms by (simp only: st demo_pages z) simp
  show "ent demo_mem 0x80003000 i = (if i = 0 then PA2PTE 0x80004000 OR (PTE_R OR PTE_W OR PTE_U) OR PTE_V else 0)"
    unfolding demo_mem_def using assms by (simp only: st demo_pages z) simp
qed

lemma demo_child:
  assumes "i < 512"
  shows "child demo_mem 0x80001000 i = (if i = 0 then Some 0x80002000 else None)"
    "child demo_mem 0x80002000 i = (if i = 0 then Some 0x80003000 else None)"
proof -
  have "PTE_V < 1024" by (simp add: PTE_V_def)
  then show "child demo_mem 0x80001000 i = (if i = 0 then Some 0x80002000 else None)"
    "child demo_mem 0x80002000 i = (if i = 0 then Some 0x80003000 else None)"
    using assms PTE2PA_PA2PTE [of "0x80002000" PTE_V] PTE2PA_PA2PTE [of "0x80003000" PTE_V]
    by (simp_all add: child_def demo_ent)
qed

lemma one_child:
  assumes "\<And>i. i < 512 \<Longrightarrow> child m p i = (if i = 0 then Some q else None)"
  shows "pages m (Suc l) p = insert p (pages m l q)" "tree V m (Suc l) p \<longleftrightarrow> V p \<and> tree V m l q \<and> p \<notin> pages m l q"
proof -
  show "pages m (Suc l) p = insert p (pages m l q)"
  proof (rule set_eqI)
    fix x
    have "(\<exists>i<512. \<exists>c. child m p i = Some c \<and> x \<in> pages m l c) \<longleftrightarrow> x \<in> pages m l q"
    proof
      assume "x \<in> pages m l q"
      then show "\<exists>i<512. \<exists>c. child m p i = Some c \<and> x \<in> pages m l c" using assms [of 0] by (intro exI [of _ 0]) simp
    qed (use assms in \<open>auto split: if_splits\<close>)
    then show "x \<in> pages m (Suc l) p \<longleftrightarrow> x \<in> insert p (pages m l q)" by (simp add: pages_Suc)
  qed
  show "tree V m (Suc l) p \<longleftrightarrow> V p \<and> tree V m l q \<and> p \<notin> pages m l q"
    unfolding tree.simps using assms [of 0] by (auto simp: assms split: if_splits)
qed

lemma demo_tree: "tree (is_page 0x80001000) demo_mem 2 0x80001000" "pages demo_mem 2 0x80001000 = {0x80001000, 0x80002000, 0x80003000}"
  using one_child [of demo_mem "0x80001000" "0x80002000", OF demo_child(1)] one_child [of demo_mem "0x80002000" "0x80003000", OF demo_child(2)] demo_pages
  unfolding numeral_2_eq_2 by simp_all

lemma same_slot_two: "same_slot 2 v w \<longleftrightarrow> px 0 v = px 0 w \<and> px 1 v = px 1 w \<and> px 2 v = px 2 w"
  by (auto simp: same_slot_def numeral_2_eq_2 le_Suc_eq)

lemma px_zero [simp]: "px l 0 = 0"
  by (simp add: px_def)

lemma lookup_two: "lookup m 2 p va = (case child m p (px 2 va) of None \<Rightarrow> 0 | Some q \<Rightarrow>
     (case child m q (px 1 va) of None \<Rightarrow> 0 | Some r \<Rightarrow> ent m r (px 0 va)))"
  by (simp add: numeral_2_eq_2 split: option.split)

lemma slot_two: "slot m 2 p va = (case child m p (px 2 va) of None \<Rightarrow> None | Some q \<Rightarrow>
     (case child m q (px 1 va) of None \<Rightarrow> None | Some r \<Rightarrow> Some (r + 8 * PX 0 va)))"
  by (simp add: numeral_2_eq_2 split: option.split)

lemma demo_lookup:
  assumes "va < MAXVA"
  shows "lookup demo_mem 2 0x80001000 va = (if vpn va = 0 then PA2PTE 0x80004000 OR (PTE_R OR PTE_W OR PTE_U) OR PTE_V else 0)"
proof -
  have "px 0 va = 0 \<and> px 1 va = 0 \<and> px 2 va = 0 \<longleftrightarrow> vpn va = 0"
    using same_slot_vpn [of va 0] assms by (simp add: same_slot_two MAXVA_nat px_zero)
  then show ?thesis by (auto simp: lookup_two demo_child demo_ent)
qed

lemma demo_space: "space demo_vm {} 2 0x80001000"
  using demo_tree by (simp add: space_def demo_vm_def pool_def free_list_def)

lemma demo_umapped: "umapped demo_mem 0x80001000 va \<longleftrightarrow> vpn va = 0"
  and demo_frame: "vpn va = 0 \<Longrightarrow> PTE2PA (lookup demo_mem 2 0x80001000 va) = 0x80004000"
proof -
  have f: "PTE_R OR PTE_W OR PTE_U OR PTE_V < 1024" by (simp add: PTE_R_def PTE_W_def PTE_U_def PTE_V_def)
  have m: "va < MAXVA" if "vpn va = 0" using vpn_max [of va 0] that by (simp add: MAXVA_def)
  have g: "PTE2PA (lookup demo_mem 2 0x80001000 va) = 0x80004000" if "vpn va = 0"
    using PTE2PA_PA2PTE [OF _ f, of "0x80004000"] that demo_lookup [OF m [OF that]] by (simp add: or.assoc)
  then show "vpn va = 0 \<Longrightarrow> PTE2PA (lookup demo_mem 2 0x80001000 va) = 0x80004000" .
  have u: "(PA2PTE 0x80004000 OR (PTE_R OR PTE_W OR PTE_U) OR PTE_V) AND PTE_U \<noteq> 0"
    by (simp add: PA2PTE_def PTE_R_def PTE_W_def PTE_U_def PTE_V_def)
  show "umapped demo_mem 0x80001000 va \<longleftrightarrow> vpn va = 0"
    using g m u demo_lookup [of va] by (cases "vpn va = 0") (auto simp: umapped_def)
qed

lemma demo_user: "user_ok 0x80001000 demo_mem 0x80001000"
  using demo_tree demo_pages by (auto simp: user_ok_def demo_umapped demo_frame)

section \<open>Properties\<close>

text \<open>
  C13. \<^verbatim>\<open>mappages\<close> implements a map update. On an unmapped range below \<^verbatim>\<open>MAXVA\<close> it either returns 0
  with exactly the pages of the range mapped to consecutive frames with the requested permissions,
  or runs out of memory and returns -1 with a prefix of them mapped; every other translation, all
  memory outside the table pages and the disjointness of tables and free pages are kept.
\<close>

theorem mappages_correct:
  assumes "space s F 2 pt" and "0 < unat sz" and "unat va + unat sz \<le> 2 ^ 39"
    and "\<And>w. w < MAXVA \<Longrightarrow> vpn va \<le> vpn w \<Longrightarrow> vpn w \<le> (unat va + unat sz - 1) div 4096 \<Longrightarrow> \<not> pte_valid (lookup (k_mem s) 2 pt w)"
  shows "\<exists>r s' F' k. mappages pt va sz pa perm s = Done r s' \<and> mapped s F pt s' F' (leaves (vpn va) pa perm k) \<and>
    (r = 0 \<and> k = (unat va + unat sz - 1) div 4096 - vpn va + 1 \<or>
     r = -1 \<and> k \<le> (unat va + unat sz - 1) div 4096 - vpn va \<and> F' = {} \<and> slot (k_mem s') 2 pt (PGROUNDDOWN va + of_nat (4096 * k)) = None)"
proof -
  let ?n = "(unat va + unat sz - 1) div 4096 - vpn va"
  let ?a = "PGROUNDDOWN va"
  have n: "vpn va + ?n = (unat va + unat sz - 1) div 4096" using assms(2) by (simp add: div_le_mono)
  have ua: "unat ?a = vpn va * 4096" "vpn ?a = vpn va" by (simp_all add: round_down_nat)
  have bnd: "vpn va + ?n < 134217728" unfolding n using assms(2,3) by (simp add: div_less_iff_less_mult)
  have b39: "unat ?a + 4096 * ?n < 2 ^ 39" using bnd ua(1) by simp
  have "unat (va + sz - 1) = unat va + unat sz - 1"
  proof -
    have "unat (va + sz) = unat va + unat sz" using assms(3) unat_add_no_wrap [of va "unat sz"] by simp
    moreover have "va + sz \<noteq> 0" using calculation assms(2) by (metis add_is_0 less_irrefl unat_0)
    ultimately show ?thesis by (simp add: unat_minus_one)
  qed
  then have "unat (PGROUNDDOWN (va + sz - 1)) = (vpn va + ?n) * 4096" unfolding n by (simp add: round_down_nat)
  moreover have "unat (?a + of_nat (4096 * ?n)) = unat ?a + 4096 * ?n"
    by (rule unat_add_no_wrap) (use b39 in simp)
  ultimately have "unat (PGROUNDDOWN (va + sz - 1)) = unat (?a + of_nat (4096 * ?n))" using ua(1) by (simp add: algebra_simps)
  then have lst: "PGROUNDDOWN (va + sz - 1) = ?a + of_nat (4096 * ?n)" by (simp only: word_unat_eq_iff)
  have "sz \<noteq> 0" using assms(2) by auto
  then have run: "mappages pt va sz pa perm s = mappages_loop pt (?a + of_nat (4096 * ?n)) perm ?a pa s"
    unfolding mappages_def lst by simp
  have "\<exists>r s' F' k. mappages_loop pt (?a + of_nat (4096 * ?n)) perm ?a pa s = Done r s' \<and>
    mapped s F pt s' F' (leaves (vpn ?a) pa perm k) \<and> (r = 0 \<and> k = Suc ?n \<or> r = -1 \<and> k \<le> ?n \<and> F' = {} \<and> slot (k_mem s') 2 pt (?a + of_nat (4096 * k)) = None)"
    by (rule mappages_loop_run [OF assms(1) _ b39]) (use ua n assms(4) in auto)
  then show ?thesis unfolding run ua(2) Suc_eq_plus1 .
qed

theorem mappages_correct_witness:
  "\<exists>s'. mappages 0x80001000 0x1000 PGSIZE 0x80005000 (PTE_R OR PTE_U) demo_vm = Done 0 s' \<and>
     lookup (k_mem s') 2 0x80001000 0x1004 = PA2PTE 0x80005000 OR (PTE_R OR PTE_U) OR PTE_V \<and>
     lookup (k_mem s') 2 0x80001000 0 = lookup demo_mem 2 0x80001000 0"
proof -
  have free: "\<not> pte_valid (lookup (k_mem demo_vm) 2 0x80001000 w)" if "w < MAXVA" "1 \<le> vpn w" for w
    using demo_lookup [OF that(1)] that(2) by (simp add: demo_vm_def)
  have e: "vpn 0x1000 = 1" "(unat (0x1000 :: u64) + unat PGSIZE - 1) div 4096 = 1" by (simp_all add: PGSIZE_def)
  have "\<exists>r s' F' k. mappages 0x80001000 0x1000 PGSIZE 0x80005000 (PTE_R OR PTE_U) demo_vm = Done r s' \<and>
      mapped demo_vm {} 0x80001000 s' F' (leaves (vpn 0x1000) 0x80005000 (PTE_R OR PTE_U) k) \<and>
      (r = 0 \<and> k = (unat (0x1000 :: u64) + unat PGSIZE - 1) div 4096 - vpn 0x1000 + 1 \<or>
       r = -1 \<and> k \<le> (unat (0x1000 :: u64) + unat PGSIZE - 1) div 4096 - vpn 0x1000 \<and> F' = {} \<and>
         slot (k_mem s') 2 0x80001000 (PGROUNDDOWN 0x1000 + of_nat (4096 * k)) = None)"
    by (rule mappages_correct [OF demo_space]) (use free in \<open>auto simp: PGSIZE_def\<close>)
  then obtain r s' F' k where r: "mappages 0x80001000 0x1000 PGSIZE 0x80005000 (PTE_R OR PTE_U) demo_vm = Done r s'"
      "mapped demo_vm {} 0x80001000 s' F' (leaves 1 0x80005000 (PTE_R OR PTE_U) k)"
      "r = 0 \<and> k = 1 \<or> r = -1 \<and> k = 0 \<and> slot (k_mem s') 2 0x80001000 (PGROUNDDOWN 0x1000 + of_nat (4096 * k)) = None"
    unfolding e by auto
  have look: "lookup (k_mem s') 2 0x80001000 w = (case leaves 1 0x80005000 (PTE_R OR PTE_U) k (vpn w) of Some e \<Rightarrow> e | None \<Rightarrow> lookup demo_mem 2 0x80001000 w)" if "w < MAXVA" for w
    using r(2) that unfolding mapped_def demo_mem_of [symmetric] by blast
  have m: "(0 :: u64) < MAXVA" "(0x1004 :: u64) < MAXVA" by (simp_all add: MAXVA_def)
  have z: "lookup (k_mem s') 2 0x80001000 0 = lookup demo_mem 2 0x80001000 0" using look [OF m(1)] by (simp add: leaves_def)
  have "slot (k_mem s') 2 0x80001000 0x1000 \<noteq> None"
  proof -
    have "lookup (k_mem s') 2 0x80001000 0 \<noteq> 0" unfolding z using demo_lookup [OF m(1)] pte_valid_or(2) pte_valid_0 by (metis div_0 unat_0)
    then have "slot (k_mem s') 2 0x80001000 0 \<noteq> None" using slot_none by blast
    moreover have "px 1 0x1000 = 0" "px 2 0x1000 = 0" by (simp_all add: px_def)
    ultimately show ?thesis by (auto simp: slot_two split: option.splits)
  qed
  then have "r = 0" "k = 1" using r(3) by (auto simp: PGROUNDDOWN_def PGSIZE_def)
  then show ?thesis using r(1) z look [OF m(2)] by (simp add: leaves_def)
qed

text \<open>
  C14. What \<^verbatim>\<open>copyout\<close> stores, \<^verbatim>\<open>copyin\<close> reads back. For a page table whose user frames are disjoint pages
  outside the tables, copying a buffer to a mapped user range succeeds, changes no byte of memory
  but those the range names, keeps every translation, and reading the range returns the buffer.
\<close>

theorem copyout_copyin:
  assumes "user_ok e (k_mem s) pt" and "length src = unat len" and "urange (k_mem s) pt va (unat len)"
  shows "\<exists>s'. copyout pt va src len s = Done 0 s' \<and> copyin pt va len s' = Done (0, src) s' \<and>
    (\<forall>a. (\<forall>i<unat len. a \<noteq> uaddr (k_mem s) pt (va + of_nat i)) \<longrightarrow> k_mem s' a = k_mem s a) \<and>
    (\<forall>w. lookup (k_mem s') 2 pt w = lookup (k_mem s) 2 pt w) \<and> user_ok e (k_mem s') pt"
proof -
  obtain m' where m': "copyout pt va src len s = Done 0 (s\<lparr>k_mem := m'\<rparr>)" "ustored (k_mem s) pt va src m'"
    using copyout_run [OF assms] by blast
  let ?s = "s\<lparr>k_mem := m'\<rparr>"
  have tab: "same_on (pages (k_mem s) 2 pt) (k_mem s) m'" by (rule ustored_tables [OF assms(1) _ m'(2)]) (simp add: assms)
  note su = same_on_user [OF tab]
  have ok: "user_ok e m' pt" by (rule su(3) [OF assms(1)])
  have r: "urange (k_mem ?s) pt va (unat len)" using assms(3) su(4) by simp
  obtain bs where "copyin pt va len ?s = Done (0, bs) ?s" "bs = map (\<lambda>i. m' (uaddr m' pt (va + of_nat i))) [0..<unat len]"
    using copyin_run [of e ?s pt va len] ok r by (auto simp: user_ok_def)
  moreover have "map (\<lambda>i. m' (uaddr m' pt (va + of_nat i))) [0..<unat len] = src"
    using m'(2) assms(2) su(2) by (intro nth_equalityI) (auto simp: ustored_def)
  ultimately have "copyin pt va len ?s = Done (0, src) ?s" by simp
  moreover have "\<forall>w. lookup m' 2 pt w = lookup (k_mem s) 2 pt w" using lookup_same [OF tab] by blast
  ultimately show ?thesis using m' ok assms(2) by (auto simp: ustored_def)
qed

theorem copyout_copyin_witness:
  "\<exists>s'. copyout 0x80001000 0x10 [1, 2, 3] 3 demo_vm = Done 0 s' \<and> copyin 0x80001000 0x10 3 s' = Done (0, [1, 2, 3]) s'"
proof -
  have r: "urange (k_mem demo_vm) 0x80001000 0x10 (unat (3 :: u64))"
    by (auto simp: urange_def demo_vm_def demo_umapped unat_word_ariths unat_of_nat)
  show ?thesis using copyout_copyin [of "0x80001000" demo_vm "0x80001000" "[1, 2, 3]" 3 "0x10"] demo_user r by (auto simp: demo_vm_def)
qed

text \<open>
  C15. \<^verbatim>\<open>copyin\<close> never trusts a user address: it returns 0 exactly when every byte of the range lies below
  \<^verbatim>\<open>MAXVA\<close> on a valid user page, and then gives those bytes; otherwise it returns -1. It never
  panics and never changes memory.
\<close>

theorem copyin_checks:
  assumes "tree (is_page e) (k_mem s) 2 pt"
  shows "\<exists>bs. copyin pt va len s = Done (if urange (k_mem s) pt va (unat len) then 0 else -1, bs) s \<and>
    (urange (k_mem s) pt va (unat len) \<longrightarrow> bs = map (\<lambda>i. k_mem s (uaddr (k_mem s) pt (va + of_nat i))) [0..<unat len])"
  by (rule copyin_run [OF assms])

theorem copyin_checks_witness:
  "\<exists>bs. copyin 0x80001000 0xfff 2 demo_vm = Done (-1, bs) demo_vm"
proof -
  have "\<not> umapped demo_mem 0x80001000 (0xfff + of_nat 1)" by (simp add: demo_umapped)
  then have "\<not> urange (k_mem demo_vm) 0x80001000 0xfff (unat (2 :: u64))"
    unfolding urange_def demo_vm_def by (auto intro!: exI [of _ 1])
  then show ?thesis using copyin_checks [of "0x80001000" demo_vm "0x80001000" "0xfff" 2] demo_tree by (auto simp: demo_vm_def)
qed

end
