(* ===== verification/Pipe_Props.thy ===== *)
theory Pipe_Props
  imports Pipe Vm_Props "HOL-Library.Sublist"
begin

text \<open>
  A pipe as a queue. The ring with its two wrapping counters represents a byte list of length at
  most 512; activations append to and remove from it. Over all interleavings of writers, readers
  and closes: bytes come out in the order they went in, and nobody sleeps on a condition that
  already holds.
\<close>

section \<open>The ring as a list\<close>

definition ring :: "u32 \<Rightarrow> nat \<Rightarrow> nat" where
  "ring r j = unat (r + of_nat j) mod PIPESIZE"

definition pq :: "pipe \<Rightarrow> u8 list" where
  "pq p = map (\<lambda>j. pi_data p (ring (nread p) j)) [0..<unat (nwrite p - nread p)]"

definition pipe_ok :: "pipe \<Rightarrow> bool" where
  "pipe_ok p \<longleftrightarrow> unat (nwrite p - nread p) \<le> PIPESIZE"

lemma ring_nat: "ring r j = (unat r + j) mod PIPESIZE"
proof -
  have "(x mod 2 ^ 32) mod 512 = x mod (512 :: nat)" for x by (rule mod_mod_cancel) (simp add: dvd_def)
  then show ?thesis by (simp add: ring_def unat_word_ariths unat_of_nat mod_simps)
qed

lemma ring_zero: "ring r 0 = unat r mod PIPESIZE"
  by (simp add: ring_def)

lemma ring_Suc: "ring r (Suc j) = ring (r + 1) j"
  by (simp add: ring_def add.assoc)

lemma ring_inj:
  assumes "i < j" "j < PIPESIZE"
  shows "ring r i \<noteq> ring r j"
proof
  assume "ring r i = ring r j"
  then have "PIPESIZE dvd j - i" using assms(1) unfolding ring_nat
    by (metis add_diff_cancel_left less_imp_le mod_eq_dvd_iff_nat nat_add_left_cancel_le)
  then show False using assms by (auto dest: dvd_imp_le)
qed

lemma ring_full: "nwrite p = nread p + of_nat PIPESIZE \<longleftrightarrow> unat (nwrite p - nread p) = PIPESIZE"
proof -
  have "nwrite p = nread p + of_nat PIPESIZE \<longleftrightarrow> nwrite p - nread p = of_nat PIPESIZE" by (simp add: algebra_simps)
  also have "\<dots> \<longleftrightarrow> unat (nwrite p - nread p) = unat (of_nat PIPESIZE :: u32)" by (simp only: word_unat_eq_iff)
  finally show ?thesis by simp
qed

lemma length_pq [simp]: "length (pq p) = unat (nwrite p - nread p)"
  by (simp add: pq_def)

lemma pq_put:
  assumes "pipe_ok p" "nwrite p \<noteq> nread p + of_nat PIPESIZE"
  shows "pipe_ok (put_byte ch p)" "pq (put_byte ch p) = pq p @ [ch]"
proof -
  let ?k = "unat (nwrite p - nread p)"
  have k: "?k < PIPESIZE" using assms ring_full [of p] by (simp add: pipe_ok_def)
  have "nwrite p + 1 - nread p = (nwrite p - nread p) + 1" by simp
  moreover have "unat (x + 1) = Suc (unat x)" if "unat x < PIPESIZE" for x :: u32 using that by (simp add: unat_word_ariths)
  ultimately have s: "unat (nwrite p + 1 - nread p) = Suc ?k" using k by (simp only:)
  show "pipe_ok (put_byte ch p)" using k s by (simp add: pipe_ok_def put_byte_def)
  have w: "unat (nwrite p) mod PIPESIZE = ring (nread p) ?k" by (simp add: ring_def)
  have "pi_data (put_byte ch p) (ring (nread p) j) = pi_data p (ring (nread p) j)" if "j < ?k" for j
    using ring_inj [OF that k, of "nread p"] w by (simp add: put_byte_def)
  moreover have "pi_data (put_byte ch p) (ring (nread p) ?k) = ch" using w by (simp add: put_byte_def)
  ultimately show "pq (put_byte ch p) = pq p @ [ch]"
  proof -
    have n: "nread (put_byte ch p) = nread p" "nwrite (put_byte ch p) = nwrite p + 1" by (simp_all add: put_byte_def)
    assume a: "\<And>j. j < ?k \<Longrightarrow> pi_data (put_byte ch p) (ring (nread p) j) = pi_data p (ring (nread p) j)"
      "pi_data (put_byte ch p) (ring (nread p) ?k) = ch"
    then show ?thesis unfolding pq_def n s by simp
  qed
qed

lemma pq_get:
  assumes "pipe_ok p" "nread p \<noteq> nwrite p"
  shows "pipe_ok (p\<lparr>nread := nread p + 1\<rparr>)" "pq p = pi_data p (unat (nread p) mod PIPESIZE) # pq (p\<lparr>nread := nread p + 1\<rparr>)"
proof -
  let ?k = "unat (nwrite p - nread p)"
  have "nwrite p - nread p \<noteq> 0" using assms(2) by simp
  then have s: "?k = Suc (unat (nwrite p - (nread p + 1)))"
    using unat_minus_one [of "nwrite p - nread p"] unat_gt_0 [of "nwrite p - nread p"] by (simp add: diff_diff_add)
  then show "pipe_ok (p\<lparr>nread := nread p + 1\<rparr>)" using assms(1) by (simp add: pipe_ok_def)
  show "pq p = pi_data p (unat (nread p) mod PIPESIZE) # pq (p\<lparr>nread := nread p + 1\<rparr>)"
    unfolding pq_def s by (simp add: upt_conv_Cons map_Suc_upt [symmetric] ring_zero ring_Suc comp_def del: upt_Suc map_Suc_upt)
qed

section \<open>Single bytes of user memory\<close>

abbreviation ubyte :: "mem \<Rightarrow> u64 \<Rightarrow> u64 \<Rightarrow> u8" where
  "ubyte m pt va \<equiv> m (uaddr m pt va)"

lemma urange_one: "urange m pt va (unat (1 :: u64)) \<longleftrightarrow> umapped m pt va"
  by (auto simp: urange_def umapped_def MAXVA_nat)

lemma copyin_one:
  assumes "tree (is_page e) (k_mem s) 2 pt"
  shows "\<exists>bs. copyin pt va 1 s = Done (if umapped (k_mem s) pt va then 0 else -1, bs) s \<and>
    (umapped (k_mem s) pt va \<longrightarrow> bs = [ubyte (k_mem s) pt va])"
  using copyin_run [OF assms, of va 1] unfolding urange_one by simp

lemma chunk_one: "chunk va 1 = 1"
proof -
  have "unat va mod 4096 < 4096" by simp
  then have "unat (chunk va 1) = 1" unfolding chunk_nat unat_1 by linarith
  then show ?thesis by (metis unat_1 word_unat_eq_iff)
qed

lemma wr_one: "wr_bytes m a [x] = m(a := x)"
  by (rule ext) (auto simp: wr_bytes_def unat_eq_0)

lemma copyout_one:
  assumes "tree (is_page e) (k_mem s) 2 pt"
  shows "copyout pt va [ch] 1 s = (if umapped (k_mem s) pt va
     then Done 0 (s\<lparr>k_mem := (k_mem s)(uaddr (k_mem s) pt va := ch)\<rparr>) else Done (-1) s)"
proof -
  have nz: "umapped (k_mem s) pt va \<Longrightarrow> PTE2PA (lookup (k_mem s) 2 pt va) \<noteq> 0" by (simp add: umapped_def)
  have z: "copyout pt w [] 0 t = Done 0 t" for w t by (simp add: copyout.simps [of pt w])
  show ?thesis
    by (simp add: copyout.simps [of pt va] chunk_one walkaddr_run [OF assms] round_down_page nz z Let_def wr_one round_down_diff uaddr_def)
qed

section \<open>Activations\<close>

abbreviation sleeper :: "chan \<Rightarrow> nat \<Rightarrow> ptable \<Rightarrow> ptable" where
  "sleeper ch c \<equiv> upd_proc c (\<lambda>q. q\<lparr>p_chan := ch, p_state := SLEEPING\<rparr>)"

lemma psleep_run: "cur (pp_pt s) = Some c \<Longrightarrow> psleep ch i s = Done (Sleep_at i) (s\<lparr>pp_pt := sleeper ch c (pp_pt s)\<rparr>)"
  by (simp add: psleep_def sleep_def myproc_def)

lemma pagetable_of_run: "cur (pp_pt s) = Some c \<Longrightarrow> pagetable_of s = Done (p_pagetable (procs (pp_pt s) c)) s"
  by (simp add: pagetable_of_def myproc_def klift_def)

lemma pget_run [simp]: "pp_pipes s pi = Some p \<Longrightarrow> pget pi s = Done p s"
  by (simp add: pget_def)

lemma pupd_run: "pp_pipes s pi = Some p \<Longrightarrow> pupd pi f s = Done () (s\<lparr>pp_pipes := (pp_pipes s)(pi := Some (f p))\<rparr>)"
  by (simp add: pupd_def)

lemma pipe_same:
  "pp_pipes s pi = Some p \<Longrightarrow> s\<lparr>pp_pt := t, pp_pipes := (pp_pipes s)(pi \<mapsto> p)\<rparr> = s\<lparr>pp_pt := t\<rparr>"
  "pp_pipes s pi = Some p \<Longrightarrow> s\<lparr>pp_pipes := (pp_pipes s)(pi \<mapsto> p)\<rparr> = s"
  by (rule pipest.equality; simp add: fun_upd_idem)+

text \<open>
  An activation of a writer that has \<open>i\<close> bytes accepted accepts \<open>k\<close> more, in order, and then fails
  without having accepted any, returns the count, or sleeps on the full ring.
\<close>

lemma pipewrite_spec:
  assumes "pp_pipes s pi = Some p" "pipe_ok p" "cur (pp_pt s) = Some c"
    "tree (is_page e) (k_mem (pp_km s)) 2 (p_pagetable (procs (pp_pt s) c))"
  defines "pgt \<equiv> p_pagetable (procs (pp_pt s) c)"
  shows "\<exists>r k p' t. pipewrite_from pi addr n i s = Done r (s\<lparr>pp_pt := t, pp_pipes := (pp_pipes s)(pi \<mapsto> p')\<rparr>) \<and>
    pipe_ok p' \<and> readopen p' = readopen p \<and> writeopen p' = writeopen p \<and>
    pq p' = pq p @ map (\<lambda>j. ubyte (k_mem (pp_km s)) pgt (addr + of_nat j)) [i..<i + k] \<and>
    (r = Ret (-1) \<and> k = 0 \<and> t = pp_pt s \<and> (\<not> readopen p \<or> i = 0) \<or> r = Ret (int (i + k)) \<and> t = wakeup (ChanPipeRead pi) (pp_pt s) \<or>
     r = Sleep_at (i + k) \<and> t = sleeper (ChanPipeWrite pi) c (wakeup (ChanPipeRead pi) (pp_pt s)) \<and> readopen p \<and> length (pq p') = PIPESIZE)"
  using assms(1-4) unfolding pgt_def
proof (induction "nat (n - int i)" arbitrary: i s p rule: less_induct)
  case less
  note pr = less.prems
  note upd = pipe_same(1) [OF pr(1)]
  let ?P = "p_pagetable (procs (pp_pt s) c)" and ?m = "k_mem (pp_km s)"
  let ?wake = "s\<lparr>pp_pt := wakeup (ChanPipeRead pi) (pp_pt s), pp_pipes := (pp_pipes s)(pi \<mapsto> p)\<rparr>"
  have fin: "pipewrite_end pi i s = Done (Ret (int i)) ?wake"
    using upd by (simp add: pipewrite_end_def pwake_def)
  have same: "s = s\<lparr>pp_pt := pp_pt s, pp_pipes := (pp_pipes s)(pi \<mapsto> p)\<rparr>" unfolding upd by simp
  consider (stop) "\<not> int i < n" | (closed) "int i < n" "\<not> readopen p" | (full) "int i < n" "readopen p" "nwrite p = nread p + of_nat PIPESIZE"
    | (bad) "int i < n" "readopen p" "nwrite p \<noteq> nread p + of_nat PIPESIZE" "\<not> umapped ?m ?P (addr + of_nat i)"
    | (byte) "int i < n" "readopen p" "nwrite p \<noteq> nread p + of_nat PIPESIZE" "umapped ?m ?P (addr + of_nat i)" by blast
  then show ?case
  proof cases
    case stop
    then have "pipewrite_from pi addr n i s = Done (Ret (int i)) ?wake" using fin by (simp add: pipewrite_from.simps [of pi])
    then show ?thesis using pr(2) by (intro exI [of _ "Ret (int i)"] exI [of _ 0] exI [of _ p] exI [of _ "wakeup (ChanPipeRead pi) (pp_pt s)"]) simp
  next
    case closed
    then have "pipewrite_from pi addr n i s = Done (Ret (-1)) s" using pr(1) by (simp add: pipewrite_from.simps [of pi])
    then show ?thesis using pr(2) same closed(2) by (intro exI [of _ "Ret (-1)"] exI [of _ 0] exI [of _ p] exI [of _ "pp_pt s"]) simp
  next
    case full
    let ?t = "sleeper (ChanPipeWrite pi) c (wakeup (ChanPipeRead pi) (pp_pt s))"
    have "pipewrite_from pi addr n i s = Done (Sleep_at i) (s\<lparr>pp_pt := ?t, pp_pipes := (pp_pipes s)(pi \<mapsto> p)\<rparr>)"
      using full pr(1,3) upd by (simp add: pipewrite_from.simps [of pi] pwake_def psleep_run [of _ c])
    then show ?thesis using pr(2) full ring_full [of p] by (intro exI [of _ "Sleep_at i"] exI [of _ 0] exI [of _ p] exI [of _ ?t]) simp
  next
    case bad
    obtain bs where "copyin ?P (addr + of_nat i) 1 (pp_km s) = Done (-1, bs) (pp_km s)"
      using copyin_one [OF pr(4), of "addr + of_nat i"] bad(4) by auto
    then have run: "pipewrite_from pi addr n i s = (if i = 0 then Done (Ret (-1)) s else Done (Ret (int i)) ?wake)"
      using bad pr(1,3) fin by (simp add: pipewrite_from.simps [of pi] pagetable_of_run)
    show ?thesis
    proof (cases "i = 0")
      case True
      then show ?thesis using run pr(2) same by (intro exI [of _ "Ret (-1)"] exI [of _ 0] exI [of _ p] exI [of _ "pp_pt s"]) simp
    next
      case False
      then show ?thesis using run pr(2) by (intro exI [of _ "Ret (int i)"] exI [of _ 0] exI [of _ p] exI [of _ "wakeup (ChanPipeRead pi) (pp_pt s)"]) simp
    qed
  next
    case byte
    let ?ch = "ubyte ?m ?P (addr + of_nat i)"
    let ?s1 = "s\<lparr>pp_pipes := (pp_pipes s)(pi \<mapsto> put_byte ?ch p)\<rparr>"
    have "copyin ?P (addr + of_nat i) 1 (pp_km s) = Done (0, [?ch]) (pp_km s)"
      using copyin_one [OF pr(4), of "addr + of_nat i"] byte(4) by auto
    then have run: "pipewrite_from pi addr n i s = pipewrite_from pi addr n (Suc i) ?s1"
      using byte pr(1,3) by (simp add: pipewrite_from.simps [of pi addr n i] pagetable_of_run pupd_run)
    have ok: "pipe_ok (put_byte ?ch p)" "pq (put_byte ?ch p) = pq p @ [?ch]" using pq_put [OF pr(2) byte(3)] by blast+
    have "\<exists>r k p' t. pipewrite_from pi addr n (Suc i) ?s1 = Done r (?s1\<lparr>pp_pt := t, pp_pipes := (pp_pipes ?s1)(pi \<mapsto> p')\<rparr>) \<and>
      pipe_ok p' \<and> readopen p' = readopen (put_byte ?ch p) \<and> writeopen p' = writeopen (put_byte ?ch p) \<and>
      pq p' = pq (put_byte ?ch p) @ map (\<lambda>j. ubyte (k_mem (pp_km ?s1)) (p_pagetable (procs (pp_pt ?s1) c)) (addr + of_nat j)) [Suc i..<Suc i + k] \<and>
      (r = Ret (-1) \<and> k = 0 \<and> t = pp_pt ?s1 \<and> (\<not> readopen (put_byte ?ch p) \<or> Suc i = 0) \<or> r = Ret (int (Suc i + k)) \<and> t = wakeup (ChanPipeRead pi) (pp_pt ?s1) \<or>
       r = Sleep_at (Suc i + k) \<and> t = sleeper (ChanPipeWrite pi) c (wakeup (ChanPipeRead pi) (pp_pt ?s1)) \<and> readopen (put_byte ?ch p) \<and> length (pq p') = PIPESIZE)"
      by (rule less.hyps) (use byte(1) pr ok(1) in simp_all)
    then obtain r k p' t where raw: "pipewrite_from pi addr n (Suc i) ?s1 = Done r (?s1\<lparr>pp_pt := t, pp_pipes := (pp_pipes ?s1)(pi \<mapsto> p')\<rparr>)"
      "pipe_ok p'" "readopen p' = readopen (put_byte ?ch p)" "writeopen p' = writeopen (put_byte ?ch p)"
      "pq p' = pq (put_byte ?ch p) @ map (\<lambda>j. ubyte (k_mem (pp_km ?s1)) (p_pagetable (procs (pp_pt ?s1) c)) (addr + of_nat j)) [Suc i..<Suc i + k]"
      "r = Ret (-1) \<and> k = 0 \<and> t = pp_pt ?s1 \<and> (\<not> readopen (put_byte ?ch p) \<or> Suc i = 0) \<or> r = Ret (int (Suc i + k)) \<and> t = wakeup (ChanPipeRead pi) (pp_pt ?s1) \<or>
       r = Sleep_at (Suc i + k) \<and> t = sleeper (ChanPipeWrite pi) c (wakeup (ChanPipeRead pi) (pp_pt ?s1)) \<and> readopen (put_byte ?ch p) \<and> length (pq p') = PIPESIZE"
      by blast
    have ih: "pipewrite_from pi addr n (Suc i) ?s1 = Done r (s\<lparr>pp_pt := t, pp_pipes := (pp_pipes s)(pi \<mapsto> p')\<rparr>)"
      "readopen p' = readopen p" "writeopen p' = writeopen p"
      "pq p' = pq p @ ?ch # map (\<lambda>j. ubyte ?m ?P (addr + of_nat j)) [Suc i..<Suc i + k]"
      using raw(1,3-5) ok(2) by (simp_all add: put_byte_def del: upt_Suc)
    have fin': "r = Ret (int (i + Suc k)) \<and> t = wakeup (ChanPipeRead pi) (pp_pt s) \<or>
       r = Sleep_at (i + Suc k) \<and> t = sleeper (ChanPipeWrite pi) c (wakeup (ChanPipeRead pi) (pp_pt s)) \<and> readopen p \<and> length (pq p') = PIPESIZE"
      using raw(6) byte(2) by (auto simp: put_byte_def)
    have "pq p' = pq p @ map (\<lambda>j. ubyte ?m ?P (addr + of_nat j)) [i..<i + Suc k]"
      using ih(4) by (simp add: upt_conv_Cons del: upt_Suc)
    then show ?thesis unfolding run ih(1) using raw(2) ih(2,3) fin' by blast
  qed
qed

text \<open>A reader's activation delivers the first \<open>k\<close> bytes of the queue to consecutive user addresses.\<close>

lemma urange_Suc:
  assumes "umapped m pt va" "urange m pt (va + 1) k"
  shows "urange m pt va (Suc k)"
  unfolding urange_def
proof (intro allI impI)
  fix j assume j: "j < Suc k"
  have va: "unat va < 2 ^ 39" using assms(1) by (simp add: umapped_def MAXVA_nat)
  have u: "unat (va + 1) = unat va + 1" using unat_add_no_wrap [of va 1] va by simp
  show "unat va + j < 2 ^ 39 \<and> umapped m pt (va + of_nat j)"
  proof (cases j)
    case 0
    then show ?thesis using va assms(1) by simp
  next
    case (Suc i)
    then have "unat (va + 1) + i < 2 ^ 39" "umapped m pt (va + 1 + of_nat i)" using assms(2) j unfolding urange_def by auto
    then show ?thesis using u Suc by (simp add: add.assoc)
  qed
qed

lemma piperead_loop_spec:
  assumes "pp_pipes s pi = Some p" "pipe_ok p" "cur (pp_pt s) = Some c"
    "user_ok e (k_mem (pp_km s)) (p_pagetable (procs (pp_pt s) c))"
  shows "\<exists>r k p' t m'. piperead_loop pi addr n i s =
      Done r (s\<lparr>pp_pt := t, pp_km := (pp_km s)\<lparr>k_mem := m'\<rparr>, pp_pipes := (pp_pipes s)(pi \<mapsto> p')\<rparr>) \<and>
    pipe_ok p' \<and> readopen p' = readopen p \<and> writeopen p' = writeopen p \<and> k \<le> length (pq p) \<and> pq p' = drop k (pq p) \<and>
    urange (k_mem (pp_km s)) (p_pagetable (procs (pp_pt s) c)) (addr + of_nat i) k \<and>
    ustored (k_mem (pp_km s)) (p_pagetable (procs (pp_pt s) c)) (addr + of_nat i) (take k (pq p)) m' \<and>
    (r = Ret (-1) \<and> k = 0 \<and> t = pp_pt s \<and> i = 0 \<or> r = Ret (int (i + k)) \<and> t = wakeup (ChanPipeWrite pi) (pp_pt s))"
  using assms
proof (induction "nat (n - int i)" arbitrary: i s p rule: less_induct)
  case less
  note pr = less.prems
  let ?P = "p_pagetable (procs (pp_pt s) c)" and ?m = "k_mem (pp_km s)" and ?va = "addr + of_nat i"
  have t: "tree (is_page e) ?m 2 ?P" using pr(4) by (simp add: user_ok_def)
  have none: "urange ?m ?P ?va 0" "ustored ?m ?P ?va [] ?m" by (simp_all add: urange_def ustored_def)
  let ?w = "wakeup (ChanPipeWrite pi) (pp_pt s)"
  have fin: "piperead_end pi i s = Done (Ret (int i)) (s\<lparr>pp_pt := ?w\<rparr>)"
    by (simp add: piperead_end_def pwake_def)
  have stop: ?case if "piperead_loop pi addr n i s = Done (Ret (int i)) (s\<lparr>pp_pt := ?w\<rparr>)"
    using that none pr(2) by (intro exI [of _ "Ret (int i)"] exI [of _ "0 :: nat"] exI [of _ p] exI [of _ ?w] exI [of _ ?m]) (simp add: pipe_same [OF pr(1)])
  have fail: ?case if "piperead_loop pi addr n i s = Done (Ret (-1)) s" "i = 0"
    using that none pr(2) pipe_same(2) [OF pr(1)] by (intro exI [of _ "Ret (-1)"] exI [of _ "0 :: nat"] exI [of _ p] exI [of _ "pp_pt s"] exI [of _ ?m]) simp
  consider (done1) "\<not> int i < n" | (empty) "int i < n" "nread p = nwrite p" | (bad) "int i < n" "nread p \<noteq> nwrite p" "\<not> umapped ?m ?P ?va"
    | (byte) "int i < n" "nread p \<noteq> nwrite p" "umapped ?m ?P ?va" by blast
  then show ?case
  proof cases
    case done1
    then show ?thesis using fin by (intro stop) (simp add: piperead_loop.simps [of pi])
  next
    case empty
    then show ?thesis using fin pr(1) by (intro stop) (simp add: piperead_loop.simps [of pi])
  next
    case bad
    then have run: "piperead_loop pi addr n i s = (if i = 0 then Done (Ret (-1)) s else Done (Ret (int i)) (s\<lparr>pp_pt := ?w\<rparr>))"
      using pr(1,3) fin by (simp add: piperead_loop.simps [of pi] pagetable_of_run copyout_one [OF t])
    show ?thesis
    proof (cases "i = 0")
      case True
      then show ?thesis using run by (intro fail) simp_all
    next
      case False
      then show ?thesis using run by (intro stop) simp
    qed
  next
    case byte
    let ?ch = "pi_data p (unat (nread p) mod PIPESIZE)" and ?p1 = "p\<lparr>nread := nread p + 1\<rparr>"
    let ?m1 = "?m(uaddr ?m ?P ?va := ?ch)"
    let ?s1 = "s\<lparr>pp_km := (pp_km s)\<lparr>k_mem := ?m1\<rparr>, pp_pipes := (pp_pipes s)(pi \<mapsto> ?p1)\<rparr>"
    have run: "piperead_loop pi addr n i s = piperead_loop pi addr n (Suc i) ?s1"
      using byte pr(1,3) by (simp add: piperead_loop.simps [of pi addr n i] pagetable_of_run copyout_one [OF t] pupd_run)
    note g = pq_get [OF pr(2) byte(2)]
    have st: "ustored ?m ?P ?va [?ch] ?m1" by (simp add: ustored_def)
    have "urange ?m ?P ?va (length [?ch])" using urange_one byte(3) by simp
    then have su: "uaddr ?m1 ?P = uaddr ?m ?P" "user_ok e ?m1 ?P" "urange ?m1 ?P = urange ?m ?P"
      using same_on_user [OF ustored_tables [OF pr(4) _ st]] pr(4) by blast+
    have "\<exists>r k p' t m'. piperead_loop pi addr n (Suc i) ?s1 =
        Done r (?s1\<lparr>pp_pt := t, pp_km := (pp_km ?s1)\<lparr>k_mem := m'\<rparr>, pp_pipes := (pp_pipes ?s1)(pi \<mapsto> p')\<rparr>) \<and>
      pipe_ok p' \<and> readopen p' = readopen ?p1 \<and> writeopen p' = writeopen ?p1 \<and> k \<le> length (pq ?p1) \<and> pq p' = drop k (pq ?p1) \<and>
      urange (k_mem (pp_km ?s1)) (p_pagetable (procs (pp_pt ?s1) c)) (addr + of_nat (Suc i)) k \<and>
      ustored (k_mem (pp_km ?s1)) (p_pagetable (procs (pp_pt ?s1) c)) (addr + of_nat (Suc i)) (take k (pq ?p1)) m' \<and>
      (r = Ret (-1) \<and> k = 0 \<and> t = pp_pt ?s1 \<and> Suc i = 0 \<or> r = Ret (int (Suc i + k)) \<and> t = wakeup (ChanPipeWrite pi) (pp_pt ?s1))"
      by (rule less.hyps) (use byte(1) pr g(1) su(2) in simp_all)
    then obtain r k p' t m' where raw: "piperead_loop pi addr n (Suc i) ?s1 =
        Done r (?s1\<lparr>pp_pt := t, pp_km := (pp_km ?s1)\<lparr>k_mem := m'\<rparr>, pp_pipes := (pp_pipes ?s1)(pi \<mapsto> p')\<rparr>)"
      "pipe_ok p'" "readopen p' = readopen ?p1" "writeopen p' = writeopen ?p1" "k \<le> length (pq ?p1)" "pq p' = drop k (pq ?p1)"
      "urange (k_mem (pp_km ?s1)) (p_pagetable (procs (pp_pt ?s1) c)) (addr + of_nat (Suc i)) k"
      "ustored (k_mem (pp_km ?s1)) (p_pagetable (procs (pp_pt ?s1) c)) (addr + of_nat (Suc i)) (take k (pq ?p1)) m'"
      "r = Ret (int (Suc i + k))" "t = wakeup (ChanPipeWrite pi) (pp_pt ?s1)"
      by blast
    have nx: "addr + of_nat (Suc i) = ?va + 1" by simp
    have ur: "urange ?m ?P ?va (Suc k)" using raw(7) [unfolded nx] su(3) byte(3) by (intro urange_Suc) simp_all
    have tk: "take (Suc k) (pq p) = [?ch] @ take k (pq ?p1)" "pq p' = drop (Suc k) (pq p)" using g(2) raw(6) by simp_all
    have us: "ustored ?m ?P ?va (take (Suc k) (pq p)) m'"
      unfolding tk(1)
    proof (rule ustored_append [OF pr(4) _ st])
      show "urange ?m ?P ?va (length ([?ch] @ take k (pq ?p1)))" using ur raw(5) by simp
      show "ustored ?m1 ?P (?va + of_nat (length [?ch])) (take k (pq ?p1)) m'" using raw(8) [unfolded nx] by simp
    qed
    have le: "Suc k \<le> length (pq p)" using raw(5) g(2) by simp
    have fin2: "piperead_loop pi addr n (Suc i) ?s1 = Done r (s\<lparr>pp_pt := t, pp_km := (pp_km s)\<lparr>k_mem := m'\<rparr>, pp_pipes := (pp_pipes s)(pi \<mapsto> p')\<rparr>)"
      using raw(1) by simp
    have rt: "r = Ret (int (i + Suc k))" "t = ?w" "readopen p' = readopen p" "writeopen p' = writeopen p" using raw by simp_all
    show ?thesis unfolding run fin2 using raw(2) rt le tk(2) ur us by blast
  qed
qed

section \<open>Interleavings\<close>

definition sleeping_on :: "chan \<Rightarrow> ptable \<Rightarrow> nat \<Rightarrow> bool" where
  "sleeping_on ch t j \<longleftrightarrow> j < NPROC \<and> p_state (procs t j) = SLEEPING \<and> p_chan (procs t j) = ch"

definition awake :: "ptable \<Rightarrow> nat \<Rightarrow> bool" where
  "awake t c \<longleftrightarrow> c < NPROC \<and> cur t = Some c \<and> p_state (procs t c) \<noteq> SLEEPING"

text \<open>How many bytes an activation that started with \<open>i\<close> has accepted, or delivered, in total.\<close>

definition progress :: "pipe_out \<Rightarrow> nat \<Rightarrow> nat" where
  "progress r i = (case r of Ret v \<Rightarrow> if v < 0 then i else nat v | Sleep_at j \<Rightarrow> j)"

text \<open>
  One step of the system around the pipe at \<open>pi\<close>: an activation of a writer, fresh or resumed, of a
  reader, a close, a context switch, or anything else that leaves the pipe and its sleepers alone.
  The two lists record the bytes taken from writers and the bytes stored for readers.
\<close>

inductive pipe_step :: "u64 \<Rightarrow> u64 \<Rightarrow> pipest \<times> u8 list \<times> u8 list \<Rightarrow> pipest \<times> u8 list \<times> u8 list \<Rightarrow> bool" for pi e where
  step_write: "awake (pp_pt s) c \<Longrightarrow> tree (is_page e) (k_mem (pp_km s)) 2 (p_pagetable (procs (pp_pt s) c)) \<Longrightarrow>
    pipewrite_from pi addr n i s = Done r s' \<Longrightarrow>
    pipe_step pi e (s, acc, del)
      (s', acc @ map (\<lambda>j. ubyte (k_mem (pp_km s)) (p_pagetable (procs (pp_pt s) c)) (addr + of_nat j)) [i..<progress r i], del)"
| step_read: "awake (pp_pt s) c \<Longrightarrow> user_ok e (k_mem (pp_km s)) (p_pagetable (procs (pp_pt s) c)) \<Longrightarrow>
    piperead pi addr n s = Done r s' \<Longrightarrow>
    pipe_step pi e (s, acc, del)
      (s', acc, del @ map (\<lambda>j. ubyte (k_mem (pp_km s')) (p_pagetable (procs (pp_pt s) c)) (addr + of_nat j)) [0..<progress r 0])"
| step_close: "awake (pp_pt s) c \<Longrightarrow> pipeclose pi w s = Done () s' \<Longrightarrow> pipe_step pi e (s, acc, del) (s', acc, del)"
| step_switch: "j < NPROC \<Longrightarrow> p_state (procs (pp_pt s) j) \<noteq> SLEEPING \<Longrightarrow>
    pipe_step pi e (s, acc, del) (s\<lparr>pp_pt := (pp_pt s)\<lparr>cur := Some j\<rparr>\<rparr>, acc, del)"
| step_other: "pp_pipes s' pi = pp_pipes s pi \<Longrightarrow>
    (\<And>j. sleeping_on (ChanPipeRead pi) (pp_pt s') j \<Longrightarrow> sleeping_on (ChanPipeRead pi) (pp_pt s) j) \<Longrightarrow>
    (\<And>j. sleeping_on (ChanPipeWrite pi) (pp_pt s') j \<Longrightarrow> sleeping_on (ChanPipeWrite pi) (pp_pt s) j) \<Longrightarrow>
    pipe_step pi e (s, acc, del) (s', acc, del)"

definition fresh_pipe :: "u64 \<Rightarrow> pipest \<Rightarrow> bool" where
  "fresh_pipe pi s \<longleftrightarrow> pp_pipes s pi = Some new_pipe \<and>
     (\<forall>j. \<not> sleeping_on (ChanPipeRead pi) (pp_pt s) j \<and> \<not> sleeping_on (ChanPipeWrite pi) (pp_pt s) j)"

definition pipe_reach :: "u64 \<Rightarrow> u64 \<Rightarrow> pipest \<Rightarrow> pipest \<times> u8 list \<times> u8 list \<Rightarrow> bool" where
  "pipe_reach pi e s0 c \<longleftrightarrow> fresh_pipe pi s0 \<and> (pipe_step pi e)\<^sup>*\<^sup>* (s0, [], []) c"

definition pipe_inv :: "u64 \<Rightarrow> pipest \<times> u8 list \<times> u8 list \<Rightarrow> bool" where
  "pipe_inv pi = (\<lambda>(s, acc, del). prefix del acc \<and>
     (case pp_pipes s pi of
        None \<Rightarrow> \<forall>j. \<not> sleeping_on (ChanPipeRead pi) (pp_pt s) j \<and> \<not> sleeping_on (ChanPipeWrite pi) (pp_pt s) j
      | Some p \<Rightarrow> pipe_ok p \<and> acc = del @ pq p \<and>
          (\<forall>j. sleeping_on (ChanPipeRead pi) (pp_pt s) j \<longrightarrow> pq p = [] \<and> writeopen p) \<and>
          (\<forall>j. sleeping_on (ChanPipeWrite pi) (pp_pt s) j \<longrightarrow> length (pq p) = PIPESIZE \<and> readopen p)))"

lemma pipe_inv_live:
  assumes "pp_pipes s pi = Some p"
  shows "pipe_inv pi (s, acc, del) \<longleftrightarrow> pipe_ok p \<and> acc = del @ pq p \<and>
    (\<forall>j. sleeping_on (ChanPipeRead pi) (pp_pt s) j \<longrightarrow> pq p = [] \<and> writeopen p) \<and>
    (\<forall>j. sleeping_on (ChanPipeWrite pi) (pp_pt s) j \<longrightarrow> length (pq p) = PIPESIZE \<and> readopen p)"
  using assms by (auto simp: pipe_inv_def)

lemma wakeup_clears: "awake t c \<Longrightarrow> \<not> sleeping_on ch (wakeup ch t) j"
  by (auto simp: sleeping_on_def wakeup_def awake_def)

lemma wakeup_keeps: "sleeping_on ch' (wakeup ch t) j \<Longrightarrow> sleeping_on ch' t j"
  by (auto simp: sleeping_on_def wakeup_def split: if_splits)

lemma awake_wakeup [simp]: "awake (wakeup ch t) c \<longleftrightarrow> awake t c"
  by (auto simp: awake_def wakeup_def)

lemma sleeper_sleeping: "sleeping_on ch' (sleeper ch c t) j \<Longrightarrow> j = c \<and> ch' = ch \<or> sleeping_on ch' t j"
  by (auto simp: sleeping_on_def upd_proc_def split: if_splits)

lemma progress_simps [simp]: "progress (Ret (-1)) i = i" "progress (Ret (int k)) i = k" "progress (Sleep_at k) i = k"
  by (simp_all add: progress_def)

lemma write_inv:
  assumes "pipe_inv pi (s, acc, del)" "awake (pp_pt s) c" "tree (is_page e) (k_mem (pp_km s)) 2 (p_pagetable (procs (pp_pt s) c))"
    "pipewrite_from pi addr n i s = Done r s'"
  shows "pipe_inv pi (s', acc @ map (\<lambda>j. ubyte (k_mem (pp_km s)) (p_pagetable (procs (pp_pt s) c)) (addr + of_nat j)) [i..<progress r i], del)"
proof (cases "pp_pipes s pi")
  case None
  then have "\<not> int i < n" using assms(4) by (auto simp: pipewrite_from.simps [of pi] pget_def)
  then have "s' = s\<lparr>pp_pt := wakeup (ChanPipeRead pi) (pp_pt s)\<rparr>" "r = Ret (int i)"
    using assms(4) by (simp_all add: pipewrite_from.simps [of pi] pipewrite_end_def pwake_def)
  then show ?thesis using assms(1) None by (auto simp: pipe_inv_def dest: wakeup_keeps)
next
  case (Some p)
  have inv: "pipe_ok p" "acc = del @ pq p" "\<And>j. sleeping_on (ChanPipeRead pi) (pp_pt s) j \<Longrightarrow> pq p = [] \<and> writeopen p"
    "\<And>j. sleeping_on (ChanPipeWrite pi) (pp_pt s) j \<Longrightarrow> length (pq p) = PIPESIZE \<and> readopen p"
    using assms(1) unfolding pipe_inv_live [OF Some] by blast+
  have cur: "cur (pp_pt s) = Some c" using assms(2) by (simp add: awake_def)
  let ?bs = "\<lambda>k. map (\<lambda>j. ubyte (k_mem (pp_km s)) (p_pagetable (procs (pp_pt s) c)) (addr + of_nat j)) [i..<k]"
  obtain k p' t where w: "s' = s\<lparr>pp_pt := t, pp_pipes := (pp_pipes s)(pi \<mapsto> p')\<rparr>" "pipe_ok p'"
    "readopen p' = readopen p" "writeopen p' = writeopen p" "pq p' = pq p @ ?bs (i + k)"
    "r = Ret (-1) \<and> k = 0 \<and> t = pp_pt s \<and> (\<not> readopen p \<or> i = 0) \<or> r = Ret (int (i + k)) \<and> t = wakeup (ChanPipeRead pi) (pp_pt s) \<or>
     r = Sleep_at (i + k) \<and> t = sleeper (ChanPipeWrite pi) c (wakeup (ChanPipeRead pi) (pp_pt s)) \<and> readopen p \<and> length (pq p') = PIPESIZE"
    using pipewrite_spec [OF Some inv(1) cur assms(3), of addr n i] unfolding assms(4) outcome.inject by blast
  have live: "pp_pipes s' pi = Some p'" "pp_pt s' = t" using w(1) by simp_all
  have up: "progress r i = i + k" using w(6) by (auto simp del: of_nat_add)
  have full: "pq p' = pq p" if "length (pq p) = PIPESIZE"
    using w(2,5) that arg_cong [OF w(5), of length] unfolding pipe_ok_def length_pq [symmetric] by simp
  show ?thesis unfolding pipe_inv_live [OF live(1)] live(2) up
  proof (intro conjI allI impI)
    show "pipe_ok p'" by (rule w(2))
    show "acc @ ?bs (i + k) = del @ pq p'" using inv(2) w(5) by simp
  next
    fix j assume j: "sleeping_on (ChanPipeRead pi) t j"
    have "k = 0 \<and> sleeping_on (ChanPipeRead pi) (pp_pt s) j"
      using w(6) j wakeup_clears [OF assms(2)] by (auto dest!: sleeper_sleeping)
    then show "pq p' = []" "writeopen p'" using inv(3) [of j] w(4,5) by simp_all
  next
    fix j assume j: "sleeping_on (ChanPipeWrite pi) t j"
    have "sleeping_on (ChanPipeWrite pi) (pp_pt s) j \<or> readopen p \<and> length (pq p') = PIPESIZE"
      using w(6) j wakeup_keeps sleeper_sleeping [of "ChanPipeWrite pi"] by blast
    then show "length (pq p') = PIPESIZE" "readopen p'" using inv(4) [of j] full w(3) by (auto simp del: length_pq)
  qed
qed

lemma read_inv:
  assumes "pipe_inv pi (s, acc, del)" "awake (pp_pt s) c" "user_ok e (k_mem (pp_km s)) (p_pagetable (procs (pp_pt s) c))"
    "piperead pi addr n s = Done r s'"
  shows "pipe_inv pi (s', acc, del @ map (\<lambda>j. ubyte (k_mem (pp_km s')) (p_pagetable (procs (pp_pt s) c)) (addr + of_nat j)) [0..<progress r 0])"
proof (cases "pp_pipes s pi")
  case None
  then show ?thesis using assms(4) by (simp add: piperead_def pget_def)
next
  case (Some p)
  have inv: "pipe_ok p" "acc = del @ pq p" "\<And>j. sleeping_on (ChanPipeRead pi) (pp_pt s) j \<Longrightarrow> pq p = [] \<and> writeopen p"
    "\<And>j. sleeping_on (ChanPipeWrite pi) (pp_pt s) j \<Longrightarrow> length (pq p) = PIPESIZE \<and> readopen p"
    using assms(1) unfolding pipe_inv_live [OF Some] by blast+
  have cur: "cur (pp_pt s) = Some c" using assms(2) by (simp add: awake_def)
  let ?P = "p_pagetable (procs (pp_pt s) c)" and ?m = "k_mem (pp_km s)"
  show ?thesis
  proof (cases "nread p = nwrite p \<and> writeopen p")
    case True
    then have "s' = s\<lparr>pp_pt := sleeper (ChanPipeRead pi) c (pp_pt s)\<rparr>" "r = Sleep_at 0"
      using assms(4) Some cur by (simp_all add: piperead_def psleep_run)
    moreover have "pq p = []" using True by (simp add: pq_def)
    ultimately show ?thesis using inv True Some by (auto simp: pipe_inv_def dest!: sleeper_sleeping)
  next
    case False
    then have run: "piperead_loop pi addr n 0 s = Done r s'" using assms(4) Some by (auto simp: piperead_def)
    obtain k p' t m' where w: "s' = s\<lparr>pp_pt := t, pp_km := (pp_km s)\<lparr>k_mem := m'\<rparr>, pp_pipes := (pp_pipes s)(pi \<mapsto> p')\<rparr>"
      "pipe_ok p'" "readopen p' = readopen p" "writeopen p' = writeopen p" "k \<le> length (pq p)" "pq p' = drop k (pq p)"
      "urange ?m ?P addr k" "ustored ?m ?P addr (take k (pq p)) m'"
      "r = Ret (-1) \<and> k = 0 \<and> t = pp_pt s \<or> r = Ret (int k) \<and> t = wakeup (ChanPipeWrite pi) (pp_pt s)"
      using piperead_loop_spec [OF Some inv(1) cur assms(3), of addr n 0] unfolding run outcome.inject of_nat_simps(1) add_0_right add_0 by blast
    have live: "pp_pipes s' pi = Some p'" "pp_pt s' = t" "k_mem (pp_km s') = m'" using w(1) by simp_all
    have up: "progress r 0 = k" using w(9) by auto
    have len: "length (take k (pq p)) = k" using w(5) by simp
    have "uaddr m' ?P = uaddr ?m ?P"
      by (rule same_on_user(2), rule ustored_tables [OF assms(3) _ w(8)]) (use len w(7) in simp)
    then have bytes: "map (\<lambda>j. ubyte m' ?P (addr + of_nat j)) [0..<k] = take k (pq p)"
      using w(8) len by (intro nth_equalityI) (auto simp: ustored_def)
    show ?thesis unfolding pipe_inv_live [OF live(1)] live(2,3) up bytes
    proof (intro conjI allI impI)
      show "pipe_ok p'" by (rule w(2))
      show "acc = (del @ take k (pq p)) @ pq p'" using inv(2) w(6) by simp
    next
      fix j assume j: "sleeping_on (ChanPipeRead pi) t j"
      then have "sleeping_on (ChanPipeRead pi) (pp_pt s) j" using w(9) wakeup_keeps by blast
      then show "pq p' = []" "writeopen p'" using inv(3) [of j] w(4,6) by simp_all
    next
      fix j assume j: "sleeping_on (ChanPipeWrite pi) t j"
      then have "k = 0" "sleeping_on (ChanPipeWrite pi) (pp_pt s) j" using w(9) wakeup_clears [OF assms(2)] by blast+
      then show "length (pq p') = PIPESIZE" "readopen p'" using inv(4) [of j] w(3,6) by (simp_all del: length_pq)
    qed
  qed
qed

lemma close_inv:
  assumes "pipe_inv pi (s, acc, del)" "awake (pp_pt s) c" "pipeclose pi w s = Done () s'"
  shows "pipe_inv pi (s', acc, del)"
proof (cases "pp_pipes s pi")
  case None
  then show ?thesis using assms(3) by (simp add: pipeclose_def pupd_def pget_def)
next
  case (Some p)
  let ?p1 = "if w then p\<lparr>writeopen := False\<rparr> else p\<lparr>readopen := False\<rparr>"
  let ?t = "wakeup (ChanPipeWrite pi) (wakeup (ChanPipeRead pi) (pp_pt s))"
  have noone: "\<not> sleeping_on (ChanPipeRead pi) ?t j" "\<not> sleeping_on (ChanPipeWrite pi) ?t j" for j
    using wakeup_clears assms(2) wakeup_keeps awake_wakeup by blast+
  have q: "pq ?p1 = pq p" "pipe_ok ?p1 = pipe_ok p" by (auto simp: pq_def pipe_ok_def)
  have pre: "prefix del acc" "pipe_ok p" "acc = del @ pq p" using assms(1) Some by (auto simp: pipe_inv_def)
  have run: "pipeclose pi w s = (if \<not> readopen ?p1 \<and> \<not> writeopen ?p1
      then kseq (pkm (kfree pi)) (kmodify (\<lambda>s. s\<lparr>pp_pipes := (pp_pipes s)(pi := None)\<rparr>)) (s\<lparr>pp_pipes := (pp_pipes s)(pi \<mapsto> ?p1), pp_pt := ?t\<rparr>)
      else Done () (s\<lparr>pp_pipes := (pp_pipes s)(pi \<mapsto> ?p1), pp_pt := ?t\<rparr>))"
    using Some by (simp add: pipeclose_def pupd_run pwake_def kseq_assoc)
  show ?thesis
  proof (cases "\<not> readopen ?p1 \<and> \<not> writeopen ?p1")
    case True
    then have "pp_pipes s' pi = None" "pp_pt s' = ?t"
      using assms(3) unfolding run by (auto elim!: kseq_DoneE dest!: klift_DoneD)
    then show ?thesis using pre(1) noone by (simp add: pipe_inv_def)
  next
    case False
    then have "pp_pipes s' pi = Some ?p1" "pp_pt s' = ?t" using assms(3) unfolding run by auto
    then show ?thesis using pre q noone by (simp add: pipe_inv_def)
  qed
qed

lemma pipe_step_inv: "pipe_step pi e c c' \<Longrightarrow> pipe_inv pi c \<Longrightarrow> pipe_inv pi c'"
proof (induction rule: pipe_step.induct)
  case (step_write s c addr n i r s' acc del)
  then show ?case by (intro write_inv [OF step_write(4,1,2,3)])
next
  case (step_read s c addr n r s' acc del)
  then show ?case by (intro read_inv [OF step_read(4,1,2,3)])
next
  case (step_close s c w s' acc del)
  then show ?case by (intro close_inv [OF step_close(3,1,2)])
next
  case (step_switch j s acc del)
  have "sleeping_on ch ((pp_pt s)\<lparr>cur := Some j\<rparr>) = sleeping_on ch (pp_pt s)" for ch by (rule ext) (simp add: sleeping_on_def)
  then show ?case using step_switch(3) by (cases "pp_pipes s pi") (simp_all add: pipe_inv_def)
next
  case (step_other s' s acc del)
  show ?case
  proof (cases "pp_pipes s pi")
    case None
    then show ?thesis using step_other by (simp add: pipe_inv_def) blast
  next
    case (Some p)
    then have "pp_pipes s' pi = Some p" using step_other(1) by simp
    then show ?thesis using step_other(2-4) unfolding pipe_inv_live [OF Some] by (subst pipe_inv_live) blast+
  qed
qed

lemma pipe_reach_inv:
  assumes "pipe_reach pi e s0 c"
  shows "pipe_inv pi c"
proof -
  have i0: "pipe_inv pi (s0, [], [])"
    using assms by (auto simp: pipe_reach_def fresh_pipe_def pipe_inv_def new_pipe_def pipe_ok_def pq_def)
  have "(pipe_step pi e)\<^sup>*\<^sup>* (s0, [], []) c" using assms by (simp add: pipe_reach_def)
  then show ?thesis by (induction rule: rtranclp_induct) (auto intro: i0 pipe_step_inv)
qed

section \<open>Properties\<close>

text \<open>A system with one running process on the demonstration page table and a fresh pipe.\<close>

definition demo_pipe :: pipest where
  "demo_pipe = \<lparr>pp_pt = ptable_bss\<lparr>procs := (\<lambda>_. proc_bss\<lparr>p_state := RUNNING, p_pagetable := 0x80001000\<rparr>), cur := Some 0\<rparr>,
     pp_km = demo_vm, pp_pipes = [0x80005000 \<mapsto> new_pipe]\<rparr>"

lemma demo_fresh: "fresh_pipe 0x80005000 demo_pipe"
  by (simp add: fresh_pipe_def demo_pipe_def sleeping_on_def proc_bss_def)

lemma demo_write:
  "\<exists>s'. pipewrite_from 0x80005000 0x10 1 0 demo_pipe = Done (Ret 1) s' \<and> pp_pipes s' 0x80005000 = Some (put_byte (ubyte demo_mem 0x80001000 0x10) new_pipe)"
proof -
  have m: "umapped (k_mem demo_vm) 0x80001000 0x10" by (simp add: demo_mem_of demo_umapped)
  obtain bs where "copyin 0x80001000 0x10 1 demo_vm = Done (0, bs) demo_vm" "bs = [ubyte demo_mem 0x80001000 0x10]"
    using copyin_one [of "0x80001000" demo_vm "0x80001000" "0x10"] demo_tree(1) m by (auto simp: demo_mem_of)
  then have "pkm (copyin 0x80001000 0x10 1) demo_pipe = Done (0, [ubyte demo_mem 0x80001000 0x10]) demo_pipe"
    by (simp add: demo_pipe_def)
  moreover have "pagetable_of demo_pipe = Done 0x80001000 demo_pipe"
    by (simp add: pagetable_of_run [of _ 0] demo_pipe_def)
  moreover have "pp_pipes demo_pipe 0x80005000 = Some new_pipe" by (simp add: demo_pipe_def)
  ultimately show ?thesis
    by (simp add: pipewrite_from.simps pupd_run pipewrite_end_def pwake_def new_pipe_def)
qed

lemma demo_reach:
  "\<exists>s'. pipe_reach 0x80005000 0x80001000 demo_pipe (s', [ubyte demo_mem 0x80001000 0x10], []) \<and>
     pp_pipes s' 0x80005000 = Some (put_byte (ubyte demo_mem 0x80001000 0x10) new_pipe)"
proof -
  obtain s' where w: "pipewrite_from 0x80005000 0x10 1 0 demo_pipe = Done (Ret 1) s'"
      "pp_pipes s' 0x80005000 = Some (put_byte (ubyte demo_mem 0x80001000 0x10) new_pipe)" using demo_write by blast
  have a: "awake (pp_pt demo_pipe) 0" by (simp add: awake_def demo_pipe_def proc_bss_def)
  have t: "tree (is_page 0x80001000) (k_mem (pp_km demo_pipe)) 2 (p_pagetable (procs (pp_pt demo_pipe) 0))"
    using demo_tree(1) by (simp add: demo_pipe_def demo_mem_of)
  have "pipe_step 0x80005000 0x80001000 (demo_pipe, [], []) (s', [] @ map (\<lambda>j. ubyte (k_mem (pp_km demo_pipe)) (p_pagetable (procs (pp_pt demo_pipe) 0)) (0x10 + of_nat j)) [0..<progress (Ret 1) 0], [])"
    by (rule step_write [OF a t w(1)])
  moreover have "progress (Ret 1) 0 = 1" by (simp add: progress_def)
  ultimately have "pipe_step 0x80005000 0x80001000 (demo_pipe, [], []) (s', [ubyte demo_mem 0x80001000 0x10], [])"
    by (simp add: demo_pipe_def demo_mem_of)
  then show ?thesis using w(2) demo_fresh unfolding pipe_reach_def by blast
qed

text \<open>
  C21. A pipe is a bounded first-in first-out channel. For every interleaving of writers (sleeping and
  resuming), readers, closes, context switches and unrelated activity, the bytes readers received
  are a prefix of the bytes writers handed over, in the same order; while the pipe is live the ring
  holds exactly the difference, at most 512 bytes, also after the 32-bit counters wrapped around.
\<close>

theorem pipe_fifo:
  assumes "pipe_reach pi e s0 (s, acc, del)"
  shows "prefix del acc \<and> (\<forall>p. pp_pipes s pi = Some p \<longrightarrow> acc = del @ pq p \<and> length (pq p) \<le> PIPESIZE)"
  using pipe_reach_inv [OF assms] by (auto simp: pipe_inv_def pipe_ok_def)

theorem pipe_fifo_witness:
  "\<exists>s. pipe_reach 0x80005000 0x80001000 demo_pipe (s, [ubyte demo_mem 0x80001000 0x10], []) \<and>
     pq (put_byte (ubyte demo_mem 0x80001000 0x10) new_pipe) = [ubyte demo_mem 0x80001000 0x10]"
proof -
  obtain s where s: "pipe_reach 0x80005000 0x80001000 demo_pipe (s, [ubyte demo_mem 0x80001000 0x10], [])"
      "pp_pipes s 0x80005000 = Some (put_byte (ubyte demo_mem 0x80001000 0x10) new_pipe)" using demo_reach by blast
  then show ?thesis using pipe_fifo [OF s(1)] by auto
qed

text \<open>
  C22. No wake-up is lost. Whenever a process sleeps on the read channel of a pipe, the pipe is live,
  empty and still has a writer; whenever one sleeps on the write channel, it is live, full and still
  has a reader. In particular nobody is left asleep once the last peer has closed its end.
\<close>

theorem pipe_no_lost_wakeup:
  assumes "pipe_reach pi e s0 (s, acc, del)"
  shows "(sleeping_on (ChanPipeRead pi) (pp_pt s) j \<longrightarrow> (\<exists>p. pp_pipes s pi = Some p \<and> pq p = [] \<and> writeopen p)) \<and>
    (sleeping_on (ChanPipeWrite pi) (pp_pt s) j \<longrightarrow> (\<exists>p. pp_pipes s pi = Some p \<and> length (pq p) = PIPESIZE \<and> readopen p))"
  using pipe_reach_inv [OF assms] unfolding pipe_inv_def by (auto split: option.splits)

theorem pipe_no_lost_wakeup_witness:
  "\<exists>s. pipe_reach 0x80005000 0x80001000 demo_pipe (s, [ubyte demo_mem 0x80001000 0x10], []) \<and>
     (\<forall>j. \<not> sleeping_on (ChanPipeRead 0x80005000) (pp_pt s) j)"
proof -
  obtain s where s: "pipe_reach 0x80005000 0x80001000 demo_pipe (s, [ubyte demo_mem 0x80001000 0x10], [])"
      "pp_pipes s 0x80005000 = Some (put_byte (ubyte demo_mem 0x80001000 0x10) new_pipe)" using demo_reach by blast
  have "length (pq (put_byte x new_pipe)) = 1" for x by (simp add: put_byte_def new_pipe_def)
  then have "pq (put_byte (ubyte demo_mem 0x80001000 0x10) new_pipe) \<noteq> []" by (metis list.size(3) zero_neq_one)
  then have "\<not> sleeping_on (ChanPipeRead 0x80005000) (pp_pt s) j" for j
    using pipe_no_lost_wakeup [OF s(1), of j] s(2) by auto
  then show ?thesis using s(1) by blast
qed

end
