(* ===== verification/Virtio.thy ===== *)
theory Virtio
  imports Proc_State
begin

text \<open>
  The virtio block driver, \<^verbatim>\<open>kernel/virtio_disk.c\<close>. The three queue pages are the byte array \<^verbatim>\<open>disk.pages\<close>
  with the descriptor table, the available ring and the used ring at their C offsets, so an index
  that leaves a ring lands where it lands in C. The device is the environment: the registers it
  offers are a field of the state, the driver's stores to registers are recorded in order, and what
  the device does when it is notified is an argument of \<^verbatim>\<open>virtio_disk_rw\<close>. The driver lock is released
  only by sleeping: a transfer that waits is resumed by a further activation.
\<close>

section \<open>State\<close>

abbreviation NUM :: nat where "NUM \<equiv> 8"

abbreviation VRING_DESC_F_NEXT :: u16 where "VRING_DESC_F_NEXT \<equiv> 1"
abbreviation VRING_DESC_F_WRITE :: u16 where "VRING_DESC_F_WRITE \<equiv> 2"

record virtio_blk_outhdr =
  h_type :: u32
  h_reserved :: u32
  h_sector :: u64

text \<open>
  \<open>v_base\<close> is the address of the static \<^verbatim>\<open>disk\<close>; \<open>v_hdr\<close> the request header stored at an address of a
  kernel stack; \<open>v_data\<close> and \<open>v_status\<close> the two fields of \<^verbatim>\<open>disk.info\<close>.
\<close>

record vdisk =
  v_base :: u64
  v_pages :: bytes
  v_free :: "nat \<Rightarrow> bool"
  v_data :: "nat \<Rightarrow> u64"
  v_status :: "nat \<Rightarrow> u8"
  v_used_idx :: u16
  v_hdr :: "u64 \<Rightarrow> virtio_blk_outhdr"
  v_regs :: "nat \<Rightarrow> u32"
  v_writes :: "(nat \<times> u32) list"

record vst =
  vs_pt :: ptable
  vs_disk :: vdisk

definition vupd :: "(vdisk \<Rightarrow> vdisk) \<Rightarrow> (vst, unit) kmonad" where
  "vupd f = kmodify (\<lambda>s. s\<lparr>vs_disk := f (vs_disk s)\<rparr>)"

definition vwake :: "chan \<Rightarrow> (vst, unit) kmonad" where
  "vwake ch = kmodify (\<lambda>s. s\<lparr>vs_pt := wakeup ch (vs_pt s)\<rparr>)"

definition reg_write :: "nat \<Rightarrow> u32 \<Rightarrow> (vst, unit) kmonad" where
  "reg_write r v = vupd (\<lambda>d. d\<lparr>v_writes := v_writes d @ [(r, v)]\<rparr>)"

text \<open>The fields of \<^verbatim>\<open>struct VRingDesc\<close>.\<close>

definition desc_addr :: "vdisk \<Rightarrow> nat \<Rightarrow> u64" where
  "desc_addr d i = get64 (v_pages d) (16 * i)"

definition desc_len :: "vdisk \<Rightarrow> nat \<Rightarrow> u32" where
  "desc_len d i = get32 (v_pages d) (16 * i + 8)"

definition desc_flags :: "vdisk \<Rightarrow> nat \<Rightarrow> u16" where
  "desc_flags d i = get16 (v_pages d) (16 * i + 12)"

definition desc_next :: "vdisk \<Rightarrow> nat \<Rightarrow> u16" where
  "desc_next d i = get16 (v_pages d) (16 * i + 14)"

definition put_desc :: "nat \<Rightarrow> u64 \<Rightarrow> u32 \<Rightarrow> u16 \<Rightarrow> u16 \<Rightarrow> vdisk \<Rightarrow> vdisk" where
  "put_desc i a l f n d = d\<lparr>v_pages := put16 (put16 (put32 (put64 (v_pages d) (16 * i) a) (16 * i + 8) l) (16 * i + 12) f) (16 * i + 14) n\<rparr>"

text \<open>\<^verbatim>\<open>disk.avail[1]\<close>, and the fields of \<^verbatim>\<open>struct UsedArea\<close>.\<close>

definition avail_idx :: "vdisk \<Rightarrow> u16" where
  "avail_idx d = get16 (v_pages d) 4098"

definition used_flags :: "vdisk \<Rightarrow> u16" where
  "used_flags d = get16 (v_pages d) 8192"

definition used_idx :: "vdisk \<Rightarrow> u16" where
  "used_idx d = get16 (v_pages d) 8194"

definition used_id :: "vdisk \<Rightarrow> nat \<Rightarrow> u32" where
  "used_id d k = get32 (v_pages d) (8196 + 8 * k)"

section \<open>Descriptors\<close>

definition free_desc :: "nat \<Rightarrow> (vst, unit) kmonad" where
  "free_desc i = kbind (kget vs_disk) (\<lambda>d.
     if i \<ge> NUM then kpanic ''free_desc 1''
     else if v_free d i then kpanic ''free_desc 2''
     else kseq (vupd (\<lambda>d. d\<lparr>v_pages := put64 (v_pages d) (16 * i) 0, v_free := (v_free d)(i := True)\<rparr>))
           (vwake ChanDiskFree))"

definition alloc_desc :: "(vst, nat option) kmonad" where
  "alloc_desc = kbind (kget vs_disk) (\<lambda>d.
     case find (v_free d) [0..<NUM] of
       None \<Rightarrow> kreturn None
     | Some i \<Rightarrow> kseq (vupd (\<lambda>d. d\<lparr>v_free := (v_free d)(i := False)\<rparr>)) (kreturn (Some i)))"

definition busy :: "vst \<Rightarrow> nat set" where
  "busy s = {i. i < NUM \<and> \<not> v_free (vs_disk s) i}"

lemma finite_busy [simp]: "finite (busy s)"
  by (simp add: busy_def)

lemma free_desc_run:
  "free_desc i s = Done u s' \<longleftrightarrow> i < NUM \<and> \<not> v_free (vs_disk s) i \<and>
     s' = s\<lparr>vs_pt := wakeup ChanDiskFree (vs_pt s), vs_disk := (vs_disk s)\<lparr>v_pages := put64 (v_pages (vs_disk s)) (16 * i) 0,
        v_free := (v_free (vs_disk s))(i := True)\<rparr>\<rparr>"
  by (auto simp: free_desc_def vupd_def vwake_def kseq_def)

lemma free_desc_busy: "free_desc i s = Done u s' \<Longrightarrow> card (busy s') < card (busy s)"
proof -
  assume "free_desc i s = Done u s'"
  then have "i \<in> busy s" "busy s' = busy s - {i}" by (auto simp: free_desc_run busy_def)
  then show ?thesis by (metis card_Diff1_less finite_busy)
qed

text \<open>
  \<^verbatim>\<open>free_chain\<close> ends on every chain, a cyclic one included: the second visit of a descriptor panics.
\<close>

function free_chain :: "nat \<Rightarrow> (vst, unit) kmonad" where
  "free_chain i s =
     kbind (kget (\<lambda>s. (desc_flags (vs_disk s) i, desc_next (vs_disk s) i))) (\<lambda>fn.
       kseq (free_desc i) (\<lambda>s.
         if fst fn AND VRING_DESC_F_NEXT \<noteq> 0 then free_chain (unat (snd fn)) s else kreturn () s)) s"
  by pat_completeness auto

termination
  by (relation "measure (\<lambda>(_, s). card (busy s))") (auto dest: free_desc_busy)

declare free_chain.simps [simp del]

definition alloc3_desc :: "(vst, (nat \<times> nat \<times> nat) option) kmonad" where
  "alloc3_desc = kbind alloc_desc (\<lambda>a. case a of
       None \<Rightarrow> kreturn None
     | Some a \<Rightarrow> kbind alloc_desc (\<lambda>b. case b of
         None \<Rightarrow> kseq (free_desc a) (kreturn None)
       | Some b \<Rightarrow> kbind alloc_desc (\<lambda>c. case c of
           None \<Rightarrow> kseq (free_desc a) (kseq (free_desc b) (kreturn None))
         | Some c \<Rightarrow> kreturn (Some (a, b, c)))))"

section \<open>Initialisation\<close>

definition virtio_disk_init :: "(vst, unit) kmonad" where
  "virtio_disk_init = kbind (kget (\<lambda>s. v_regs (vs_disk s))) (\<lambda>R.
     if R 0x00 \<noteq> 0x74726976 \<or> R 0x04 \<noteq> 1 \<or> R 0x08 \<noteq> 2 \<or> R 0x0c \<noteq> 0x554d4551
     then kpanic ''could not find virtio disk''
     else kseq (reg_write 0x70 1)
      (kseq (reg_write 0x70 3)
      (kseq (reg_write 0x20 (R 0x10 AND NOT 0x20 AND NOT 0x200))
      (kseq (reg_write 0x70 11)
      (kseq (reg_write 0x70 15)
      (kseq (reg_write 0x30 0)
      (if R 0x34 = 0 then kpanic ''virtio disk has no queue 0''
       else if R 0x34 < of_nat NUM then kpanic ''virtio disk max queue too short''
       else kseq (vupd (\<lambda>d. d\<lparr>v_pages := replicate 12288 0, v_free := (\<lambda>i. if i < NUM then True else v_free d i), v_used_idx := 0\<rparr>))
        (kseq (reg_write 0x38 (of_nat NUM))
        (kbind (kget (\<lambda>s. v_base (vs_disk s))) (\<lambda>base.
         kseq (reg_write 0x40 (ucast (drop_bit 12 base))) (reg_write 0x44 1)))))))))))"

section \<open>Transfers\<close>

text \<open>\<^verbatim>\<open>&disk.info[i].status\<close>: the bookkeeping array follows the pages, three pointers and the free map.\<close>

definition status_addr :: "vdisk \<Rightarrow> nat \<Rightarrow> u64" where
  "status_addr d i = v_base d + of_nat (12320 + 16 * i + 8)"

text \<open>Fill the three descriptors of a request and its bookkeeping entry.\<close>

definition build_chain :: "u64 \<Rightarrow> u64 \<Rightarrow> u64 \<Rightarrow> bool \<Rightarrow> nat \<times> nat \<times> nat \<Rightarrow> vdisk \<Rightarrow> vdisk" where
  "build_chain blockno hdr data wr = (\<lambda>(i0, i1, i2) d.
     let d1 = d\<lparr>v_hdr := (v_hdr d)(hdr := \<lparr>h_type = (if wr then 1 else 0), h_reserved = 0, h_sector = blockno * 2\<rparr>)\<rparr>;
         d2 = put_desc i0 hdr 16 VRING_DESC_F_NEXT (of_nat i1) d1;
         d3 = put_desc i1 data 1024 ((if wr then 0 else VRING_DESC_F_WRITE) OR VRING_DESC_F_NEXT) (of_nat i2) d2;
         d4 = d3\<lparr>v_status := (v_status d3)(i0 := 0xff)\<rparr>;
         d5 = put_desc i2 (status_addr d4 i0) 1 VRING_DESC_F_WRITE 0 d4
     in d5\<lparr>v_data := (v_data d5)(i0 := data)\<rparr>)"

text \<open>
  \<^verbatim>\<open>disk.avail[2 + disk.avail[1]] = head\<close> and the increment of the index; a store past the end of the
  queue pages leaves the array.
\<close>

definition publish :: "nat \<Rightarrow> (vst, unit) kmonad" where
  "publish head = kbind (kget vs_disk) (\<lambda>d.
     let off = 4096 + 2 * (2 + unat (avail_idx d)) in
     if off + 2 > 12288 then kfault ''avail ring index outside disk.pages''
     else kseq (vupd (\<lambda>d. d\<lparr>v_pages := put16 (v_pages d) off (of_nat head)\<rparr>))
          (vupd (\<lambda>d. d\<lparr>v_pages := put16 (v_pages d) 4098 (avail_idx d + 1)\<rparr>)))"

text \<open>How an activation of \<^verbatim>\<open>virtio_disk_rw\<close> ends.\<close>

datatype rw_out = Rw_done | Wait_desc | Wait_io nat

definition vsleep :: "chan \<Rightarrow> rw_out \<Rightarrow> (vst, rw_out) kmonad" where
  "vsleep ch r = (\<lambda>s. case sleep ch (vs_pt s) of Block t \<Rightarrow> Done r (s\<lparr>vs_pt := t\<rparr>)
     | Done x t \<Rightarrow> Done x (s\<lparr>vs_pt := t\<rparr>) | Panic e \<Rightarrow> Panic e | Fault e \<Rightarrow> Fault e)"

text \<open>The wait for completion, entered after the kick and again after every wake-up.\<close>

definition rw_wait :: "nat \<Rightarrow> (vst, rw_out) kmonad" where
  "rw_wait head = kbind (kget (\<lambda>s. v_status (vs_disk s) head)) (\<lambda>st.
     if st \<noteq> 0 then vsleep (ChanDiskInfo head) (Wait_io head)
     else kseq (free_chain head) (kreturn Rw_done))"

definition virtio_disk_rw :: "(vdisk \<Rightarrow> vdisk) \<Rightarrow> u64 \<Rightarrow> u64 \<Rightarrow> u64 \<Rightarrow> bool \<Rightarrow> (vst, rw_out) kmonad" where
  "virtio_disk_rw kick hdr blockno data wr =
     (if blockno AND 0x1fffffffffffffff = 0x1fffffffffffffff then kpanic ''virtio_disk_rw: sector overflow''
      else kbind alloc3_desc (\<lambda>idx. case idx of
          None \<Rightarrow> vsleep ChanDiskFree Wait_desc
        | Some idx \<Rightarrow> kseq (vupd (build_chain blockno hdr data wr idx))
           (kseq (publish (fst idx))
           (kseq (reg_write 0x50 0)
           (kseq (vupd kick)
           (rw_wait (fst idx)))))))"

section \<open>Interrupts\<close>

definition intr_one :: "nat \<Rightarrow> (vst, unit) kmonad" where
  "intr_one i = kbind (kget vs_disk) (\<lambda>d.
     let id = unat (used_id d (unat (ucast (v_used_idx d) + of_nat i :: u32) mod NUM)) in
     if id \<ge> NUM then kpanic ''virtio_disk_intr: used id''
     else if v_status d id \<noteq> 0xff then kpanic ''virtio_disk_intr: status''
     else kseq (vupd (\<lambda>d. d\<lparr>v_status := (v_status d)(id := 0)\<rparr>)) (vwake (ChanDiskInfo id)))"

definition virtio_disk_intr :: "(vst, unit) kmonad" where
  "virtio_disk_intr = kbind (kget vs_disk) (\<lambda>d.
     kseq (reg_write 0x60 (v_regs d 0x60))
    (kseq (kfor [0..<unat (ucast (used_idx d) - ucast (v_used_idx d) :: u32)] intr_one)
          (vupd (\<lambda>d'. d'\<lparr>v_used_idx := used_idx d\<rparr>))))"

end
