(* ===== verification/Khoare.thy ===== *)
theory Khoare
  imports Prelude
begin

text \<open>
  A small program logic for the kernel monad. \<open>ksat\<close> states what holds when a call returns and what
  holds in the state in which it goes to sleep; a panic or a fault ends the run and satisfies every
  statement. \<open>kinv I m\<close>: the operation \<open>m\<close> keeps the invariant \<open>I\<close>, also when it sleeps.
\<close>

section \<open>Statements\<close>

definition ksat :: "('a, 's) outcome \<Rightarrow> ('a \<Rightarrow> 's \<Rightarrow> bool) \<Rightarrow> ('s \<Rightarrow> bool) \<Rightarrow> bool" where
  "ksat r Q B \<longleftrightarrow> (case r of Done x s \<Rightarrow> Q x s | Block s \<Rightarrow> B s | Panic e \<Rightarrow> True | Fault e \<Rightarrow> True)"

definition kinv :: "('s \<Rightarrow> bool) \<Rightarrow> ('s, 'a) kmonad \<Rightarrow> bool" where
  "kinv I m \<longleftrightarrow> (\<forall>s. I s \<longrightarrow> ksat (m s) (\<lambda>_. I) I)"

named_theorems kinv_intros \<open>how the combinators of the monad keep an invariant\<close>

lemma ksat_simps [simp]: "ksat (Done x s) Q B = Q x s" "ksat (Block s) Q B = B s" "ksat (Panic e) Q B" "ksat (Fault e) Q B"
  by (simp_all add: ksat_def)

lemma ksat_bind: "ksat (m s) R B \<Longrightarrow> (\<And>x t. R x t \<Longrightarrow> ksat (f x t) Q B) \<Longrightarrow> ksat (kbind m f s) Q B"
  by (cases "m s") auto

lemma ksat_seq: "ksat (m s) R B \<Longrightarrow> (\<And>x t. R x t \<Longrightarrow> ksat (n t) Q B) \<Longrightarrow> ksat (kseq m n s) Q B"
  by (cases "m s") auto

lemma ksat_mono: "ksat r Q B \<Longrightarrow> (\<And>x s. Q x s \<Longrightarrow> Q' x s) \<Longrightarrow> (\<And>s. B s \<Longrightarrow> B' s) \<Longrightarrow> ksat r Q' B'"
  by (cases r) auto

lemma ksat_conj: "ksat r Q B \<Longrightarrow> (\<And>x s. r = Done x s \<Longrightarrow> Q' x s) \<Longrightarrow> ksat r (\<lambda>x s. Q x s \<and> Q' x s) B"
  by (cases r) auto

section \<open>Invariants\<close>

lemma kinvI: "(\<And>s. I s \<Longrightarrow> ksat (m s) (\<lambda>_. I) I) \<Longrightarrow> kinv I m"
  by (simp add: kinv_def)

lemma kinvD: "kinv I m \<Longrightarrow> I s \<Longrightarrow> ksat (m s) (\<lambda>_. I) I"
  by (simp add: kinv_def)

lemma kinv_Done: "kinv I m \<Longrightarrow> I s \<Longrightarrow> m s = Done x s' \<Longrightarrow> I s'"
  by (drule (1) kinvD) simp

lemma kinv_Block: "kinv I m \<Longrightarrow> I s \<Longrightarrow> m s = Block s' \<Longrightarrow> I s'"
  by (drule (1) kinvD) simp

lemma kinv_basic [kinv_intros]: "kinv I (kreturn x)" "kinv I (kget g)" "kinv I (kfault e)" "kinv I (kpanic e)"
  by (auto simp: kinv_def)

lemma kinv_modify: "(\<And>s. I s \<Longrightarrow> I (g s)) \<Longrightarrow> kinv I (kmodify g)"
  by (simp add: kinv_def)

lemma kinv_bind [kinv_intros]: "kinv I m \<Longrightarrow> (\<And>x. kinv I (f x)) \<Longrightarrow> kinv I (kbind m f)"
  unfolding kinv_def by (blast intro: ksat_bind)

lemma kinv_seq [kinv_intros]: "kinv I m \<Longrightarrow> kinv I n \<Longrightarrow> kinv I (kseq m n)"
  unfolding kseq_def by (rule kinv_bind)

lemma kinv_if [kinv_intros]: "(c \<Longrightarrow> kinv I m) \<Longrightarrow> (\<not> c \<Longrightarrow> kinv I n) \<Longrightarrow> kinv I (if c then m else n)"
  "(c \<Longrightarrow> kinv I m) \<Longrightarrow> (\<not> c \<Longrightarrow> kinv I n) \<Longrightarrow> kinv I (\<lambda>s. if c then m s else n s)"
  by (simp_all add: kinv_def)

lemma kinv_option [kinv_intros]:
  "(c = None \<Longrightarrow> kinv I m) \<Longrightarrow> (\<And>x. c = Some x \<Longrightarrow> kinv I (f x)) \<Longrightarrow> kinv I (case c of None \<Rightarrow> m | Some x \<Rightarrow> f x)"
  "(c = None \<Longrightarrow> kinv I m) \<Longrightarrow> (\<And>x. c = Some x \<Longrightarrow> kinv I (f x)) \<Longrightarrow> kinv I (\<lambda>s. case c of None \<Rightarrow> m s | Some x \<Rightarrow> f x s)"
  by (auto simp: kinv_def split: option.split)

text \<open>Tests that depend on the state.\<close>

lemma kinv_state: "kinv I m \<Longrightarrow> kinv I n \<Longrightarrow> kinv I (\<lambda>s. if b s then m s else n s)"
  "kinv I m \<Longrightarrow> (\<And>x. kinv I (f x)) \<Longrightarrow> kinv I (\<lambda>s. case d s of None \<Rightarrow> m s | Some x \<Rightarrow> f x s)"
  by (auto simp: kinv_def split: option.split)

text \<open>A recursive function is unfolded once.\<close>

lemma kinv_unfold: "(\<And>s. m s = n s) \<Longrightarrow> kinv I n \<Longrightarrow> kinv I m"
  by (simp add: kinv_def)

lemma kinv_prod [kinv_intros]: "(\<And>a b. p = (a, b) \<Longrightarrow> kinv I (f a b)) \<Longrightarrow> kinv I (case p of (a, b) \<Rightarrow> f a b)"
  "(\<And>a b. p = (a, b) \<Longrightarrow> kinv I (f a b)) \<Longrightarrow> kinv I (\<lambda>s. case p of (a, b) \<Rightarrow> f a b s)"
  by (auto simp: kinv_def split: prod.split)

lemma kinv_sum [kinv_intros]: "(\<And>a. kinv I (f a)) \<Longrightarrow> (\<And>b. kinv I (g b)) \<Longrightarrow> kinv I (case p of Inl a \<Rightarrow> f a | Inr b \<Rightarrow> g b)"
  by (auto split: sum.split)

lemma kinv_let [kinv_intros]: "(\<And>x. kinv I (f x)) \<Longrightarrow> kinv I (let x = e in f x)"
  by (simp add: Let_def)

lemma kinv_for [kinv_intros]: "(\<And>i. kinv I (b i)) \<Longrightarrow> kinv I (kfor ixs b)"
  by (induction ixs) (auto intro: kinv_intros)

lemma kinv_lift: "kinv J m \<Longrightarrow> (\<And>s. I s \<Longrightarrow> J (rd s)) \<Longrightarrow> (\<And>s t. I s \<Longrightarrow> J t \<Longrightarrow> I (wr t s)) \<Longrightarrow> kinv I (klift rd wr m)"
proof (rule kinvI)
  fix s assume a: "kinv J m" "\<And>s. I s \<Longrightarrow> J (rd s)" "\<And>s t. I s \<Longrightarrow> J t \<Longrightarrow> I (wr t s)" "I s"
  have "ksat (m (rd s)) (\<lambda>_. J) J" using kinvD [OF a(1)] a(2,4) by blast
  then show "ksat (klift rd wr m s) (\<lambda>_. I) I" using a(3,4) by (cases "m (rd s)") auto
qed

lemma kinv_any: "kinv (\<lambda>_. True) m"
  by (simp add: kinv_def ksat_def split: outcome.split)

text \<open>An operation that keeps a part of the state whatever its value keeps every predicate of it.\<close>

lemma kinv_part: "(\<And>c. kinv (\<lambda>s. f s = c) m) \<Longrightarrow> kinv (\<lambda>s. P (f s)) m"
proof (rule kinvI)
  fix s assume a: "\<And>c. kinv (\<lambda>s. f s = c) m" "P (f s)"
  have "ksat (m s) (\<lambda>_ s'. f s' = f s) (\<lambda>s'. f s' = f s)" using kinvD [OF a(1), of s "f s"] by simp
  then show "ksat (m s) (\<lambda>_ s. P (f s)) (\<lambda>s. P (f s))" by (rule ksat_mono) (use a(2) in simp_all)
qed

end
