(* ===== verification/Virtio_Props.thy ===== *)
theory Virtio_Props
  imports Virtio Khoare
begin

text \<open>
  What the virtio driver does: the life of a request from submission to completion, and four
  situations in which the driver and a conforming device part ways.
\<close>

section \<open>Layout of the queue pages\<close>

definition pages_ok :: "vdisk \<Rightarrow> bool" where
  "pages_ok d \<longleftrightarrow> length (v_pages d) = 12288"

lemma put_desc_fields [simp]:
  "v_base (put_desc i a l f n d) = v_base d" "v_free (put_desc i a l f n d) = v_free d"
  "v_data (put_desc i a l f n d) = v_data d" "v_status (put_desc i a l f n d) = v_status d"
  "v_used_idx (put_desc i a l f n d) = v_used_idx d" "v_hdr (put_desc i a l f n d) = v_hdr d"
  "v_regs (put_desc i a l f n d) = v_regs d" "v_writes (put_desc i a l f n d) = v_writes d"
  by (simp_all add: put_desc_def)

lemma put_desc_slice:
  assumes "16 * i + 16 \<le> length (v_pages d)" "off + n \<le> length (v_pages d)" "off + n \<le> 16 * i \<or> 16 * i + 16 \<le> off"
  shows "bslice (v_pages (put_desc i a l f nx d)) off n = bslice (v_pages d) off n"
  using assms by (elim disjE) (simp_all add: put_desc_def put16_def put32_def put64_def slice_splice_other)

lemma length_put_desc [simp]:
  "16 * i + 16 \<le> length (v_pages d) \<Longrightarrow> length (v_pages (put_desc i a l f nx d)) = length (v_pages d)"
  by (simp add: put_desc_def)

lemma put_desc_same:
  assumes "16 * i + 16 \<le> length (v_pages d)"
  shows "desc_addr (put_desc i a l f nx d) i = a" "desc_len (put_desc i a l f nx d) i = l"
    "desc_flags (put_desc i a l f nx d) i = f" "desc_next (put_desc i a l f nx d) i = nx"
proof -
  have w: "get64 (put16 bs o2 x) o1 = get64 bs o1" if "o1 + 8 \<le> o2" "o2 + 2 \<le> length bs" for bs o1 o2 x
    using that by (simp add: get64_def put16_def slice_splice_other)
  have v: "get64 (put32 bs o2 y) o1 = get64 bs o1" if "o1 + 8 \<le> o2" "o2 + 4 \<le> length bs" for bs o1 o2 y
    using that by (simp add: get64_def put32_def slice_splice_other)
  have u: "get32 (put16 bs o2 x) o1 = get32 bs o1" if "o1 + 4 \<le> o2" "o2 + 2 \<le> length bs" for bs o1 o2 x
    using that by (simp add: get32_def put16_def slice_splice_other)
  show "desc_addr (put_desc i a l f nx d) i = a" "desc_len (put_desc i a l f nx d) i = l"
    "desc_flags (put_desc i a l f nx d) i = f" "desc_next (put_desc i a l f nx d) i = nx"
    using assms
    by (simp_all add: desc_addr_def desc_len_def desc_flags_def desc_next_def put_desc_def u v w get16_put16_other)
qed

definition desc :: "vdisk \<Rightarrow> nat \<Rightarrow> u64 \<times> u32 \<times> u16 \<times> u16" where
  "desc d i = (desc_addr d i, desc_len d i, desc_flags d i, desc_next d i)"

text \<open>The parts of the queue pages behind the descriptor table.\<close>

definition rings :: "vdisk \<Rightarrow> bytes" where
  "rings d = bslice (v_pages d) 4096 8192"

lemma put_desc_desc:
  assumes "pages_ok d" "i < NUM" "j < NUM"
  shows "desc (put_desc i a l f nx d) j = (if j = i then (a, l, f, nx) else desc d j)"
proof (cases "j = i")
  case True
  then show ?thesis using assms put_desc_same [of i d] by (simp add: desc_def pages_ok_def)
next
  case False
  have "bslice (v_pages (put_desc i a l f nx d)) (16 * j + k) n = bslice (v_pages d) (16 * j + k) n"
    if "k + n \<le> 16" for k n
    using that assms False by (intro put_desc_slice) (auto simp: pages_ok_def)
  from this [of 0 8] this [of 8 4] this [of 12 2] this [of 14 2] show ?thesis using False
    by (simp add: desc_def desc_addr_def desc_len_def desc_flags_def desc_next_def get64_def get32_def get16_def)
qed

lemma put_desc_rings: "pages_ok d \<Longrightarrow> i < NUM \<Longrightarrow> rings (put_desc i a l f nx d) = rings d"
  unfolding rings_def by (rule put_desc_slice) (auto simp: pages_ok_def)

lemma put_desc_ok: "pages_ok d \<Longrightarrow> i < NUM \<Longrightarrow> pages_ok (put_desc i a l f nx d)"
  by (simp add: pages_ok_def)

lemma rings_slice:
  assumes "pages_ok d" "4096 \<le> off" "off + n \<le> 12288"
  shows "bslice (v_pages d) off n = bslice (rings d) (off - 4096) n"
  using assms by (auto simp: rings_def bslice_def pages_ok_def drop_take min_def)

lemma rings_eq:
  assumes "pages_ok d" "pages_ok d'" "rings d' = rings d"
  shows "avail_idx d' = avail_idx d" "used_idx d' = used_idx d" "k < NUM \<Longrightarrow> used_id d' k = used_id d k"
    "k < NUM \<Longrightarrow> get16 (v_pages d') (4100 + 2 * k) = get16 (v_pages d) (4100 + 2 * k)"
  using assms by (simp_all add: avail_idx_def used_idx_def used_id_def get16_def get32_def rings_slice)

section \<open>Chains\<close>

lemma desc_upd [simp]:
  "desc (d\<lparr>v_hdr := h\<rparr>) i = desc d i" "desc (d\<lparr>v_status := st\<rparr>) i = desc d i" "desc (d\<lparr>v_data := da\<rparr>) i = desc d i"
  "desc (d\<lparr>v_free := fr\<rparr>) i = desc d i" "desc (d\<lparr>v_writes := ws\<rparr>) i = desc d i"
  by (simp_all add: desc_def desc_addr_def desc_len_def desc_flags_def desc_next_def)

lemma rings_upd [simp]:
  "rings (d\<lparr>v_hdr := h\<rparr>) = rings d" "rings (d\<lparr>v_status := st\<rparr>) = rings d" "rings (d\<lparr>v_data := da\<rparr>) = rings d"
  "rings (d\<lparr>v_free := fr\<rparr>) = rings d" "rings (d\<lparr>v_writes := ws\<rparr>) = rings d"
  by (simp_all add: rings_def)

lemma pages_ok_upd [simp]:
  "pages_ok (d\<lparr>v_hdr := h\<rparr>) = pages_ok d" "pages_ok (d\<lparr>v_status := st\<rparr>) = pages_ok d" "pages_ok (d\<lparr>v_data := da\<rparr>) = pages_ok d"
  "pages_ok (d\<lparr>v_free := fr\<rparr>) = pages_ok d" "pages_ok (d\<lparr>v_writes := ws\<rparr>) = pages_ok d"
  by (simp_all add: pages_ok_def)

text \<open>The request a chain describes.\<close>

definition request :: "u64 \<Rightarrow> u64 \<Rightarrow> u64 \<Rightarrow> bool \<Rightarrow> nat \<Rightarrow> nat \<Rightarrow> nat \<Rightarrow> vdisk \<Rightarrow> bool" where
  "request blockno hdr data wr i0 i1 i2 d \<longleftrightarrow>
     v_hdr d hdr = \<lparr>h_type = (if wr then 1 else 0), h_reserved = 0, h_sector = 2 * blockno\<rparr> \<and>
     desc d i0 = (hdr, 16, 1, of_nat i1) \<and>
     desc d i1 = (data, 1024, if wr then 1 else 3, of_nat i2) \<and>
     desc d i2 = (status_addr d i0, 1, 2, 0)"

lemma build_chain_run:
  assumes ok: "pages_ok d" and i: "i0 < NUM" "i1 < NUM" "i2 < NUM" "distinct [i0, i1, i2]"
    and d': "d' = build_chain blockno hdr data wr (i0, i1, i2) d"
  shows "pages_ok d'" "request blockno hdr data wr i0 i1 i2 d'" "rings d' = rings d" "v_free d' = v_free d"
    "v_status d' = (v_status d)(i0 := 255)" "\<And>j. j < NUM \<Longrightarrow> j \<notin> {i0, i1, i2} \<Longrightarrow> desc d' j = desc d j"
    "v_used_idx d' = v_used_idx d"
proof -
  define d1 where "d1 = d\<lparr>v_hdr := (v_hdr d)(hdr := \<lparr>h_type = (if wr then 1 else 0), h_reserved = 0, h_sector = blockno * 2\<rparr>)\<rparr>"
  define d2 where "d2 = put_desc i0 hdr 16 VRING_DESC_F_NEXT (of_nat i1) d1"
  define d3 where "d3 = put_desc i1 data 1024 ((if wr then 0 else VRING_DESC_F_WRITE) OR VRING_DESC_F_NEXT) (of_nat i2) d2"
  define d4 where "d4 = d3\<lparr>v_status := (v_status d3)(i0 := 0xff)\<rparr>"
  define d5 where "d5 = put_desc i2 (status_addr d4 i0) 1 VRING_DESC_F_WRITE 0 d4"
  have e: "d' = d5\<lparr>v_data := (v_data d5)(i0 := data)\<rparr>"
    unfolding d' build_chain_def d1_def d2_def d3_def d4_def d5_def by (simp add: Let_def)
  have o1: "pages_ok d1" using ok by (simp add: d1_def)
  have o2: "pages_ok d2" using o1 i unfolding d2_def by (simp add: put_desc_ok)
  have o3: "pages_ok d3" using o2 i unfolding d3_def by (simp add: put_desc_ok)
  have o4: "pages_ok d4" using o3 by (simp add: d4_def)
  have o5: "pages_ok d5" using o4 i unfolding d5_def by (simp add: put_desc_ok)
  have flags: "(if wr then 0 else VRING_DESC_F_WRITE) OR VRING_DESC_F_NEXT = (if wr then 1 else 3)" by simp
  have c: "desc d5 j = (if j = i2 then (status_addr d i0, 1, 2, 0) else if j = i1 then (data, 1024, if wr then 1 else 3, of_nat i2)
      else if j = i0 then (hdr, 16, 1, of_nat i1) else desc d j)" if "j < NUM" for j
    using that i o1 o2 o3 o4
    by (auto simp: d5_def d4_def d3_def d2_def d1_def put_desc_desc put_desc_ok status_addr_def)
  show "pages_ok d'" using o5 by (simp add: e)
  show "rings d' = rings d"
    using o1 o2 o3 o4 i by (simp add: e d5_def put_desc_rings) (simp add: d4_def d3_def put_desc_rings, simp add: d2_def d1_def put_desc_rings)
  show "v_free d' = v_free d" "v_status d' = (v_status d)(i0 := 255)" "v_used_idx d' = v_used_idx d"
    by (simp_all add: e d5_def d4_def d3_def d2_def d1_def)
  show "desc d' j = desc d j" if "j < NUM" "j \<notin> {i0, i1, i2}" for j using c [OF that(1)] that(2) by (simp add: e)
  show "request blockno hdr data wr i0 i1 i2 d'"
    using c i by (auto simp: request_def e status_addr_def d5_def d4_def d3_def d2_def d1_def)
qed

section \<open>Allocation and release\<close>

lemma alloc_desc_Some:
  "alloc_desc s = Done (Some i) s' \<longleftrightarrow> find (v_free (vs_disk s)) [0..<NUM] = Some i \<and>
     s' = s\<lparr>vs_disk := (vs_disk s)\<lparr>v_free := (v_free (vs_disk s))(i := False)\<rparr>\<rparr>"
  by (auto simp: alloc_desc_def vupd_def kseq_def split: option.split)

lemma alloc_desc_free:
  assumes "\<exists>i<NUM. v_free (vs_disk s) i"
  shows "\<exists>i<NUM. v_free (vs_disk s) i \<and> alloc_desc s = Done (Some i) (s\<lparr>vs_disk := (vs_disk s)\<lparr>v_free := (v_free (vs_disk s))(i := False)\<rparr>\<rparr>)"
proof (cases "find (v_free (vs_disk s)) [0..<NUM]")
  case None
  then show ?thesis using assms by (auto simp: find_None_iff simp del: upt_rec_numeral)
next
  case (Some i)
  then have "i < NUM" "v_free (vs_disk s) i" by (auto simp: find_Some_iff simp del: upt_rec_numeral)
  with Some show ?thesis using alloc_desc_Some by blast
qed

definition three_free :: "vdisk \<Rightarrow> bool" where
  "three_free d \<longleftrightarrow> (\<exists>x y z. distinct [x, y, z] \<and> x < NUM \<and> y < NUM \<and> z < NUM \<and> v_free d x \<and> v_free d y \<and> v_free d z)"

lemma alloc3_run:
  assumes "three_free (vs_disk s)"
  obtains a b c where "a < NUM" "b < NUM" "c < NUM" "distinct [a, b, c]"
    "v_free (vs_disk s) a" "v_free (vs_disk s) b" "v_free (vs_disk s) c"
    "alloc3_desc s = Done (Some (a, b, c)) (s\<lparr>vs_disk := (vs_disk s)\<lparr>v_free := (v_free (vs_disk s))(a := False, b := False, c := False)\<rparr>\<rparr>)"
proof -
  let ?f = "v_free (vs_disk s)"
  obtain x y z where xyz: "distinct [x, y, z]" "x < NUM" "y < NUM" "z < NUM" "?f x" "?f y" "?f z"
    using assms unfolding three_free_def by blast
  let ?S = "\<lambda>g. s\<lparr>vs_disk := (vs_disk s)\<lparr>v_free := g\<rparr>\<rparr>"
  have step: "\<exists>i<NUM. g i \<and> alloc_desc (?S g) = Done (Some i) (?S (g(i := False)))" if "\<exists>i<NUM. g i" for g
    using alloc_desc_free [of "?S g"] that by auto
  have s: "?S ?f = s" by simp
  obtain a where a: "a < NUM" "?f a" "alloc_desc s = Done (Some a) (?S (?f(a := False)))"
    using step [of ?f] xyz unfolding s by blast
  obtain b where b: "b < NUM" "(?f(a := False)) b" "alloc_desc (?S (?f(a := False))) = Done (Some b) (?S (?f(a := False, b := False)))"
    using step [of "?f(a := False)"] xyz by (metis distinct_length_2_or_more fun_upd_other)
  have "\<exists>i<NUM. (?f(a := False, b := False)) i" using xyz by (metis distinct_length_2_or_more fun_upd_other)
  then obtain c where c: "c < NUM" "(?f(a := False, b := False)) c"
      "alloc_desc (?S (?f(a := False, b := False))) = Done (Some c) (?S (?f(a := False, b := False, c := False)))"
    using step by blast
  have "alloc3_desc s = Done (Some (a, b, c)) (?S (?f(a := False, b := False, c := False)))"
    using a(3) b(3) c(3) by (simp add: alloc3_desc_def)
  moreover have "distinct [a, b, c]" "?f b" "?f c" using a b c by (auto split: if_splits)
  ultimately show ?thesis using that a(1,2) b(1) c(1) by blast
qed

lemma clear_addr_desc:
  assumes "pages_ok d" "i < NUM" "j < NUM"
  shows "desc_flags (d\<lparr>v_pages := put64 (v_pages d) (16 * i) 0, v_free := g\<rparr>) j = desc_flags d j"
    "desc_next (d\<lparr>v_pages := put64 (v_pages d) (16 * i) 0, v_free := g\<rparr>) j = desc_next d j"
    "j \<noteq> i \<Longrightarrow> desc (d\<lparr>v_pages := put64 (v_pages d) (16 * i) 0, v_free := g\<rparr>) j = desc d j"
proof -
  have other: "bslice (put64 (v_pages d) (16 * i) 0) (16 * j + k) n = bslice (v_pages d) (16 * j + k) n"
    if "k + n \<le> 16" "j = i \<longrightarrow> 8 \<le> k" for k n
  proof -
    have "16 * j + k + n \<le> 16 * i \<or> 16 * i + 8 \<le> 16 * j + k" using that by (cases j i rule: linorder_cases) auto
    then show ?thesis using that assms
      by (simp add: put64_def slice_splice_other pages_ok_def)
  qed
  show "desc_flags (d\<lparr>v_pages := put64 (v_pages d) (16 * i) 0, v_free := g\<rparr>) j = desc_flags d j"
    "desc_next (d\<lparr>v_pages := put64 (v_pages d) (16 * i) 0, v_free := g\<rparr>) j = desc_next d j"
    using other [of 12 2] other [of 14 2] by (simp_all add: desc_flags_def desc_next_def get16_def)
  show "desc (d\<lparr>v_pages := put64 (v_pages d) (16 * i) 0, v_free := g\<rparr>) j = desc d j" if "j \<noteq> i"
    using that other [of 0 8] other [of 8 4] other [of 12 2] other [of 14 2]
    by (simp add: desc_def desc_addr_def desc_len_def desc_flags_def desc_next_def get64_def get32_def get16_def)
qed

text \<open>Freeing the chain of a request frees its three descriptors and nothing else.\<close>

lemma free_chain_last:
  assumes "i < NUM" "\<not> v_free (vs_disk s) i" "desc_flags (vs_disk s) i AND 1 = 0"
  shows "\<exists>s'. free_chain i s = Done () s' \<and> v_free (vs_disk s') = (v_free (vs_disk s))(i := True)"
proof -
  obtain s' where s': "free_desc i s = Done () s'" using assms by (simp add: free_desc_run)
  then have "v_free (vs_disk s') = (v_free (vs_disk s))(i := True)" by (simp add: free_desc_run)
  moreover have "free_chain i s = Done () s'" using s' assms by (subst free_chain.simps) simp
  ultimately show ?thesis by blast
qed

lemma free_chain_step:
  assumes "pages_ok (vs_disk s)" "i < NUM" "\<not> v_free (vs_disk s) i" "desc_flags (vs_disk s) i AND 1 \<noteq> 0"
    and "unat (desc_next (vs_disk s) i) = k"
  shows "\<exists>s'. free_chain i s = free_chain k s' \<and> pages_ok (vs_disk s') \<and> v_free (vs_disk s') = (v_free (vs_disk s))(i := True) \<and>
    (\<forall>j<NUM. desc_flags (vs_disk s') j = desc_flags (vs_disk s) j \<and> desc_next (vs_disk s') j = desc_next (vs_disk s) j)"
proof -
  obtain s' where s': "free_desc i s = Done () s'" using assms by (simp add: free_desc_run)
  then have e: "vs_disk s' = (vs_disk s)\<lparr>v_pages := put64 (v_pages (vs_disk s)) (16 * i) 0, v_free := (v_free (vs_disk s))(i := True)\<rparr>"
    by (simp add: free_desc_run)
  have "free_chain i s = free_chain k s'" using s' assms by (subst free_chain.simps) simp
  moreover have "pages_ok (vs_disk s')" using assms by (simp add: e pages_ok_def)
  ultimately show ?thesis using assms clear_addr_desc by (auto simp: e)
qed

lemma free_chain_request:
  assumes ok: "pages_ok (vs_disk s)" and i: "i0 < NUM" "i1 < NUM" "i2 < NUM" "distinct [i0, i1, i2]"
    and busy: "\<not> v_free (vs_disk s) i0" "\<not> v_free (vs_disk s) i1" "\<not> v_free (vs_disk s) i2"
    and req: "request blockno hdr data wr i0 i1 i2 (vs_disk s)"
  shows "\<exists>s'. free_chain i0 s = Done () s' \<and> v_free (vs_disk s') = (v_free (vs_disk s))(i0 := True, i1 := True, i2 := True)"
proof -
  have u: "unat (of_nat k :: u16) = k" if "k < NUM" for k using that by (simp add: unat_of_nat)
  have f: "desc_flags (vs_disk s) i0 AND 1 \<noteq> 0" "desc_flags (vs_disk s) i1 AND 1 \<noteq> 0" "desc_flags (vs_disk s) i2 AND 1 = 0"
      "unat (desc_next (vs_disk s) i0) = i1" "unat (desc_next (vs_disk s) i1) = i2"
    using req i u by (auto simp: request_def desc_def)
  obtain s1 where s1: "free_chain i0 s = free_chain i1 s1" "pages_ok (vs_disk s1)" "v_free (vs_disk s1) = (v_free (vs_disk s))(i0 := True)"
      "\<forall>j<NUM. desc_flags (vs_disk s1) j = desc_flags (vs_disk s) j \<and> desc_next (vs_disk s1) j = desc_next (vs_disk s) j"
    using free_chain_step [OF ok i(1) busy(1) f(1) f(4)] by blast
  have b1: "\<not> v_free (vs_disk s1) i1" and g1: "desc_flags (vs_disk s1) i1 AND 1 \<noteq> 0" "unat (desc_next (vs_disk s1) i1) = i2"
    using s1 i busy f by auto
  obtain s2 where s2: "free_chain i1 s1 = free_chain i2 s2" "v_free (vs_disk s2) = (v_free (vs_disk s1))(i1 := True)"
      "\<forall>j<NUM. desc_flags (vs_disk s2) j = desc_flags (vs_disk s1) j \<and> desc_next (vs_disk s2) j = desc_next (vs_disk s1) j"
    using free_chain_step [OF s1(2) i(2) b1 g1] by blast
  have "\<not> v_free (vs_disk s2) i2" "desc_flags (vs_disk s2) i2 AND 1 = 0" using s1 s2 i busy f by auto
  then obtain s3 where "free_chain i2 s2 = Done () s3" "v_free (vs_disk s3) = (v_free (vs_disk s2))(i2 := True)"
    using free_chain_last [OF i(3)] by blast
  then show ?thesis using s1 s2 by auto
qed

section \<open>Submission\<close>

text \<open>
  Entry \<open>k\<close> of the available ring at the place the driver gives it, \<^verbatim>\<open>disk.avail[2 + k]\<close> in the second queue page.
\<close>

definition avail_ring :: "vdisk \<Rightarrow> nat \<Rightarrow> u16" where
  "avail_ring d k = get16 (v_pages d) (4100 + 2 * k)"

lemma publish_run:
  assumes ok: "pages_ok (vs_disk s)" and a: "unat (avail_idx (vs_disk s)) = a" "a \<le> 4093"
  obtains d' where "publish head s = Done () (s\<lparr>vs_disk := d'\<rparr>)" "pages_ok d'" "v_free d' = v_free (vs_disk s)"
    "v_status d' = v_status (vs_disk s)" "v_hdr d' = v_hdr (vs_disk s)" "v_writes d' = v_writes (vs_disk s)"
    "v_base d' = v_base (vs_disk s)" "v_used_idx d' = v_used_idx (vs_disk s)"
    "avail_idx d' = avail_idx (vs_disk s) + 1" "\<And>j. j < NUM \<Longrightarrow> desc d' j = desc (vs_disk s) j"
    "\<And>k. k < NUM \<Longrightarrow> avail_ring d' k = (if k = a then of_nat head else avail_ring (vs_disk s) k)"
    "used_idx d' = (if a = 2047 then of_nat head else used_idx (vs_disk s))"
proof -
  let ?d = "vs_disk s" and ?off = "4096 + 2 * (2 + a)"
  let ?p1 = "put16 (v_pages ?d) ?off (of_nat head)"
  define d' where "d' = ?d\<lparr>v_pages := put16 ?p1 4098 (avail_idx ?d + 1)\<rparr>"
  have len: "length (v_pages ?d) = 12288" using ok by (simp add: pages_ok_def)
  have i1: "get16 ?p1 4098 = avail_idx ?d" using a len by (simp add: avail_idx_def get16_put16_other)
  have run: "publish head s = Done () (s\<lparr>vs_disk := d'\<rparr>)"
    using a i1 by (simp add: publish_def vupd_def d'_def avail_idx_def Let_def)
  have g: "get16 (v_pages d') o' = (if o' = ?off then of_nat head else get16 (v_pages ?d) o')"
    if "o' \<noteq> 4098" "even o'" "o' + 2 \<le> 12288" for o'
  proof -
    have "o' + 2 \<le> 4098 \<or> 4098 + 2 \<le> o'" using that by presburger
    then have e: "get16 (v_pages d') o' = get16 ?p1 o'" using that len a by (simp add: d'_def get16_put16_other)
    show ?thesis
    proof (cases "o' = ?off")
      case True
      then show ?thesis using e len a by simp
    next
      case False
      then have "o' + 2 \<le> ?off \<or> ?off + 2 \<le> o'" using that(2) by presburger
      then show ?thesis using e False that len a by (simp add: get16_put16_other)
    qed
  qed
  have sl: "bslice (v_pages d') o' n = bslice (v_pages ?d) o' n" if "o' + n \<le> 4096" for o' n
    using that len a by (simp add: d'_def put16_def slice_splice_other)
  have "desc d' j = desc ?d j" if "j < NUM" for j
    using that sl by (simp add: desc_def desc_addr_def desc_len_def desc_flags_def desc_next_def get64_def get32_def get16_def)
  moreover have "avail_ring d' k = (if k = a then of_nat head else avail_ring ?d k)" if "k < NUM" for k
    using g [of "4100 + 2 * k"] that by (auto simp: avail_ring_def)
  moreover have "used_idx d' = (if a = 2047 then of_nat head else used_idx ?d)"
    using g [of 8194] by (auto simp: used_idx_def)
  moreover have "avail_idx d' = avail_idx ?d + 1" using len a by (simp add: d'_def avail_idx_def)
  moreover have "pages_ok d'" using len a by (simp add: d'_def pages_ok_def)
  ultimately show ?thesis using run that by (simp add: d'_def)
qed

lemma sector_check: "unat (b :: u64) < 2 ^ 61 - 1 \<Longrightarrow> b AND 0x1fffffffffffffff \<noteq> 0x1fffffffffffffff"
proof
  assume lt: "unat b < 2 ^ 61 - 1" and eq: "b AND 0x1fffffffffffffff = 0x1fffffffffffffff"
  have "(0x1fffffffffffffff :: u64) = mask 61" by (simp add: mask_eq_exp_minus_1)
  then have "take_bit 61 b = 0x1fffffffffffffff" using eq by (simp add: take_bit_eq_mask)
  then have "unat (take_bit 61 b) = 0x1fffffffffffffff" by simp
  moreover have "unat (take_bit 61 b) = unat b mod 2 ^ 61" by (simp add: take_bit_eq_mod unat_mod)
  ultimately show False using lt by simp
qed

lemma request_upd [simp]:
  "request bl h da wr i0 i1 i2 (d\<lparr>v_status := st\<rparr>) = request bl h da wr i0 i1 i2 d"
  "request bl h da wr i0 i1 i2 (d\<lparr>v_writes := ws\<rparr>) = request bl h da wr i0 i1 i2 d"
  by (simp_all add: request_def status_addr_def)

lemma vsleep_run:
  assumes "cur (vs_pt s) = Some p"
  shows "vsleep ch r s = Done r (s\<lparr>vs_pt := upd_proc p (\<lambda>q. q\<lparr>p_chan := ch, p_state := SLEEPING\<rparr>) (vs_pt s)\<rparr>)"
  using assms by (simp add: vsleep_def sleep_def myproc_def kbind_def)

section \<open>Properties\<close>

text \<open>
  C23. The life of one of the first eight disk requests (the available index is below 8). With three free descriptors the
  submission of a logical block takes three distinct free descriptors, builds from them the chain
  header (sector \<open>2 * blockno\<close>, direction), data (1024 bytes, device-writable exactly for a read) and status byte,
  leaves every other descriptor alone, puts the chain head into the entry of the available ring that the index names, in
  the page where the driver keeps this ring, advances the index, notifies the device and sleeps on the
  bookkeeping entry of that chain. Once the status byte reads 0, the resumed call returns and the
  free map is what it was before. Where a device looks for the ring, and the ninth request, are not part of this property.
\<close>

theorem virtio_request_lifecycle:
  assumes "pages_ok (vs_disk s)" and "three_free (vs_disk s)" and "cur (vs_pt s) = Some p"
    and "unat (avail_idx (vs_disk s)) = a" and "a < NUM" and "unat blockno < 2 ^ 61 - 1"
  shows "\<exists>i0 i1 i2 s'. virtio_disk_rw (\<lambda>d. d) hdr blockno data wr s = Done (Wait_io i0) s' \<and>
    i0 < NUM \<and> i1 < NUM \<and> i2 < NUM \<and> distinct [i0, i1, i2] \<and>
    v_free (vs_disk s) i0 \<and> v_free (vs_disk s) i1 \<and> v_free (vs_disk s) i2 \<and>
    v_free (vs_disk s') = (v_free (vs_disk s))(i0 := False, i1 := False, i2 := False) \<and>
    request blockno hdr data wr i0 i1 i2 (vs_disk s') \<and>
    (\<forall>j<NUM. j \<notin> {i0, i1, i2} \<longrightarrow> desc (vs_disk s') j = desc (vs_disk s) j) \<and>
    avail_ring (vs_disk s') a = of_nat i0 \<and> avail_idx (vs_disk s') = avail_idx (vs_disk s) + 1 \<and>
    v_status (vs_disk s') i0 = 255 \<and> v_writes (vs_disk s') = v_writes (vs_disk s) @ [(0x50, 0)] \<and>
    p_state (procs (vs_pt s') p) = SLEEPING \<and> p_chan (procs (vs_pt s') p) = ChanDiskInfo i0 \<and>
    (\<forall>t. vs_disk t = (vs_disk s')\<lparr>v_status := (v_status (vs_disk s'))(i0 := 0)\<rparr> \<longrightarrow>
      (\<exists>t'. rw_wait i0 t = Done Rw_done t' \<and> v_free (vs_disk t') = v_free (vs_disk s)))"
proof -
  let ?d = "vs_disk s"
  obtain i0 i1 i2 where i: "i0 < NUM" "i1 < NUM" "i2 < NUM" "distinct [i0, i1, i2]" "v_free ?d i0" "v_free ?d i1" "v_free ?d i2"
    and al: "alloc3_desc s = Done (Some (i0, i1, i2)) (s\<lparr>vs_disk := ?d\<lparr>v_free := (v_free ?d)(i0 := False, i1 := False, i2 := False)\<rparr>\<rparr>)"
    using alloc3_run [OF assms(2)] by metis
  define d1 where "d1 = ?d\<lparr>v_free := (v_free ?d)(i0 := False, i1 := False, i2 := False)\<rparr>"
  define d2 where "d2 = build_chain blockno hdr data wr (i0, i1, i2) d1"
  have ok1: "pages_ok d1" using assms(1) by (simp add: d1_def)
  note bc = build_chain_run [OF ok1 i(1-4) d2_def]
  have av: "avail_idx d2 = avail_idx ?d" using rings_eq(1) [OF ok1 bc(1,3)] by (simp add: d1_def avail_idx_def)
  obtain d3 where p: "publish i0 (s\<lparr>vs_disk := d2\<rparr>) = Done () (s\<lparr>vs_disk := d3\<rparr>)" "pages_ok d3" "v_free d3 = v_free d2"
      "v_status d3 = v_status d2" "v_hdr d3 = v_hdr d2" "v_writes d3 = v_writes d2" "v_base d3 = v_base d2"
      "avail_idx d3 = avail_idx d2 + 1" "\<And>j. j < NUM \<Longrightarrow> desc d3 j = desc d2 j" "avail_ring d3 a = of_nat i0"
    using publish_run [of "s\<lparr>vs_disk := d2\<rparr>" a i0] bc(1) av assms(4,5) by (simp del: One_nat_def) metis
  define d4 where "d4 = d3\<lparr>v_writes := v_writes d3 @ [(0x50, 0)]\<rparr>"
  define s' where "s' = s\<lparr>vs_pt := upd_proc p (\<lambda>q. q\<lparr>p_chan := ChanDiskInfo i0, p_state := SLEEPING\<rparr>) (vs_pt s), vs_disk := d4\<rparr>"
  have w2: "v_writes d2 = v_writes ?d"
    by (simp add: d2_def build_chain_def d1_def Let_def)
  have st: "v_status d4 i0 = 255" using p(4) bc(5) by (simp add: d4_def)
  have run: "virtio_disk_rw (\<lambda>d. d) hdr blockno data wr s = Done (Wait_io i0) s'"
    using al p(1) st sector_check [OF assms(6)] assms(3)
    by (simp add: virtio_disk_rw_def vupd_def reg_write_def d1_def [symmetric] d2_def [symmetric] d4_def [symmetric]
        rw_wait_def vsleep_run s'_def)
  have req: "request blockno hdr data wr i0 i1 i2 d4"
    using bc(2) p(5,7,9) i(1-3) by (simp add: d4_def request_def status_addr_def)
  have fr: "v_free d4 = (v_free ?d)(i0 := False, i1 := False, i2 := False)" using p(3) bc(4) by (simp add: d4_def d1_def)
  have ok4: "pages_ok d4" using p(2) by (simp add: d4_def)
  have fin: "\<exists>t'. rw_wait i0 t = Done Rw_done t' \<and> v_free (vs_disk t') = v_free ?d"
    if t: "vs_disk t = d4\<lparr>v_status := (v_status d4)(i0 := 0)\<rparr>" for t
  proof -
    have "\<exists>t'. free_chain i0 t = Done () t' \<and> v_free (vs_disk t') = (v_free (vs_disk t))(i0 := True, i1 := True, i2 := True)"
      by (rule free_chain_request [OF _ i(1-4), of _ blockno hdr data wr]) (simp_all add: t ok4 fr req i(4) [simplified])
    moreover have "(v_free (vs_disk t))(i0 := True, i1 := True, i2 := True) = v_free ?d"
      using t fr i by (auto simp: fun_eq_iff)
    ultimately show ?thesis using t by (auto simp: rw_wait_def)
  qed
  have others: "\<forall>j<NUM. j \<notin> {i0, i1, i2} \<longrightarrow> desc d4 j = desc ?d j"
    using p(9) bc(6) by (simp add: d4_def d1_def)
  show ?thesis
    using run i fr req others p(8,10) av st w2 p(6) fin
    by (intro exI [of _ i0] exI [of _ i1] exI [of _ i2] exI [of _ s'])
       (auto simp: s'_def d4_def avail_idx_def avail_ring_def upd_proc_def)
qed

text \<open>A driver state with an idle queue and a running process.\<close>

definition demo_vdisk :: vdisk where
  "demo_vdisk = \<lparr>v_base = 0x80010000, v_pages = replicate 12288 0, v_free = (\<lambda>i. i < NUM), v_data = (\<lambda>_. 0), v_status = (\<lambda>_. 0),
     v_used_idx = 0, v_hdr = (\<lambda>_. \<lparr>h_type = 0, h_reserved = 0, h_sector = 0\<rparr>), v_regs = (\<lambda>_. 0), v_writes = []\<rparr>"

definition demo_vst :: vst where
  "demo_vst = \<lparr>vs_pt = ptable_bss\<lparr>cur := Some 0\<rparr>, vs_disk = demo_vdisk\<rparr>"

lemma demo_vdisk_ok: "pages_ok demo_vdisk" "three_free demo_vdisk" "avail_idx demo_vdisk = 0" "used_idx demo_vdisk = 0"
proof -
  show "three_free demo_vdisk" unfolding three_free_def
    by (intro exI [of _ "0 :: nat"] exI [of _ "1 :: nat"] exI [of _ "2 :: nat"]) (simp add: demo_vdisk_def)
qed (simp_all add: demo_vdisk_def pages_ok_def avail_idx_def used_idx_def)

theorem virtio_request_lifecycle_witness:
  "\<exists>i0 s'. virtio_disk_rw (\<lambda>d. d) 0x80020000 5 0x80030000 False demo_vst = Done (Wait_io i0) s' \<and>
     avail_ring (vs_disk s') 0 = of_nat i0 \<and> v_hdr (vs_disk s') 0x80020000 = \<lparr>h_type = 0, h_reserved = 0, h_sector = 10\<rparr>"
proof -
  have "pages_ok (vs_disk demo_vst)" "three_free (vs_disk demo_vst)" "cur (vs_pt demo_vst) = Some 0"
      "unat (avail_idx (vs_disk demo_vst)) = 0" "(0 :: nat) < NUM" "unat (5 :: u64) < 2 ^ 61 - 1"
    using demo_vdisk_ok by (simp_all add: demo_vst_def)
  from virtio_request_lifecycle [OF this, where hdr = "0x80020000" and data = "0x80030000" and wr = False] show ?thesis
    unfolding request_def by fastforce
qed

text \<open>
  What a device that finds the used ring where the driver keeps it, in the third queue page, does to complete the
  request at \<open>head\<close>: it stores the result in the status byte the chain names, records the chain in the next
  entry of the used ring and advances its index.
\<close>

definition dev_complete :: "nat \<Rightarrow> u8 \<Rightarrow> u32 \<Rightarrow> vdisk \<Rightarrow> vdisk" where
  "dev_complete head st len d = (let k = unat (used_idx d) mod NUM in
     d\<lparr>v_pages := put16 (put32 (put32 (v_pages d) (8196 + 8 * k) (of_nat head)) (8200 + 8 * k) len) 8194 (used_idx d + 1),
       v_status := (v_status d)(head := st)\<rparr>)"

lemma dev_complete_rings:
  assumes "pages_ok d" "head < NUM"
  shows "used_idx (dev_complete head st len d) = used_idx d + 1"
    "used_id (dev_complete head st len d) (unat (used_idx d) mod NUM) = of_nat head"
proof -
  have k: "unat (used_idx d) mod NUM < NUM" by simp
  have len: "length (v_pages d) = 12288" using assms(1) by (simp add: pages_ok_def)
  have o: "get32 (put16 bs o2 x) o1 = get32 bs o1" if "o2 + 2 \<le> o1" "o1 + 4 \<le> length bs" for bs o1 o2 x
    using that by (simp add: get32_def put16_def slice_splice_other)
  show "used_idx (dev_complete head st len d) = used_idx d + 1"
    "used_id (dev_complete head st len d) (unat (used_idx d) mod NUM) = of_nat head"
    using k len by (simp_all add: dev_complete_def used_idx_def used_id_def Let_def o get32_put32_other)
qed

lemma unat_ucast16: "unat (ucast (x :: u16) :: u32) = unat x"
proof -
  have "unat x < 2 ^ 32" using unat_bound [of x] by simp
  then show ?thesis by (simp add: unsigned_ucast_eq take_bit_nat_eq_self)
qed

lemma used_id_writes [simp]: "used_id (d\<lparr>v_writes := ws\<rparr>) k = used_id d k"
  by (simp add: used_id_def)

lemma ucast_step:
  assumes "x \<noteq> (0xffff :: u16)"
  shows "unat (ucast (x + 1) - ucast x :: u32) = 1"
proof -
  have lt: "unat x < 65535"
  proof -
    have "unat x < 65536" using unat_bound [of x] by simp
    moreover have "unat x \<noteq> 65535" using assms by (simp add: word_unat_eq_iff)
    ultimately show ?thesis by linarith
  qed
  then have "unat (x + 1) = unat x + 1" by (simp add: unat_word_ariths)
  then have "(ucast (x + 1) :: u32) = ucast x + 1" by (metis of_nat_1 of_nat_add of_nat_unat)
  then show ?thesis by simp
qed

text \<open>
  C24. The interrupt handler rejects every completion of a device that uses the driver's ring as the virtio standard
  says. The device stores its result (0 for success) in the status byte before it publishes the used entry, but the handler
  expects the byte to be still \<^verbatim>\<open>0xff\<close> at that time, so it panics.
\<close>

theorem virtio_completion_panics:
  assumes "pages_ok d" and "used_idx d = v_used_idx d" and "used_idx d \<noteq> 0xffff"
    and "head < NUM" and "st \<noteq> 255" and "vs_disk s = dev_complete head st len d"
  shows "virtio_disk_intr s = Panic ''virtio_disk_intr: status''"
proof -
  let ?d = "vs_disk s"
  have u: "used_idx ?d = used_idx d + 1" and i: "used_id ?d (unat (used_idx d) mod NUM) = of_nat head"
    using dev_complete_rings [OF assms(1,4)] by (simp_all add: assms(6))
  have v: "v_used_idx ?d = used_idx d" "v_status ?d head = st" using assms(2,6) by (simp_all add: dev_complete_def Let_def)
  have n: "unat (ucast (used_idx ?d) - ucast (v_used_idx ?d) :: u32) = 1"
    using ucast_step [OF assms(3)] by (simp add: u v)
  have "unat (of_nat head :: u32) = head" using assms(4) by (simp add: unat_of_nat)
  then have "intr_one 0 (s\<lparr>vs_disk := ?d\<lparr>v_writes := ws\<rparr>\<rparr>) = Panic ''virtio_disk_intr: status''" for ws
    using i v assms(4,5) by (simp add: intr_one_def Let_def unat_ucast16)
  then show ?thesis
    using n by (simp add: virtio_disk_intr_def reg_write_def vupd_def)
qed

theorem virtio_completion_panics_witness:
  "virtio_disk_intr (demo_vst\<lparr>vs_disk := dev_complete 0 0 1 demo_vdisk\<rparr>) = Panic ''virtio_disk_intr: status''"
  by (rule virtio_completion_panics [of demo_vdisk 0 0 _ 1]) (simp_all add: demo_vdisk_ok, simp add: demo_vdisk_def)

text \<open>
  C25. The available ring is written without reducing the index modulo its size. From the ninth
  submission on none of the eight entries of the ring is written any more, and the submission
  with index 2047 overwrites the device's own index in the driver's used ring.
\<close>

theorem virtio_avail_ring_overrun:
  assumes "pages_ok (vs_disk s)" and "unat (avail_idx (vs_disk s)) = a" and "NUM \<le> a" and "a \<le> 4093"
  shows "\<exists>s'. publish head s = Done () s' \<and> avail_idx (vs_disk s') = avail_idx (vs_disk s) + 1 \<and>
    (\<forall>k<NUM. avail_ring (vs_disk s') k = avail_ring (vs_disk s) k) \<and>
    (a = 2047 \<longrightarrow> used_idx (vs_disk s') = of_nat head)"
proof -
  obtain d' where "publish head s = Done () (s\<lparr>vs_disk := d'\<rparr>)" "avail_idx d' = avail_idx (vs_disk s) + 1"
      "\<And>k. k < NUM \<Longrightarrow> avail_ring d' k = (if k = a then of_nat head else avail_ring (vs_disk s) k)"
      "used_idx d' = (if a = 2047 then of_nat head else used_idx (vs_disk s))"
    using publish_run [OF assms(1,2,4)] by blast
  then show ?thesis using assms(3) by (intro exI [of _ "s\<lparr>vs_disk := d'\<rparr>"]) auto
qed

theorem virtio_avail_ring_overrun_witness:
  "\<exists>s'. publish 3 (demo_vst\<lparr>vs_disk := demo_vdisk\<lparr>v_pages := put16 (replicate 12288 0) 4098 2047\<rparr>\<rparr>) = Done () s' \<and>
     used_idx (vs_disk s') = 3"
proof -
  let ?s = "demo_vst\<lparr>vs_disk := demo_vdisk\<lparr>v_pages := put16 (replicate 12288 0) 4098 2047\<rparr>\<rparr>"
  have "pages_ok (vs_disk ?s)" "unat (avail_idx (vs_disk ?s)) = 2047" by (simp_all add: pages_ok_def avail_idx_def)
  from virtio_avail_ring_overrun [OF this, of 3] show ?thesis by auto
qed

text \<open>Each round of the handler's loop consumes one entry that was in flight.\<close>

definition in_flight :: "vst \<Rightarrow> nat set" where
  "in_flight s = {i. i < NUM \<and> v_status (vs_disk s) i = 255}"

lemma intr_one_cases:
  "(\<exists>e. intr_one i s = Panic e) \<or> (\<exists>s'. intr_one i s = Done () s' \<and> card (in_flight s') < card (in_flight s))"
proof -
  define id where "id = unat (used_id (vs_disk s) (unat (ucast (v_used_idx (vs_disk s)) + of_nat i :: u32) mod NUM))"
  show ?thesis
  proof (cases "id \<ge> NUM \<or> v_status (vs_disk s) id \<noteq> 255")
    case True
    then show ?thesis by (auto simp: intr_one_def Let_def id_def)
  next
    case False
    define s' where "s' = s\<lparr>vs_disk := (vs_disk s)\<lparr>v_status := (v_status (vs_disk s))(id := 0)\<rparr>, vs_pt := wakeup (ChanDiskInfo id) (vs_pt s)\<rparr>"
    have "intr_one i s = Done () s'"
      using False by (simp add: intr_one_def Let_def id_def [symmetric] vupd_def vwake_def s'_def)
    moreover have "id \<in> in_flight s" "in_flight s' = in_flight s - {id}" using False by (auto simp: in_flight_def s'_def)
    moreover have "finite (in_flight s)" by (simp add: in_flight_def)
    ultimately show ?thesis by (metis card_Diff1_less)
  qed
qed

lemma intr_loop_cases:
  "(\<exists>e. kfor ixs intr_one s = Panic e) \<or> (\<exists>s'. kfor ixs intr_one s = Done () s' \<and> length ixs + card (in_flight s') \<le> card (in_flight s))"
proof (induction ixs arbitrary: s)
  case Nil
  then show ?case by simp
next
  case (Cons i ixs)
  from intr_one_cases [of i s] show ?case
  proof
    assume "\<exists>s'. intr_one i s = Done () s' \<and> card (in_flight s') < card (in_flight s)"
    then obtain s' where s': "intr_one i s = Done () s'" "card (in_flight s') < card (in_flight s)" by blast
    from Cons.IH [of s'] show ?thesis using s' by (auto simp: kseq_def) 
  qed (auto simp: kseq_def)
qed

text \<open>
  C26. The handler does not survive the wrap-around of the 16-bit used index. Once the device's index
  has wrapped below the driver's copy, the difference, taken in 32 bits, is at least \<open>2 ^ 32 - 65535\<close>; the loop
  then demands more completions than there are requests in flight and panics.
\<close>

theorem virtio_used_wrap_panics:
  assumes "used_idx (vs_disk s) < v_used_idx (vs_disk s)"
  shows "\<exists>e. virtio_disk_intr s = Panic e"
proof -
  let ?x = "used_idx (vs_disk s)" and ?y = "v_used_idx (vs_disk s)"
  let ?n = "unat (ucast ?x - ucast ?y :: u32)"
  have lt: "unat ?x < unat ?y" "unat ?y < 65536" using assms unat_bound [of ?y] by (simp_all add: word_less_nat_alt)
  have ux: "unat (ucast ?x :: u32) = unat ?x" "unat (ucast ?y :: u32) = unat ?y"
    by (rule unat_ucast16)+
  have "?n = 2 ^ 32 + unat ?x - unat ?y" using lt ux by (simp add: unat_sub_if')
  then have big: "NUM < ?n" using lt by simp
  obtain s1 where s1: "reg_write 0x60 (v_regs (vs_disk s) 0x60) s = Done () s1" by (simp add: reg_write_def vupd_def)
  have "card (in_flight s1) \<le> card {..<NUM}" by (rule card_mono) (auto simp: in_flight_def)
  then have "card (in_flight s1) \<le> NUM" by simp
  then have "\<exists>e. kfor [0..<?n] intr_one s1 = Panic e" using intr_loop_cases [of "[0..<?n]" s1] big by auto
  then show ?thesis using s1 by (auto simp: virtio_disk_intr_def)
qed

theorem virtio_used_wrap_panics_witness:
  "\<exists>e. virtio_disk_intr (demo_vst\<lparr>vs_disk := demo_vdisk\<lparr>v_used_idx := 65535\<rparr>\<rparr>) = Panic e"
  by (rule virtio_used_wrap_panics) (simp add: demo_vdisk_ok used_idx_def demo_vdisk_def)

section \<open>The legacy layout\<close>

text \<open>
  A version 1 device is given only the page number of the queue. By the legacy layout of the virtio standard its
  available ring (flags, index, eight entries) lies directly behind the descriptor table, which takes
  \<open>16 * NUM = 128\<close> bytes. This area is all zero: such a device sees index 0, an empty ring.
\<close>

definition legacy_idle :: "vdisk \<Rightarrow> bool" where
  "legacy_idle d \<longleftrightarrow> pages_ok d \<and> bslice (v_pages d) 128 20 = replicate 20 0"

lemma legacy_idle_upd [simp]:
  "legacy_idle (d\<lparr>v_hdr := h\<rparr>) = legacy_idle d" "legacy_idle (d\<lparr>v_status := st\<rparr>) = legacy_idle d"
  "legacy_idle (d\<lparr>v_data := da\<rparr>) = legacy_idle d" "legacy_idle (d\<lparr>v_free := fr\<rparr>) = legacy_idle d"
  "legacy_idle (d\<lparr>v_writes := ws\<rparr>) = legacy_idle d" "legacy_idle (d\<lparr>v_used_idx := u\<rparr>) = legacy_idle d"
  by (simp_all add: legacy_idle_def pages_ok_def)

lemma legacy_idle_desc: "legacy_idle d \<Longrightarrow> i < NUM \<Longrightarrow> legacy_idle (put_desc i a l f n d)"
  using put_desc_ok put_desc_slice [of i d 128 20] by (simp add: legacy_idle_def pages_ok_def)

lemma legacy_idle_chain:
  "legacy_idle d \<Longrightarrow> i0 < NUM \<Longrightarrow> i1 < NUM \<Longrightarrow> i2 < NUM \<Longrightarrow> legacy_idle (build_chain blockno hdr data wr (i0, i1, i2) d)"
  by (simp add: build_chain_def Let_def legacy_idle_desc)

abbreviation vs_idle :: "vst \<Rightarrow> bool" where
  "vs_idle s \<equiv> legacy_idle (vs_disk s)"

lemma kinv_vupd: "(\<And>d. legacy_idle d \<Longrightarrow> legacy_idle (f d)) \<Longrightarrow> kinv vs_idle (vupd f)"
  unfolding vupd_def by (rule kinv_modify) simp

lemma kinv_vidle [kinv_intros]: "kinv vs_idle (vwake ch)" "kinv vs_idle (reg_write r v)" "kinv vs_idle (vsleep ch out)"
  by (auto simp: vwake_def reg_write_def vsleep_def kinv_def vupd_def split: outcome.split)

lemma kinv_free_desc [kinv_intros]: "kinv vs_idle (free_desc i)"
proof (rule kinvI)
  fix s assume s: "vs_idle s"
  have "bslice (put64 (v_pages (vs_disk s)) (16 * i) 0) 128 20 = bslice (v_pages (vs_disk s)) 128 20"
    if "i < NUM" using that s by (simp add: put64_def slice_splice_other legacy_idle_def pages_ok_def)
  then show "ksat (free_desc i s) (\<lambda>_. vs_idle) vs_idle"
    using s by (auto simp: free_desc_def vupd_def vwake_def legacy_idle_def pages_ok_def)
qed

lemma kinv_free_chain [kinv_intros]: "kinv vs_idle (free_chain i)"
proof (rule kinvI)
  fix s assume "vs_idle s"
  then show "ksat (free_chain i s) (\<lambda>_. vs_idle) vs_idle"
  proof (induction i s rule: free_chain.induct)
    case (1 i s)
    have free: "ksat (free_desc i s) (\<lambda>_. vs_idle) vs_idle" using kinvD [OF kinv_free_desc] 1(2) by blast
    show ?case
    proof (cases "free_desc i s")
      case (Done u t)
      then show ?thesis using 1(1) [OF kget_run Done] free by (simp add: free_chain.simps [of i s])
    qed (use free in \<open>simp_all add: free_chain.simps [of i s]\<close>)
  qed
qed

lemma alloc_desc_idle: "vs_idle s \<Longrightarrow> ksat (alloc_desc s) (\<lambda>r s'. vs_idle s' \<and> (\<forall>i. r = Some i \<longrightarrow> i < NUM)) vs_idle"
  by (auto simp: alloc_desc_def vupd_def find_Some_iff simp del: upt_rec_numeral split: option.split)

lemma alloc3_desc_idle:
  assumes "vs_idle s"
  shows "ksat (alloc3_desc s) (\<lambda>r s'. vs_idle s' \<and> (\<forall>a b c. r = Some (a, b, c) \<longrightarrow> a < NUM \<and> b < NUM \<and> c < NUM)) vs_idle"
proof -
  have free: "ksat (kseq (free_desc i) (kreturn None) t) Q vs_idle" "ksat (kseq (free_desc i) (kseq (free_desc j) (kreturn None)) t) Q vs_idle"
    if "vs_idle t" and "\<And>u. vs_idle u \<Longrightarrow> Q None u" for i j t and Q :: "(nat \<times> nat \<times> nat) option \<Rightarrow> vst \<Rightarrow> bool"
    by (rule ksat_seq, rule kinvD [OF kinv_free_desc that(1)], simp add: that(2),
        rule ksat_seq, rule kinvD [OF kinv_free_desc that(1)], rule ksat_seq, erule kinvD [OF kinv_free_desc], simp add: that(2))
  show ?thesis
    unfolding alloc3_desc_def
    apply (rule ksat_bind, rule alloc_desc_idle [OF assms])
    subgoal for a
      apply (cases a; simp)
      apply (rule ksat_bind, rule alloc_desc_idle, simp)
      subgoal for a b
        apply (cases b; simp add: free)
        apply (rule ksat_bind, rule alloc_desc_idle, simp)
        apply (auto simp: free split: option.split)
        done
      done
    done
qed

lemma kinv_publish [kinv_intros]: "kinv vs_idle (publish head)"
proof (rule kinvI)
  fix s assume s: "vs_idle s"
  let ?d = "vs_disk s" and ?off = "4096 + 2 * (2 + unat (avail_idx (vs_disk s)))"
  have len: "length (v_pages ?d) = 12288" using s by (simp add: legacy_idle_def pages_ok_def)
  have keep: "bslice (put16 bs off x) 128 20 = bslice bs 128 20" if "148 \<le> off" "off + 2 \<le> length bs" for bs off x
    using that by (simp add: put16_def slice_splice_other)
  show "ksat (publish head s) (\<lambda>_. vs_idle) vs_idle"
  proof (cases "?off + 2 > 12288")
    case False
    then show ?thesis using s len by (simp add: publish_def Let_def vupd_def legacy_idle_def pages_ok_def keep)
  qed (simp add: publish_def Let_def)
qed

lemma kinv_rw_wait [kinv_intros]: "kinv vs_idle (rw_wait head)"
  unfolding rw_wait_def by (intro kinv_intros)

lemma kinv_rw:
  assumes "\<And>d. legacy_idle d \<Longrightarrow> legacy_idle (kick d)"
  shows "kinv vs_idle (virtio_disk_rw kick hdr blockno data wr)"
proof (rule kinvI)
  fix s assume s: "vs_idle s"
  have go: "ksat (kseq (vupd (build_chain blockno hdr data wr (a, b, c))) (kseq (publish a) (kseq (reg_write 0x50 0)
      (kseq (vupd kick) (rw_wait a)))) t) (\<lambda>_. vs_idle) vs_idle"
    if "vs_idle t" "a < NUM" "b < NUM" "c < NUM" for a b c t
  proof -
    have "ksat (vupd (build_chain blockno hdr data wr (a, b, c)) t) (\<lambda>_. vs_idle) vs_idle"
      using that legacy_idle_chain by (simp add: vupd_def)
    then show ?thesis by (rule ksat_seq) (rule kinvD, intro kinv_intros kinv_vupd assms)
  qed
  show "ksat (virtio_disk_rw kick hdr blockno data wr s) (\<lambda>_. vs_idle) vs_idle"
  proof (cases "blockno AND 0x1fffffffffffffff = 0x1fffffffffffffff")
    case False
    show ?thesis
      unfolding virtio_disk_rw_def if_not_P [OF False]
      by (rule ksat_bind, rule alloc3_desc_idle [OF s]) (auto intro!: go kinvD [OF kinv_vidle(3)] split: option.split)
  qed (simp add: virtio_disk_rw_def)
qed

lemma kinv_intr: "kinv vs_idle virtio_disk_intr"
  unfolding virtio_disk_intr_def intr_one_def by (intro kinv_intros kinv_vupd) simp_all

text \<open>
  C27. A version 1 device never sees a request. Initialisation zeroes the queue pages, and no later
  operation of the driver (submission, resumption of a waiting transfer, interrupt) writes the bytes behind the
  descriptor table where the legacy layout has the available ring: the driver publishes in the second queue page.
  The device itself may do anything that leaves this ring alone when it is notified.
\<close>

theorem virtio_legacy_ring_idle:
  assumes kick: "\<And>d. legacy_idle d \<Longrightarrow> legacy_idle (kick d)"
  shows "(\<forall>s s'. virtio_disk_init s = Done () s' \<longrightarrow> legacy_idle (vs_disk s')) \<and>
    (\<forall>s s'. legacy_idle (vs_disk s) \<longrightarrow>
      (\<forall>hdr blockno data wr r. virtio_disk_rw kick hdr blockno data wr s = Done r s' \<longrightarrow> legacy_idle (vs_disk s')) \<and>
      (\<forall>head r. rw_wait head s = Done r s' \<longrightarrow> legacy_idle (vs_disk s')) \<and>
      (virtio_disk_intr s = Done () s' \<longrightarrow> legacy_idle (vs_disk s')))"
proof -
  have "legacy_idle (vs_disk s')" if "virtio_disk_init s = Done () s'" for s s'
    using that by (auto simp: virtio_disk_init_def reg_write_def vupd_def legacy_idle_def pages_ok_def bslice_def split: if_splits)
  then show ?thesis
    using kinv_Done [OF kinv_rw [of kick, OF kick]] kinv_Done [OF kinv_rw_wait] kinv_Done [OF kinv_intr] by blast
qed

theorem virtio_legacy_ring_idle_witness:
  "\<exists>i0 s'. virtio_disk_rw (\<lambda>d. d) 0x80020000 5 0x80030000 False demo_vst = Done (Wait_io i0) s' \<and> avail_idx (vs_disk s') = 1 \<and>
     legacy_idle (vs_disk s')"
proof -
  let ?s = demo_vst and ?d = demo_vdisk
  have d: "vs_disk ?s = ?d" "cur (vs_pt ?s) = Some 0" by (simp_all add: demo_vst_def)
  obtain a b c where i: "a < NUM" "b < NUM" "c < NUM" "distinct [a, b, c]"
    and al: "alloc3_desc ?s = Done (Some (a, b, c)) (?s\<lparr>vs_disk := ?d\<lparr>v_free := (v_free ?d)(a := False, b := False, c := False)\<rparr>\<rparr>)"
    using alloc3_run [of ?s] demo_vdisk_ok(2) unfolding d by metis
  define d1 where "d1 = ?d\<lparr>v_free := (v_free ?d)(a := False, b := False, c := False)\<rparr>"
  define d2 where "d2 = build_chain 5 0x80020000 0x80030000 False (a, b, c) d1"
  have ok: "pages_ok d1" using demo_vdisk_ok(1) by (simp add: d1_def)
  note bc = build_chain_run [OF ok i d2_def]
  have av: "avail_idx d2 = 0" using rings_eq(1) [OF ok bc(1,3)] demo_vdisk_ok(3) by (simp add: d1_def avail_idx_def)
  obtain d3 where p: "publish a (?s\<lparr>vs_disk := d2\<rparr>) = Done () (?s\<lparr>vs_disk := d3\<rparr>)" "v_status d3 = v_status d2" "avail_idx d3 = avail_idx d2 + 1"
    using publish_run [of "?s\<lparr>vs_disk := d2\<rparr>" 0 a] bc(1) av by simp metis
  obtain s' where run: "virtio_disk_rw (\<lambda>d. d) 0x80020000 5 0x80030000 False ?s = Done (Wait_io a) s'" "avail_idx (vs_disk s') = 1"
    using al p bc(5) av d by (simp add: virtio_disk_rw_def vupd_def reg_write_def d1_def [symmetric] d2_def [symmetric]
        rw_wait_def vsleep_run avail_idx_def)
  have "legacy_idle (vs_disk ?s)" by (simp add: d legacy_idle_def demo_vdisk_ok(1)) (simp add: demo_vdisk_def bslice_def)
  then show ?thesis using virtio_legacy_ring_idle [of "\<lambda>d. d"] run by blast
qed

end
