(* ===== verification/Fs.thy ===== *)
theory Fs
  imports Log_Spec Vm
begin

text \<open>
  The file system, \<^verbatim>\<open>kernel/fs.c\<close> and \<^verbatim>\<open>kernel/fs.h\<close>: block and inode allocation, the inode cache, file
  contents, directories and path resolution. The state holds the log (and through it the buffer
  cache and the process table), the superblock copy \<^verbatim>\<open>sb\<close>, the inode cache and physical memory.

  A \<^verbatim>\<open>struct inode *\<close> is an index into \<^verbatim>\<open>icache.inode\<close>, a null pointer is \<open>None\<close>. A path or a name is
  the list of its bytes before the NUL. A read into a kernel buffer returns the bytes, a write from
  a kernel buffer takes them.
\<close>

section \<open>State and layout\<close>

abbreviation NINODE :: nat where "NINODE \<equiv> 50"
abbreviation NDIRECT :: nat where "NDIRECT \<equiv> 12"
abbreviation NINDIRECT :: nat where "NINDIRECT \<equiv> 256"
abbreviation MAXFILE :: nat where "MAXFILE \<equiv> 268"
abbreviation IPB :: nat where "IPB \<equiv> 16"
abbreviation BPB :: nat where "BPB \<equiv> 8192"
abbreviation DIRSIZ :: nat where "DIRSIZ \<equiv> 14"
abbreviation ROOTDEV :: u32 where "ROOTDEV \<equiv> 1"
abbreviation ROOTINO :: u32 where "ROOTINO \<equiv> 1"
abbreviation FSSIZE :: u32 where "FSSIZE \<equiv> 2000"
abbreviation T_DIR :: u16 where "T_DIR \<equiv> 1"
abbreviation T_FILE :: u16 where "T_FILE \<equiv> 2"
abbreviation T_DEVICE :: u16 where "T_DEVICE \<equiv> 3"

record dinode =
  di_type :: u16
  di_major :: u16
  di_minor :: u16
  di_nlink :: u16
  di_size :: u32
  di_addrs :: "u32 list"

record inode =
  i_dev :: u32
  i_inum :: u32
  i_ref :: int
  i_lock :: sleeplock
  i_valid :: bool
  i_type :: u16
  i_major :: u16
  i_minor :: u16
  i_nlink :: u16
  i_size :: u32
  i_addrs :: "u32 list"

record fs =
  f_log :: logst
  f_sb :: superblock
  icache :: "nat \<Rightarrow> inode"
  f_km :: kmem

definition get_dinode :: "bytes \<Rightarrow> nat \<Rightarrow> dinode" where
  "get_dinode d i = (let o' = 64 * i in
     \<lparr>di_type = get16 d o', di_major = get16 d (o' + 2), di_minor = get16 d (o' + 4), di_nlink = get16 d (o' + 6),
      di_size = get32 d (o' + 8), di_addrs = map (\<lambda>k. get32 d (o' + 12 + 4 * k)) [0..<NDIRECT + 1]\<rparr>)"

definition put_addrs :: "nat \<Rightarrow> u32 list \<Rightarrow> bytes \<Rightarrow> bytes" where
  "put_addrs off xs d = fold (\<lambda>k d. put32 d (off + 4 * k) (xs ! k)) [0..<NDIRECT + 1] d"

definition put_dinode :: "bytes \<Rightarrow> nat \<Rightarrow> dinode \<Rightarrow> bytes" where
  "put_dinode d i di = (let o' = 64 * i in
     put_addrs (o' + 12) (di_addrs di)
       (put32 (put16 (put16 (put16 (put16 d o' (di_type di)) (o' + 2) (di_major di)) (o' + 4) (di_minor di)) (o' + 6) (di_nlink di))
         (o' + 8) (di_size di)))"

record dirent =
  de_inum :: u16
  de_name :: bytes

definition get_dirent :: "bytes \<Rightarrow> dirent" where
  "get_dirent d = \<lparr>de_inum = get16 d 0, de_name = bslice d 2 DIRSIZ\<rparr>"

definition dirent_bytes :: "dirent \<Rightarrow> bytes" where
  "dirent_bytes de = nat_bytes 2 (unat (de_inum de)) @ de_name de"

section \<open>Access to the layers below\<close>

definition flog :: "(logst, 'a) kmonad \<Rightarrow> (fs, 'a) kmonad" where
  "flog = klift f_log (\<lambda>l s. s\<lparr>f_log := l\<rparr>)"

definition fkm :: "(kmem, 'a) kmonad \<Rightarrow> (fs, 'a) kmonad" where
  "fkm = klift f_km (\<lambda>k s. s\<lparr>f_km := k\<rparr>)"

definition f_pt :: "fs \<Rightarrow> ptable" where
  "f_pt s = bio_pt (l_bio (f_log s))"

definition set_pt :: "ptable \<Rightarrow> fs \<Rightarrow> fs" where
  "set_pt t s = s\<lparr>f_log := (f_log s)\<lparr>l_bio := (l_bio (f_log s))\<lparr>bio_pt := t\<rparr>\<rparr>\<rparr>"

definition breadv :: "u32 \<Rightarrow> u32 \<Rightarrow> (fs, nat) kmonad" where
  "breadv dev b = flog (lbio (bread dev b))"

definition fbrelse :: "nat \<Rightarrow> (fs, unit) kmonad" where
  "fbrelse b = flog (lbio (brelse b))"

definition flog_write :: "nat \<Rightarrow> (fs, unit) kmonad" where
  "flog_write b = flog (log_write b)"

definition fdata :: "nat \<Rightarrow> fs \<Rightarrow> bytes" where
  "fdata b s = ldata b (f_log s)"

definition fstore :: "nat \<Rightarrow> bytes \<Rightarrow> fs \<Rightarrow> fs" where
  "fstore b v s = s\<lparr>f_log := lstore b v (f_log s)\<rparr>"

definition upd_inode :: "nat \<Rightarrow> (inode \<Rightarrow> inode) \<Rightarrow> fs \<Rightarrow> fs" where
  "upd_inode i f s = s\<lparr>icache := (icache s)(i := f (icache s i))\<rparr>"

definition ilock_get :: "nat \<Rightarrow> fs \<Rightarrow> sleeplock \<times> ptable" where
  "ilock_get i s = (i_lock (icache s i), f_pt s)"

definition ilock_put :: "nat \<Rightarrow> sleeplock \<times> ptable \<Rightarrow> fs \<Rightarrow> fs" where
  "ilock_put i lp s = set_pt (snd lp) (upd_inode i (\<lambda>ip. ip\<lparr>i_lock := fst lp\<rparr>) s)"

definition on_ilock :: "nat \<Rightarrow> (sleeplock \<times> ptable, 'a) kmonad \<Rightarrow> (fs, 'a) kmonad" where
  "on_ilock i = klift (ilock_get i) (ilock_put i)"

section \<open>Blocks\<close>

definition readsb :: "u32 \<Rightarrow> (fs, unit) kmonad" where
  "readsb dev = kbind (breadv dev 1) (\<lambda>bp.
     kseq (kmodify (\<lambda>s. s\<lparr>f_sb := decode_sb (fdata bp s)\<rparr>)) (fbrelse bp))"

definition bzero_block :: "u32 \<Rightarrow> (fs, unit) kmonad" where
  "bzero_block b = kbind (breadv 1 b) (\<lambda>bp.
     kseq (kmodify (fstore bp (replicate BSIZE 0))) (kseq (flog_write bp) (fbrelse bp)))"

text \<open>Bit \<open>bi\<close> of a bitmap block, and the first clear bit below a bound.\<close>

definition bit_set :: "bytes \<Rightarrow> nat \<Rightarrow> bool" where
  "bit_set d bi \<longleftrightarrow> d ! (bi div 8) AND push_bit (bi mod 8) 1 \<noteq> 0"

definition mark_bit :: "nat \<Rightarrow> bytes \<Rightarrow> bytes" where
  "mark_bit bi d = d[bi div 8 := d ! (bi div 8) OR push_bit (bi mod 8) 1]"

definition clear_bit :: "nat \<Rightarrow> bytes \<Rightarrow> bytes" where
  "clear_bit bi d = d[bi div 8 := d ! (bi div 8) AND NOT (push_bit (bi mod 8) 1)]"

definition find_free :: "bytes \<Rightarrow> nat \<Rightarrow> nat option" where
  "find_free d k = find (\<lambda>bi. \<not> bit_set d bi) [0..<k]"

text \<open>
  The loop of \<^verbatim>\<open>balloc_alloc\<close> over bitmap blocks; \<open>b\<close> is the C variable, an \<^verbatim>\<open>int\<close> whose overflow would
  be undefined behaviour.
\<close>

function balloc_loop :: "nat \<Rightarrow> nat \<Rightarrow> (fs, u32) kmonad" where
  "balloc_loop sz b s =
     (if b < sz then
        (if 2 ^ 31 \<le> b then kfault ''balloc: int overflow'' s
         else kbind (kget f_sb) (\<lambda>sb. kbind (breadv 1 (sb_bmapstart sb + of_nat (b div BPB))) (\<lambda>bp s.
           case find_free (fdata bp s) (min BPB (sz - b)) of
             Some bi \<Rightarrow>
               kseq (kmodify (\<lambda>s. fstore bp (mark_bit bi (fdata bp s)) s))
              (kseq (flog_write bp) (kseq (fbrelse bp)
              (kseq (bzero_block (of_nat (b + bi))) (kreturn (of_nat (b + bi)))))) s
           | None \<Rightarrow> kseq (fbrelse bp) (balloc_loop sz (b + BPB)) s)) s)
      else kreturn 0 s)"
  by pat_completeness auto

termination
  by (relation "measure (\<lambda>(sz, b, _). sz - b)") auto

declare balloc_loop.simps [simp del]

definition balloc_alloc :: "u32 \<Rightarrow> (fs, u32) kmonad" where
  "balloc_alloc dev = kbind (kget f_sb) (\<lambda>sb. balloc_loop (unat (sb_size sb)) 0)"

definition bfree_release :: "u32 \<Rightarrow> u32 \<Rightarrow> (fs, unit) kmonad" where
  "bfree_release dev b = kbind (kget f_sb) (\<lambda>sb.
     if b \<ge> sb_size sb then kpanic ''bfree: block out of range''
     else (let bi = unat b mod BPB in
       kbind (breadv 1 (sb_bmapstart sb + b div of_nat BPB)) (\<lambda>bp.
       kbind (kget (fdata bp)) (\<lambda>d.
         if \<not> bit_set d bi then kpanic ''bfree: freeing a free block''
         else kseq (kmodify (fstore bp (clear_bit bi d))) (kseq (flog_write bp) (fbrelse bp))))))"

section \<open>The inode cache\<close>

definition iinit :: "(fs, unit) kmonad" where
  "iinit = kfor [0..<NINODE] (\<lambda>i. kmodify (upd_inode i (\<lambda>ip. ip\<lparr>i_lock := initsleeplock\<rparr>)))"

text \<open>The scan of \<^verbatim>\<open>iget\<close>: the cached slot, or else the first slot without references.\<close>

definition iget_cached :: "(nat \<Rightarrow> inode) \<Rightarrow> u32 \<Rightarrow> u32 \<Rightarrow> nat option" where
  "iget_cached ic dev inum = find (\<lambda>i. i_ref (ic i) > 0 \<and> i_dev (ic i) = dev \<and> i_inum (ic i) = inum) [0..<NINODE]"

definition iget_empty :: "(nat \<Rightarrow> inode) \<Rightarrow> nat option" where
  "iget_empty ic = find (\<lambda>i. i_ref (ic i) = 0) [0..<NINODE]"

definition iget :: "u32 \<Rightarrow> u32 \<Rightarrow> (fs, nat) kmonad" where
  "iget dev inum = kbind (kget icache) (\<lambda>ic.
     case iget_cached ic dev inum of
       Some i \<Rightarrow> kseq (kmodify (upd_inode i (\<lambda>ip. ip\<lparr>i_ref := i_ref ip + 1\<rparr>))) (kreturn i)
     | None \<Rightarrow> (case iget_empty ic of
           None \<Rightarrow> kpanic ''iget: no inodes''
         | Some i \<Rightarrow> kseq (kmodify (upd_inode i (\<lambda>ip. ip\<lparr>i_dev := dev, i_inum := inum, i_ref := 1, i_valid := False\<rparr>)))
             (kreturn i)))"

definition idup :: "nat \<Rightarrow> (fs, nat) kmonad" where
  "idup i = kseq (kmodify (upd_inode i (\<lambda>ip. ip\<lparr>i_ref := i_ref ip + 1\<rparr>))) (kreturn i)"

definition iblock :: "fs \<Rightarrow> u32 \<Rightarrow> u32" where
  "iblock s inum = sb_inodestart (f_sb s) + inum div of_nat IPB"

definition load_dinode :: "dinode \<Rightarrow> inode \<Rightarrow> inode" where
  "load_dinode di ip = ip\<lparr>i_type := di_type di, i_major := di_major di, i_minor := di_minor di,
     i_nlink := di_nlink di, i_size := di_size di, i_addrs := di_addrs di\<rparr>"

definition inode_dinode :: "inode \<Rightarrow> dinode" where
  "inode_dinode ip = \<lparr>di_type = i_type ip, di_major = i_major ip, di_minor = i_minor ip,
     di_nlink = i_nlink ip, di_size = i_size ip, di_addrs = i_addrs ip\<rparr>"

definition ilock :: "nat \<Rightarrow> (fs, unit) kmonad" where
  "ilock i = kbind (kget (\<lambda>s. icache s i)) (\<lambda>ip.
     if i_ref ip < 1 then kpanic ''ilock''
     else kseq (on_ilock i (acquiresleep (ChanInode i)))
      (kbind (kget (\<lambda>s. icache s i)) (\<lambda>ip.
        if i_valid ip then kreturn ()
        else kbind (kget (\<lambda>s. iblock s (i_inum ip))) (\<lambda>b.
          kbind (breadv (i_dev ip) b) (\<lambda>bp.
          kseq (kmodify (\<lambda>s. upd_inode i (load_dinode (get_dinode (fdata bp s) (unat (i_inum ip) mod IPB))) s))
         (kseq (fbrelse bp)
         (kseq (kmodify (upd_inode i (\<lambda>ip. ip\<lparr>i_valid := True\<rparr>)))
         (kbind (kget (\<lambda>s. i_type (icache s i))) (\<lambda>ty.
            if ty = 0 then kpanic ''ilock: no type'' else kreturn ())))))))))"

definition iunlock :: "nat \<Rightarrow> (fs, unit) kmonad" where
  "iunlock i = kbind (on_ilock i holdingsleep) (\<lambda>h.
     kbind (kget (\<lambda>s. i_ref (icache s i))) (\<lambda>ref.
     if \<not> h \<or> ref < 1 then kpanic ''iunlock'' else on_ilock i (releasesleep (ChanInode i))))"

definition iupdate :: "nat \<Rightarrow> (fs, unit) kmonad" where
  "iupdate i = kbind (kget (\<lambda>s. icache s i)) (\<lambda>ip.
     kbind (kget (\<lambda>s. iblock s (i_inum ip))) (\<lambda>b.
     kbind (breadv (i_dev ip) b) (\<lambda>bp.
     kseq (kmodify (\<lambda>s. fstore bp (put_dinode (fdata bp s) (unat (i_inum ip) mod IPB) (inode_dinode ip)) s))
    (kseq (flog_write bp) (fbrelse bp)))))"

text \<open>\<^verbatim>\<open>ialloc_alloc\<close>: the loop over inode numbers from \<open>inum\<close> on.\<close>

function ialloc_loop :: "u32 \<Rightarrow> u16 \<Rightarrow> int \<Rightarrow> int \<Rightarrow> (fs, nat option) kmonad" where
  "ialloc_loop dev type ninodes inum s =
     (if inum < ninodes
      then kbind (kget (\<lambda>s. iblock s (u32_of_int inum))) (\<lambda>b. kbind (breadv 1 b) (\<lambda>bp s.
        if di_type (get_dinode (fdata bp s) (nat inum mod IPB)) = 0
        then kseq (kmodify (\<lambda>s. fstore bp (put_dinode (fdata bp s) (nat inum mod IPB)
                 \<lparr>di_type = type, di_major = 0, di_minor = 0, di_nlink = 0, di_size = 0, di_addrs = replicate (NDIRECT + 1) 0\<rparr>) s))
            (kseq (flog_write bp) (kseq (fbrelse bp)
            (kbind (iget dev (u32_of_int inum)) (\<lambda>i. kreturn (Some i))))) s
        else kseq (fbrelse bp) (ialloc_loop dev type ninodes (inum + 1)) s)) s
      else kreturn None s)"
  by pat_completeness auto

termination
  by (relation "measure (\<lambda>(_, _, n, i, _). nat (n - i))") auto

declare ialloc_loop.simps [simp del]

definition ialloc_alloc :: "u32 \<Rightarrow> u16 \<Rightarrow> (fs, nat option) kmonad" where
  "ialloc_alloc dev type = kbind (kget f_sb) (\<lambda>sb. ialloc_loop dev type (int_of_u32 (sb_ninodes sb)) 1)"

section \<open>Block mapping\<close>

definition set_addr :: "nat \<Rightarrow> u32 \<Rightarrow> inode \<Rightarrow> inode" where
  "set_addr k a ip = ip\<lparr>i_addrs := (i_addrs ip)[k := a]\<rparr>"

definition bmap_direct :: "nat \<Rightarrow> nat \<Rightarrow> (fs, u32) kmonad" where
  "bmap_direct i k = kbind (kget (\<lambda>s. icache s i)) (\<lambda>ip.
     if i_addrs ip ! k = 0
     then kbind (balloc_alloc (i_dev ip)) (\<lambda>addr.
       if addr = 0 then kreturn 0 else kseq (kmodify (upd_inode i (set_addr k addr))) (kreturn addr))
     else kreturn (i_addrs ip ! k))"

definition bmap :: "nat \<Rightarrow> u32 \<Rightarrow> (fs, u32) kmonad" where
  "bmap i bn =
     (if unat bn < NDIRECT then bmap_direct i (unat bn)
      else (let bn' = unat bn - NDIRECT in
        if bn' < NINDIRECT then
          kbind (bmap_direct i NDIRECT) (\<lambda>addr.
            if addr = 0 then kreturn 0
            else kbind (kget (\<lambda>s. i_dev (icache s i))) (\<lambda>dev. kbind (breadv dev addr) (\<lambda>bp.
              kbind (kget (\<lambda>s. get32 (fdata bp s) (4 * bn'))) (\<lambda>a.
              kbind (if a = 0
                     then kbind (balloc_alloc dev) (\<lambda>a'.
                       if a' \<noteq> 0
                       then kseq (kmodify (\<lambda>s. fstore bp (put32 (fdata bp s) (4 * bn') a') s)) (kseq (flog_write bp) (kreturn a'))
                       else kreturn a')
                     else kreturn a) (\<lambda>r. kseq (fbrelse bp) (kreturn r))))))
        else kreturn 0))"

definition itrunc_direct :: "nat \<Rightarrow> nat \<Rightarrow> (fs, unit) kmonad" where
  "itrunc_direct i k = kbind (kget (\<lambda>s. icache s i)) (\<lambda>ip.
     if i_addrs ip ! k \<noteq> 0
     then kseq (bfree_release (i_dev ip) (i_addrs ip ! k)) (kmodify (upd_inode i (set_addr k 0)))
     else kreturn ())"

definition itrunc_indirect :: "nat \<Rightarrow> (fs, unit) kmonad" where
  "itrunc_indirect i = kbind (kget (\<lambda>s. icache s i)) (\<lambda>ip.
     if i_addrs ip ! NDIRECT \<noteq> 0
     then kbind (breadv (i_dev ip) (i_addrs ip ! NDIRECT)) (\<lambda>bp.
       kseq (kfor [0..<NINDIRECT] (\<lambda>j. kbind (kget (\<lambda>s. get32 (fdata bp s) (4 * j))) (\<lambda>a.
              if a \<noteq> 0 then bfree_release (i_dev ip) a else kreturn ())))
      (kseq (fbrelse bp)
      (kseq (bfree_release (i_dev ip) (i_addrs ip ! NDIRECT)) (kmodify (upd_inode i (set_addr NDIRECT 0))))))
     else kreturn ())"

definition itrunc :: "nat \<Rightarrow> (fs, int) kmonad" where
  "itrunc i = kseq (kfor [0..<NDIRECT] (itrunc_direct i))
     (kseq (itrunc_indirect i)
     (kseq (kmodify (upd_inode i (\<lambda>ip. ip\<lparr>i_size := 0\<rparr>))) (kseq (iupdate i) (kreturn 0))))"

definition iput :: "nat \<Rightarrow> (fs, unit) kmonad" where
  "iput i = kbind (kget (\<lambda>s. icache s i)) (\<lambda>ip.
     if i_ref ip \<noteq> 1 \<or> \<not> i_valid ip \<or> i_nlink ip \<noteq> 0
     then (if i_ref ip < 1 then kpanic ''iput'' else kmodify (upd_inode i (\<lambda>ip. ip\<lparr>i_ref := i_ref ip - 1\<rparr>)))
     else kseq (on_ilock i (acquiresleep (ChanInode i)))
      (kseq (itrunc i)
      (kseq (kmodify (upd_inode i (\<lambda>ip. ip\<lparr>i_type := 0\<rparr>)))
      (kseq (iupdate i)
      (kseq (on_ilock i (releasesleep (ChanInode i)))
      (kseq (kmodify (upd_inode i (\<lambda>ip. ip\<lparr>i_valid := False\<rparr>)))
      (kbind (kget (\<lambda>s. i_ref (icache s i))) (\<lambda>ref.
         if ref \<noteq> 1 then kpanic ''iput: concurrent reference''
         else kmodify (upd_inode i (\<lambda>ip. ip\<lparr>i_ref := 0\<rparr>))))))))))"

definition iunlockput :: "nat \<Rightarrow> (fs, unit) kmonad" where
  "iunlockput i = kseq (iunlock i) (iput i)"

end
