(* ===== verification/Fs_Dir.thy ===== *)
theory Fs_Dir
  imports Fs Kstring
begin

text \<open>
  The upper half of \<^verbatim>\<open>kernel/fs.c\<close>: file contents, directories, path resolution and the mount.
\<close>

section \<open>File contents\<close>

text \<open>Where the bytes of a read go, and where those of a write come from.\<close>

datatype dest = To_user u64 | To_kernel

datatype src = From_user u64 | From_kernel bytes

definition my_pagetable :: "(fs, u64) kmonad" where
  "my_pagetable = kbind (klift f_pt set_pt myproc) (\<lambda>i. kget (\<lambda>s. p_pagetable (procs (f_pt s) i)))"

fun either_copyout :: "dest \<Rightarrow> bytes \<Rightarrow> (fs, int) kmonad" where
  "either_copyout (To_user dst) bs = kbind my_pagetable (\<lambda>pt. fkm (copyout pt dst bs (of_nat (length bs))))"
| "either_copyout To_kernel bs = kreturn 0"

fun either_copyin :: "src \<Rightarrow> nat \<Rightarrow> (fs, int \<times> bytes) kmonad" where
  "either_copyin (From_user a) len = kbind my_pagetable (\<lambda>pt. fkm (copyin pt a (of_nat len)))"
| "either_copyin (From_kernel bs) len = kreturn (0, take len bs)"

fun advance_dest :: "u32 \<Rightarrow> dest \<Rightarrow> dest" where
  "advance_dest m (To_user dst) = To_user (dst + ucast m)"
| "advance_dest m To_kernel = To_kernel"

fun advance_src :: "u32 \<Rightarrow> src \<Rightarrow> src" where
  "advance_src m (From_user a) = From_user (a + ucast m)"
| "advance_src m (From_kernel bs) = From_kernel (drop (unat m) bs)"

abbreviation BSZ :: u32 where "BSZ \<equiv> 1024"

text \<open>The bytes of the current block that an iteration transfers.\<close>

definition piece :: "u32 \<Rightarrow> u32 \<Rightarrow> u32 \<Rightarrow> u32" where
  "piece n tot off = min (n - tot) (BSZ - off mod BSZ)"

lemma piece_less:
  assumes "tot < n"
  shows "unat (n - (tot + piece n tot off)) < unat (n - tot)"
proof -
  have lt: "unat tot < unat n" using assms by (simp add: word_less_nat_alt)
  have p: "piece n tot off \<le> n - tot" by (simp add: piece_def)
  have "0 < piece n tot off"
  proof -
    have "unat (off mod BSZ) < 1024" by (simp add: unat_mod)
    then have "off mod BSZ < BSZ" by (simp add: word_less_nat_alt)
    then have "0 < BSZ - off mod BSZ" by (simp add: word_neq_0_conv [symmetric])
    moreover have "0 < n - tot" using assms by (metis eq_iff_diff_eq_0 less_irrefl word_neq_0_conv)
    ultimately show ?thesis by (simp add: piece_def)
  qed
  then have pos: "0 < unat (piece n tot off)" by (simp add: unat_gt_0 word_neq_0_conv)
  have "n - (tot + piece n tot off) = (n - tot) - piece n tot off" by simp
  then have "unat (n - (tot + piece n tot off)) = unat (n - tot) - unat (piece n tot off)"
    using p by (simp only: unat_sub)
  moreover have "unat (piece n tot off) \<le> unat (n - tot)" using p by (simp add: word_le_nat_alt)
  ultimately show ?thesis using pos by linarith
qed

function readi_loop :: "nat \<Rightarrow> u32 \<Rightarrow> u32 \<Rightarrow> u32 \<Rightarrow> dest \<Rightarrow> bytes \<Rightarrow> (fs, u32 \<times> bytes) kmonad" where
  "readi_loop i n tot off dst acc s =
     (if tot < n
      then kbind (bmap i (off div BSZ)) (\<lambda>addr s.
        if addr = 0 then kreturn (tot, acc) s
        else kbind (kget (\<lambda>s. i_dev (icache s i))) (\<lambda>dev. kbind (breadv dev addr) (\<lambda>bp.
          kbind (kget (\<lambda>s. bslice (fdata bp s) (unat (off mod BSZ)) (unat (piece n tot off)))) (\<lambda>bs.
          kbind (either_copyout dst bs) (\<lambda>r s.
            if r = -1 then kseq (fbrelse bp) (kreturn (tot, acc)) s
            else kseq (fbrelse bp)
              (readi_loop i n (tot + piece n tot off) (off + piece n tot off) (advance_dest (piece n tot off) dst) (acc @ bs)) s)))) s) s
      else kreturn (tot, acc) s)"
  by pat_completeness auto

termination
  by (relation "measure (\<lambda>(_, n, tot, _, _, _, _). unat (n - tot))") (auto intro: piece_less)

declare readi_loop.simps [simp del]

text \<open>The result is the count and, for a kernel buffer, the bytes copied.\<close>

definition readi :: "nat \<Rightarrow> dest \<Rightarrow> u32 \<Rightarrow> u32 \<Rightarrow> (fs, u32 \<times> bytes) kmonad" where
  "readi i dst off n = kbind (kget (\<lambda>s. i_size (icache s i))) (\<lambda>size.
     if off > size \<or> off + n < off then kreturn (0, [])
     else readi_loop i (if off + n > size then size - off else n) 0 off dst [])"

function writei_loop :: "nat \<Rightarrow> u32 \<Rightarrow> u32 \<Rightarrow> u32 \<Rightarrow> src \<Rightarrow> (fs, u32 \<times> u32) kmonad" where
  "writei_loop i n tot off sr s =
     (if tot < n
      then kbind (bmap i (off div BSZ)) (\<lambda>addr s.
        if addr = 0 then kreturn (tot, off) s
        else kbind (kget (\<lambda>s. i_dev (icache s i))) (\<lambda>dev. kbind (breadv dev addr) (\<lambda>bp.
          kbind (either_copyin sr (unat (piece n tot off))) (\<lambda>c.
          kseq (kmodify (\<lambda>s. fstore bp (bsplice (fdata bp s) (unat (off mod BSZ)) (snd c)) s)) (\<lambda>s.
            if fst c = -1 then kseq (fbrelse bp) (kreturn (tot, off)) s
            else kseq (flog_write bp) (kseq (fbrelse bp)
              (writei_loop i n (tot + piece n tot off) (off + piece n tot off) (advance_src (piece n tot off) sr))) s)))) s) s
      else kreturn (tot, off) s)"
  by pat_completeness auto

termination
  by (relation "measure (\<lambda>(_, n, tot, _, _, _). unat (n - tot))") (auto intro: piece_less)

declare writei_loop.simps [simp del]

definition writei :: "nat \<Rightarrow> src \<Rightarrow> u32 \<Rightarrow> u32 \<Rightarrow> (fs, int) kmonad" where
  "writei i sr off n = kbind (kget (\<lambda>s. i_size (icache s i))) (\<lambda>size.
     if off > size \<or> off + n < off then kreturn (-1)
     else if off + n > of_nat (MAXFILE * BSIZE) then kreturn (-1)
     else kbind (writei_loop i n 0 off sr) (\<lambda>(tot, off').
       kseq (kmodify (\<lambda>s. if off' > i_size (icache s i) then upd_inode i (\<lambda>ip. ip\<lparr>i_size := off'\<rparr>) s else s))
      (kseq (iupdate i) (kreturn (int_of_u32 tot)))))"

record fstat =
  st_dev :: u32
  st_ino :: u32
  st_type :: u16
  st_nlink :: u16
  st_size :: u64

definition stati :: "nat \<Rightarrow> (fs, fstat) kmonad" where
  "stati i = kget (\<lambda>s. let ip = icache s i in
     \<lparr>st_dev = i_dev ip, st_ino = i_inum ip, st_type = i_type ip, st_nlink = i_nlink ip, st_size = ucast (i_size ip)\<rparr>)"

section \<open>Directories\<close>

text \<open>A C string, or a field padded with NULs, as the reader of its bytes.\<close>

definition cstr :: "bytes \<Rightarrow> nat \<Rightarrow> u8" where
  "cstr xs k = (if k < length xs then xs ! k else 0)"

definition namecmp :: "bytes \<Rightarrow> bytes \<Rightarrow> int" where
  "namecmp x y = strncmp (cstr x) (cstr y) (of_nat DIRSIZ)"

lemma bmap_beyond: "bmap i bn s = Done a s' \<Longrightarrow> a \<noteq> 0 \<Longrightarrow> unat bn < MAXFILE"
  by (auto simp: bmap_def Let_def split: if_splits)

lemma readi_some: "readi i To_kernel off n s = Done (t, bs) s' \<Longrightarrow> 0 < unat t \<Longrightarrow> unat off < MAXFILE * BSIZE"
proof -
  assume r: "readi i To_kernel off n s = Done (t, bs) s'" and t: "0 < unat t"
  obtain k where l: "readi_loop i k 0 off To_kernel [] s = Done (t, bs) s'"
    using r t by (auto simp: readi_def split: if_splits)
  have "0 < k"
  proof (rule ccontr)
    assume "\<not> 0 < k"
    then have "t = 0" using l by (simp add: readi_loop.simps [of i])
    then show False using t by simp
  qed
  with l obtain a s1 where b: "bmap i (off div BSZ) s = Done a s1" "a \<noteq> 0"
    using t by (subst (asm) readi_loop.simps) (auto elim!: kbind_DoneE split: if_splits)
  then have "unat (off div BSZ) < MAXFILE" by (rule bmap_beyond)
  then show ?thesis by (simp add: unat_div div_less_iff_less_mult)
qed

definition read_dirent :: "string \<Rightarrow> nat \<Rightarrow> u32 \<Rightarrow> (fs, dirent) kmonad" where
  "read_dirent msg i off = kbind (readi i To_kernel off 16) (\<lambda>(t, bs).
     if t \<noteq> 16 then kpanic msg else kreturn (get_dirent bs))"

lemma read_dirent_bound: "read_dirent msg i off s = Done de s' \<Longrightarrow> unat off < MAXFILE * BSIZE"
  by (auto simp: read_dirent_def elim!: kbind_DoneE split: if_splits dest!: readi_some)

lemma off_step: "unat (off :: u32) < MAXFILE * BSIZE \<Longrightarrow> 2 ^ 32 - unat (off + 16) < 2 ^ 32 - unat off"
  by (simp add: unat_word_ariths)

function dirlookup_loop :: "nat \<Rightarrow> bytes \<Rightarrow> u32 \<Rightarrow> (fs, (nat \<times> u32) option) kmonad" where
  "dirlookup_loop i name off s =
     kbind (kget (\<lambda>s. icache s i)) (\<lambda>dp s.
       if off < i_size dp
       then kbind (read_dirent ''dirlookup read'' i off) (\<lambda>de s.
         if de_inum de \<noteq> 0 \<and> namecmp name (de_name de) = 0
         then kbind (iget (i_dev dp) (ucast (de_inum de))) (\<lambda>ip. kreturn (Some (ip, off))) s
         else dirlookup_loop i name (off + 16) s) s
       else kreturn None s) s"
  by pat_completeness auto

termination
  by (relation "measure (\<lambda>(_, _, off, _). 2 ^ 32 - unat off)") (auto dest!: read_dirent_bound dest: off_step)

declare dirlookup_loop.simps [simp del]

text \<open>\<^verbatim>\<open>dirlookup\<close> returns the referenced inode of the entry and its offset.\<close>

definition dirlookup :: "nat \<Rightarrow> bytes \<Rightarrow> (fs, (nat \<times> u32) option) kmonad" where
  "dirlookup i name = kbind (kget (\<lambda>s. i_type (icache s i))) (\<lambda>ty.
     if ty \<noteq> T_DIR then kpanic ''dirlookup not DIR'' else dirlookup_loop i name 0)"

text \<open>The search of \<^verbatim>\<open>dirlink\<close> for the offset of a free entry, or the end of the directory.\<close>

function free_entry :: "nat \<Rightarrow> u32 \<Rightarrow> (fs, u32) kmonad" where
  "free_entry i off s =
     kbind (kget (\<lambda>s. icache s i)) (\<lambda>dp s.
       if off < i_size dp
       then kbind (read_dirent ''dirlink read'' i off) (\<lambda>de s.
         if de_inum de = 0 then kreturn off s else free_entry i (off + 16) s) s
       else kreturn off s) s"
  by pat_completeness auto

termination
  by (relation "measure (\<lambda>(_, off, _). 2 ^ 32 - unat off)") (auto dest!: read_dirent_bound dest: off_step)

declare free_entry.simps [simp del]

text \<open>The effect of \<^verbatim>\<open>strncpy(de.name, name, DIRSIZ)\<close> on the 14 bytes of the field.\<close>

definition pad_name :: "bytes \<Rightarrow> bytes" where
  "pad_name name = take DIRSIZ (name @ replicate DIRSIZ 0)"

definition dirlink :: "nat \<Rightarrow> bytes \<Rightarrow> u32 \<Rightarrow> (fs, int) kmonad" where
  "dirlink i name inum = kbind (dirlookup i name) (\<lambda>r.
     case r of
       Some (ip, _) \<Rightarrow> kseq (iput ip) (kreturn (-1))
     | None \<Rightarrow> kbind (free_entry i 0) (\<lambda>off.
         kbind (writei i (From_kernel (dirent_bytes \<lparr>de_inum = ucast inum, de_name = pad_name name\<rparr>)) off 16) (\<lambda>t.
           if t \<noteq> 16 then kreturn (-1) else kreturn 0)))"

function isdirempty_loop :: "nat \<Rightarrow> u32 \<Rightarrow> (fs, bool) kmonad" where
  "isdirempty_loop i off s =
     kbind (kget (\<lambda>s. icache s i)) (\<lambda>dp s.
       if off < i_size dp
       then kbind (read_dirent ''isdirempty: readi'' i off) (\<lambda>de s.
         if de_inum de \<noteq> 0 then kreturn False s else isdirempty_loop i (off + 16) s) s
       else kreturn True s) s"
  by pat_completeness auto

termination
  by (relation "measure (\<lambda>(_, off, _). 2 ^ 32 - unat off)") (auto dest!: read_dirent_bound dest: off_step)

declare isdirempty_loop.simps [simp del]

definition isdirempty :: "nat \<Rightarrow> (fs, bool) kmonad" where
  "isdirempty i = isdirempty_loop i 32"

section \<open>Paths\<close>

abbreviation SLASH :: u8 where "SLASH \<equiv> 47"

definition skipelem :: "bytes \<Rightarrow> (bytes \<times> bytes) option" where
  "skipelem path =
     (let p = dropWhile (\<lambda>c. c = SLASH) path in
      if p = [] then None
      else Some (take (DIRSIZ - 1) (takeWhile (\<lambda>c. c \<noteq> SLASH) p), dropWhile (\<lambda>c. c = SLASH) (dropWhile (\<lambda>c. c \<noteq> SLASH) p)))"

lemma skipelem_less: "skipelem path = Some (name, rest) \<Longrightarrow> length rest < length path"
proof -
  assume a: "skipelem path = Some (name, rest)"
  let ?p = "dropWhile (\<lambda>c. c = SLASH) path"
  have ne: "?p \<noteq> []" and rest: "rest = dropWhile (\<lambda>c. c = SLASH) (dropWhile (\<lambda>c. c \<noteq> SLASH) ?p)"
    using a by (auto simp: skipelem_def Let_def split: if_splits)
  then obtain x xs where x: "?p = x # xs" by (cases ?p) auto
  then have "x \<noteq> SLASH" using hd_dropWhile [of "\<lambda>c. c = SLASH" path] by simp
  then have "length (dropWhile (\<lambda>c. c \<noteq> SLASH) ?p) \<le> length xs" using x by (simp add: length_dropWhile_le)
  then have "length rest \<le> length xs" unfolding rest by (meson le_trans length_dropWhile_le)
  moreover have "length ?p \<le> length path" by (rule length_dropWhile_le)
  ultimately show ?thesis using x by simp
qed

text \<open>The loop of \<^verbatim>\<open>dnamex\<close>: the directory reached so far and the rest of the path.\<close>

function dnamex_loop :: "bool \<Rightarrow> nat \<Rightarrow> bytes \<Rightarrow> (fs, (nat \<times> bytes) option) kmonad" where
  "dnamex_loop parent i path s =
     (case skipelem path of
        None \<Rightarrow> if parent then kseq (iput i) (kreturn None) s else kreturn (Some (i, [])) s
      | Some (element, rest) \<Rightarrow>
          kseq (ilock i) (kbind (kget (\<lambda>s. i_type (icache s i))) (\<lambda>ty s.
            if ty \<noteq> T_DIR then kseq (iunlockput i) (kreturn None) s
            else if parent \<and> rest = [] then kseq (iunlock i) (kreturn (Some (i, element))) s
            else kbind (dirlookup i element) (\<lambda>r s.
              case r of
                None \<Rightarrow> kseq (iunlockput i) (kreturn None) s
              | Some (next, _) \<Rightarrow> kseq (iunlockput i) (dnamex_loop parent next rest) s) s)) s)"
  by pat_completeness auto

termination
  by (relation "measure (\<lambda>(_, _, path, _). length path)") (auto dest: skipelem_less)

declare dnamex_loop.simps [simp del]

definition dnamex :: "bytes \<Rightarrow> bool \<Rightarrow> (fs, (nat \<times> bytes) option) kmonad" where
  "dnamex path parent = kbind (iget ROOTDEV ROOTINO) (\<lambda>i. dnamex_loop parent i path)"

definition namei :: "bytes \<Rightarrow> (fs, nat option) kmonad" where
  "namei path = kbind (dnamex path False) (\<lambda>r. kreturn (map_option fst r))"

definition nameiparent :: "bytes \<Rightarrow> (fs, (nat \<times> bytes) option) kmonad" where
  "nameiparent path = dnamex path True"

definition DOT :: bytes where "DOT = [46]"

definition DOTDOT :: bytes where "DOTDOT = [46, 46]"

definition unlink_bad :: "nat \<Rightarrow> nat \<Rightarrow> (fs, int) kmonad" where
  "unlink_bad ip dp = kseq (iunlockput ip) (kseq (iunlockput dp) (kreturn (-1)))"

definition unlink_helper :: "bytes \<Rightarrow> (fs, int) kmonad" where
  "unlink_helper path = kbind (nameiparent path) (\<lambda>pr.
     case pr of None \<Rightarrow> kreturn (-1)
     | Some (dp, name) \<Rightarrow>
         kseq (ilock dp) (kbind (dirlookup dp name) (\<lambda>r.
           case r of None \<Rightarrow> kseq (iunlockput dp) (kreturn (-1))
           | Some (ip, off) \<Rightarrow>
               kseq (ilock ip)
                 (if namecmp name DOT = 0 \<or> namecmp name DOTDOT = 0 then unlink_bad ip dp
                  else kbind (kget (\<lambda>s. i_type (icache s ip))) (\<lambda>ty.
                    kbind (if ty = T_DIR then isdirempty ip else kreturn True) (\<lambda>e.
                      if \<not> e then unlink_bad ip dp
                      else kbind (writei dp (From_kernel (replicate 16 0)) off 16) (\<lambda>t.
                        if t \<noteq> 16 then unlink_bad ip dp
                        else kseq (kmodify (upd_inode ip (\<lambda>p. p\<lparr>i_nlink := i_nlink p - 1\<rparr>)))
                            (kseq (iupdate ip) (kseq (iunlockput ip) (kseq (iunlockput dp) (kreturn 0)))))))))))"

section \<open>Mounting\<close>

definition sb_check :: "superblock \<Rightarrow> string option" where
  "sb_check sb =
     (if sb_magic sb \<noteq> FSMAGIC then Some ''invalid file system superblock''
      else if sb_size sb \<le> 0 \<or> sb_size sb > FSSIZE then Some ''invalid superblock size''
      else if sb_nlog sb \<le> 0 \<or> sb_logstart sb \<le> 1 then Some ''invalid log region''
      else if sb_logstart sb + sb_nlog sb > sb_size sb then Some ''log region out of range''
      else if sb_inodestart sb < sb_logstart sb + sb_nlog sb \<or> sb_inodestart sb \<ge> sb_size sb then Some ''invalid inode region''
      else if sb_bmapstart sb < sb_inodestart sb \<or> sb_bmapstart sb \<ge> sb_size sb then Some ''invalid bitmap region''
      else None)"

definition unformatted :: "superblock \<Rightarrow> bool" where
  "unformatted p \<longleftrightarrow> sb_magic p = 0 \<and> sb_size p = 0 \<and> sb_nlog p = 0 \<and> sb_logstart p = 0 \<and> sb_ninodes p = 0 \<and>
     sb_inodestart p = 0 \<and> sb_bmapstart p = 0"

definition fsinit :: "int \<Rightarrow> (fs, unit) kmonad" where
  "fsinit dev = kbind (breadv (u32_of_int dev) 1) (\<lambda>bp.
     kbind (kget (\<lambda>s. decode_sb (fdata bp s))) (\<lambda>probe.
     kseq (fbrelse bp)
      (if unformatted probe then kreturn ()
       else kseq (readsb (u32_of_int dev))
        (kbind (kget f_sb) (\<lambda>sb. case sb_check sb of
           Some msg \<Rightarrow> kpanic msg
         | None \<Rightarrow> kseq (flog (initlog dev)) (kseq iinit
            (kbind (iget (u32_of_int dev) ROOTINO) (\<lambda>root.
            kseq (ilock root) (kbind (kget (\<lambda>s. i_type (icache s root))) (\<lambda>ty.
              if ty \<noteq> T_DIR then kpanic ''fsinit: root not a directory''
              else kseq (iunlock root) (iput root)))))))))))"

end
