(* ===== verification/Fs_Spec.thy ===== *)
theory Fs_Spec
  imports Fs_Dir
begin

text \<open>
  What the file system does to the blocks of the device. The facts of the log and the buffer cache
  are lifted to the file-system state once, as the two ways a function ends its use of a block:
  releasing it unchanged, or storing new contents and logging them. The operations on blocks and on
  inodes follow from these two.
\<close>

section \<open>Blocks\<close>

text \<open>The current contents of the blocks, and a file system between two block accesses.\<close>

definition fview :: "fs \<Rightarrow> u32 \<Rightarrow> bytes" where
  "fview s = ca_view (labs (f_log s))"

definition fs_ok :: "nat \<Rightarrow> fs \<Rightarrow> bool" where
  "fs_ok p s \<longleftrightarrow> log_inv p (f_log s) \<and> ca_hold (labs (f_log s)) = Map.empty"

text \<open>Inside a transaction with room for \<open>k\<close> more logged blocks.\<close>

definition tx_room :: "nat \<Rightarrow> fs \<Rightarrow> bool" where
  "tx_room k s \<longleftrightarrow> l_n (f_log s) + int k < int NBUF \<and> l_n (f_log s) + int k < l_size (f_log s) \<and> 1 \<le> l_outstanding (f_log s)"

definition fhome :: "fs \<Rightarrow> u32 \<Rightarrow> bool" where
  "fhome s b \<longleftrightarrow> home (f_log s) b"

definition fframe :: "fs \<Rightarrow> fs \<Rightarrow> bool" where
  "fframe s s' \<longleftrightarrow> tframe (f_log s) (f_log s') \<and> f_sb s' = f_sb s \<and> icache s' = icache s \<and> f_km s' = f_km s"

lemma fframe_refl [simp]: "fframe s s"
  by (simp add: fframe_def)

lemma fframe_trans: "fframe s t \<Longrightarrow> fframe t u \<Longrightarrow> fframe s u"
  using tframe_trans by (auto simp: fframe_def)

lemma fframe_sel: "fframe s s' \<Longrightarrow> f_sb s' = f_sb s" "fframe s s' \<Longrightarrow> icache s' = icache s" "fframe s s' \<Longrightarrow> fhome s' = fhome s"
  "fframe s s' \<Longrightarrow> iblock s' = iblock s"
  by (auto simp: fframe_def fhome_def home_def tframe_def iblock_def fun_eq_iff)

lemma fview_len: "fs_ok p s \<Longrightarrow> length (fview s n) = BSIZE"
  using lview_len [of p "f_log s" n] by (simp add: fs_ok_def fview_def log_inv_def)

lemma fs_ok_cur: "fs_ok p s \<Longrightarrow> cur (f_pt s) = Some p"
  by (simp add: fs_ok_def log_inv_def bio_ok_def f_pt_def)

text \<open>
  Use of one block. \<open>fstep n v s s'\<close>: block \<open>n\<close> got the contents \<open>v\<close>, nothing else changed.
\<close>

definition fstep :: "nat \<Rightarrow> (u32 \<Rightarrow> bytes) \<Rightarrow> fs \<Rightarrow> fs \<Rightarrow> bool" where
  "fstep p vw s s' \<longleftrightarrow> fs_ok p s' \<and> fview s' = vw \<and> fframe s s'"

lemma room_step:
  assumes "log_inv p l" "logged l' = logged l \<or> (\<exists>n. logged l' = logged l @ [n])" "log_inv p l'"
  shows "l_n l' \<le> l_n l + 1"
proof -
  have "length (logged l') \<le> length (logged l) + 1" using assms(2) by auto
  moreover have "0 \<le> l_n l" "0 \<le> l_n l'" using assms(1,3) by (simp_all add: log_inv_def)
  ultimately show ?thesis by (simp add: logged_def)
qed

lemma fs_open:
  assumes ok: "fs_ok p s"
  obtains bp s1 where "breadv 1 n s = Done bp s1" "fdata bp s1 = fview s n" "f_sb s1 = f_sb s" "icache s1 = icache s" "f_km s1 = f_km s"
    "\<And>v k. length v = BSIZE \<Longrightarrow> tx_room (Suc k) s \<Longrightarrow> fhome s n \<Longrightarrow>
       \<exists>s'. kseq (kmodify (fstore bp v)) (kseq (flog_write bp) (fbrelse bp)) s1 = Done () s' \<and>
         fstep p ((fview s)(n := v)) s s' \<and> tx_room k s'"
    "\<exists>s'. fbrelse bp s1 = Done () s' \<and> fstep p (fview s) s s' \<and> (\<forall>k. tx_room k s' = tx_room k s)"
proof -
  let ?l = "f_log s"
  have inv: "log_inv p ?l" and h: "ca_hold (labs ?l) = Map.empty" using ok by (auto simp: fs_ok_def)
  have bok: "bio_ok p (l_bio ?l)" using inv by (simp add: log_inv_def)
  have r: "nat (l_n ?l) + card (dom (ca_hold (labs ?l))) < NBUF"
  proof -
    have "0 \<le> l_n ?l" "l_n ?l < 30" using inv by (simp_all add: log_inv_def)
    then show ?thesis using h by simp
  qed
  have room: "has_room (labs ?l) n" using inv_busy [OF inv] r by (simp add: has_room_busy)
  obtain bp l1 l2 where 1: "lbio (bread 1 n) ?l = Done bp l1" "ldata bp l1 = ca_view (labs ?l) n" "lbio (brelse bp) l1 = Done () l2"
      "bio_ok p (l_bio l2)" "labs l2 = labs ?l" "awoken (bio_pt (l_bio ?l)) (bio_pt (l_bio l2))" "((), l2\<lparr>l_bio := undefined\<rparr>) = ((), ?l\<lparr>l_bio := undefined\<rparr>)"
    using lpeek [OF bok _ room] h by metis
  have f2: "lframe ?l l2" by (rule lframeI [OF 1(7,6)])
  have inv2: "log_inv p l2" by (rule log_inv_frame [OF inv f2 1(4)]) (simp_all add: 1(5))
  let ?s1 = "s\<lparr>f_log := l1\<rparr>" and ?s2 = "s\<lparr>f_log := l2\<rparr>"
  have open': "breadv 1 n s = Done bp ?s1" using 1(1) by (simp add: breadv_def flog_def)
  have dt: "fdata bp ?s1 = fview s n" using 1(2) by (simp add: fdata_def fview_def)
  have rel: "fbrelse bp ?s1 = Done () ?s2" using 1(3) by (simp add: fbrelse_def flog_def)
  have "fstep p (fview s) s ?s2"
    using inv2 1(5) h lframe_tframe [OF f2] by (simp add: fstep_def fs_ok_def fview_def fframe_def)
  moreover have "\<forall>k. tx_room k ?s2 = tx_room k s" using lframe_sel [OF f2] by (simp add: tx_room_def)
  ultimately have peek: "\<exists>s'. fbrelse bp ?s1 = Done () s' \<and> fstep p (fview s) s s' \<and> (\<forall>k. tx_room k s' = tx_room k s)"
    using rel by blast
  have upd: "\<exists>s'. kseq (kmodify (fstore bp v)) (kseq (flog_write bp) (fbrelse bp)) ?s1 = Done () s' \<and>
         fstep p ((fview s)(n := v)) s s' \<and> tx_room k s'"
    if v: "length v = BSIZE" and k: "tx_room (Suc k) s" and hm: "fhome s n" for v k
  proof -
    have sl: "log_slack ?l" using k by (simp add: tx_room_def log_slack_def)
    have hn: "ca_hold (labs ?l) n = None" using h by simp
    obtain l' where l': "kbind (lbio (bread 1 n)) (\<lambda>i. kseq (kmodify (\<lambda>s. lstore i v s)) (kseq (log_write i) (lbio (brelse i)))) ?l = Done () l'"
        "log_inv p l'" "ca_view (labs l') = (ca_view (labs ?l))(n := v)" "ca_disk (labs l') = ca_disk (labs ?l)" "ca_hold (labs l') = ca_hold (labs ?l)"
        "logged l' = (if n \<in> set (logged ?l) then logged ?l else logged ?l @ [n])" "tframe ?l l'"
      by (rule logged_update [where f = "\<lambda>_. v", OF inv sl hn hm [unfolded fhome_def] r v refl])
    then obtain l3 l4 where 3: "log_write bp (lstore bp v l1) = Done () l3" "lbio (brelse bp) l3 = Done () l'"
      using 1(1) by (auto elim!: kseq_DoneE kbind_DoneE)
    let ?s' = "s\<lparr>f_log := l'\<rparr>"
    have "kseq (kmodify (fstore bp v)) (kseq (flog_write bp) (fbrelse bp)) ?s1 = Done () ?s'"
      using 3 by (simp add: fstore_def flog_write_def fbrelse_def flog_def)
    moreover have "fstep p ((fview s)(n := v)) s ?s'"
      using l' h by (simp add: fstep_def fs_ok_def fview_def fframe_def)
    moreover have "l_n l' \<le> l_n ?l + 1" by (rule room_step [OF inv _ l'(2)]) (simp add: l'(6))
    then have "tx_room k ?s'" using k l'(7) by (simp add: tx_room_def tframe_def)
    ultimately show ?thesis by blast
  qed
  show thesis by (rule that [OF open' dt _ _ _ upd peek]) simp_all
qed

text \<open>A complete update of one block.\<close>

lemma fs_update:
  assumes ok: "fs_ok p s" and room: "tx_room (Suc k) s" and hm: "fhome s n" and len: "length (f (fview s n)) = BSIZE"
  shows "\<exists>s'. kbind (breadv 1 n) (\<lambda>bp. kseq (kmodify (\<lambda>s. fstore bp (f (fdata bp s)) s)) (kseq (flog_write bp) (fbrelse bp))) s = Done () s' \<and>
    fstep p ((fview s)(n := f (fview s n))) s s' \<and> tx_room k s'"
proof -
  obtain bp s1 where o: "breadv 1 n s = Done bp s1" "fdata bp s1 = fview s n"
    "\<And>v k. length v = BSIZE \<Longrightarrow> tx_room (Suc k) s \<Longrightarrow> fhome s n \<Longrightarrow>
       \<exists>s'. kseq (kmodify (fstore bp v)) (kseq (flog_write bp) (fbrelse bp)) s1 = Done () s' \<and>
         fstep p ((fview s)(n := v)) s s' \<and> tx_room k s'"
    using fs_open [OF ok, of n] by metis
  from o(3) [OF len room hm] show ?thesis using o(1,2) by (auto simp: kseq_def)
qed

section \<open>Bitmap\<close>

lemma bit_set_bit: "bit_set d k \<longleftrightarrow> bit (d ! (k div 8)) (k mod 8)"
  by (simp add: bit_set_def bit_iff_and_push_bit_not_eq_0)

lemma bit_one8: "n < 8 \<Longrightarrow> bit (push_bit n 1 :: u8) m \<longleftrightarrow> m = n"
  by (auto simp: bit_simps)

lemma same_bit: "(j :: nat) div 8 = k div 8 \<Longrightarrow> j mod 8 = k mod 8 \<Longrightarrow> j = k"
  by (metis div_mult_mod_eq)

lemma bit_set_mark:
  assumes "k < 8 * length d" "j < 8 * length d"
  shows "bit_set (mark_bit k d) j \<longleftrightarrow> j = k \<or> bit_set d j"
proof (cases "j div 8 = k div 8")
  case True
  have "k div 8 < length d" using assms by (simp add: div_less_iff_less_mult)
  then show ?thesis using True same_bit [of j k] bit_one8 [of "k mod 8" "j mod 8"]
    by (auto simp: bit_set_bit mark_bit_def bit_or_iff)
qed (auto simp: bit_set_bit mark_bit_def)

lemma clear_mark:
  assumes "k < 8 * length d" "\<not> bit_set d k"
  shows "clear_bit k (mark_bit k d) = d"
proof -
  have k: "k div 8 < length d" using assms by (simp add: div_less_iff_less_mult)
  have "(d ! (k div 8) OR push_bit (k mod 8) 1) AND NOT (push_bit (k mod 8) 1) = d ! (k div 8)"
    using assms(2) bit_one8 [of "k mod 8"]
    by (intro bit_word_eqI) (auto simp: bit_set_bit bit_or_iff bit_and_iff bit_not_iff)
  then show ?thesis using k by (simp add: clear_bit_def mark_bit_def)
qed

lemma length_mark [simp]: "length (mark_bit k d) = length d" "length (clear_bit k d) = length d"
  by (simp_all add: mark_bit_def clear_bit_def)

lemma find_free_Some:
  "find_free d k = Some bi \<Longrightarrow> bi < k \<and> \<not> bit_set d bi \<and> (\<forall>j<bi. bit_set d j)"
  unfolding find_free_def find_Some_iff by auto

lemma find_free_None: "find_free d k = None \<longleftrightarrow> (\<forall>j<k. bit_set d j)"
  unfolding find_free_def by (auto simp: find_None_iff)

section \<open>Block allocation\<close>

lemma bzero_run:
  assumes "fs_ok p s" "tx_room (Suc k) s" "fhome s b"
  shows "\<exists>s'. bzero_block b s = Done () s' \<and> fstep p ((fview s)(b := replicate BSIZE 0)) s s' \<and> tx_room k s'"
  using fs_update [OF assms, where f = "\<lambda>_. replicate BSIZE 0"] by (simp add: bzero_block_def)

text \<open>A mounted file system whose bitmap fits one block, as \<^verbatim>\<open>FSSIZE\<close> guarantees.\<close>

definition one_bitmap :: "fs \<Rightarrow> bool" where
  "one_bitmap s \<longleftrightarrow> unat (sb_size (f_sb s)) \<le> BPB \<and> fhome s (sb_bmapstart (f_sb s))"

definition bitmap :: "fs \<Rightarrow> bytes" where
  "bitmap s = fview s (sb_bmapstart (f_sb s))"

lemma balloc_found:
  assumes ok: "fs_ok p s" and room: "tx_room (Suc (Suc k)) s" and one: "one_bitmap s"
    and f: "find_free (bitmap s) (unat (sb_size (f_sb s))) = Some bi" and hm: "fhome s (of_nat bi)"
  shows "\<exists>s'. balloc_alloc dev s = Done (of_nat bi) s' \<and> tx_room k s' \<and>
    fstep p ((fview s)(sb_bmapstart (f_sb s) := mark_bit bi (bitmap s), of_nat bi := replicate BSIZE 0)) s s'"
proof -
  let ?bm = "sb_bmapstart (f_sb s)" and ?sz = "unat (sb_size (f_sb s))"
  have sz: "0 < ?sz" "?sz \<le> BPB" using find_free_Some [OF f] one by (auto simp: one_bitmap_def)
  obtain bp s1 where o: "breadv 1 ?bm s = Done bp s1" "fdata bp s1 = fview s ?bm"
    "\<And>v k. length v = BSIZE \<Longrightarrow> tx_room (Suc k) s \<Longrightarrow> fhome s ?bm \<Longrightarrow>
       \<exists>s'. kseq (kmodify (fstore bp v)) (kseq (flog_write bp) (fbrelse bp)) s1 = Done () s' \<and>
         fstep p ((fview s)(?bm := v)) s s' \<and> tx_room k s'"
    using fs_open [OF ok, of ?bm] by metis
  have len: "length (mark_bit bi (fview s ?bm)) = BSIZE" using fview_len [OF ok] by simp
  obtain s2 where 2: "kseq (kmodify (fstore bp (mark_bit bi (fview s ?bm)))) (kseq (flog_write bp) (fbrelse bp)) s1 = Done () s2"
      "fstep p ((fview s)(?bm := mark_bit bi (fview s ?bm))) s s2" "tx_room (Suc k) s2"
    using o(3) [OF len room] one by (auto simp: one_bitmap_def)
  then obtain s3 where 3: "flog_write bp (fstore bp (mark_bit bi (fview s ?bm)) s1) = Done () s3" "fbrelse bp s3 = Done () s2"
    by (auto elim!: kseq_DoneE)
  have st2: "fs_ok p s2" "fframe s s2" "fview s2 = (fview s)(?bm := mark_bit bi (fview s ?bm))" using 2(2) by (simp_all add: fstep_def)
  have "fhome s2 (of_nat bi)" using hm fframe_sel(3) [OF st2(2)] by simp
  then obtain s4 where 4: "bzero_block (of_nat bi) s2 = Done () s4" "fstep p ((fview s2)(of_nat bi := replicate BSIZE 0)) s2 s4" "tx_room k s4"
    using bzero_run [OF st2(1) 2(3)] by blast
  have "balloc_loop ?sz 0 s = Done (of_nat bi) s4"
    using sz o(1,2) 3 4(1) f by (subst balloc_loop.simps) (simp add: bitmap_def)
  then have "balloc_alloc dev s = Done (of_nat bi) s4" by (simp add: balloc_alloc_def)
  moreover have "fstep p ((fview s)(?bm := mark_bit bi (bitmap s), of_nat bi := replicate BSIZE 0)) s s4"
    using 4(2) st2 fframe_trans by (auto simp: fstep_def bitmap_def)
  ultimately show ?thesis using 4(3) by blast
qed

lemma balloc_full:
  assumes ok: "fs_ok p s" and one: "one_bitmap s" and f: "find_free (bitmap s) (unat (sb_size (f_sb s))) = None"
  shows "\<exists>s'. balloc_alloc dev s = Done 0 s' \<and> fstep p (fview s) s s'"
proof -
  let ?bm = "sb_bmapstart (f_sb s)" and ?sz = "unat (sb_size (f_sb s))"
  obtain bp s1 where o: "breadv 1 ?bm s = Done bp s1" "fdata bp s1 = fview s ?bm"
    "\<exists>s'. fbrelse bp s1 = Done () s' \<and> fstep p (fview s) s s' \<and> (\<forall>k. tx_room k s' = tx_room k s)"
    using fs_open [OF ok, of ?bm] by metis
  then obtain s2 where 2: "fbrelse bp s1 = Done () s2" "fstep p (fview s) s s2" by blast
  have sz: "?sz \<le> BPB" using one by (simp add: one_bitmap_def)
  show ?thesis
  proof (cases "?sz = 0")
    case True
    then have "balloc_alloc dev s = Done 0 s" by (simp add: balloc_alloc_def balloc_loop.simps [of 0])
    then show ?thesis using ok by (auto simp: fstep_def)
  next
    case False
    have "balloc_loop ?sz (0 + BPB) t = Done 0 t" for t using sz by (subst balloc_loop.simps) simp
    then have "balloc_loop ?sz 0 s = Done 0 s2"
      using False sz o(1,2) 2(1) f by (subst balloc_loop.simps) (simp add: bitmap_def)
    then show ?thesis using 2(2) by (auto simp: balloc_alloc_def)
  qed
qed

lemma bfree_run:
  assumes ok: "fs_ok p s" and room: "tx_room (Suc k) s" and one: "one_bitmap s"
    and b: "b < sb_size (f_sb s)" and set: "bit_set (bitmap s) (unat b)"
  shows "\<exists>s'. bfree_release dev b s = Done () s' \<and> tx_room k s' \<and>
    fstep p ((fview s)(sb_bmapstart (f_sb s) := clear_bit (unat b) (bitmap s))) s s'"
proof -
  let ?bm = "sb_bmapstart (f_sb s)"
  have lt: "unat b < BPB" using b one by (simp add: one_bitmap_def word_less_nat_alt)
  then have "unat (b div of_nat BPB) = 0" by (simp add: unat_div)
  then have bm: "?bm + b div of_nat BPB = ?bm" by (simp add: unat_eq_0)
  obtain bp s1 where o: "breadv 1 ?bm s = Done bp s1" "fdata bp s1 = fview s ?bm"
    "\<And>v k. length v = BSIZE \<Longrightarrow> tx_room (Suc k) s \<Longrightarrow> fhome s ?bm \<Longrightarrow>
       \<exists>s'. kseq (kmodify (fstore bp v)) (kseq (flog_write bp) (fbrelse bp)) s1 = Done () s' \<and>
         fstep p ((fview s)(?bm := v)) s s' \<and> tx_room k s'"
    using fs_open [OF ok, of ?bm] by metis
  have len: "length (clear_bit (unat b) (fview s ?bm)) = BSIZE" using fview_len [OF ok] by simp
  have hm: "fhome s ?bm" using one by (simp add: one_bitmap_def)
  from o(3) [OF len room hm] show ?thesis
    using o(1,2) b set lt bm by (auto simp: bfree_release_def Let_def bitmap_def)
qed

section \<open>Inodes on disk\<close>

definition put_words :: "nat \<Rightarrow> (nat \<Rightarrow> u32) \<Rightarrow> nat \<Rightarrow> bytes \<Rightarrow> bytes" where
  "put_words off f m d = fold (\<lambda>k d. put32 d (off + 4 * k) (f k)) [0..<m] d"

lemma put_words_Suc: "put_words off f (Suc m) d = put32 (put_words off f m d) (off + 4 * m) (f m)"
  by (simp add: put_words_def)

lemma length_put_words [simp]: "off + 4 * m \<le> length d \<Longrightarrow> length (put_words off f m d) = length d"
  by (induction m) (simp_all add: put_words_Suc, simp add: put_words_def)

lemma put_words_slice:
  "off + 4 * m \<le> length d \<Longrightarrow> o2 + n \<le> length d \<Longrightarrow> o2 + n \<le> off \<or> off + 4 * m \<le> o2 \<Longrightarrow>
   bslice (put_words off f m d) o2 n = bslice d o2 n"
proof (induction m)
  case 0
  then show ?case by (simp add: put_words_def)
next
  case (Suc m)
  have "bslice (put32 (put_words off f m d) (off + 4 * m) (f m)) o2 n = bslice (put_words off f m d) o2 n"
    using Suc.prems unfolding put32_def by (intro slice_splice_other) auto
  then show ?case using Suc by (auto simp: put_words_Suc)
qed

lemma put_words_get: "off + 4 * m \<le> length d \<Longrightarrow> k < m \<Longrightarrow> get32 (put_words off f m d) (off + 4 * k) = f k"
proof (induction m)
  case (Suc m)
  show ?case
  proof (cases "k = m")
    case False
    then have "get32 (put_words off f (Suc m) d) (off + 4 * k) = get32 (put_words off f m d) (off + 4 * k)"
      using Suc.prems by (simp add: put_words_Suc get32_put32_other)
    then show ?thesis using Suc False by simp
  qed (use Suc.prems in \<open>simp add: put_words_Suc\<close>)
qed simp

lemma put_addrs_words: "put_addrs off xs d = put_words off (\<lambda>k. xs ! k) (NDIRECT + 1) d"
  by (simp only: put_addrs_def put_words_def)

lemma put_dinode_slice:
  assumes "64 * i + 64 \<le> length d" "o2 + n \<le> length d" "o2 + n \<le> 64 * i \<or> 64 * i + 64 \<le> o2"
  shows "bslice (put_dinode d i di) o2 n = bslice d o2 n"
  using assms
  by (elim disjE) (simp_all add: put_dinode_def Let_def put_addrs_words put_words_slice put32_def put16_def slice_splice_other)

lemma length_put_dinode [simp]: "64 * i + 64 \<le> length d \<Longrightarrow> length (put_dinode d i di) = length d"
  by (simp add: put_dinode_def Let_def put_addrs_words)

lemma get_dinode_fields:
  "di_type (get_dinode b i) = get16 b (64 * i)" "di_major (get_dinode b i) = get16 b (64 * i + 2)"
  "di_minor (get_dinode b i) = get16 b (64 * i + 4)" "di_nlink (get_dinode b i) = get16 b (64 * i + 6)"
  "di_size (get_dinode b i) = get32 b (64 * i + 8)"
  by (simp_all add: get_dinode_def Let_def)

lemma get_put_dinode_same:
  assumes "64 * i + 64 \<le> length d" "length (di_addrs di) = NDIRECT + 1"
  shows "get_dinode (put_dinode d i di) i = di"
proof -
  let ?o = "64 * i"
  have w: "get16 (put_words (?o + 12) f 13 e) o1 = get16 e o1" if "length e = length d" "o1 + 2 \<le> ?o + 12" for f e o1
    using that assms(1) by (simp add: get16_def put_words_slice)
  have y: "get32 (put_words (?o + 12) f 13 e) o1 = get32 e o1" if "length e = length d" "o1 + 4 \<le> ?o + 12" for f e o1
    using that assms(1) by (simp add: get32_def put_words_slice)
  have x: "get16 (put32 e (?o + 8) v) o1 = get16 e o1" if "length e = length d" "o1 + 2 \<le> ?o + 8" for e v o1
    using that assms(1) by (simp add: get16_def put32_def slice_splice_other)
  have "map (\<lambda>k. get32 (put_dinode d i di) (?o + 12 + 4 * k)) [0..<NDIRECT + 1] = map (\<lambda>k. di_addrs di ! k) [0..<NDIRECT + 1]"
    using assms(1) by (intro map_cong refl) (simp add: put_dinode_def Let_def put_addrs_words put_words_get)
  also have "\<dots> = di_addrs di" using assms(2) map_nth [of "di_addrs di"] by simp
  finally have as: "di_addrs (get_dinode (put_dinode d i di) i) = di_addrs di" by (simp add: get_dinode_def Let_def)
  note field = get_dinode_fields put_dinode_def Let_def put_addrs_words w x y get16_put16_other
  have "di_type (get_dinode (put_dinode d i di) i) = di_type di" using assms(1) by (simp add: field del: upt_rec_numeral)
  moreover have "di_major (get_dinode (put_dinode d i di) i) = di_major di" using assms(1) by (simp add: field del: upt_rec_numeral)
  moreover have "di_minor (get_dinode (put_dinode d i di) i) = di_minor di" using assms(1) by (simp add: field del: upt_rec_numeral)
  moreover have "di_nlink (get_dinode (put_dinode d i di) i) = di_nlink di" using assms(1) by (simp add: field del: upt_rec_numeral)
  moreover have "di_size (get_dinode (put_dinode d i di) i) = di_size di" using assms(1) by (simp add: field del: upt_rec_numeral)
  ultimately show ?thesis using as by (simp add: dinode.equality)
qed

lemma get_put_dinode_other:
  assumes "64 * i + 64 \<le> length d" "64 * j + 64 \<le> length d" "i \<noteq> j"
  shows "get_dinode (put_dinode d i di) j = get_dinode d j"
proof -
  have s: "bslice (put_dinode d i di) (64 * j + k) n = bslice d (64 * j + k) n" if "k + n \<le> 64" for k n
    using that assms by (intro put_dinode_slice) auto
  have h: "get16 (put_dinode d i di) (64 * j + k) = get16 d (64 * j + k)" if "k + 2 \<le> 64" for k
    using s [OF that] by (simp add: get16_def)
  have w: "get32 (put_dinode d i di) (64 * j + k) = get32 d (64 * j + k)" if "k + 4 \<le> 64" for k
    using s [OF that] by (simp add: get32_def)
  have "map (\<lambda>k. get32 (put_dinode d i di) (64 * j + 12 + 4 * k)) [0..<NDIRECT + 1] =
      map (\<lambda>k. get32 d (64 * j + 12 + 4 * k)) [0..<NDIRECT + 1]"
    using w by (intro map_cong refl) (simp add: add.assoc)
  then show ?thesis
    using h [of 0] h [of 2] h [of 4] h [of 6] w [of 8] by (simp add: get_dinode_def Let_def del: upt_rec_numeral)
qed

section \<open>Inodes in memory\<close>

text \<open>The inode \<open>inum\<close> as the blocks have it.\<close>

definition disk_inode :: "fs \<Rightarrow> u32 \<Rightarrow> dinode" where
  "disk_inode s inum = get_dinode (fview s (iblock s inum)) (unat inum mod IPB)"

lemma slot_in_block: "64 * (unat (inum :: u32) mod IPB) + 64 \<le> BSIZE"
proof -
  have "unat inum mod IPB < IPB" by simp
  then show ?thesis by linarith
qed

lemma iupdate_run:
  assumes ok: "fs_ok p s" and room: "tx_room (Suc k) s" and dev: "i_dev (icache s i) = 1"
    and hm: "fhome s (iblock s (i_inum (icache s i)))"
  shows "\<exists>s'. iupdate i s = Done () s' \<and> tx_room k s' \<and>
    fstep p ((fview s)(iblock s (i_inum (icache s i)) :=
      put_dinode (fview s (iblock s (i_inum (icache s i)))) (unat (i_inum (icache s i)) mod IPB) (inode_dinode (icache s i)))) s s'"
proof -
  let ?ip = "icache s i" and ?n = "iblock s (i_inum (icache s i))"
  have len: "length (put_dinode (fview s ?n) (unat (i_inum ?ip) mod IPB) (inode_dinode ?ip)) = BSIZE"
    using fview_len [OF ok] slot_in_block by simp
  from fs_update [OF ok room hm, where f = "\<lambda>d. put_dinode d (unat (i_inum ?ip) mod IPB) (inode_dinode ?ip)", OF len]
  show ?thesis by (auto simp: iupdate_def dev)
qed

lemma set_pt_same [simp]: "set_pt (f_pt s) s = s"
  by (simp add: set_pt_def f_pt_def)

lemma upd_inode_sel [simp]: "f_log (upd_inode i f s) = f_log s" "f_sb (upd_inode i f s) = f_sb s" "f_km (upd_inode i f s) = f_km s"
  "icache (upd_inode i f s) = (icache s)(i := f (icache s i))" "f_pt (upd_inode i f s) = f_pt s"
  "fview (upd_inode i f s) = fview s" "fs_ok p (upd_inode i f s) = fs_ok p s" "iblock (upd_inode i f s) = iblock s"
  "tx_room k (upd_inode i f s) = tx_room k s"
  by (auto simp: upd_inode_def f_pt_def fview_def fs_ok_def iblock_def tx_room_def fun_eq_iff)

lemma flog_upd_inode: "flog m s = Done x s' \<Longrightarrow> flog m (upd_inode i f s) = Done x (upd_inode i f s')"
  unfolding flog_def by (auto simp: klift_def upd_inode_def split: outcome.splits)

lemma ilock_acquire:
  assumes "cur (f_pt s) = Some p" "\<not> sl_locked (i_lock (icache s i))"
  shows "on_ilock i (acquiresleep (ChanInode i)) s = Done () (upd_inode i (\<lambda>ip. ip\<lparr>i_lock := owned (f_pt s) p\<rparr>) s)"
proof -
  have "acquiresleep (ChanInode i) (ilock_get i s) = Done () (owned (f_pt s) p, f_pt s)"
    using acquiresleep_free [OF assms] by (simp add: ilock_get_def)
  moreover have "ilock_put i (owned (f_pt s) p, f_pt s) s = upd_inode i (\<lambda>ip. ip\<lparr>i_lock := owned (f_pt s) p\<rparr>) s"
    using set_pt_same [of "upd_inode i (\<lambda>ip. ip\<lparr>i_lock := owned (f_pt s) p\<rparr>) s"] by (simp add: ilock_put_def)
  ultimately show ?thesis by (simp add: on_ilock_def)
qed

text \<open>\<^verbatim>\<open>ilock\<close> of an inode that is referenced, unlocked and not yet loaded.\<close>

lemma ilock_load:
  assumes ok: "fs_ok p s" and ref: "1 \<le> i_ref (icache s i)" and free: "\<not> sl_locked (i_lock (icache s i))"
    and inv: "\<not> i_valid (icache s i)" and dev: "i_dev (icache s i) = 1" and ty: "di_type (disk_inode s (i_inum (icache s i))) \<noteq> 0"
  shows "\<exists>s'. ilock i s = Done () s' \<and> fs_ok p s' \<and> fview s' = fview s \<and> f_sb s' = f_sb s \<and> f_km s' = f_km s \<and>
    (\<forall>k. tx_room k s' = tx_room k s) \<and>
    icache s' = (icache s)(i := (load_dinode (disk_inode s (i_inum (icache s i))) ((icache s i)\<lparr>i_lock := owned (f_pt s) p\<rparr>))\<lparr>i_valid := True\<rparr>)"
proof -
  let ?ip = "icache s i" and ?lk = "\<lambda>ip. ip\<lparr>i_lock := owned (f_pt s) p\<rparr>"
  let ?s0 = "upd_inode i ?lk s" and ?n = "iblock s (i_inum (icache s i))" and ?ld = "load_dinode (disk_inode s (i_inum (icache s i)))"
  have ok0: "fs_ok p ?s0" using ok by simp
  obtain bp s1 where o: "breadv 1 ?n ?s0 = Done bp s1" "fdata bp s1 = fview ?s0 ?n"  "icache s1 = icache ?s0"
    "\<exists>s'. fbrelse bp s1 = Done () s' \<and> fstep p (fview ?s0) ?s0 s' \<and> (\<forall>k. tx_room k s' = tx_room k ?s0)"
    using fs_open [OF ok0, of ?n] by metis
  then obtain s2 where 2: "fbrelse bp s1 = Done () s2" "fstep p (fview ?s0) ?s0 s2" "\<forall>k. tx_room k s2 = tx_room k s" by auto
  have r: "fbrelse bp (upd_inode i ?ld s1) = Done () (upd_inode i ?ld s2)"
    unfolding fbrelse_def by (rule flog_upd_inode [OF 2(1) [unfolded fbrelse_def]])
  have ic: "icache s2 = icache ?s0" "fview s2 = fview s" "fs_ok p s2" "f_sb s2 = f_sb s" "f_km s2 = f_km s"
    using 2(2) by (auto simp: fstep_def fframe_def)
  have "di_type (disk_inode s (i_inum ?ip)) = i_type (icache (upd_inode i ?ld s2) i)" by (simp add: load_dinode_def)
  then have "ilock i s = Done () (upd_inode i (\<lambda>ip. ip\<lparr>i_valid := True\<rparr>) (upd_inode i ?ld s2))"
    using ref inv dev ty ilock_acquire [OF fs_ok_cur [OF ok] free] o(1-3) r
    by (simp add: ilock_def disk_inode_def)
  moreover have "icache (upd_inode i (\<lambda>ip. ip\<lparr>i_valid := True\<rparr>) (upd_inode i ?ld s2)) =
      (icache s)(i := (?ld (?lk ?ip))\<lparr>i_valid := True\<rparr>)"
    by (simp add: ic load_dinode_def)
  ultimately show ?thesis using ic 2(3) by (intro exI [of _ "upd_inode i (\<lambda>ip. ip\<lparr>i_valid := True\<rparr>) (upd_inode i ?ld s2)"]) simp
qed

lemma dinode_of_load: "inode_dinode (load_dinode di ip) = di" "inode_dinode (ip\<lparr>i_valid := v\<rparr>) = inode_dinode ip"
  by (simp_all add: inode_dinode_def load_dinode_def)

lemma same_inum:
  assumes "iblock s m = iblock s n" "unat m mod IPB = unat n mod IPB"
  shows "m = n"
proof -
  have "m div of_nat IPB = n div of_nat IPB" using assms(1) by (simp add: iblock_def)
  then have "unat (m div of_nat IPB) = unat (n div of_nat IPB)" by simp
  then have "unat m div IPB = unat n div IPB" by (simp add: unat_div)
  then have "unat m = unat n" using assms(2) by (metis div_mult_mod_eq)
  then show ?thesis by (simp add: word_unat_eq_iff)
qed

lemma disk_inode_written:
  assumes "fs_ok p s" "iblock s' = iblock s" "length (di_addrs di) = NDIRECT + 1"
    and "fview s' = (fview s)(iblock s n := put_dinode (fview s (iblock s n)) (unat n mod IPB) di)"
  shows "disk_inode s' m = (if m = n then di else disk_inode s m)"
proof -
  have b: "64 * (unat k mod IPB) + 64 \<le> length (fview s (iblock s n))" for k :: u32
    using fview_len [OF assms(1)] slot_in_block by simp
  show ?thesis
  proof (cases "iblock s m = iblock s n")
    case True
    show ?thesis
    proof (cases "m = n")
      case True
      then show ?thesis using assms b get_put_dinode_same [OF b assms(3)] by (simp add: disk_inode_def)
    next
      case False
      then have ne: "unat n mod IPB \<noteq> unat m mod IPB" using same_inum True by metis
      then have "disk_inode s' m = get_dinode (fview s (iblock s n)) (unat m mod IPB)"
        using assms(2,4) True by (simp only: disk_inode_def get_put_dinode_other [OF b b ne] fun_upd_same)
      then show ?thesis using False True by (simp add: disk_inode_def)
    qed
  next
    case False
    then show ?thesis using assms by (auto simp: disk_inode_def)
  qed
qed

end
