(* ===== verification/Fs_Props.thy ===== *)
theory Fs_Props
  imports Fs_Spec Log_Props
begin

text \<open>
  Properties of the file system's block and inode layer, with a concrete mounted file system on
  which they apply.
\<close>

section \<open>A concrete file system\<close>

definition demo_bm :: bytes where
  "demo_bm = replicate 5 255 @ [63] @ replicate 1018 0"

lemma demo_bm_bits: "j < 46 \<Longrightarrow> bit_set demo_bm j" "\<not> bit_set demo_bm 46" "length demo_bm = BSIZE"
proof -
  have "list_all (bit_set demo_bm) [0..<46]" "\<not> bit_set demo_bm 46" "length demo_bm = BSIZE" by code_simp+
  then show "j < 46 \<Longrightarrow> bit_set demo_bm j" "\<not> bit_set demo_bm 46" "length demo_bm = BSIZE" by (auto simp: list_all_iff)
qed

definition demo_fs :: "logst \<Rightarrow> (nat \<Rightarrow> inode) \<Rightarrow> fs" where
  "demo_fs l ic = \<lparr>f_log = l\<lparr>l_outstanding := 1\<rparr>, f_sb = demo_sb, icache = ic,
     f_km = \<lparr>k_mem = (\<lambda>_. 0), k_end = 0x80000000, freelist = 0\<rparr>\<rparr>"

lemma demo_fs_ok:
  assumes d: "\<And>n. length (d n) = BSIZE" "decode_sb (d 1) = demo_sb" "hdr_n (d 2) = 0"
  obtains l where "\<forall>ic. fs_ok 0 (demo_fs l ic)" "\<forall>k<28. \<forall>ic. tx_room k (demo_fs l ic)"
    "\<forall>n ic. n \<noteq> 2 \<longrightarrow> fview (demo_fs l ic) n = d n" "\<forall>b ic. fhome (demo_fs l ic) b \<longleftrightarrow> 32 \<le> uint b \<and> uint b < 1000"
proof -
  obtain l where l: "log_ready 0 l" "mounted demo_sb l" "l_n l = 0" "ca_view (labs l) = put_blocks (recovery 2 d) d"
    using mount_disk [OF d] by blast
  have r: "recovery 2 d = [(2, put32 (d 2) 0 0)]" using d(3) by (simp add: recovery_def Let_def u32_of_int_def)
  have "log_ready 0 (l\<lparr>l_outstanding := 1\<rparr>)"
    using l(1) by (simp add: log_ready_def geom_def home_def labs_def logged_def head_no_def)
  then have "fs_ok 0 (demo_fs l ic)" for ic by (simp add: fs_ok_def demo_fs_def log_ready_inv)
  moreover have "tx_room k (demo_fs l ic)" if "k < 28" for k ic
    using that l(2,3) by (simp add: tx_room_def demo_fs_def mounted_def demo_sb_def)
  moreover have "fview (demo_fs l ic) n = d n" if "n \<noteq> 2" for n ic
    using that l(4) by (simp add: fview_def demo_fs_def labs_def r)
  moreover have "fhome (demo_fs l ic) b \<longleftrightarrow> 32 \<le> uint b \<and> uint b < 1000" for b ic
  proof -
    have "home (l\<lparr>l_outstanding := 1\<rparr>) b = home l b" by (simp add: home_def)
    then show ?thesis using mounted_home(1) [OF l(2)] demo_facts(5) [of b] by (simp add: fhome_def demo_fs_def)
  qed
  ultimately show thesis using that by blast
qed

definition demo_inode :: inode where
  "demo_inode = \<lparr>i_dev = 1, i_inum = 5, i_ref = 1, i_lock = initsleeplock, i_valid = True, i_type = T_FILE, i_major = 0, i_minor = 0,
     i_nlink = 1, i_size = 77, i_addrs = replicate 13 46\<rparr>"

section \<open>Properties\<close>

text \<open>
  C16. Block allocation. In a mounted file system in which only data blocks are marked free,
  \<^verbatim>\<open>balloc_alloc\<close> returns the first free block, marks exactly that bit, leaves the block zeroed and
  changes no other block; freeing it again restores the bitmap. When no bit is clear it returns 0 and
  changes nothing.
\<close>

theorem block_alloc_free:
  assumes "fs_ok p s" and "tx_room 3 s" and "one_bitmap s"
    and "\<forall>b < sb_size (f_sb s). \<not> bit_set (bitmap s) (unat b) \<longrightarrow> fhome s b \<and> b \<noteq> sb_bmapstart (f_sb s)"
  shows "case find_free (bitmap s) (unat (sb_size (f_sb s))) of
      None \<Rightarrow> (\<exists>s1. balloc_alloc dev s = Done 0 s1 \<and> fview s1 = fview s)
    | Some bi \<Rightarrow> (\<exists>s1 s2. balloc_alloc dev s = Done (of_nat bi) s1 \<and> \<not> bit_set (bitmap s) bi \<and> (\<forall>j<bi. bit_set (bitmap s) j) \<and>
        (\<forall>j<BPB. bit_set (bitmap s1) j \<longleftrightarrow> j = bi \<or> bit_set (bitmap s) j) \<and> fview s1 (of_nat bi) = replicate BSIZE 0 \<and>
        (\<forall>n. n \<noteq> of_nat bi \<and> n \<noteq> sb_bmapstart (f_sb s) \<longrightarrow> fview s1 n = fview s n) \<and>
        bfree_release dev (of_nat bi) s1 = Done () s2 \<and> fview s2 = (fview s)(of_nat bi := replicate BSIZE 0))"
proof (cases "find_free (bitmap s) (unat (sb_size (f_sb s)))")
  case None
  then show ?thesis using balloc_full [OF assms(1,3) None, of dev] by (auto simp: fstep_def)
next
  case (Some bi)
  let ?bm = "sb_bmapstart (f_sb s)" and ?b = "of_nat bi :: u32"
  have f: "bi < unat (sb_size (f_sb s))" "\<not> bit_set (bitmap s) bi" "\<forall>j<bi. bit_set (bitmap s) j" using find_free_Some [OF Some] by auto
  have bpb: "bi < BPB" using f(1) assms(3) by (simp add: one_bitmap_def)
  have u: "unat ?b = bi" using bpb by (simp add: unat_of_nat)
  have lt: "?b < sb_size (f_sb s)" using f(1) u by (simp add: word_less_nat_alt)
  have hm: "fhome s ?b" "?b \<noteq> ?bm" using assms(4) lt f(2) u by auto
  have len: "length (bitmap s) = BSIZE" using fview_len [OF assms(1)] by (simp add: bitmap_def)
  have room: "tx_room (Suc (Suc (Suc 0))) s" using assms(2) by (simp add: numeral_3_eq_3)
  obtain s1 where 1: "balloc_alloc dev s = Done ?b s1" "tx_room (Suc 0) s1"
      "fstep p ((fview s)(?bm := mark_bit bi (bitmap s), ?b := replicate BSIZE 0)) s s1"
    using balloc_found [OF assms(1) room assms(3) Some hm(1)] by blast
  have st: "fs_ok p s1" "fframe s s1" "fview s1 = (fview s)(?bm := mark_bit bi (bitmap s), ?b := replicate BSIZE 0)"
    using 1(3) by (simp_all add: fstep_def)
  note fr = fframe_sel [OF st(2)]
  have bm: "bitmap s1 = mark_bit bi (bitmap s)" using st(3) hm(2) fr(1) by (simp add: bitmap_def)
  have set: "bit_set (bitmap s1) j \<longleftrightarrow> j = bi \<or> bit_set (bitmap s) j" if "j < BPB" for j
    unfolding bm using that bpb len by (intro bit_set_mark) auto
  obtain s2 where 2: "bfree_release dev ?b s1 = Done () s2" "fstep p ((fview s1)(?bm := clear_bit (unat ?b) (bitmap s1))) s1 s2"
    using bfree_run [OF st(1) 1(2), of ?b dev] assms(3) lt set [OF bpb] u by (auto simp: one_bitmap_def fr)
  have "clear_bit bi (bitmap s1) = bitmap s" unfolding bm using f(2) bpb len by (intro clear_mark) auto
  then have "fview s2 = (fview s)(?b := replicate BSIZE 0)"
    using 2(2) st(3) hm(2) u by (auto simp: fstep_def bitmap_def fun_eq_iff)
  then show ?thesis using Some 1(1) f set st(3) hm(2) 2(1) by (auto simp del: fun_upd_apply) (auto simp: st(3))
qed

theorem block_alloc_free_witness:
  "\<exists>l s1 s2. balloc_alloc 1 (demo_fs l (\<lambda>_. demo_inode)) = Done 46 s1 \<and> fview s1 46 = replicate BSIZE 0 \<and> bfree_release 1 46 s1 = Done () s2"
proof -
  define d where "d = demo_disk(45 := demo_bm)"
  have d: "\<And>n. length (d n) = BSIZE" "decode_sb (d 1) = demo_sb" "hdr_n (d 2) = 0"
    using demo_facts demo_bm_bits(3) by (simp_all add: d_def)
  obtain l where l: "\<forall>ic. fs_ok 0 (demo_fs l ic)" "\<forall>k<28. \<forall>ic. tx_room k (demo_fs l ic)"
    "\<forall>n ic. n \<noteq> 2 \<longrightarrow> fview (demo_fs l ic) n = d n" "\<forall>b ic. fhome (demo_fs l ic) b \<longleftrightarrow> 32 \<le> uint b \<and> uint b < 1000"
    by (rule demo_fs_ok [OF d])
  let ?s = "demo_fs l (\<lambda>_. demo_inode)"
  have sb: "f_sb ?s = demo_sb" by (simp add: demo_fs_def)
  have bm: "bitmap ?s = demo_bm" using l(3) by (simp add: bitmap_def sb demo_sb_def d_def)
  have one: "one_bitmap ?s" using l(4) by (simp add: one_bitmap_def sb demo_sb_def)
  have ff: "find_free (bitmap ?s) (unat (sb_size (f_sb ?s))) = Some 46"
    unfolding find_free_def find_Some_iff bm using demo_bm_bits(1,2)
    by (intro exI [of _ "46 :: nat"]) (simp add: sb demo_sb_def del: upt_rec_numeral)
  have free: "\<forall>b < sb_size (f_sb ?s). \<not> bit_set (bitmap ?s) (unat b) \<longrightarrow> fhome ?s b \<and> b \<noteq> sb_bmapstart (f_sb ?s)"
  proof (intro allI impI)
    fix b assume b: "b < sb_size (f_sb ?s)" "\<not> bit_set (bitmap ?s) (unat b)"
    then have "46 \<le> unat b" using demo_bm_bits(1) [of "unat b"] by (force simp: bm)
    then have "46 \<le> uint b" unfolding uint_nat by linarith
    moreover have "uint b < 1000" using b(1) by (simp add: sb demo_sb_def word_less_def)
    moreover have "sb_bmapstart (f_sb ?s) = 45" by (simp add: sb demo_sb_def)
    ultimately show "fhome ?s b \<and> b \<noteq> sb_bmapstart (f_sb ?s)" using l(4) by auto
  qed
  show ?thesis
    using block_alloc_free [OF l(1) [rule_format] l(2) [rule_format] one free, of 1] unfolding ff by auto
qed

text \<open>
  C17. Inodes survive the trip to disk. \<^verbatim>\<open>iupdate\<close> returns and stores the cached inode in its slot of its
  inode block; locking any not yet loaded cache entry for the same inode afterwards loads exactly
  those fields, and every other inode on disk is as before.
\<close>

theorem inode_write_back:
  assumes "fs_ok p s" and "tx_room 1 s" and "i_dev (icache s i) = 1" and "fhome s (iblock s (i_inum (icache s i)))"
    and "length (i_addrs (icache s i)) = NDIRECT + 1" and "i_type (icache s i) \<noteq> 0"
  shows "\<exists>s1. iupdate i s = Done () s1 \<and> icache s1 = icache s \<and>
    (\<forall>j. 1 \<le> i_ref (icache s j) \<and> \<not> sl_locked (i_lock (icache s j)) \<and> \<not> i_valid (icache s j) \<and> i_dev (icache s j) = 1 \<and>
        i_inum (icache s j) = i_inum (icache s i) \<longrightarrow>
      (\<exists>s2. ilock j s1 = Done () s2 \<and> inode_dinode (icache s2 j) = inode_dinode (icache s i))) \<and>
    (\<forall>n. n \<noteq> i_inum (icache s i) \<longrightarrow> disk_inode s1 n = disk_inode s n)"
proof -
  let ?n = "i_inum (icache s i)"
  have room: "tx_room (Suc 0) s" using assms(2) by simp
  obtain s1 where 1: "iupdate i s = Done () s1"
      "fstep p ((fview s)(iblock s ?n := put_dinode (fview s (iblock s ?n)) (unat ?n mod IPB) (inode_dinode (icache s i)))) s s1"
    using iupdate_run [OF assms(1) room assms(3,4)] by blast
  have st: "fs_ok p s1" "fframe s s1"
      "fview s1 = (fview s)(iblock s ?n := put_dinode (fview s (iblock s ?n)) (unat ?n mod IPB) (inode_dinode (icache s i)))"
    using 1(2) by (simp_all add: fstep_def)
  note fr = fframe_sel [OF st(2)]
  have di: "disk_inode s1 m = (if m = ?n then inode_dinode (icache s i) else disk_inode s m)" for m
    using disk_inode_written [OF assms(1) fr(4) _ st(3)] assms(5) by (simp add: inode_dinode_def)
  have "\<exists>s2. ilock j s1 = Done () s2 \<and> inode_dinode (icache s2 j) = inode_dinode (icache s i)"
    if j: "1 \<le> i_ref (icache s j)" "\<not> sl_locked (i_lock (icache s j))" "\<not> i_valid (icache s j)" "i_dev (icache s j) = 1"
      "i_inum (icache s j) = ?n" for j
  proof -
    have "di_type (disk_inode s1 (i_inum (icache s1 j))) \<noteq> 0" using di j(5) assms(6) fr(2) by (simp add: inode_dinode_def)
    then obtain s2 where "ilock j s1 = Done () s2" "icache s2 = (icache s1)(j := (load_dinode (disk_inode s1 (i_inum (icache s1 j)))
        ((icache s1 j)\<lparr>i_lock := owned (f_pt s1) p\<rparr>))\<lparr>i_valid := True\<rparr>)"
      using ilock_load [OF st(1), of j] j fr(2) by auto
    then show ?thesis using di j(5) fr(2) by (simp add: dinode_of_load)
  qed
  then show ?thesis using 1(1) fr(2) di by auto
qed

theorem inode_write_back_witness:
  "\<exists>l s1 s2. iupdate 0 (demo_fs l ((\<lambda>_. demo_inode)(1 := demo_inode\<lparr>i_valid := False, i_size := 0\<rparr>))) = Done () s1 \<and>
     ilock 1 s1 = Done () s2 \<and> i_size (icache s2 1) = 77"
proof -
  obtain l where l: "\<forall>ic. fs_ok 0 (demo_fs l ic)" "\<forall>k<28. \<forall>ic. tx_room k (demo_fs l ic)"
    "\<forall>n ic. n \<noteq> 2 \<longrightarrow> fview (demo_fs l ic) n = demo_disk n" "\<forall>b ic. fhome (demo_fs l ic) b \<longleftrightarrow> 32 \<le> uint b \<and> uint b < 1000"
    by (rule demo_fs_ok [of demo_disk, OF demo_facts(1,2,4)])
  define s where "s = demo_fs l ((\<lambda>_. demo_inode)(1 := demo_inode\<lparr>i_valid := False, i_size := 0\<rparr>))"
  have ic: "icache s 0 = demo_inode" "icache s 1 = demo_inode\<lparr>i_valid := False, i_size := 0\<rparr>" by (simp_all add: s_def demo_fs_def)
  have hm: "fhome s (iblock s (i_inum (icache s 0)))"
    using l(4) by (simp add: s_def iblock_def demo_fs_def demo_sb_def demo_inode_def)
  have ok: "fs_ok 0 s" "tx_room 1 s" using l(1,2) by (simp_all add: s_def)
  have "\<exists>s1. iupdate 0 s = Done () s1 \<and> icache s1 = icache s \<and>
    (\<forall>j. 1 \<le> i_ref (icache s j) \<and> \<not> sl_locked (i_lock (icache s j)) \<and> \<not> i_valid (icache s j) \<and> i_dev (icache s j) = 1 \<and>
        i_inum (icache s j) = i_inum (icache s 0) \<longrightarrow>
      (\<exists>s2. ilock j s1 = Done () s2 \<and> inode_dinode (icache s2 j) = inode_dinode (icache s 0))) \<and>
    (\<forall>n. n \<noteq> i_inum (icache s 0) \<longrightarrow> disk_inode s1 n = disk_inode s n)"
    by (rule inode_write_back [OF ok _ hm]) (simp_all add: ic demo_inode_def)
  then obtain s1 where 1: "iupdate 0 s = Done () s1"
    "\<forall>j. 1 \<le> i_ref (icache s j) \<and> \<not> sl_locked (i_lock (icache s j)) \<and> \<not> i_valid (icache s j) \<and> i_dev (icache s j) = 1 \<and>
        i_inum (icache s j) = i_inum (icache s 0) \<longrightarrow>
      (\<exists>s2. ilock j s1 = Done () s2 \<and> inode_dinode (icache s2 j) = inode_dinode (icache s 0))" by blast
  obtain s2 where 2: "ilock 1 s1 = Done () s2" "inode_dinode (icache s2 1) = inode_dinode (icache s 0)"
    using 1(2) [rule_format, of 1] by (auto simp: ic demo_inode_def initsleeplock_def simp del: One_nat_def)
  have "i_size (icache s2 1) = 77" using 2(2) by (simp add: ic inode_dinode_def demo_inode_def)
  then show ?thesis using 1(1) 2(1) unfolding s_def by blast
qed

end
