(* ===== verification/Fs_Inv.thy ===== *)
theory Fs_Inv
  imports Khoare Fs_Dir
begin

text \<open>
  Invariants of the file system that hold for every interleaving of its operations, also in the
  states in which an operation sleeps: the inode cache names each inode at most once, and nothing
  below the process layer touches process identities, descriptor tables or the running process.
\<close>

section \<open>What the lower layers leave alone\<close>

text \<open>Pids, descriptor tables, the running process and \<^verbatim>\<open>nextpid\<close>.\<close>

type_synonym pcore = "(nat \<Rightarrow> int \<times> (nat \<Rightarrow> nat option)) \<times> nat option \<times> int"

definition ptcore :: "ptable \<Rightarrow> pcore" where
  "ptcore t = (\<lambda>i. (p_pid (procs t i), p_ofile (procs t i)), cur t, nextpid t)"

lemma ptcore_wakeup [simp]: "ptcore (wakeup ch t) = ptcore t"
  by (auto simp: ptcore_def wakeup_def)

lemma ptcore_upd: "p_pid (f (procs t i)) = p_pid (procs t i) \<Longrightarrow> p_ofile (f (procs t i)) = p_ofile (procs t i) \<Longrightarrow>
   ptcore (upd_proc i f t) = ptcore t"
  by (auto simp: ptcore_def upd_proc_def)

abbreviation pt_I :: "pcore \<Rightarrow> ptable \<Rightarrow> bool" where "pt_I c \<equiv> \<lambda>t. ptcore t = c"
abbreviation bio_I :: "pcore \<Rightarrow> bio \<Rightarrow> bool" where "bio_I c \<equiv> \<lambda>b. ptcore (bio_pt b) = c"
abbreviation log_I :: "pcore \<Rightarrow> logst \<Rightarrow> bool" where "log_I c \<equiv> \<lambda>l. ptcore (bio_pt (l_bio l)) = c"
abbreviation lock_I :: "pcore \<Rightarrow> sleeplock \<times> ptable \<Rightarrow> bool" where "lock_I c \<equiv> \<lambda>p. ptcore (snd p) = c"

lemma kinv_myproc [kinv_intros]: "kinv I myproc"
  by (auto simp: kinv_def myproc_def split: option.split)

lemma kinv_sleep [kinv_intros]: "kinv (pt_I c) (sleep ch)"
  by (auto simp: sleep_def kbind_def myproc_def kinv_def ptcore_upd split: option.split)

lemma kinv_sleeplock [kinv_intros]: "kinv (lock_I c) (acquiresleep ch)" "kinv (lock_I c) (releasesleep ch)" "kinv (lock_I c) holdingsleep"
  by (auto simp: kinv_def acquiresleep_def releasesleep_def holdingsleep_def sleep_def myproc_def kbind_def klift_def ptcore_upd
      split: option.split)

subsection \<open>Buffer cache\<close>

lemma bio_I_upd [simp]: "bio_pt (upd_buf i f s) = bio_pt s" "bio_pt (set_data i v s) = bio_pt s"
  by (simp_all add: upd_buf_def set_data_def)

lemma kinv_upd_buf [kinv_intros]: "kinv (bio_I c) (kmodify (upd_buf i f))" "kinv (bio_I c) (kmodify (\<lambda>s. upd_buf (g s) (h s) s))"
  by (simp_all add: kinv_def)

lemma kinv_buf_lock [kinv_intros]: "kinv (bio_I c) (acquiresleep_buf i)" "kinv (bio_I c) (releasesleep_buf i)" "kinv (bio_I c) (holdingsleep_buf i)"
  unfolding acquiresleep_buf_def releasesleep_buf_def holdingsleep_buf_def
  by (rule kinv_lift [where J = "lock_I c"]; simp add: buf_lock_get_def buf_lock_put_def kinv_intros)+

lemma kinv_bio [kinv_intros]: "kinv (bio_I c) (bread dev b)" "kinv (bio_I c) (bwrite i)" "kinv (bio_I c) (brelse i)"
  "kinv (bio_I c) (bpin i)" "kinv (bio_I c) (bunpin i)" "kinv (bio_I c) binit"
proof -
  have "kinv (bio_I c) (bget dev b)" unfolding bget_def by (intro kinv_intros)
  then show "kinv (bio_I c) (bread dev b)" unfolding bread_def by (intro kinv_intros)
  show "kinv (bio_I c) (bwrite i)" unfolding bwrite_def by (intro kinv_intros kinv_modify) simp
  have "kinv (bio_I c) (lru_to_tail i)" unfolding lru_to_tail_def by (intro kinv_intros)
  then show "kinv (bio_I c) (brelse i)" unfolding brelse_def by (intro kinv_intros)
  show "kinv (bio_I c) (bpin i)" "kinv (bio_I c) (bunpin i)" unfolding bpin_def bunpin_def by (intro kinv_intros)+
  show "kinv (bio_I c) binit" unfolding binit_def binit_one_def by (intro kinv_intros)
qed

subsection \<open>Log\<close>

lemma kinv_lbio [kinv_intros]: "kinv (bio_I c) m \<Longrightarrow> kinv (log_I c) (lbio m)"
  unfolding lbio_def by (erule kinv_lift) simp_all

lemma kinv_sleep_log [kinv_intros]: "kinv (bio_I c) (klift bio_pt (\<lambda>pt b. b\<lparr>bio_pt := pt\<rparr>) (sleep ch))"
  by (rule kinv_lift [where J = "pt_I c"]) (simp_all add: kinv_intros)

lemma kinv_lmod [kinv_intros]: "(\<And>s. l_bio (g s) = l_bio s) \<Longrightarrow> kinv (log_I c) (kmodify g)"
  "kinv (log_I c) (kmodify (\<lambda>s. lstore b (h s) s))" "kinv (log_I c) (kmodify (lwakeup ch))"
  "kinv (log_I c) (kmodify (\<lambda>s. lwakeup ch (s\<lparr>l_committing := q\<rparr>)))"
  by (simp_all add: kinv_def lstore_def lwakeup_def)

lemma kinv_log_heads [kinv_intros]: "kinv (log_I c) log_readsb" "kinv (log_I c) write_head" "kinv (log_I c) read_head"
  unfolding log_readsb_def write_head_def read_head_def load_head_def check_entry_def by (intro kinv_intros; simp)+

lemma kinv_log [kinv_intros]: "kinv (log_I c) begin_op" "kinv (log_I c) (log_write b)" "kinv (log_I c) end_op" "kinv (log_I c) (initlog dev)"
proof -
  have i: "kinv (log_I c) (install_trans r)" for r unfolding install_trans_def install_one_def by (intro kinv_intros)
  have w: "kinv (log_I c) write_log" unfolding write_log_def write_log_one_def by (intro kinv_intros)
  have "kinv (log_I c) commit" unfolding commit_def by (intro kinv_intros i w; simp)
  then show "kinv (log_I c) end_op" unfolding end_op_def by (intro kinv_intros; simp)
  have "kinv (log_I c) recover_from_log" unfolding recover_from_log_def by (intro kinv_intros i; simp)
  then show "kinv (log_I c) (initlog dev)" unfolding initlog_def by (intro kinv_intros; simp)
  show "kinv (log_I c) begin_op" "kinv (log_I c) (log_write b)" unfolding begin_op_def log_write_def by (intro kinv_intros; simp)+
qed

section \<open>The inode cache\<close>

text \<open>
  Each inode is in the cache at most once, reference counts are not negative and address arrays have
  their C length.
\<close>

definition icache_ok :: "(nat \<Rightarrow> inode) \<Rightarrow> bool" where
  "icache_ok ic \<longleftrightarrow>
     (\<forall>i<NINODE. \<forall>j<NINODE. 0 < i_ref (ic i) \<and> 0 < i_ref (ic j) \<and> i_dev (ic i) = i_dev (ic j) \<and> i_inum (ic i) = i_inum (ic j) \<longrightarrow> i = j) \<and>
     (\<forall>i. 0 \<le> i_ref (ic i)) \<and> (\<forall>i. length (i_addrs (ic i)) = NDIRECT + 1)"

text \<open>\<open>A\<close> says whether the inode cache is under consideration.\<close>

definition fs_I :: "bool \<Rightarrow> pcore \<Rightarrow> fs \<Rightarrow> bool" where
  "fs_I A c s \<longleftrightarrow> ptcore (f_pt s) = c \<and> (A \<longrightarrow> icache_ok (icache s))"

text \<open>An update that keeps the identity, the references and the length of the addresses.\<close>

definition same_ident :: "(inode \<Rightarrow> inode) \<Rightarrow> bool" where
  "same_ident f \<longleftrightarrow> (\<forall>ip. i_dev (f ip) = i_dev ip \<and> i_inum (f ip) = i_inum ip \<and> i_ref (f ip) = i_ref ip \<and>
     (length (i_addrs ip) = NDIRECT + 1 \<longrightarrow> length (i_addrs (f ip)) = NDIRECT + 1))"

lemma icache_ok_mono:
  assumes "icache_ok ic"
    and "\<And>j. i_dev (ic' j) = i_dev (ic j) \<and> i_inum (ic' j) = i_inum (ic j) \<and> (0 < i_ref (ic' j) \<longrightarrow> 0 < i_ref (ic j)) \<and>
      0 \<le> i_ref (ic' j) \<and> length (i_addrs (ic' j)) = NDIRECT + 1"
  shows "icache_ok ic'"
  unfolding icache_ok_def
proof (intro conjI allI impI)
  fix i j assume "i < NINODE" "j < NINODE" and
    *: "0 < i_ref (ic' i) \<and> 0 < i_ref (ic' j) \<and> i_dev (ic' i) = i_dev (ic' j) \<and> i_inum (ic' i) = i_inum (ic' j)"
  moreover have "0 < i_ref (ic i) \<and> 0 < i_ref (ic j) \<and> i_dev (ic i) = i_dev (ic j) \<and> i_inum (ic i) = i_inum (ic j)"
    using * assms(2) [of i] assms(2) [of j] by metis
  ultimately show "i = j" using assms(1) unfolding icache_ok_def by blast
qed (use assms(2) in blast)+

lemma icache_okD: "icache_ok ic \<Longrightarrow> 0 \<le> i_ref (ic i)" "icache_ok ic \<Longrightarrow> length (i_addrs (ic i)) = NDIRECT + 1"
  unfolding icache_ok_def by blast+

lemma icache_ok_upd: "icache_ok ic \<Longrightarrow> same_ident f \<Longrightarrow> icache_ok (ic(i := f (ic i)))"
  by (rule icache_ok_mono, assumption) (auto simp: same_ident_def icache_okD)

text \<open>A live slot may get another reference or lose one.\<close>

lemma icache_ok_ref: "icache_ok ic \<Longrightarrow> 0 < i_ref (ic i) \<Longrightarrow> 0 \<le> n \<Longrightarrow> icache_ok (ic(i := (ic i)\<lparr>i_ref := n\<rparr>))"
  by (rule icache_ok_mono, assumption) (auto simp: icache_okD)

text \<open>A free slot may take an identity that is not cached.\<close>

lemma icache_ok_take:
  assumes "icache_ok ic" "iget_cached ic dev inum = None" "i_ref (ic i) = 0"
  shows "icache_ok (ic(i := (ic i)\<lparr>i_dev := dev, i_inum := inum, i_ref := 1, i_valid := False\<rparr>))"
proof -
  let ?ic = "ic(i := (ic i)\<lparr>i_dev := dev, i_inum := inum, i_ref := 1, i_valid := False\<rparr>)"
  have new: "\<not> (0 < i_ref (ic j) \<and> i_dev (ic j) = dev \<and> i_inum (ic j) = inum)" if "j < NINODE" for j
    using assms(2) that by (auto simp: iget_cached_def find_None_iff)
  show ?thesis unfolding icache_ok_def
  proof (intro conjI allI impI)
    fix a b assume ab: "a < NINODE" "b < NINODE" and
      *: "0 < i_ref (?ic a) \<and> 0 < i_ref (?ic b) \<and> i_dev (?ic a) = i_dev (?ic b) \<and> i_inum (?ic a) = i_inum (?ic b)"
    consider "a = i" "b = i" | "a = i" "b \<noteq> i" | "a \<noteq> i" "b = i" | "a \<noteq> i" "b \<noteq> i" by blast
    then show "a = b"
    proof cases
      case 2
      then show ?thesis using * new [OF ab(2)] by simp
    next
      case 3
      then show ?thesis using * new [OF ab(1)] by simp
    next
      case 4
      then have "0 < i_ref (ic a) \<and> 0 < i_ref (ic b) \<and> i_dev (ic a) = i_dev (ic b) \<and> i_inum (ic a) = i_inum (ic b)"
        using * by simp
      then show ?thesis using assms(1) ab unfolding icache_ok_def by blast
    qed simp
  qed (use icache_okD [OF assms(1)] in simp_all)
qed

lemma fs_I_simps: "f_pt (upd_inode i f s) = f_pt s" "f_pt (fstore b v s) = f_pt s" "icache (fstore b v s) = icache s"
  "icache (set_pt t s) = icache s" "f_pt (set_pt t s) = t" "icache (upd_inode i f s) = (icache s)(i := f (icache s i))"
  by (simp_all add: f_pt_def upd_inode_def fstore_def set_pt_def lstore_def)

subsection \<open>Blocks\<close>

lemma kinv_flog [kinv_intros]: "kinv (log_I c) m \<Longrightarrow> kinv (fs_I A c) (flog m)"
  unfolding flog_def by (erule kinv_lift) (simp_all add: fs_I_def f_pt_def)

lemma kinv_fkm [kinv_intros]: "kinv (fs_I A c) (fkm m)"
  unfolding fkm_def by (rule kinv_lift [OF kinv_any]) (simp_all add: fs_I_def f_pt_def)

lemma kinv_fpt [kinv_intros]: "kinv (pt_I c) m \<Longrightarrow> kinv (fs_I A c) (klift f_pt set_pt m)"
  by (erule kinv_lift) (simp_all add: fs_I_def fs_I_simps)

lemma kinv_on_ilock [kinv_intros]: "kinv (lock_I c) m \<Longrightarrow> kinv (fs_I A c) (on_ilock i m)"
  unfolding on_ilock_def
  by (erule kinv_lift) (auto simp: fs_I_def fs_I_simps ilock_get_def ilock_put_def same_ident_def
      intro: icache_ok_upd [where f = "\<lambda>ip. ip\<lparr>i_lock := l\<rparr>" for l])

lemma kinv_fstore [kinv_intros]: "kinv (fs_I A c) (kmodify (fstore b v))" "kinv (fs_I A c) (kmodify (\<lambda>s. fstore b (g s) s))"
  "kinv (fs_I A c) (kmodify (\<lambda>s. s\<lparr>f_sb := h s\<rparr>))"
  by (simp_all add: kinv_def fs_I_def fs_I_simps) (simp add: f_pt_def)

lemma kinv_fields: "same_ident f \<Longrightarrow> kinv (fs_I A c) (kmodify (upd_inode i f))"
  "(\<And>x. same_ident (g x)) \<Longrightarrow> kinv (fs_I A c) (kmodify (\<lambda>s. upd_inode i (g s) s))"
  by (simp_all add: kinv_def fs_I_def fs_I_simps icache_ok_upd)

lemma kinv_blocks [kinv_intros]: "kinv (fs_I A c) (breadv dev b)" "kinv (fs_I A c) (fbrelse i)" "kinv (fs_I A c) (flog_write i)"
  "kinv (fs_I A c) (readsb dev)" "kinv (fs_I A c) (bzero_block b)" "kinv (fs_I A c) (bfree_release dev b)"
proof -
  show *: "kinv (fs_I A c) (breadv dev b)" "kinv (fs_I A c) (fbrelse i)" "kinv (fs_I A c) (flog_write i)" for dev b i
    unfolding breadv_def fbrelse_def flog_write_def by (intro kinv_intros)+
  show "kinv (fs_I A c) (readsb dev)" "kinv (fs_I A c) (bzero_block b)" "kinv (fs_I A c) (bfree_release dev b)"
    unfolding readsb_def bzero_block_def bfree_release_def by (intro kinv_intros *)+
qed

lemma kinv_balloc [kinv_intros]: "kinv (fs_I A c) (balloc_alloc dev)"
proof -
  have "kinv (fs_I A c) (balloc_loop sz b)" for sz b
  proof (induction "sz - b" arbitrary: b rule: less_induct)
    case less
    have IH: "kinv (fs_I A c) (balloc_loop sz (b + BPB))" if "b < sz" by (rule less) (use that in simp)
    show ?case by (rule kinv_unfold, rule balloc_loop.simps) (intro kinv_intros IH kinv_state)
  qed
  then show ?thesis unfolding balloc_alloc_def by (intro kinv_intros)
qed

subsection \<open>Inodes\<close>

lemma kinv_iget [kinv_intros]: "kinv (fs_I A c) (iget dev inum)"
proof (rule kinvI)
  fix s assume I: "fs_I A c s"
  have live: "0 < i_ref (icache s i)" if "iget_cached (icache s) dev inum = Some i" for i
    using that by (auto simp: iget_cached_def find_Some_iff)
  have dead: "i_ref (icache s i) = 0" if "iget_empty (icache s) = Some i" for i
    using that by (auto simp: iget_empty_def find_Some_iff)
  show "ksat (iget dev inum s) (\<lambda>_. fs_I A c) (fs_I A c)"
    using I live dead by (auto simp: iget_def fs_I_def fs_I_simps icache_ok_ref icache_ok_take split: option.split)
qed

lemma idup_live: "fs_I A c s \<Longrightarrow> 0 < i_ref (icache s i) \<Longrightarrow> ksat (idup i s) (\<lambda>_. fs_I A c) (fs_I A c)"
  by (auto simp: idup_def fs_I_def fs_I_simps icache_ok_ref)

lemma kinv_ilock [kinv_intros]: "kinv (fs_I A c) (ilock i)" "kinv (fs_I A c) (iunlock i)" "kinv (fs_I A c) (iupdate i)"
  unfolding ilock_def iunlock_def iupdate_def
  by (intro kinv_intros kinv_fields; simp add: same_ident_def load_dinode_def get_dinode_def Let_def)+

lemma kinv_ialloc [kinv_intros]: "kinv (fs_I A c) (ialloc_alloc dev ty)"
proof -
  have "kinv (fs_I A c) (ialloc_loop dev ty n k)" for n k
  proof (induction "nat (n - k)" arbitrary: k rule: less_induct)
    case less
    have IH: "kinv (fs_I A c) (ialloc_loop dev ty n (k + 1))" if "k < n" by (rule less) (use that in simp)
    show ?case by (rule kinv_unfold, rule ialloc_loop.simps) (intro kinv_intros IH kinv_state)
  qed
  then show ?thesis unfolding ialloc_alloc_def by (intro kinv_intros)
qed

lemma same_ident_intros: "same_ident (set_addr k a)" "same_ident (\<lambda>ip. ip\<lparr>i_size := n\<rparr>)" "same_ident (\<lambda>ip. ip\<lparr>i_type := t\<rparr>)"
  "same_ident (\<lambda>ip. ip\<lparr>i_valid := v\<rparr>)" "same_ident (\<lambda>ip. ip\<lparr>i_nlink := g ip\<rparr>)" "same_ident (\<lambda>ip. ip\<lparr>i_lock := lk\<rparr>)"
  by (simp_all add: same_ident_def set_addr_def)

lemma kinv_bmap [kinv_intros]: "kinv (fs_I A c) (bmap i bn)"
  unfolding bmap_def bmap_direct_def by (intro kinv_intros kinv_fields same_ident_intros)

lemma kinv_itrunc [kinv_intros]: "kinv (fs_I A c) (itrunc i)"
  unfolding itrunc_def itrunc_direct_def itrunc_indirect_def by (intro kinv_intros kinv_fields same_ident_intros)

lemma kinv_iput [kinv_intros]: "kinv (fs_I A c) (iput i)"
proof -
  have drop: "kinv (fs_I A c) (kbind (kget (\<lambda>s. i_ref (icache s i))) (\<lambda>ref.
      if ref \<noteq> 1 then kpanic ''iput: concurrent reference'' else kmodify (upd_inode i (\<lambda>ip. ip\<lparr>i_ref := 0\<rparr>))))"
    by (rule kinvI) (auto simp: fs_I_def fs_I_simps icache_ok_ref)
  have free: "kinv (fs_I A c) (kseq (on_ilock i (acquiresleep (ChanInode i))) (kseq (itrunc i)
      (kseq (kmodify (upd_inode i (\<lambda>ip. ip\<lparr>i_type := 0\<rparr>))) (kseq (iupdate i) (kseq (on_ilock i (releasesleep (ChanInode i)))
      (kseq (kmodify (upd_inode i (\<lambda>ip. ip\<lparr>i_valid := False\<rparr>))) (kbind (kget (\<lambda>s. i_ref (icache s i))) (\<lambda>ref.
        if ref \<noteq> 1 then kpanic ''iput: concurrent reference'' else kmodify (upd_inode i (\<lambda>ip. ip\<lparr>i_ref := 0\<rparr>))))))))))"
    by (intro kinv_seq drop kinv_intros kinv_fields same_ident_intros)
  show ?thesis
    by (rule kinvI) (use kinvD [OF free] in \<open>auto simp: iput_def fs_I_def fs_I_simps icache_ok_ref\<close>)
qed

lemma kinv_iunlockput [kinv_intros]: "kinv (fs_I A c) (iunlockput i)"
  unfolding iunlockput_def by (intro kinv_intros)

subsection \<open>Contents\<close>

lemma kinv_my_pagetable [kinv_intros]: "kinv (fs_I A c) my_pagetable"
  unfolding my_pagetable_def by (intro kinv_intros)

lemma kinv_either [kinv_intros]: "kinv (fs_I A c) (either_copyout d bs)" "kinv (fs_I A c) (either_copyin sr n)"
  by (cases d; simp only: either_copyout.simps; intro kinv_intros) (cases sr; simp only: either_copyin.simps; intro kinv_intros)

lemma kinv_readi [kinv_intros]: "kinv (fs_I A c) (readi i d off n)"
proof -
  have "kinv (fs_I A c) (readi_loop i n tot off d acc)" for n tot off d acc
  proof (induction "unat (n - tot)" arbitrary: tot off d acc rule: less_induct)
    case less
    have IH: "kinv (fs_I A c) (readi_loop i n (tot + piece n tot off) off' d' acc')" if "tot < n" for off' d' acc'
      by (rule less) (rule piece_less [OF that])
    show ?case by (rule kinv_unfold, rule readi_loop.simps) (intro kinv_intros IH)
  qed
  then show ?thesis unfolding readi_def by (intro kinv_intros)
qed

lemma kinv_writei [kinv_intros]: "kinv (fs_I A c) (writei i sr off n)"
proof -
  have "kinv (fs_I A c) (writei_loop i n tot off sr)" for n tot off sr
  proof (induction "unat (n - tot)" arbitrary: tot off sr rule: less_induct)
    case less
    have IH: "kinv (fs_I A c) (writei_loop i n (tot + piece n tot off) off' sr')" if "tot < n" for off' sr'
      by (rule less) (rule piece_less [OF that])
    show ?case by (rule kinv_unfold, rule writei_loop.simps) (intro kinv_intros IH)
  qed
  moreover have "kinv (fs_I A c) (kmodify (\<lambda>s. if k > i_size (icache s i) then upd_inode i (\<lambda>ip. ip\<lparr>i_size := k\<rparr>) s else s))" for k
    using icache_ok_upd [OF _ same_ident_intros(2)] by (auto simp: kinv_def fs_I_def fs_I_simps)
  ultimately show ?thesis unfolding writei_def by (intro kinv_intros)
qed

subsection \<open>Directories and paths\<close>

lemma kinv_read_dirent [kinv_intros]: "kinv (fs_I A c) (read_dirent msg i off)"
  unfolding read_dirent_def by (intro kinv_intros)

text \<open>A scan of the entries from \<open>off\<close> on keeps an invariant when the reads and the visits do.\<close>

lemma kinv_scan:
  assumes f: "\<And>off s. f off s = kbind (kget (\<lambda>s. icache s i)) (\<lambda>dp s. if off < i_size dp
      then kbind (read_dirent msg i off) (\<lambda>de s. if p de then g dp de off s else f (off + 16) s) s else h off s) s"
    and r: "\<And>off. kinv I (read_dirent msg i off)" and g: "\<And>dp de off. kinv I (g dp de off)" and h: "\<And>off. kinv I (h off)"
  shows "kinv I (f off)"
proof (induction "2 ^ 32 - unat off" arbitrary: off rule: less_induct)
  case less
  have K: "kinv I (kbind (read_dirent msg i off) (\<lambda>de s. if p de then g dp de off s else f (off + 16) s))" for dp
  proof (rule kinvI, rule ksat_bind, rule ksat_conj, rule kinvD [OF r], assumption, erule read_dirent_bound, elim conjE)
    fix de t assume "I t" "unat off < MAXFILE * BSIZE"
    then have "ksat (g dp de off t) (\<lambda>_. I) I" "ksat (f (off + 16) t) (\<lambda>_. I) I"
      using g less [OF off_step] by (blast intro: kinvD)+
    then show "ksat (if p de then g dp de off t else f (off + 16) t) (\<lambda>_. I) I" by simp
  qed
  show ?case by (rule kinv_unfold, rule f) (rule kinv_bind, rule kinv_basic, rule kinv_if(2), rule K, rule h)
qed

lemma kinv_dirlookup [kinv_intros]: "kinv (fs_I A c) (dirlookup i name)"
proof -
  have "kinv (fs_I A c) (dirlookup_loop i name off)" for off
    by (rule kinv_scan [where g = "\<lambda>dp de off. kbind (iget (i_dev dp) (ucast (de_inum de))) (\<lambda>ip. kreturn (Some (ip, off)))"
        and h = "\<lambda>_. kreturn None", OF dirlookup_loop.simps]) (intro kinv_intros)+
  then show ?thesis unfolding dirlookup_def by (intro kinv_intros)
qed

lemma kinv_dirlink [kinv_intros]: "kinv (fs_I A c) (dirlink i name inum)"
proof -
  have "kinv (fs_I A c) (free_entry i off)" for off
    by (rule kinv_scan [where g = "\<lambda>dp de off. kreturn off" and h = kreturn, OF free_entry.simps]) (intro kinv_intros)+
  then show ?thesis unfolding dirlink_def by (intro kinv_intros)
qed

lemma kinv_isdirempty [kinv_intros]: "kinv (fs_I A c) (isdirempty i)"
proof -
  have "kinv (fs_I A c) (isdirempty_loop i off)" for off
    by (rule kinv_scan [where g = "\<lambda>dp de off. kreturn False" and h = "\<lambda>_. kreturn True", OF isdirempty_loop.simps]) (intro kinv_intros)+
  then show ?thesis unfolding isdirempty_def .
qed

lemma kinv_dnamex [kinv_intros]: "kinv (fs_I A c) (dnamex path parent)"
proof -
  have "kinv (fs_I A c) (dnamex_loop parent i path)" for i path
  proof (induction "length path" arbitrary: i path rule: less_induct)
    case less
    have IH: "kinv (fs_I A c) (dnamex_loop parent j rest)" if "skipelem path = Some (el, rest)" for j el rest
      by (rule less) (rule skipelem_less [OF that])
    show ?case by (rule kinv_unfold, rule dnamex_loop.simps) (intro kinv_intros; (rule IH, simp)?)
  qed
  then show ?thesis unfolding dnamex_def by (intro kinv_intros)
qed

lemma kinv_namei [kinv_intros]: "kinv (fs_I A c) (namei path)" "kinv (fs_I A c) (nameiparent path)" "kinv (fs_I A c) (unlink_helper path)"
proof -
  show "kinv (fs_I A c) (namei path)" "kinv (fs_I A c) (nameiparent path)" unfolding namei_def nameiparent_def by (intro kinv_intros)+
  then show "kinv (fs_I A c) (unlink_helper path)"
    unfolding unlink_helper_def unlink_bad_def by (intro kinv_intros kinv_fields same_ident_intros)
qed

lemma kinv_fsinit [kinv_intros]: "kinv (fs_I A c) (fsinit dev)"
  unfolding fsinit_def iinit_def by (intro kinv_intros kinv_fields same_ident_intros)

section \<open>Reachable inode caches\<close>

text \<open>The state in which a call of \<open>m\<close> leaves the system: it returned or went to sleep.\<close>

definition ends :: "('s, 'a) kmonad \<Rightarrow> 's \<Rightarrow> 's \<Rightarrow> bool" where
  "ends m s s' \<longleftrightarrow> (\<exists>x. m s = Done x s') \<or> m s = Block s'"

lemma kinv_ends: "kinv I m \<Longrightarrow> I s \<Longrightarrow> ends m s s' \<Longrightarrow> I s'"
  by (auto simp: ends_def intro: kinv_Done kinv_Block)

text \<open>
  One call of a file-system function, in any order and by any process. \<open>fields\<close> are the stores of
  \<^verbatim>\<open>kernel/sysfile.c\<close> into an inode it has locked; \<open>other\<close> is everything that does not touch the file system's
  tables. \<^verbatim>\<open>idup\<close> is called by the holder of a reference.
\<close>

inductive fs_step :: "fs \<Rightarrow> fs \<Rightarrow> bool" where
  iget: "ends (iget dev inum) s s' \<Longrightarrow> fs_step s s'"
| idup: "0 < i_ref (icache s i) \<Longrightarrow> ends (idup i) s s' \<Longrightarrow> fs_step s s'"
| ialloc: "ends (ialloc_alloc dev ty) s s' \<Longrightarrow> fs_step s s'"
| ilock: "ends (ilock i) s s' \<Longrightarrow> fs_step s s'"
| iunlock: "ends (iunlock i) s s' \<Longrightarrow> fs_step s s'"
| iput: "ends (iput i) s s' \<Longrightarrow> fs_step s s'"
| iupdate: "ends (iupdate i) s s' \<Longrightarrow> fs_step s s'"
| itrunc: "ends (itrunc i) s s' \<Longrightarrow> fs_step s s'"
| readi: "ends (readi i d off n) s s' \<Longrightarrow> fs_step s s'"
| writei: "ends (writei i sr off n) s s' \<Longrightarrow> fs_step s s'"
| dirlookup: "ends (dirlookup i name) s s' \<Longrightarrow> fs_step s s'"
| dirlink: "ends (dirlink i name inum) s s' \<Longrightarrow> fs_step s s'"
| namei: "ends (namei path) s s' \<Longrightarrow> fs_step s s'"
| nameiparent: "ends (nameiparent path) s s' \<Longrightarrow> fs_step s s'"
| unlink: "ends (unlink_helper path) s s' \<Longrightarrow> fs_step s s'"
| mount: "ends (fsinit dev) s s' \<Longrightarrow> fs_step s s'"
| fields: "same_ident f \<Longrightarrow> ends (kmodify (upd_inode i f)) s s' \<Longrightarrow> fs_step s s'"
| other: "icache s' = icache s \<Longrightarrow> fs_step s s'"

definition inode_bss :: inode where
  "inode_bss = \<lparr>i_dev = 0, i_inum = 0, i_ref = 0, i_lock = \<lparr>sl_locked = False, sl_pid = 0\<rparr>, i_valid = False, i_type = 0, i_major = 0,
     i_minor = 0, i_nlink = 0, i_size = 0, i_addrs = replicate (NDIRECT + 1) 0\<rparr>"

inductive fs_reach :: "fs \<Rightarrow> bool" where
  boot: "icache s = (\<lambda>_. inode_bss) \<Longrightarrow> fs_reach s"
| step: "fs_reach s \<Longrightarrow> fs_step s s' \<Longrightarrow> fs_reach s'"

lemma ends_ok: "ends m s s' \<Longrightarrow> icache_ok (icache s) \<Longrightarrow> (\<And>c. kinv (fs_I True c) m) \<Longrightarrow> icache_ok (icache s')"
  using kinv_ends [of "fs_I True (ptcore (f_pt s))" m s s'] by (simp add: fs_I_def)

lemma fs_step_ok: "fs_step s s' \<Longrightarrow> icache_ok (icache s) \<Longrightarrow> icache_ok (icache s')"
proof (induction rule: fs_step.induct)
  case (idup s i s')
  then show ?case using idup_live [of True "ptcore (f_pt s)" s i] by (auto simp: ends_def fs_I_def)
next
  case (fields f i s s')
  then show ?case using ends_ok kinv_fields(1) by blast
qed (simp | erule ends_ok, assumption, intro kinv_intros)+

lemma fs_reach_ok: "fs_reach s \<Longrightarrow> icache_ok (icache s)"
proof (induction rule: fs_reach.induct)
  case (boot s)
  then show ?case by (simp add: icache_ok_def inode_bss_def)
next
  case (step s s')
  then show ?case using fs_step_ok by blast
qed

section \<open>Properties\<close>


definition demo_boot :: "logst \<Rightarrow> fs" where
  "demo_boot l = \<lparr>f_log = l, f_sb = l_sb l, icache = (\<lambda>_. inode_bss), f_km = \<lparr>k_mem = (\<lambda>_. 0), k_end = 0x80000000, freelist = 0\<rparr>\<rparr>"

lemma demo_iget: "iget 1 5 (demo_boot l) = Done 0 (upd_inode 0 (\<lambda>ip. ip\<lparr>i_dev := 1, i_inum := 5, i_ref := 1, i_valid := False\<rparr>) (demo_boot l))"
proof -
  have "iget_cached (\<lambda>_. inode_bss) 1 5 = None" by (simp add: iget_cached_def find_None_iff inode_bss_def)
  moreover have "iget_empty (\<lambda>_. inode_bss) = Some 0" by (simp add: iget_empty_def upt_conv_Cons inode_bss_def)
  ultimately show ?thesis by (simp add: iget_def demo_boot_def)
qed


end
