(* ===== verification/File.thy ===== *)
theory File
  imports Fs_Dir Pipe
begin

text \<open>
  The open-file layer, \<^verbatim>\<open>kernel/file.c\<close>, and \<^verbatim>\<open>pipealloc\<close> of \<^verbatim>\<open>kernel/pipe.c\<close>, which allocates files. A
  \<^verbatim>\<open>struct file *\<close> is an index into \<^verbatim>\<open>ftable.file\<close>. The file-table lock is held only inside the
  operations, so each stretch under it is one atomic step. A read or write of a pipe that has to
  wait leaves the caller asleep.
\<close>

section \<open>State\<close>

abbreviation NFILE :: nat where "NFILE \<equiv> 100"

datatype fdtype = FD_NONE | FD_INODE | FD_PIPE

record kfile =
  fi_type :: fdtype
  fi_ref :: int
  fi_readable :: bool
  fi_writable :: bool
  fi_ip :: "nat option"
  fi_pipe :: u64
  fi_off :: u32

text \<open>
  \<open>fl_pad\<close> holds the four indeterminate bytes between \<^verbatim>\<open>nlink\<close> and \<^verbatim>\<open>size\<close> of an uninitialised \<^verbatim>\<open>struct stat\<close>
  on the kernel stack.
\<close>

record filest =
  fl_fs :: fs
  ftable :: "nat \<Rightarrow> kfile"
  fl_pipes :: "u64 \<Rightarrow> pipe option"
  fl_pad :: bytes

definition on_fs :: "(fs, 'a) kmonad \<Rightarrow> (filest, 'a) kmonad" where
  "on_fs = klift fl_fs (\<lambda>t s. s\<lparr>fl_fs := t\<rparr>)"

definition on_flog :: "(logst, 'a) kmonad \<Rightarrow> (filest, 'a) kmonad" where
  "on_flog m = on_fs (flog m)"

definition on_fkm :: "(kmem, 'a) kmonad \<Rightarrow> (filest, 'a) kmonad" where
  "on_fkm m = on_fs (fkm m)"

definition on_fpt :: "(ptable, 'a) kmonad \<Rightarrow> (filest, 'a) kmonad" where
  "on_fpt m = on_fs (klift f_pt set_pt m)"

definition pipe_get :: "filest \<Rightarrow> pipest" where
  "pipe_get s = \<lparr>pp_pt = f_pt (fl_fs s), pp_km = f_km (fl_fs s), pp_pipes = fl_pipes s\<rparr>"

definition pipe_put :: "pipest \<Rightarrow> filest \<Rightarrow> filest" where
  "pipe_put p s = s\<lparr>fl_fs := set_pt (pp_pt p) ((fl_fs s)\<lparr>f_km := pp_km p\<rparr>), fl_pipes := pp_pipes p\<rparr>"

definition on_pipe :: "(pipest, 'a) kmonad \<Rightarrow> (filest, 'a) kmonad" where
  "on_pipe = klift pipe_get pipe_put"

text \<open>An activation of a pipe operation inside a system call: sleeping ends the model's call.\<close>

definition pipe_call :: "(pipest, pipe_out) kmonad \<Rightarrow> (filest, int) kmonad" where
  "pipe_call m = kbind (on_pipe m) (\<lambda>r s. case r of Ret v \<Rightarrow> Done v s | Sleep_at _ \<Rightarrow> Block s)"

definition upd_file :: "nat \<Rightarrow> (kfile \<Rightarrow> kfile) \<Rightarrow> filest \<Rightarrow> filest" where
  "upd_file i f s = s\<lparr>ftable := (ftable s)(i := f (ftable s i))\<rparr>"

section \<open>The file table\<close>

text \<open>\<^verbatim>\<open>fileinit\<close> only initialises the table lock; the table itself is zero in \<^verbatim>\<open>.bss\<close>.\<close>

definition file_bss :: kfile where
  "file_bss = \<lparr>fi_type = FD_NONE, fi_ref = 0, fi_readable = False, fi_writable = False, fi_ip = None, fi_pipe = 0, fi_off = 0\<rparr>"

definition fileinit :: "(filest, unit) kmonad" where
  "fileinit = kreturn ()"

definition filealloc :: "(filest, nat option) kmonad" where
  "filealloc = kbind (kget ftable) (\<lambda>ft.
     case find (\<lambda>i. fi_ref (ft i) = 0) [0..<NFILE] of
       Some i \<Rightarrow> kseq (kmodify (upd_file i (\<lambda>f. f\<lparr>fi_ref := 1\<rparr>))) (kreturn (Some i))
     | None \<Rightarrow> kreturn None)"

definition filedup :: "nat \<Rightarrow> (filest, nat) kmonad" where
  "filedup i = kbind (kget (\<lambda>s. ftable s i)) (\<lambda>f.
     if fi_ref f < 1 then kpanic ''filedup''
     else kseq (kmodify (upd_file i (\<lambda>f. f\<lparr>fi_ref := fi_ref f + 1\<rparr>))) (kreturn i))"

definition file_release :: "kfile \<Rightarrow> (filest, unit) kmonad" where
  "file_release ff = (case fi_type ff of
       FD_INODE \<Rightarrow> (case fi_ip ff of
           None \<Rightarrow> kfault ''iput of a null inode''
         | Some ip \<Rightarrow> kseq (on_flog begin_op) (kseq (on_fs (iput ip)) (on_flog end_op)))
     | FD_PIPE \<Rightarrow> on_pipe (pipeclose (fi_pipe ff) (fi_writable ff))
     | FD_NONE \<Rightarrow> kreturn ())"

definition fileclose :: "nat \<Rightarrow> (filest, unit) kmonad" where
  "fileclose i = kbind (kget (\<lambda>s. ftable s i)) (\<lambda>f.
     if fi_ref f < 1 then kpanic ''fileclose''
     else if fi_ref f - 1 > 0 then kmodify (upd_file i (\<lambda>f. f\<lparr>fi_ref := fi_ref f - 1\<rparr>))
     else kseq (kmodify (upd_file i (\<lambda>f. f\<lparr>fi_ref := 0, fi_type := FD_NONE\<rparr>))) (file_release f))"

section \<open>Transfers\<close>

text \<open>\<^verbatim>\<open>struct stat\<close> as bytes, with its padding.\<close>

definition fstat_bytes :: "bytes \<Rightarrow> fstat \<Rightarrow> bytes" where
  "fstat_bytes pad st = nat_bytes 4 (unat (st_dev st)) @ nat_bytes 4 (unat (st_ino st)) @ nat_bytes 2 (unat (st_type st)) @
     nat_bytes 2 (unat (st_nlink st)) @ pad @ nat_bytes 8 (unat (st_size st))"

definition filestat :: "nat \<Rightarrow> u64 \<Rightarrow> (filest, int) kmonad" where
  "filestat i addr = kbind (on_fpt myproc) (\<lambda>p. kbind (kget (\<lambda>s. ftable s i)) (\<lambda>f.
     if fi_type f \<noteq> FD_INODE then kreturn (-1)
     else case fi_ip f of None \<Rightarrow> kfault ''ilock of a null inode''
     | Some ip \<Rightarrow> kseq (on_fs (ilock ip)) (kbind (on_fs (stati ip)) (\<lambda>st. kseq (on_fs (iunlock ip))
         (kbind (kget (\<lambda>s. p_pagetable (procs (f_pt (fl_fs s)) p))) (\<lambda>pgt.
          kbind (kget (\<lambda>s. fstat_bytes (fl_pad s) st)) (\<lambda>bs.
          kbind (on_fkm (copyout pgt addr bs 24)) (\<lambda>r. if r < 0 then kreturn (-1) else kreturn 0))))))))"

definition is_device :: "nat \<Rightarrow> filest \<Rightarrow> bool" where
  "is_device ip s \<longleftrightarrow> i_type (icache (fl_fs s) ip) = T_DEVICE"

definition fileread :: "nat \<Rightarrow> u64 \<Rightarrow> int \<Rightarrow> (filest, int) kmonad" where
  "fileread i addr n = kbind (kget (\<lambda>s. ftable s i)) (\<lambda>f.
     if \<not> fi_readable f then kreturn (-1)
     else case fi_type f of
       FD_PIPE \<Rightarrow> pipe_call (piperead (fi_pipe f) addr n)
     | FD_NONE \<Rightarrow> kreturn (-1)
     | FD_INODE \<Rightarrow> (case fi_ip f of None \<Rightarrow> kreturn (-1)
         | Some ip \<Rightarrow> kbind (kget (is_device ip)) (\<lambda>dv.
             if dv then kreturn (-1)
             else kseq (on_fs (ilock ip))
              (kbind (kget (\<lambda>s. fi_off (ftable s i))) (\<lambda>off.
               kbind (on_fs (readi ip (To_user addr) off (u32_of_int n))) (\<lambda>(tot, _).
                 let r = int_of_u32 tot in
                 kseq (if r > 0 then kmodify (upd_file i (\<lambda>f. f\<lparr>fi_off := fi_off f + u32_of_int r\<rparr>)) else kreturn ())
                (kseq (on_fs (iunlock ip)) (kreturn r))))))))"

definition write_max :: int where
  "write_max = (MAXOPBLOCKS - 1) div 2 * int BSIZE"

text \<open>The loop of \<^verbatim>\<open>filewrite\<close>: \<open>src\<close>, \<open>ret\<close> and \<open>n\<close> are the C variables.\<close>

function filewrite_loop :: "nat \<Rightarrow> nat \<Rightarrow> u64 \<Rightarrow> int \<Rightarrow> int \<Rightarrow> (filest, int) kmonad" where
  "filewrite_loop i ip src ret n s =
     (if n > 0
      then kseq (on_flog begin_op) (kbind (kget (\<lambda>s. fi_off (ftable s i))) (\<lambda>off.
        kbind (on_fs (writei ip (From_user (src + word_of_int ret)) off (u32_of_int (min n write_max)))) (\<lambda>r.
        kseq (on_flog end_op) (\<lambda>s.
          if r < 0 then kreturn (if ret = 0 then -1 else ret) s
          else if r = 0 then kreturn ret s
          else kseq (kmodify (upd_file i (\<lambda>f. f\<lparr>fi_off := fi_off f + u32_of_int r\<rparr>)))
                (filewrite_loop i ip (src + word_of_int r) (ret + r) (min n write_max - r)) s)))) s
      else kreturn ret s)"
  by pat_completeness auto

termination
  by (relation "measure (\<lambda>(_, _, _, _, n, _). nat n)") auto

declare filewrite_loop.simps [simp del]

definition filewrite :: "nat \<Rightarrow> u64 \<Rightarrow> int \<Rightarrow> (filest, int) kmonad" where
  "filewrite i src n = kbind (kget (\<lambda>s. ftable s i)) (\<lambda>f.
     if \<not> fi_writable f then kreturn (-1)
     else case fi_type f of
       FD_PIPE \<Rightarrow> pipe_call (pipewrite (fi_pipe f) src n)
     | FD_NONE \<Rightarrow> kreturn (-1)
     | FD_INODE \<Rightarrow> (case fi_ip f of None \<Rightarrow> kreturn (-1)
         | Some ip \<Rightarrow> kbind (kget (is_device ip)) (\<lambda>dv.
             if dv then kreturn (-1)
             else kseq (on_fs (ilock ip))
              (kseq (kmodify (\<lambda>s. let sz = i_size (icache (fl_fs s) ip) in
                       if fi_off (ftable s i) > sz then upd_file i (\<lambda>f. f\<lparr>fi_off := sz\<rparr>) s else s))
              (kbind (filewrite_loop i ip src 0 n) (\<lambda>ret. kseq (on_fs (iunlock ip)) (kreturn ret)))))))"

section \<open>pipealloc\<close>

definition close_opt :: "nat option \<Rightarrow> (filest, unit) kmonad" where
  "close_opt r = (case r of None \<Rightarrow> kreturn () | Some i \<Rightarrow> fileclose i)"

definition pipealloc_bad :: "nat option \<Rightarrow> nat option \<Rightarrow> (filest, (nat \<times> nat) option) kmonad" where
  "pipealloc_bad ro wo = kseq (close_opt ro) (kseq (close_opt wo) (kreturn None))"

definition pipe_end :: "u64 \<Rightarrow> bool \<Rightarrow> kfile \<Rightarrow> kfile" where
  "pipe_end pi w f = f\<lparr>fi_type := FD_PIPE, fi_readable := \<not> w, fi_writable := w, fi_pipe := pi\<rparr>"

definition pipealloc :: "(filest, (nat \<times> nat) option) kmonad" where
  "pipealloc = kbind filealloc (\<lambda>ro. case ro of None \<Rightarrow> pipealloc_bad None None
     | Some r \<Rightarrow> kbind filealloc (\<lambda>wo. case wo of None \<Rightarrow> pipealloc_bad ro None
       | Some w \<Rightarrow> kbind (on_fkm kalloc) (\<lambda>pi.
           if pi = 0 then pipealloc_bad ro wo
           else kseq (kmodify (\<lambda>s. s\<lparr>fl_pipes := (fl_pipes s)(pi \<mapsto> new_pipe)\<rparr>))
             (kseq (kmodify (upd_file r (pipe_end pi False)))
             (kseq (kmodify (upd_file w (pipe_end pi True)))
             (kreturn (Some (r, w))))))))"

end
