(* ===== verification/Console.thy ===== *)
theory Console
  imports Prelude
begin

text \<open>
  Serial output: \<^verbatim>\<open>kernel/uart.c\<close>, \<^verbatim>\<open>kernel/console.c\<close> and \<^verbatim>\<open>kernel/printk.c\<close>. The UART is the
  environment: what the \<open>n\<close>-th read of the line status register and of the receive register
  return are two input streams of the state, the bytes written to the transmitter are collected in
  order. The console spinlock is held only around one byte.
\<close>

section \<open>UART\<close>

record uart =
  u_lsr :: "nat \<Rightarrow> u8"
  u_polls :: nat
  u_rhr :: "nat \<Rightarrow> u8"
  u_reads :: nat
  u_tx :: bytes
  u_ier :: u8
  u_fcr :: u8
  u_lcr :: u8
  u_dll :: u8
  u_dlm :: u8

definition IER_RX_ENABLE :: u8 where "IER_RX_ENABLE = 1"

definition IER_TX_ENABLE :: u8 where "IER_TX_ENABLE = 2"

definition FCR_FIFO_ENABLE :: u8 where "FCR_FIFO_ENABLE = 1"

definition FCR_FIFO_CLEAR :: u8 where "FCR_FIFO_CLEAR = 6"

definition LCR_EIGHT_BITS :: u8 where "LCR_EIGHT_BITS = 3"

definition LCR_BAUD_LATCH :: u8 where "LCR_BAUD_LATCH = 128"

definition LSR_RX_READY :: u8 where "LSR_RX_READY = 1"

definition LSR_TX_READY :: u8 where "LSR_TX_READY = 32"

text \<open>
  A store to register 0 or 1 reaches the divisor while the latch bit of \<^verbatim>\<open>LCR\<close> is set, and the
  transmitter or the interrupt-enable register otherwise.
\<close>

definition write_reg :: "nat \<Rightarrow> u8 \<Rightarrow> uart \<Rightarrow> uart" where
  "write_reg r v u =
     (if r = 0 then (if u_lcr u AND LCR_BAUD_LATCH \<noteq> 0 then u\<lparr>u_dll := v\<rparr> else u\<lparr>u_tx := u_tx u @ [v]\<rparr>)
      else if r = 1 then (if u_lcr u AND LCR_BAUD_LATCH \<noteq> 0 then u\<lparr>u_dlm := v\<rparr> else u\<lparr>u_ier := v\<rparr>)
      else if r = 2 then u\<lparr>u_fcr := v\<rparr>
      else if r = 3 then u\<lparr>u_lcr := v\<rparr>
      else u)"

definition uartinit :: "uart \<Rightarrow> uart" where
  "uartinit u =
     write_reg 1 (IER_TX_ENABLE OR IER_RX_ENABLE)
    (write_reg 2 (FCR_FIFO_ENABLE OR FCR_FIFO_CLEAR)
    (write_reg 3 LCR_EIGHT_BITS
    (write_reg 1 0
    (write_reg 0 1
    (write_reg 3 LCR_BAUD_LATCH
    (write_reg 1 0 u))))))"

definition read_lsr :: "uart \<Rightarrow> u8 \<times> uart" where
  "read_lsr u = (u_lsr u (u_polls u), u\<lparr>u_polls := u_polls u + 1\<rparr>)"

text \<open>The polling loop, which need not end: \<open>None\<close> is a transmitter that never becomes ready.\<close>

partial_function (option) tx_wait :: "uart \<Rightarrow> uart option" where
  "tx_wait u = (case read_lsr u of (l, u') \<Rightarrow> if l AND LSR_TX_READY = 0 then tx_wait u' else Some u')"

definition uartputc_sync :: "int \<Rightarrow> (uart, unit) kmonad" where
  "uartputc_sync c = (\<lambda>u. case tx_wait u of
       None \<Rightarrow> Fault ''uart: transmitter never ready''
     | Some u' \<Rightarrow> Done () (write_reg 0 (word_of_int c) u'))"

definition uartgetc :: "uart \<Rightarrow> int \<times> uart" where
  "uartgetc u = (case read_lsr u of (l, u') \<Rightarrow>
     if l AND LSR_RX_READY \<noteq> 0 then (uint (u_rhr u' (u_reads u')), u'\<lparr>u_reads := u_reads u' + 1\<rparr>) else (-1, u'))"

definition consoleintr :: "int \<Rightarrow> uart \<Rightarrow> uart" where
  "consoleintr c u = u"

partial_function (option) uartintr :: "uart \<Rightarrow> uart option" where
  "uartintr u = (case uartgetc u of (c, u') \<Rightarrow> if c < 0 then Some u' else uartintr (consoleintr c u'))"

section \<open>Console and printk\<close>

definition consoleputc :: "int \<Rightarrow> (uart, unit) kmonad" where
  "consoleputc c = uartputc_sync c"

definition digits :: bytes where
  "digits = [48, 49, 50, 51, 52, 53, 54, 55, 56, 57, 97, 98, 99, 100, 101, 102]"

text \<open>
  The digits of \<open>x\<close>, least significant first: the contents of \<^verbatim>\<open>buf\<close>. The base is 10 or 16 at every
  call; a base below 2, for which the C loop need not end, stops after one digit.
\<close>

function digit_loop :: "nat \<Rightarrow> nat \<Rightarrow> bytes" where
  "digit_loop base x = digits ! (x mod base) # (if x div base \<noteq> 0 \<and> 2 \<le> base then digit_loop base (x div base) else [])"
  by pat_completeness auto

termination
  by (relation "measure snd") (auto intro!: div_less_dividend gr0I)

declare digit_loop.simps [simp del]

definition emit :: "bytes \<Rightarrow> (uart, unit) kmonad" where
  "emit bs = kfor bs (\<lambda>b. consoleputc (uint b))"

abbreviation MINUS :: u8 where "MINUS \<equiv> 45"

text \<open>Negating the least \<^verbatim>\<open>int\<close> overflows, which is undefined.\<close>

definition printint :: "int \<Rightarrow> nat \<Rightarrow> (uart, unit) kmonad" where
  "printint xx base =
     (if xx < 0
      then (if xx = - (2 ^ 31) then kfault ''printint: negation overflows''
            else emit (rev (digit_loop base (nat (- xx)) @ [MINUS])))
      else emit (rev (digit_loop base (nat xx))))"

definition printptr :: "u64 \<Rightarrow> (uart, unit) kmonad" where
  "printptr x = kseq (emit [48, 120])
     (kfor [0..<16] (\<lambda>i. consoleputc (uint (digits ! unat (drop_bit 60 (push_bit (4 * i) x))))))"

datatype arg = Arg_int int | Arg_u64 u64 | Arg_str "bytes option"

definition null_text :: bytes where
  "null_text = [40, 110, 117, 108, 108, 41]"

text \<open>One directive after a \<^verbatim>\<open>%\<close>; taking an argument of another type is undefined.\<close>

definition directive :: "u8 \<Rightarrow> arg list \<Rightarrow> (uart, arg list) kmonad" where
  "directive c args =
     (if c = 100 \<or> c = 120 then
        (case args of Arg_int v # rest \<Rightarrow> kseq (printint v (if c = 100 then 10 else 16)) (kreturn rest)
         | _ \<Rightarrow> kfault ''printf: va_arg'')
      else if c = 112 then
        (case args of Arg_u64 v # rest \<Rightarrow> kseq (printptr v) (kreturn rest) | _ \<Rightarrow> kfault ''printf: va_arg'')
      else if c = 115 then
        (case args of Arg_str v # rest \<Rightarrow> kseq (emit (case v of None \<Rightarrow> null_text | Some t \<Rightarrow> t)) (kreturn rest)
         | _ \<Rightarrow> kfault ''printf: va_arg'')
      else if c = 37 then kseq (emit [37]) (kreturn args)
      else kseq (emit [37, c]) (kreturn args))"

fun printf :: "bytes \<Rightarrow> arg list \<Rightarrow> (uart, unit) kmonad" where
  "printf [] args = kreturn ()"
| "printf (c # fmt) args =
     (if c \<noteq> 37 then kseq (emit [c]) (printf fmt args)
      else case fmt of [] \<Rightarrow> kreturn ()
      | d # rest \<Rightarrow> kbind (directive d args) (printf rest))"

section \<open>Output\<close>

text \<open>The transmitter becomes ready again and again, as the hardware does.\<close>

definition tx_live :: "uart \<Rightarrow> bool" where
  "tx_live u \<longleftrightarrow> (\<forall>n. \<exists>m\<ge>n. u_lsr u m AND LSR_TX_READY \<noteq> 0) \<and> u_lcr u AND LCR_BAUD_LATCH = 0"

lemma tx_wait_run:
  assumes "u_lsr u m AND LSR_TX_READY \<noteq> 0" and "u_polls u \<le> m"
  shows "\<exists>k. tx_wait u = Some (u\<lparr>u_polls := k\<rparr>)"
  using assms
proof (induction "m - u_polls u" arbitrary: u)
  case 0
  then show ?case by (subst tx_wait.simps) (auto simp: read_lsr_def)
next
  case (Suc d)
  show ?case
  proof (cases "u_lsr u (u_polls u) AND LSR_TX_READY = 0")
    case True
    let ?v = "u\<lparr>u_polls := u_polls u + 1\<rparr>"
    have "\<exists>k. tx_wait ?v = Some (?v\<lparr>u_polls := k\<rparr>)" using Suc by (intro Suc.hyps(1)) auto
    then show ?thesis using True by (subst tx_wait.simps) (auto simp: read_lsr_def)
  next
    case False
    then show ?thesis by (subst tx_wait.simps) (auto simp: read_lsr_def)
  qed
qed

text \<open>\<open>prints m bs\<close>: on a live transmitter \<open>m\<close> returns and has sent exactly \<open>bs\<close>.\<close>

definition prints :: "(uart, 'a) kmonad \<Rightarrow> 'a \<Rightarrow> bytes \<Rightarrow> bool" where
  "prints m x bs \<longleftrightarrow> (\<forall>u. tx_live u \<longrightarrow> (\<exists>k. m u = Done x (u\<lparr>u_polls := k, u_tx := u_tx u @ bs\<rparr>)))"

named_theorems prints_intros \<open>output of the console routines\<close>

lemma tx_live_upd [simp]: "tx_live (u\<lparr>u_polls := k, u_tx := t\<rparr>) = tx_live u"
  by (simp add: tx_live_def)

lemma prints_putc: "prints (consoleputc c) () [word_of_int c]"
proof (unfold prints_def, intro allI impI)
  fix u assume u: "tx_live u"
  then obtain m where "u_polls u \<le> m" "u_lsr u m AND LSR_TX_READY \<noteq> 0" unfolding tx_live_def by blast
  then obtain k where "tx_wait u = Some (u\<lparr>u_polls := k\<rparr>)" using tx_wait_run by blast
  then show "\<exists>k. consoleputc c u = Done () (u\<lparr>u_polls := k, u_tx := u_tx u @ [word_of_int c]\<rparr>)"
    using u by (auto simp: consoleputc_def uartputc_sync_def write_reg_def tx_live_def)
qed

lemma prints_return [prints_intros]: "prints (kreturn x) x []"
proof (unfold prints_def, intro allI impI)
  fix u :: uart
  have "u = u\<lparr>u_polls := u_polls u, u_tx := u_tx u @ []\<rparr>" by simp
  then show "\<exists>k. kreturn x u = Done x (u\<lparr>u_polls := k, u_tx := u_tx u @ []\<rparr>)" unfolding kreturn_run by blast
qed

lemma prints_bind [prints_intros]:
  assumes "prints m x bs" and "prints (f x) y cs"
  shows "prints (kbind m f) y (bs @ cs)"
proof (unfold prints_def, intro allI impI)
  fix u assume u: "tx_live u"
  obtain k where k: "m u = Done x (u\<lparr>u_polls := k, u_tx := u_tx u @ bs\<rparr>)" using assms(1) u by (auto simp: prints_def)
  obtain j where "f x (u\<lparr>u_polls := k, u_tx := u_tx u @ bs\<rparr>) = Done y (u\<lparr>u_polls := j, u_tx := (u_tx u @ bs) @ cs\<rparr>)"
    using assms(2) [unfolded prints_def, rule_format, of "u\<lparr>u_polls := k, u_tx := u_tx u @ bs\<rparr>"] u by auto
  with k show "\<exists>k. kbind m f u = Done y (u\<lparr>u_polls := k, u_tx := u_tx u @ bs @ cs\<rparr>)" by auto
qed

lemma prints_seq [prints_intros]: "prints m x bs \<Longrightarrow> prints n y cs \<Longrightarrow> prints (kseq m n) y (bs @ cs)"
  unfolding kseq_def by (rule prints_bind)

lemma prints_for: "(\<And>i. i \<in> set ixs \<Longrightarrow> prints (f i) () (g i)) \<Longrightarrow> prints (kfor ixs f) () (concat (map g ixs))"
  by (induction ixs) (auto intro: prints_intros)

lemma prints_emit [prints_intros]: "prints (emit bs) () bs"
proof -
  have "prints (consoleputc (uint b)) () [b]" for b using prints_putc [of "uint b"] by simp
  then have "prints (emit bs) () (concat (map (\<lambda>b. [b]) bs))" unfolding emit_def by (intro prints_for)
  then show ?thesis by simp
qed

text \<open>What a number looks like, and how to read it back.\<close>

definition digit_val :: "u8 \<Rightarrow> nat" where
  "digit_val c = (if c < 58 then unat c - 48 else unat c - 87)"

definition parse_nat :: "nat \<Rightarrow> bytes \<Rightarrow> nat" where
  "parse_nat base bs = foldl (\<lambda>a c. a * base + digit_val c) 0 bs"

definition parse_int :: "nat \<Rightarrow> bytes \<Rightarrow> int" where
  "parse_int base bs = (case bs of c # cs \<Rightarrow> if c = MINUS then - int (parse_nat base cs) else int (parse_nat base bs) | [] \<Rightarrow> 0)"

definition int_text :: "nat \<Rightarrow> int \<Rightarrow> bytes" where
  "int_text base xx = (if xx < 0 then MINUS # rev (digit_loop base (nat (- xx))) else rev (digit_loop base (nat xx)))"

lemma prints_int: "- (2 ^ 31) < xx \<Longrightarrow> prints (printint xx base) () (int_text base xx)"
  by (auto simp: printint_def int_text_def intro: prints_emit)

lemma digit_val_digits: "k < 16 \<Longrightarrow> digit_val (digits ! k) = k"
proof -
  have "\<forall>k\<in>set [0..<16]. digit_val (digits ! k) = k" by (simp add: digit_val_def digits_def upt_rec)
  then show "k < 16 \<Longrightarrow> digit_val (digits ! k) = k" by simp
qed

lemma mod_base: "2 \<le> base \<Longrightarrow> base \<le> 16 \<Longrightarrow> x mod base < (16 :: nat)"
  using mod_less_divisor [of base x] by linarith

lemma parse_digits: "2 \<le> base \<Longrightarrow> base \<le> 16 \<Longrightarrow> parse_nat base (rev (digit_loop base x)) = x"
proof (induction base x rule: digit_loop.induct)
  case (1 base x)
  have v: "digit_val (digits ! (x mod base)) = x mod base" using "1.prems" by (simp add: digit_val_digits mod_base)
  show ?case
  proof (cases "x div base = 0")
    case True
    then have "x mod base = x" using "1.prems" by (metis add_0 div_mult_mod_eq mult_zero_left)
    with True v show ?thesis by (simp add: digit_loop.simps [of base x] parse_nat_def)
  next
    case False
    then show ?thesis using 1 v by (simp add: digit_loop.simps [of base x] parse_nat_def)
  qed
qed

lemma digits_not_minus: "k < 16 \<Longrightarrow> digits ! k \<noteq> MINUS"
proof -
  have "\<forall>k\<in>set [0..<16]. digits ! k \<noteq> MINUS" by (simp add: digits_def upt_rec)
  then show "k < 16 \<Longrightarrow> digits ! k \<noteq> MINUS" by simp
qed

lemma digit_loop_set: "2 \<le> base \<Longrightarrow> base \<le> 16 \<Longrightarrow> c \<in> set (digit_loop base x) \<Longrightarrow> c \<noteq> MINUS"
proof (induction base x rule: digit_loop.induct)
  case (1 base x)
  have "x mod base < 16" using "1.prems" by (simp add: mod_base)
  then show ?case using 1 digits_not_minus by (auto simp: digit_loop.simps [of base x] split: if_splits)
qed

lemma parse_int_text: "2 \<le> base \<Longrightarrow> base \<le> 16 \<Longrightarrow> parse_int base (int_text base xx) = xx"
proof -
  assume b: "2 \<le> base" "base \<le> 16"
  show ?thesis
  proof (cases "xx < 0")
    case True
    then show ?thesis using b by (simp add: int_text_def parse_int_def parse_digits)
  next
    case False
    have "digit_loop base (nat xx) \<noteq> []" by (subst digit_loop.simps) simp
    then obtain c cs where c: "rev (digit_loop base (nat xx)) = c # cs" by (cases "rev (digit_loop base (nat xx))") auto
    then have "c \<in> set (digit_loop base (nat xx))" by (metis list.set_intros(1) set_rev)
    then have "c \<noteq> MINUS" using b digit_loop_set by blast
    then show ?thesis using False b c parse_digits [of base "nat xx"] by (simp add: int_text_def parse_int_def)
  qed
qed

text \<open>Text as bytes.\<close>

definition text_bytes :: "string \<Rightarrow> bytes" where
  "text_bytes = map of_char"

text \<open>A format in which every percent sign is followed by a character that is no directive.\<close>

fun no_directive :: "bytes \<Rightarrow> bool" where
  "no_directive [] = True"
| "no_directive (c # fmt) =
     (if c \<noteq> 37 then no_directive fmt
      else case fmt of [] \<Rightarrow> False | d # rest \<Rightarrow> d \<notin> {100, 120, 112, 115, 37} \<and> no_directive rest)"

lemma prints_literal: "no_directive fmt \<Longrightarrow> prints (printf fmt args) () fmt"
proof (induction fmt args rule: printf.induct)
  case (1 args)
  then show ?case by (simp only: printf.simps prints_return)
next
  case (2 c fmt args)
  show ?case
  proof (cases "c = 37")
    case False
    then have "prints (printf fmt args) () fmt" using 2 by auto
    then show ?thesis using False prints_seq [OF prints_emit [of "[c]"]] by fastforce
  next
    case True
    then obtain d rest where r: "fmt = d # rest" "d \<notin> {100, 120, 112, 115, 37}" "no_directive rest"
      using "2.prems" by (auto split: list.splits)
    have "prints (directive d args) args [37, d]"
      using r(2) prints_seq [OF prints_emit [of "[37, d]"] prints_return [of args]] by (simp add: directive_def)
    moreover have "prints (printf rest args) () rest" using "2.IH"(2) True r by auto
    ultimately show ?thesis using True r prints_bind [of "directive d args" args "[37, d]" "printf rest" "()" rest] by simp
  qed
qed

lemma prints_int_directive:
  assumes "- (2 ^ 31) < v" and "c \<in> {100, 120}"
  shows "prints (printf [37, c] [Arg_int v]) () (int_text (if c = 100 then 10 else 16) v)"
proof -
  let ?b = "if c = 100 then 10 else 16 :: nat"
  have "directive c [Arg_int v] = kseq (printint v ?b) (kreturn [])"
    using assms(2) by (auto simp: directive_def)
  then have d: "prints (directive c [Arg_int v]) [] (int_text ?b v @ [])"
    using prints_seq [OF prints_int [OF assms(1)] prints_return] by metis
  have "prints (kbind (directive c [Arg_int v]) (printf [])) () ((int_text ?b v @ []) @ [])"
    by (rule prints_bind [OF d]) (simp only: printf.simps prints_return)
  moreover have "printf [37, c] [Arg_int v] = kbind (directive c [Arg_int v]) (printf [])" by simp
  ultimately show ?thesis by (simp only: append_Nil2)
qed

section \<open>Properties\<close>

text \<open>
  C28. The console prints a number so that it can be read back: for every \<^verbatim>\<open>int\<close> but the least one,
  \<^verbatim>\<open>printf("%d", v)\<close> and \<^verbatim>\<open>printf("%x", v)\<close> return on a transmitter that keeps becoming ready, have sent
  exactly one text, and reading that text in base 10 or 16 gives \<open>v\<close>.
\<close>

theorem printf_number_roundtrip:
  assumes "- (2 ^ 31) < v" and "tx_live u"
  shows "(\<exists>k t. printf [37, 100] [Arg_int v] u = Done () (u\<lparr>u_polls := k, u_tx := u_tx u @ t\<rparr>) \<and> parse_int 10 t = v) \<and>
    (\<exists>k t. printf [37, 120] [Arg_int v] u = Done () (u\<lparr>u_polls := k, u_tx := u_tx u @ t\<rparr>) \<and> parse_int 16 t = v)"
proof -
  note dec = prints_int_directive [OF assms(1), of 100] and hex = prints_int_directive [OF assms(1), of 120]
  have "\<exists>k t. printf [37, 100] [Arg_int v] u = Done () (u\<lparr>u_polls := k, u_tx := u_tx u @ t\<rparr>) \<and> parse_int 10 t = v"
    using dec assms(2) parse_int_text [of 10 v] unfolding prints_def by fastforce
  moreover have "\<exists>k t. printf [37, 120] [Arg_int v] u = Done () (u\<lparr>u_polls := k, u_tx := u_tx u @ t\<rparr>) \<and> parse_int 16 t = v"
    using hex assms(2) parse_int_text [of 16 v] unfolding prints_def by fastforce
  ultimately show ?thesis by blast
qed

definition demo_uart :: uart where
  "demo_uart = \<lparr>u_lsr = (\<lambda>n. if n < 3 then 0 else 32), u_polls = 0, u_rhr = (\<lambda>_. 0), u_reads = 0, u_tx = [],
     u_ier = 0, u_fcr = 0, u_lcr = 3, u_dll = 0, u_dlm = 0\<rparr>"

lemma demo_uart_live: "tx_live demo_uart"
proof -
  have "\<exists>m\<ge>n. u_lsr demo_uart m AND LSR_TX_READY \<noteq> 0" for n
    by (rule exI [of _ "max n 3"]) (simp add: demo_uart_def LSR_TX_READY_def)
  then show ?thesis by (simp add: tx_live_def demo_uart_def LCR_BAUD_LATCH_def)
qed

theorem printf_number_roundtrip_witness:
  "\<exists>k t. printf [37, 100] [Arg_int (-7)] demo_uart = Done () (demo_uart\<lparr>u_polls := k, u_tx := t\<rparr>) \<and> parse_int 10 t = -7"
  using printf_number_roundtrip [of "-7" demo_uart] demo_uart_live by (auto simp: demo_uart_def)

text \<open>
  A conversion the formatter does not know is copied to the console and takes no argument. In
  particular the \<^verbatim>\<open>%lx\<close> of the trap diagnostics prints the characters \<^verbatim>\<open>%lx\<close>, whatever the registers hold.
\<close>

theorem printf_unknown_verbatim:
  assumes "no_directive fmt" and "tx_live u"
  shows "\<exists>k. printf fmt args u = Done () (u\<lparr>u_polls := k, u_tx := u_tx u @ fmt\<rparr>)"
  using prints_literal [OF assms(1)] assms(2) unfolding prints_def by blast

theorem printf_unknown_verbatim_witness:
  "\<exists>k. printf (text_bytes ''scause=%lx'') [Arg_u64 5] demo_uart =
     Done () (demo_uart\<lparr>u_polls := k, u_tx := text_bytes ''scause=%lx''\<rparr>)"
proof -
  have n: "no_directive (text_bytes ''scause=%lx'')" by (simp add: text_bytes_def)
  show ?thesis
    using printf_unknown_verbatim [OF n demo_uart_live, of "[Arg_u64 5]"] by (auto simp: demo_uart_def)
qed

lemma uartintr_drain:
  assumes "\<And>i. i < k \<Longrightarrow> u_lsr u (u_polls u + i) AND LSR_RX_READY \<noteq> 0"
    and "u_lsr u (u_polls u + k) AND LSR_RX_READY = 0"
  shows "uartintr u = Some (u\<lparr>u_polls := u_polls u + k + 1, u_reads := u_reads u + k\<rparr>)"
  using assms
proof (induction k arbitrary: u)
  case 0
  then show ?case by (subst uartintr.simps) (simp add: uartgetc_def read_lsr_def)
next
  case (Suc k)
  let ?v = "u\<lparr>u_polls := u_polls u + 1, u_reads := u_reads u + 1\<rparr>"
  have "u_lsr ?v (u_polls ?v + i) AND LSR_RX_READY \<noteq> 0" if "i < k" for i using Suc.prems(1) [of "Suc i"] that by simp
  moreover have "u_lsr ?v (u_polls ?v + k) AND LSR_RX_READY = 0" using Suc.prems(2) by simp
  ultimately have "uartintr ?v = Some (?v\<lparr>u_polls := u_polls ?v + k + 1, u_reads := u_reads ?v + k\<rparr>)" by (rule Suc.IH)
  then show ?case using Suc.prems(1) [of 0] by (subst uartintr.simps) (simp add: uartgetc_def read_lsr_def consoleintr_def)
qed

text \<open>
  C29. The UART interrupt handler ends and drains the receiver: when the status register reports
  \<open>k\<close> more bytes and then none, \<^verbatim>\<open>uartintr\<close> returns having read the receive register exactly \<open>k\<close> times
  and the status register \<open>k + 1\<close> times.
\<close>

theorem uartintr_terminates:
  assumes "\<forall>i<k. u_lsr u (u_polls u + i) AND LSR_RX_READY \<noteq> 0"
    and "u_lsr u (u_polls u + k) AND LSR_RX_READY = 0"
  shows "\<exists>v. uartintr u = Some v \<and> u_reads v = u_reads u + k \<and> u_polls v = u_polls u + k + 1 \<and> u_tx v = u_tx u"
  using uartintr_drain [of k u] assms by simp

theorem uartintr_terminates_witness:
  "\<exists>v. uartintr (demo_uart\<lparr>u_lsr := (\<lambda>n. if n < 2 then 1 else 32)\<rparr>) = Some v \<and> u_reads v = 2"
  using uartintr_terminates [of 2 "demo_uart\<lparr>u_lsr := (\<lambda>n. if n < 2 then 1 else 32)\<rparr>"]
  by (auto simp: demo_uart_def LSR_RX_READY_def)

end
