(* ===== verification/Kernel.thy ===== *)
theory Kernel
  imports File Console Virtio
begin

text \<open>
  The state of the whole kernel, and the processes of \<^verbatim>\<open>kernel/proc.c\<close>: creation and release of slots,
  \<^verbatim>\<open>fork\<close>, \<^verbatim>\<open>exit\<close>, \<^verbatim>\<open>wait\<close>, \<^verbatim>\<open>kill\<close>, the scheduler and the first user process. A process lock or \<^verbatim>\<open>wait_lock\<close> is
  held only inside the functions here, with interrupts off on the single hart, so each stretch under
  it is atomic. A call that switches to the scheduler ends with \<open>Block\<close> in the state the scheduler sees.
\<close>

section \<open>State\<close>

text \<open>Addresses fixed by the linker.\<close>

record ksyms =
  trampoline :: u64
  uservec :: u64
  userret :: u64
  usertrap_fn :: u64
  forkret_fn :: u64
  kernelvec :: u64

record csrs =
  sstatus :: u64
  scause :: u64
  sepc :: u64
  stval :: u64
  stvec :: u64
  sscratch :: u64
  tp_reg :: u64

text \<open>
  \<open>plic_pending\<close> is what the next claims return; \<open>plic_stores\<close> the stores to the controller, in order.
\<close>

record plic =
  plic_pending :: "u32 list"
  plic_enable :: u32
  plic_stores :: "(u64 \<times> u32) list"

record kernel =
  ke_files :: filest
  ke_uart :: uart
  ke_disk :: vdisk
  ke_plic :: plic
  ke_pagetable :: u64      \<comment> \<open>\<^verbatim>\<open>kernel_pagetable\<close>\<close>
  ke_satp :: u64
  ke_sym :: ksyms
  ke_csr :: csrs
  ke_mtime :: u64

definition on_files :: "(filest, 'a) kmonad \<Rightarrow> (kernel, 'a) kmonad" where
  "on_files = klift ke_files (\<lambda>t s. s\<lparr>ke_files := t\<rparr>)"

definition on_uart :: "(uart, 'a) kmonad \<Rightarrow> (kernel, 'a) kmonad" where
  "on_uart = klift ke_uart (\<lambda>t s. s\<lparr>ke_uart := t\<rparr>)"

abbreviation kfs :: "(fs, 'a) kmonad \<Rightarrow> (kernel, 'a) kmonad" where
  "kfs m \<equiv> on_files (on_fs m)"

abbreviation klog :: "(logst, 'a) kmonad \<Rightarrow> (kernel, 'a) kmonad" where
  "klog m \<equiv> on_files (on_flog m)"

abbreviation kkm :: "(kmem, 'a) kmonad \<Rightarrow> (kernel, 'a) kmonad" where
  "kkm m \<equiv> on_files (on_fkm m)"

abbreviation kpt :: "(ptable, 'a) kmonad \<Rightarrow> (kernel, 'a) kmonad" where
  "kpt m \<equiv> on_files (on_fpt m)"

definition pt :: "kernel \<Rightarrow> ptable" where
  "pt s = f_pt (fl_fs (ke_files s))"

definition pr :: "nat \<Rightarrow> kernel \<Rightarrow> proc" where
  "pr i s = procs (pt s) i"

definition mem :: "kernel \<Rightarrow> memory" where
  "mem s = k_mem (f_km (fl_fs (ke_files s)))"

definition set_proc :: "nat \<Rightarrow> (proc \<Rightarrow> proc) \<Rightarrow> (kernel, unit) kmonad" where
  "set_proc i f = kpt (kmodify (upd_proc i f))"

definition kwake :: "chan \<Rightarrow> (kernel, unit) kmonad" where
  "kwake ch = kpt (kmodify (wakeup ch))"

definition store64 :: "u64 \<Rightarrow> u64 \<Rightarrow> (kernel, unit) kmonad" where
  "store64 a v = kkm (kmodify (\<lambda>k. k\<lparr>k_mem := st64 (k_mem k) a v\<rparr>))"

definition store_bytes :: "u64 \<Rightarrow> bytes \<Rightarrow> (kernel, unit) kmonad" where
  "store_bytes a bs = kkm (kmodify (\<lambda>k. k\<lparr>k_mem := wr_bytes (k_mem k) a bs\<rparr>))"

text \<open>Offsets of \<^verbatim>\<open>struct usertrapframe\<close>.\<close>

abbreviation TF_kernel_satp :: u64 where "TF_kernel_satp \<equiv> 0"
abbreviation TF_kernel_sp :: u64 where "TF_kernel_sp \<equiv> 8"
abbreviation TF_kernel_trap :: u64 where "TF_kernel_trap \<equiv> 16"
abbreviation TF_epc :: u64 where "TF_epc \<equiv> 24"
abbreviation TF_kernel_hartid :: u64 where "TF_kernel_hartid \<equiv> 32"
abbreviation TF_sp :: u64 where "TF_sp \<equiv> 48"
abbreviation TF_s0 :: u64 where "TF_s0 \<equiv> 96"
abbreviation TF_a0 :: u64 where "TF_a0 \<equiv> 112"
abbreviation TF_a1 :: u64 where "TF_a1 \<equiv> 120"
abbreviation TF_a7 :: u64 where "TF_a7 \<equiv> 168"
abbreviation TF_SIZE :: nat where "TF_SIZE \<equiv> 288"

section \<open>Process slots\<close>

text \<open>The effect of \<^verbatim>\<open>safestrcpy(p->name, t, sizeof(p->name))\<close> on the 16 bytes of the field.\<close>

definition set_name :: "bytes \<Rightarrow> proc \<Rightarrow> proc" where
  "set_name t p = p\<lparr>p_name := bsplice (p_name p) 0 (take 15 t @ [0])\<rparr>"

definition allocpid :: "nat \<Rightarrow> (ptable, unit) kmonad" where
  "allocpid i = kbind (kget nextpid) (\<lambda>n.
     if n = 2 ^ 31 - 1 then kfault ''allocpid: nextpid overflows''
     else kmodify (\<lambda>t. (upd_proc i (\<lambda>p. p\<lparr>p_pid := n\<rparr>) t)\<lparr>nextpid := n + 1\<rparr>))"

definition zero_context :: kcontext where
  "zero_context = \<lparr>ctx_ra = 0, ctx_sp = 0, ctx_s = (\<lambda>_. 0)\<rparr>"

definition procinit_one :: "nat \<Rightarrow> (kernel, unit) kmonad" where
  "procinit_one i = kseq (set_proc i (\<lambda>p. p\<lparr>p_kstack := KSTACK i\<rparr>))
     (kbind (kkm kalloc) (\<lambda>pa.
        if pa = 0 then kpanic ''procinit: kernel-stack allocation''
        else kbind (kget ke_pagetable) (\<lambda>kp.
          kseq (kkm (kvmmap kp (KSTACK i) pa PGSIZE (PTE_R OR PTE_W)))
               (set_proc i (\<lambda>p. p\<lparr>p_state := UNUSED\<rparr>)))))"

definition procinit :: "(kernel, unit) kmonad" where
  "procinit = kseq (kfor [0..<NPROC] procinit_one) (kpt (kmodify (\<lambda>t. t\<lparr>cur := None\<rparr>)))"

definition freeproc :: "nat \<Rightarrow> (kernel, unit) kmonad" where
  "freeproc i = kbind (kget (pr i)) (\<lambda>p.
     kseq (if p_trapframe p \<noteq> 0
           then kseq (kkm (kfree (p_trapframe p))) (set_proc i (\<lambda>p. p\<lparr>p_trapframe := 0\<rparr>)) else kreturn ())
    (kseq (if p_pagetable p \<noteq> 0
           then kseq (kkm (uvmfree (p_pagetable p) (p_sz p))) (set_proc i (\<lambda>p. p\<lparr>p_pagetable := 0\<rparr>)) else kreturn ())
     (set_proc i (\<lambda>p. p\<lparr>p_sz := 0, p_pid := 0, p_chan := NoChan, p_killed := 0, p_xstate := 0, p_parent := None,
        p_context := zero_context, p_state := UNUSED\<rparr>))))"

definition find_unused :: "ptable \<Rightarrow> nat option" where
  "find_unused t = find (\<lambda>i. p_state (procs t i) = UNUSED) [0..<NPROC]"

definition PROC_NAME :: bytes where
  "PROC_NAME = [112, 114, 111, 99]"

definition fresh_proc :: "proc \<Rightarrow> proc" where
  "fresh_proc p = (set_name PROC_NAME (p\<lparr>p_state := USED, p_sz := 0, p_chan := NoChan, p_killed := 0, p_xstate := 0, p_parent := None\<rparr>))
     \<lparr>p_ofile := (\<lambda>fd. if fd < NOFILE then None else p_ofile p fd), p_cwd := None\<rparr>"

definition allocproc :: "(kernel, nat option) kmonad" where
  "allocproc = kbind (kget (\<lambda>s. find_unused (pt s))) (\<lambda>r. case r of None \<Rightarrow> kreturn None
     | Some i \<Rightarrow> kseq (kpt (allocpid i)) (kseq (set_proc i fresh_proc)
        (kbind (kkm kalloc) (\<lambda>tf. kseq (set_proc i (\<lambda>p. p\<lparr>p_trapframe := tf\<rparr>))
          (if tf = 0 then kseq (freeproc i) (kreturn None)
           else kbind (kkm uvmcreate) (\<lambda>pg. kseq (set_proc i (\<lambda>p. p\<lparr>p_pagetable := pg\<rparr>))
             (if pg = 0 then kseq (freeproc i) (kreturn None)
              else kbind (kget (\<lambda>s. forkret_fn (ke_sym s))) (\<lambda>fr.
                kseq (set_proc i (\<lambda>p. p\<lparr>p_context := \<lparr>ctx_ra = fr, ctx_sp = p_kstack p + PGSIZE, ctx_s = (\<lambda>_. 0)\<rparr>\<rparr>))
                  (kreturn (Some i))))))))))"

section \<open>Scheduling\<close>

text \<open>
  \<^verbatim>\<open>sched\<close>: \<open>locked\<close> is whether the caller holds its process lock, \<open>irq\<close> whether interrupts are enabled.
\<close>

definition sched :: "bool \<Rightarrow> bool \<Rightarrow> (ptable, 'a) kmonad" where
  "sched locked irq = kbind myproc (\<lambda>i t.
     if \<not> locked then Panic ''sched: process lock not held''
     else if irq then Panic ''sched: interruptible''
     else if p_state (procs t i) = RUNNING then Panic ''sched: still RUNNING''
     else Block t)"

definition yield :: "(ptable, 'a) kmonad" where
  "yield = kbind myproc (\<lambda>i. kseq (kmodify (upd_proc i (\<lambda>p. p\<lparr>p_state := RUNNABLE\<rparr>))) (sched True False))"

text \<open>
  One visit of slot \<open>i\<close> by \<^verbatim>\<open>scheduler\<close>. \<open>run i\<close> is what happens between the switch to the process and its
  switch back; the second component says whether the slot was dispatched.
\<close>

definition visit :: "(nat \<Rightarrow> ptable \<Rightarrow> ptable) \<Rightarrow> nat \<Rightarrow> ptable \<Rightarrow> ptable \<times> bool" where
  "visit run i t =
     (if p_state (procs t i) = RUNNABLE
      then ((run i ((upd_proc i (\<lambda>p. p\<lparr>p_state := RUNNING\<rparr>) t)\<lparr>cur := Some i\<rparr>))\<lparr>cur := None\<rparr>, True)
      else (t, False))"

text \<open>One pass of the inner loop over the table, with the slots dispatched, in order.\<close>

primrec scan :: "(nat \<Rightarrow> ptable \<Rightarrow> ptable) \<Rightarrow> nat list \<Rightarrow> ptable \<Rightarrow> ptable \<times> nat list" where
  "scan run [] t = (t, [])"
| "scan run (i # ixs) t = (case visit run i t of (t', d) \<Rightarrow>
     (case scan run ixs t' of (t'', ds) \<Rightarrow> (t'', if d then i # ds else ds)))"

definition scheduler_round :: "(nat \<Rightarrow> ptable \<Rightarrow> ptable) \<Rightarrow> ptable \<Rightarrow> ptable \<times> nat list" where
  "scheduler_round run t = scan run [0..<NPROC] t"

section \<open>fork, exit, wait, kill\<close>

definition dup_file :: "nat \<Rightarrow> nat \<Rightarrow> nat \<Rightarrow> (kernel, unit) kmonad" where
  "dup_file i np fd = kbind (kget (\<lambda>s. p_ofile (pr i s) fd)) (\<lambda>f. case f of None \<Rightarrow> kreturn ()
     | Some f \<Rightarrow> kbind (on_files (filedup f)) (\<lambda>f'. set_proc np (\<lambda>p. p\<lparr>p_ofile := (p_ofile p)(fd := Some f')\<rparr>)))"

definition fork :: "(kernel, int) kmonad" where
  "fork = kbind (kpt myproc) (\<lambda>i. kbind allocproc (\<lambda>r. case r of None \<Rightarrow> kreturn (-1)
     | Some np \<Rightarrow>
        kbind (kget (\<lambda>s. (trampoline (ke_sym s), pr i s, pr np s))) (\<lambda>(tr, p, n).
        kseq (kkm (uvmmap (p_pagetable n) TRAMPOLINE tr PGSIZE (PTE_R OR PTE_X)))
       (kseq (kkm (uvmmap (p_pagetable n) TRAPFRAME (p_trapframe n) PGSIZE (PTE_R OR PTE_W OR PTE_U)))
       (kbind (kkm (uvmcopy (p_pagetable p) (p_pagetable n) (p_sz p))) (\<lambda>c.
          if c < 0
          then kseq (kkm (uvmunmap (p_pagetable n) TRAPFRAME 1 False))
              (kseq (kkm (uvmunmap (p_pagetable n) TRAMPOLINE 1 False))
              (kseq (freeproc np) (kreturn (-1))))
          else kseq (set_proc np (\<lambda>q. q\<lparr>p_sz := p_sz p\<rparr>))
              (kbind (kget (\<lambda>s. rd_bytes (mem s) (p_trapframe p) TF_SIZE)) (\<lambda>tf.
               kseq (store_bytes (p_trapframe n) tf)
              (kseq (store64 (p_trapframe n + TF_a0) 0)
              (kseq (kfor [0..<NOFILE] (dup_file i np))
              (kseq (case p_cwd p of None \<Rightarrow> kreturn ()
                     | Some c \<Rightarrow> kbind (kfs (idup c)) (\<lambda>c'. set_proc np (\<lambda>q. q\<lparr>p_cwd := Some c'\<rparr>)))
              (kseq (set_proc np (\<lambda>q. set_name (takeWhile (\<lambda>b. b \<noteq> 0) (p_name p)) q))
              (kbind (kget (\<lambda>s. p_pid (pr np s))) (\<lambda>pid.
               kseq (set_proc np (\<lambda>q. q\<lparr>p_parent := Some i\<rparr>))
              (kseq (set_proc np (\<lambda>q. q\<lparr>p_state := RUNNABLE\<rparr>))
               (kreturn pid))))))))))))))))"

definition reparent_one :: "nat \<Rightarrow> nat \<Rightarrow> (ptable, unit) kmonad" where
  "reparent_one i j = kbind (kget (\<lambda>t. p_parent (procs t j))) (\<lambda>q.
     if q = Some i then kseq (kmodify (upd_proc j (\<lambda>p. p\<lparr>p_parent := Some 0\<rparr>))) (kmodify (wakeup (ChanProc 0))) else kreturn ())"

definition reparent :: "nat \<Rightarrow> (ptable, unit) kmonad" where
  "reparent i = kfor [0..<NPROC] (reparent_one i)"

definition close_fd :: "nat \<Rightarrow> nat \<Rightarrow> (kernel, unit) kmonad" where
  "close_fd i fd = kbind (kget (\<lambda>s. p_ofile (pr i s) fd)) (\<lambda>f. case f of None \<Rightarrow> kreturn ()
     | Some f \<Rightarrow> kseq (set_proc i (\<lambda>p. p\<lparr>p_ofile := (p_ofile p)(fd := None)\<rparr>)) (on_files (fileclose f)))"

text \<open>The channel \<^verbatim>\<open>p->parent\<close>; a null parent is the null channel.\<close>

definition parent_chan :: "proc \<Rightarrow> chan" where
  "parent_chan p = (case p_parent p of None \<Rightarrow> NoChan | Some q \<Rightarrow> ChanProc q)"

definition exit :: "int \<Rightarrow> (kernel, 'a) kmonad" where
  "exit status = kbind (kpt myproc) (\<lambda>i.
     if i = 0 then kpanic ''init exiting''
     else kseq (kfor [0..<NOFILE] (close_fd i))
      (kseq (klog begin_op)
      (kseq (kbind (kget (\<lambda>s. p_cwd (pr i s))) (\<lambda>c. case c of None \<Rightarrow> kreturn ()
             | Some c \<Rightarrow> kseq (kfs (iput c)) (set_proc i (\<lambda>p. p\<lparr>p_cwd := None\<rparr>))))
      (kseq (klog end_op)
      (kseq (kpt (reparent i))
      (kseq (kbind (kget (\<lambda>s. parent_chan (pr i s))) kwake)
      (kseq (set_proc i (\<lambda>p. p\<lparr>p_xstate := status, p_state := ZOMBIE\<rparr>))
      (kseq (kpt (sched True False) :: (kernel, unit) kmonad)
            (kpanic ''zombie exit'')))))))))"

text \<open>Reaping the zombie child \<open>j\<close> of process \<open>i\<close>.\<close>

definition reap :: "nat \<Rightarrow> u64 \<Rightarrow> nat \<Rightarrow> (kernel, int) kmonad" where
  "reap i addr j = kbind (kget (pr j)) (\<lambda>q. kbind (kget (pr i)) (\<lambda>p.
     kbind (if addr \<noteq> 0 then kkm (copyout (p_pagetable p) addr (nat_bytes 4 (unat (u32_of_int (p_xstate q)))) 4) else kreturn 0) (\<lambda>c.
       if c < 0 then kreturn (-1)
       else kseq (if p_pagetable q \<noteq> 0
                  then kseq (kkm (uvmunmap (p_pagetable q) TRAPFRAME 1 False)) (kkm (uvmunmap (p_pagetable q) TRAMPOLINE 1 False))
                  else kreturn ())
           (kseq (freeproc j) (kreturn (p_pid q))))))"

text \<open>The scan of \<^verbatim>\<open>wait\<close> over the table: the result, or whether there are children at all.\<close>

primrec wait_scan :: "nat \<Rightarrow> u64 \<Rightarrow> bool \<Rightarrow> nat list \<Rightarrow> (kernel, int + bool) kmonad" where
  "wait_scan i addr havekids [] = kreturn (Inr havekids)"
| "wait_scan i addr havekids (j # js) = kbind (kget (pr j)) (\<lambda>q.
     if p_parent q \<noteq> Some i then wait_scan i addr havekids js
     else if p_state q = ZOMBIE then kbind (reap i addr j) (\<lambda>r. kreturn (Inl r))
     else wait_scan i addr True js)"

definition wait :: "u64 \<Rightarrow> (kernel, int) kmonad" where
  "wait addr = kbind (kpt myproc) (\<lambda>i. kbind (wait_scan i addr False [0..<NPROC]) (\<lambda>r. case r of
       Inl v \<Rightarrow> kreturn v
     | Inr havekids \<Rightarrow> kbind (kget (pr i)) (\<lambda>p.
         if \<not> havekids \<or> p_killed p \<noteq> 0 then kreturn (-1) else kpt (sleep (ChanProc i)))))"

definition kill :: "int \<Rightarrow> (ptable, int) kmonad" where
  "kill pid = kbind (kget (\<lambda>t. find (\<lambda>i. p_pid (procs t i) = pid \<and> p_state (procs t i) \<noteq> UNUSED) [0..<NPROC])) (\<lambda>r.
     case r of None \<Rightarrow> kreturn (-1)
     | Some i \<Rightarrow> kseq (kmodify (upd_proc i (\<lambda>p. p\<lparr>p_killed := 1, p_state := (if p_state p = SLEEPING then RUNNABLE else p_state p)\<rparr>)))
         (kreturn 0))"

section \<open>The first process\<close>

definition initcode :: bytes where
  "initcode = [0xc1, 0x48, 0x05, 0x45, 0xb9, 0x45, 0x31, 0x46, 0x73, 0x00, 0x00, 0x00,
     0x01, 0xa0, 0x53, 0x59, 0x53, 0x43, 0x41, 0x4c, 0x4c, 0x5f, 0x4f, 0x4b, 0x0a, 0x00]"

definition INIT_NAME :: bytes where
  "INIT_NAME = [105, 110, 105, 116, 99, 111, 100, 101]"

definition userinit :: "(kernel, unit) kmonad" where
  "userinit = kbind allocproc (\<lambda>r. case r of None \<Rightarrow> kpanic ''userinit: allocproc''
     | Some i \<Rightarrow> kbind (kget (\<lambda>s. (ke_sym s, pr i s))) (\<lambda>(sy, p).
        kseq (kkm (uvmmap (p_pagetable p) TRAMPOLINE (trampoline sy) PGSIZE (PTE_R OR PTE_X)))
       (kseq (kkm (uvmmap (p_pagetable p) TRAPFRAME (p_trapframe p) PGSIZE (PTE_R OR PTE_W OR PTE_U)))
       (kbind (kkm (uvmfirst (p_pagetable p) initcode 26)) (\<lambda>u.
          if u < 0 then kpanic ''userinit: uvmfirst''
          else kseq (set_proc i (\<lambda>p. set_name INIT_NAME (p\<lparr>p_sz := PGSIZE\<rparr>)))
              (kseq (store_bytes (p_trapframe p) (replicate TF_SIZE 0))
              (kseq (store64 (p_trapframe p + TF_kernel_sp) (p_kstack p + PGSIZE))
              (kseq (store64 (p_trapframe p + TF_kernel_trap) (usertrap_fn sy))
              (kseq (store64 (p_trapframe p + TF_epc) 0)
                    (set_proc i (\<lambda>p. p\<lparr>p_state := RUNNABLE\<rparr>)))))))))))"

end
