(* ===== verification/Sysfile.thy ===== *)
theory Sysfile
  imports Kernel
begin

text \<open>
  Argument fetching, \<^verbatim>\<open>kernel/syscall.c\<close>, and the file system calls, \<^verbatim>\<open>kernel/sysfile.c\<close>. A handler
  returns the \<^verbatim>\<open>uint64\<close> that goes to the caller's \<^verbatim>\<open>a0\<close>; a \<^verbatim>\<open>char path[MAXPATH]\<close> is the bytes before its NUL.
\<close>

section \<open>Arguments\<close>

abbreviation MAXPATH :: nat where "MAXPATH \<equiv> 128"

definition me :: "(kernel, nat) kmonad" where
  "me = kpt myproc"

definition fetchaddr :: "u64 \<Rightarrow> (kernel, u64 option) kmonad" where
  "fetchaddr addr = kbind me (\<lambda>i. kbind (kget (pr i)) (\<lambda>p.
     if addr \<ge> p_sz p \<or> addr + 8 > p_sz p then kreturn None
     else kbind (kkm (copyin (p_pagetable p) addr 8)) (\<lambda>(r, bs).
       if r \<noteq> 0 then kreturn None else kreturn (Some (get64 bs 0)))))"

definition fetchargint :: "int \<Rightarrow> (kernel, u64 option) kmonad" where
  "fetchargint n = kbind me (\<lambda>i. if n < 0 \<or> n \<ge> 6 then kreturn None
     else kget (\<lambda>s. Some (ld64 (mem s) (p_trapframe (pr i s) + word_of_int ((n + 12) * 8)))))"

definition argint :: "int \<Rightarrow> (kernel, int option) kmonad" where
  "argint n = kbind (fetchargint n) (\<lambda>r. kreturn (map_option (\<lambda>x. int_of_u32 (ucast x)) r))"

definition argaddr :: "int \<Rightarrow> (kernel, u64 option) kmonad" where
  "argaddr n = fetchargint n"

text \<open>
  \<^verbatim>\<open>fetchstr\<close> returns the string, whose length is the C result, and the bytes written to the buffer.
\<close>

definition fetchstr :: "u64 \<Rightarrow> nat \<Rightarrow> (kernel, bytes option \<times> bytes) kmonad" where
  "fetchstr addr mx = kbind me (\<lambda>i. kbind (kget (pr i)) (\<lambda>p.
     if addr \<ge> p_sz p then kreturn (None, [])
     else kbind (kkm (copyinstr (p_pagetable p) addr (of_nat mx))) (\<lambda>(r, bs).
       if r < 0 then kreturn (None, bs) else kreturn (Some (takeWhile (\<lambda>b. b \<noteq> 0) bs), bs))))"

definition argstr :: "int \<Rightarrow> nat \<Rightarrow> (kernel, bytes option) kmonad" where
  "argstr n mx = kbind (argaddr n) (\<lambda>a. case a of None \<Rightarrow> kreturn None
     | Some addr \<Rightarrow> kbind (fetchstr addr mx) (\<lambda>(r, _). kreturn r))"

text \<open>An argument that cannot be fetched makes the handler return -1.\<close>

definition need :: "(kernel, 'a option) kmonad \<Rightarrow> ('a \<Rightarrow> (kernel, u64) kmonad) \<Rightarrow> (kernel, u64) kmonad" where
  "need m f = kbind m (\<lambda>r. case r of None \<Rightarrow> kreturn (-1) | Some x \<Rightarrow> f x)"

definition ret_int :: "int \<Rightarrow> (kernel, u64) kmonad" where
  "ret_int r = kreturn (word_of_int r)"

text \<open>Leaving a transaction with the result -1.\<close>

definition end_fail :: "(kernel, u64) kmonad" where
  "end_fail = kseq (klog end_op) (kreturn (-1))"

definition end_ok :: "(kernel, u64) kmonad" where
  "end_ok = kseq (klog end_op) (kreturn 0)"

section \<open>Descriptors\<close>

definition fdalloc :: "nat \<Rightarrow> (kernel, nat option) kmonad" where
  "fdalloc f = kbind me (\<lambda>i. kbind (kget (\<lambda>s. find (\<lambda>fd. p_ofile (pr i s) fd = None) [0..<NOFILE])) (\<lambda>r.
     case r of None \<Rightarrow> kreturn None
     | Some fd \<Rightarrow> kseq (set_proc i (\<lambda>p. p\<lparr>p_ofile := (p_ofile p)(fd := Some f)\<rparr>)) (kreturn (Some fd))))"

definition clear_fd :: "nat \<Rightarrow> (kernel, unit) kmonad" where
  "clear_fd fd = kbind me (\<lambda>i. set_proc i (\<lambda>p. p\<lparr>p_ofile := (p_ofile p)(fd := None)\<rparr>))"

text \<open>The checks every descriptor call starts with: argument 0 names a slot of the table.\<close>

definition argfd :: "(kernel, nat option) kmonad" where
  "argfd = kbind (argint 0) (\<lambda>r. kreturn (case r of None \<Rightarrow> None
     | Some fd \<Rightarrow> if fd < 0 \<or> fd \<ge> int NOFILE then None else Some (nat fd)))"

definition fd_file :: "nat \<Rightarrow> (kernel, nat option) kmonad" where
  "fd_file fd = kbind me (\<lambda>i. kget (\<lambda>s. p_ofile (pr i s) fd))"

section \<open>Creation\<close>

definition inode_of :: "nat \<Rightarrow> kernel \<Rightarrow> inode" where
  "inode_of i s = icache (fl_fs (ke_files s)) i"

definition set_inode :: "nat \<Rightarrow> (inode \<Rightarrow> inode) \<Rightarrow> (kernel, unit) kmonad" where
  "set_inode i f = kfs (kmodify (upd_inode i f))"

definition create_fail :: "nat \<Rightarrow> nat \<Rightarrow> (kernel, nat option) kmonad" where
  "create_fail ip dp =
     kseq (kbind (kget (inode_of ip)) (\<lambda>i. if i_type i = T_DIR
            then kseq (set_inode dp (\<lambda>d. d\<lparr>i_nlink := i_nlink d - 1\<rparr>)) (kfs (iupdate dp)) else kreturn ()))
    (kseq (set_inode ip (\<lambda>i. i\<lparr>i_nlink := 0\<rparr>))
    (kseq (kfs (iupdate ip))
    (kseq (kfs (iput ip))
    (kseq (kfs (iunlockput ip))
    (kseq (kfs (iunlockput dp)) (kreturn None))))))"

text \<open>The \<^verbatim>\<open>.\<close> and \<^verbatim>\<open>..\<close> entries of a new directory; the result is negative when one fails.\<close>

definition link_dots :: "nat \<Rightarrow> nat \<Rightarrow> (kernel, int) kmonad" where
  "link_dots ip dp =
     kseq (set_inode dp (\<lambda>d. d\<lparr>i_nlink := i_nlink d + 1\<rparr>))
    (kseq (kfs (iupdate dp))
    (kbind (kget (\<lambda>s. (i_inum (inode_of ip s), i_inum (inode_of dp s)))) (\<lambda>(self, up).
     kbind (kfs (dirlink ip DOT self)) (\<lambda>r. if r < 0 then kreturn r else kfs (dirlink ip DOTDOT up)))))"

definition create :: "bytes \<Rightarrow> u16 \<Rightarrow> u16 \<Rightarrow> u16 \<Rightarrow> (kernel, nat option) kmonad" where
  "create path type major minor = kbind (kfs (nameiparent path)) (\<lambda>pa. case pa of None \<Rightarrow> kreturn None
     | Some (dp, name) \<Rightarrow> kseq (kfs (ilock dp)) (kbind (kfs (dirlookup dp name)) (\<lambda>r. case r of
         Some (ip, _) \<Rightarrow> kseq (kfs (iunlockput dp)) (kseq (kfs (ilock ip)) (kbind (kget (inode_of ip)) (\<lambda>i.
           if type = T_FILE \<and> (i_type i = T_FILE \<or> i_type i = T_DEVICE) then kreturn (Some ip)
           else if type = T_DIR \<and> i_type i = T_DIR then kreturn (Some ip)
           else kseq (kfs (iunlockput ip)) (kreturn None))))
       | None \<Rightarrow> kbind (kget (\<lambda>s. i_dev (inode_of dp s))) (\<lambda>dev. kbind (kfs (ialloc_alloc dev type)) (\<lambda>a. case a of
           None \<Rightarrow> kseq (kfs (iunlockput dp)) (kreturn None)
         | Some ip \<Rightarrow> kseq (kfs (ilock ip))
            (kseq (set_inode ip (\<lambda>i. i\<lparr>i_major := major, i_minor := minor, i_nlink := 1\<rparr>))
            (kseq (kfs (iupdate ip))
            (kbind (if type = T_DIR then link_dots ip dp else kreturn 0) (\<lambda>c.
               if c < 0 then create_fail ip dp
               else kbind (kget (\<lambda>s. i_inum (inode_of ip s))) (\<lambda>inum. kbind (kfs (dirlink dp name inum)) (\<lambda>l.
                 if l < 0 then create_fail ip dp
                 else kseq (kfs (iunlockput dp)) (kreturn (Some ip)))))))))))))"

section \<open>Name-space calls\<close>

definition O_RDONLY :: u32 where "O_RDONLY = 0"

definition O_WRONLY :: u32 where "O_WRONLY = 1"

definition O_RDWR :: u32 where "O_RDWR = 2"

definition O_CREATE :: u32 where "O_CREATE = 0x200"

definition O_TRUNC :: u32 where "O_TRUNC = 0x400"

definition open_file :: "u32 \<Rightarrow> nat \<Rightarrow> kfile \<Rightarrow> kfile" where
  "open_file omode ip f = f\<lparr>fi_type := FD_INODE, fi_ip := Some ip, fi_off := 0, fi_readable := (omode AND O_WRONLY = 0),
     fi_writable := (omode AND O_WRONLY \<noteq> 0 \<or> omode AND O_RDWR \<noteq> 0)\<rparr>"

text \<open>\<^verbatim>\<open>sys_open\<close> from the point where \<open>ip\<close> is referenced and locked.\<close>

definition open_publish :: "u32 \<Rightarrow> nat \<Rightarrow> (kernel, u64) kmonad" where
  "open_publish omode ip = kbind (kget (\<lambda>s. i_type (inode_of ip s))) (\<lambda>ty.
     if ty = T_DIR \<and> omode \<noteq> O_RDONLY then kseq (kfs (iunlockput ip)) end_fail
     else kbind (on_files filealloc) (\<lambda>f. case f of
         None \<Rightarrow> kseq (kfs (iunlockput ip)) end_fail
       | Some f \<Rightarrow> kbind (fdalloc f) (\<lambda>fd. case fd of
           None \<Rightarrow> kseq (on_files (fileclose f)) (kseq (kfs (iunlockput ip)) end_fail)
         | Some fd \<Rightarrow> kseq (on_files (kmodify (upd_file f (open_file omode ip))))
            (kseq (if omode AND O_TRUNC \<noteq> 0 \<and> ty = T_FILE
                   then kseq (kfs (itrunc ip)) (kfs (iupdate ip)) else kreturn ())
            (kseq (kfs (iunlock ip)) (kseq (klog end_op) (kreturn (of_nat fd))))))))"

definition sys_open :: "(kernel, u64) kmonad" where
  "sys_open = need (argstr 0 MAXPATH) (\<lambda>path. need (argint 1) (\<lambda>om.
     let omode = u32_of_int om in
     kseq (klog begin_op)
      (if omode AND NOT (O_RDONLY OR O_WRONLY OR O_RDWR OR O_CREATE OR O_TRUNC) \<noteq> 0 then end_fail
       else if omode AND O_CREATE \<noteq> 0
       then kbind (create path T_FILE 0 0) (\<lambda>r. case r of None \<Rightarrow> end_fail | Some ip \<Rightarrow> open_publish omode ip)
       else kbind (kfs (namei path)) (\<lambda>r. case r of None \<Rightarrow> end_fail
         | Some ip \<Rightarrow> kseq (kfs (ilock ip)) (open_publish omode ip)))))"

definition put_created :: "nat option \<Rightarrow> (kernel, u64) kmonad" where
  "put_created r = (case r of None \<Rightarrow> end_fail | Some ip \<Rightarrow> kseq (kfs (iunlockput ip)) end_ok)"

definition sys_mknod :: "(kernel, u64) kmonad" where
  "sys_mknod = need (argstr 0 MAXPATH) (\<lambda>path. need (argint 1) (\<lambda>major. need (argint 2) (\<lambda>minor.
     kseq (klog begin_op) (kbind (create path T_DEVICE (word_of_int major) (word_of_int minor)) put_created))))"

definition sys_mkdir :: "(kernel, u64) kmonad" where
  "sys_mkdir = need (argstr 0 MAXPATH) (\<lambda>path. kseq (klog begin_op) (kbind (create path T_DIR 0 0) put_created))"

definition sys_chdir :: "(kernel, u64) kmonad" where
  "sys_chdir = kbind me (\<lambda>i. need (argstr 0 MAXPATH) (\<lambda>path. need (kfs (namei path)) (\<lambda>ip.
     kseq (kfs (ilock ip)) (kbind (kget (\<lambda>s. i_type (inode_of ip s))) (\<lambda>ty.
       if ty \<noteq> T_DIR then kseq (kfs (iunlockput ip)) (kreturn (-1))
       else kseq (kfs (iunlock ip))
           (kseq (kbind (kget (\<lambda>s. p_cwd (pr i s))) (\<lambda>c. case c of None \<Rightarrow> kreturn () | Some c \<Rightarrow> kfs (iput c)))
           (kseq (set_proc i (\<lambda>p. p\<lparr>p_cwd := Some ip\<rparr>)) (kreturn 0))))))))"

definition link_bad :: "nat \<Rightarrow> (kernel, u64) kmonad" where
  "link_bad ip = kseq (kfs (ilock ip)) (kseq (set_inode ip (\<lambda>i. i\<lparr>i_nlink := i_nlink i - 1\<rparr>))
     (kseq (kfs (iupdate ip)) (kseq (kfs (iunlockput ip)) end_fail)))"

definition sys_link :: "(kernel, u64) kmonad" where
  "sys_link = need (argstr 0 MAXPATH) (\<lambda>old. need (argstr 1 MAXPATH) (\<lambda>new. kseq (klog begin_op)
     (kbind (kfs (namei old)) (\<lambda>r. case r of None \<Rightarrow> end_fail
      | Some ip \<Rightarrow> kseq (kfs (ilock ip)) (kbind (kget (\<lambda>s. i_type (inode_of ip s))) (\<lambda>ty.
          if ty = T_DIR then kseq (kfs (iunlockput ip)) end_fail
          else kseq (set_inode ip (\<lambda>i. i\<lparr>i_nlink := i_nlink i + 1\<rparr>))
              (kseq (kfs (iupdate ip))
              (kseq (kfs (iunlock ip))
              (kbind (kfs (nameiparent new)) (\<lambda>pa. case pa of None \<Rightarrow> link_bad ip
               | Some (dp, name) \<Rightarrow> kseq (kfs (ilock dp))
                  (kbind (kget (\<lambda>s. (i_dev (inode_of dp s) = i_dev (inode_of ip s), i_inum (inode_of ip s)))) (\<lambda>(same, inum).
                   kbind (if same then kfs (dirlink dp name inum) else kreturn (-1)) (\<lambda>l.
                     if l < 0 then kseq (kfs (iunlockput dp)) (link_bad ip)
                     else kseq (kfs (iunlockput dp)) (kseq (kfs (iput ip)) end_ok))))))))))))))"

definition sys_unlink :: "(kernel, u64) kmonad" where
  "sys_unlink = need (argstr 0 MAXPATH) (\<lambda>path. kseq (klog begin_op)
     (kbind (kfs (unlink_helper path)) (\<lambda>r. if r < 0 then end_fail else end_ok)))"

section \<open>Descriptor calls\<close>

definition sys_fstat :: "(kernel, u64) kmonad" where
  "sys_fstat = need argfd (\<lambda>fd. need (argaddr 1) (\<lambda>st. need (fd_file fd) (\<lambda>f.
     kbind (on_files (filestat f st)) ret_int)))"

definition sys_read :: "(kernel, u64) kmonad" where
  "sys_read = kseq me (need argfd (\<lambda>fd. need (argaddr 1) (\<lambda>addr. need (argint 2) (\<lambda>n. need (fd_file fd) (\<lambda>f.
     if n \<le> 0 then kreturn 0 else kbind (on_files (fileread f addr n)) ret_int)))))"

definition sys_write :: "(kernel, u64) kmonad" where
  "sys_write = kbind me (\<lambda>i. need argfd (\<lambda>fd. need (argaddr 1) (\<lambda>addr. need (argint 2) (\<lambda>n.
     if n \<le> 0 then kreturn 0
     else kbind (fd_file fd) (\<lambda>r. case r of
         Some f \<Rightarrow> kbind (on_files (filewrite f addr n)) ret_int
       | None \<Rightarrow> if fd = 1
           then (let m = min n 64 in
             kbind (kget (\<lambda>s. p_pagetable (pr i s))) (\<lambda>pg.
             kbind (kkm (copyin pg addr (word_of_int m))) (\<lambda>(c, bs).
               if c < 0 then kreturn (-1)
               else kseq (on_uart (kfor bs (\<lambda>b. consoleputc (uint b)))) (ret_int m))))
           else kreturn (-1))))))"

definition sys_close :: "(kernel, u64) kmonad" where
  "sys_close = kseq me (need argfd (\<lambda>fd. need (fd_file fd) (\<lambda>f.
     kseq (clear_fd fd) (kseq (on_files (fileclose f)) (kreturn 0)))))"

definition sys_dup :: "(kernel, u64) kmonad" where
  "sys_dup = kseq me (need argfd (\<lambda>fd. need (fd_file fd) (\<lambda>f. need (fdalloc f) (\<lambda>nd.
     kseq (on_files (filedup f)) (kreturn (of_nat nd))))))"

definition close_both :: "nat \<Rightarrow> nat \<Rightarrow> (kernel, u64) kmonad" where
  "close_both r w = kseq (on_files (fileclose r)) (kseq (on_files (fileclose w)) (kreturn (-1)))"

definition sys_pipe :: "(kernel, u64) kmonad" where
  "sys_pipe = kbind me (\<lambda>i. need (argaddr 0) (\<lambda>addr. need (on_files pipealloc) (\<lambda>(r, w).
     kbind (fdalloc r) (\<lambda>a. case a of None \<Rightarrow> close_both r w
     | Some fd0 \<Rightarrow> kbind (fdalloc w) (\<lambda>b. case b of None \<Rightarrow> kseq (clear_fd fd0) (close_both r w)
       | Some fd1 \<Rightarrow> kbind (kget (\<lambda>s. p_pagetable (pr i s))) (\<lambda>pg.
           kbind (kkm (copyout pg addr (nat_bytes 4 fd0) 4)) (\<lambda>c0.
           kbind (if c0 < 0 then kreturn c0 else kkm (copyout pg (addr + 4) (nat_bytes 4 fd1) 4)) (\<lambda>c1.
             if c0 < 0 \<or> c1 < 0
             then kseq (clear_fd fd0) (kseq (clear_fd fd1) (close_both r w))
             else kreturn 0))))))))"

end
