(* ===== verification/Exec.thy ===== *)
theory Exec
  imports Kernel
begin

text \<open>
  \<^verbatim>\<open>kernel/exec.c\<close>: building a new address space from an ELF file and switching the current process to it.
  The path and the argument strings are the bytes before their NUL.
\<close>

section \<open>ELF headers\<close>

abbreviation MAXARG :: nat where "MAXARG \<equiv> 32"
abbreviation ELF_MAGIC :: u32 where "ELF_MAGIC \<equiv> 0x464C457F"
abbreviation ELF_PROG_LOAD :: u32 where "ELF_PROG_LOAD \<equiv> 1"

record elfhdr =
  eh_magic :: u32
  eh_elf :: bytes
  eh_type :: u16
  eh_machine :: u16
  eh_version :: u32
  eh_entry :: u64
  eh_phoff :: u64
  eh_shoff :: u64
  eh_flags :: u32
  eh_ehsize :: u16
  eh_phentsize :: u16
  eh_phnum :: u16
  eh_shentsize :: u16
  eh_shnum :: u16
  eh_shstrndx :: u16

definition get_elfhdr :: "bytes \<Rightarrow> elfhdr" where
  "get_elfhdr bs = \<lparr>eh_magic = get32 bs 0, eh_elf = bslice bs 4 12, eh_type = get16 bs 16, eh_machine = get16 bs 18,
     eh_version = get32 bs 20, eh_entry = get64 bs 24, eh_phoff = get64 bs 32, eh_shoff = get64 bs 40, eh_flags = get32 bs 48,
     eh_ehsize = get16 bs 52, eh_phentsize = get16 bs 54, eh_phnum = get16 bs 56, eh_shentsize = get16 bs 58,
     eh_shnum = get16 bs 60, eh_shstrndx = get16 bs 62\<rparr>"

record proghdr =
  ph_type :: u32
  ph_flags :: u32
  ph_off :: u64
  ph_vaddr :: u64
  ph_paddr :: u64
  ph_filesz :: u64
  ph_memsz :: u64
  ph_align :: u64

definition get_proghdr :: "bytes \<Rightarrow> proghdr" where
  "get_proghdr bs = \<lparr>ph_type = get32 bs 0, ph_flags = get32 bs 4, ph_off = get64 bs 8, ph_vaddr = get64 bs 16,
     ph_paddr = get64 bs 24, ph_filesz = get64 bs 32, ph_memsz = get64 bs 40, ph_align = get64 bs 48\<rparr>"

definition flags2perm :: "u32 \<Rightarrow> u64" where
  "flags2perm flags = (if flags AND 1 \<noteq> 0 then PTE_X else 0) OR (if flags AND 2 \<noteq> 0 then PTE_W else 0) OR
     (if flags AND 4 \<noteq> 0 then PTE_R else 0)"

section \<open>Loading\<close>

definition exec_bad_nolog :: "u64 \<Rightarrow> u64 \<Rightarrow> (kernel, int) kmonad" where
  "exec_bad_nolog pagetable sz =
     kseq (if pagetable \<noteq> 0
           then kseq (kkm (uvmunmap pagetable TRAPFRAME 1 False))
               (kseq (kkm (uvmunmap pagetable TRAMPOLINE 1 False))
                     (kkm (uvmfree pagetable sz)))
           else kreturn ())
     (kreturn (-1))"

definition exec_bad :: "nat \<Rightarrow> u64 \<Rightarrow> u64 \<Rightarrow> (kernel, int) kmonad" where
  "exec_bad ip pagetable sz = kseq (kfs (iunlockput ip)) (kseq (klog end_op) (exec_bad_nolog pagetable sz))"

text \<open>The page loop of a segment; the result says whether every page was loaded.\<close>

primrec load_pages :: "nat \<Rightarrow> u64 \<Rightarrow> proghdr \<Rightarrow> nat list \<Rightarrow> (kernel, bool) kmonad" where
  "load_pages ip pagetable ph [] = kreturn True"
| "load_pages ip pagetable ph (k # ks) =
     (let va = of_nat k * PGSIZE; n = ucast (min (ph_filesz ph - va) PGSIZE) :: u32 in
      kbind (kkm (walkaddr pagetable (ph_vaddr ph + va))) (\<lambda>pa.
        if pa = 0 then kreturn False
        else kbind (kfs (readi ip To_kernel (ucast (ph_off ph + va)) n)) (\<lambda>(t, bs).
          kseq (store_bytes pa bs)
            (if t \<noteq> n then kreturn False else load_pages ip pagetable ph ks))))"

definition file_pages :: "proghdr \<Rightarrow> nat list" where
  "file_pages ph = [0..<(unat (ph_filesz ph) + 4095) div 4096]"

text \<open>The program-header loop: \<open>m\<close> headers are left; the result is \<^verbatim>\<open>sz\<close> and whether to go on.\<close>

primrec exec_segments :: "nat \<Rightarrow> u64 \<Rightarrow> nat \<Rightarrow> int \<Rightarrow> u64 \<Rightarrow> (kernel, u64 \<times> bool) kmonad" where
  "exec_segments ip pagetable 0 off sz = kreturn (sz, True)"
| "exec_segments ip pagetable (Suc m) off sz =
     kbind (kfs (readi ip To_kernel (u32_of_int off) 56)) (\<lambda>(t, bs).
       if t \<noteq> 56 then kreturn (sz, False)
       else (let ph = get_proghdr bs;
                 continue = (\<lambda>sz'. if off + 56 \<ge> 2 ^ 31 then kfault ''exec: off overflows''
                                  else exec_segments ip pagetable m (off + 56) sz') in
         if ph_type ph \<noteq> ELF_PROG_LOAD then continue sz
         else if ph_memsz ph < ph_filesz ph \<or> ph_vaddr ph + ph_memsz ph < ph_vaddr ph \<or> ph_vaddr ph mod PGSIZE \<noteq> 0
         then kreturn (sz, False)
         else kbind (kkm (uvmalloc pagetable sz (ph_vaddr ph + ph_memsz ph) (flags2perm (ph_flags ph)))) (\<lambda>sz'.
           if sz' = 0 then kreturn (sz', False)
           else kbind (load_pages ip pagetable ph (file_pages ph)) (\<lambda>good.
             if good then continue sz' else kreturn (sz', False)))))"

section \<open>Arguments\<close>

definition push_str :: "u64 \<Rightarrow> bytes \<Rightarrow> u64" where
  "push_str sp str = (let sp' = sp - of_nat (length str + 1) in sp' - sp' mod 16)"

text \<open>The argument loop: the final stack pointer and the addresses of the strings, unless it fails.\<close>

primrec push_args :: "u64 \<Rightarrow> u64 \<Rightarrow> nat \<Rightarrow> bytes list \<Rightarrow> u64 \<Rightarrow> (kernel, (u64 \<times> u64 list) option) kmonad" where
  "push_args pagetable stackbase argc [] sp = kreturn (Some (sp, []))"
| "push_args pagetable stackbase argc (str # argv) sp =
     (if argc \<ge> MAXARG then kreturn None
      else (let sp' = push_str sp str in
        if sp' < stackbase then kreturn None
        else kbind (kkm (copyout pagetable sp' (str @ [0]) (of_nat (length str + 1)))) (\<lambda>r.
          if r < 0 then kreturn None
          else kbind (push_args pagetable stackbase (Suc argc) argv sp') (\<lambda>rest.
            kreturn (map_option (\<lambda>(q, us). (q, sp' # us)) rest)))))"

definition last_elem :: "bytes \<Rightarrow> bytes" where
  "last_elem path = rev (takeWhile (\<lambda>c. c \<noteq> SLASH) (rev path))"

definition ustack_bytes :: "u64 list \<Rightarrow> bytes" where
  "ustack_bytes us = concat (map (\<lambda>u. nat_bytes 8 (unat u)) us) @ nat_bytes 8 0"

section \<open>exec\<close>

definition exec_commit :: "nat \<Rightarrow> bytes \<Rightarrow> u64 \<Rightarrow> u64 \<Rightarrow> u64 \<Rightarrow> u64 \<Rightarrow> (kernel, unit) kmonad" where
  "exec_commit i path pagetable sz sp entry =
     kseq (set_proc i (set_name (last_elem path)))
    (kbind (kget (pr i)) (\<lambda>p.
     kseq (if p_pagetable p \<noteq> 0
           then kseq (kkm (uvmunmap (p_pagetable p) TRAPFRAME 1 False))
               (kseq (kkm (uvmunmap (p_pagetable p) TRAMPOLINE 1 False))
                     (kkm (uvmfree (p_pagetable p) (p_sz p))))
           else kreturn ())
    (kseq (set_proc i (\<lambda>p. p\<lparr>p_pagetable := pagetable, p_sz := sz\<rparr>))
    (kseq (store64 (p_trapframe p + TF_epc) entry)
    (kseq (store64 (p_trapframe p + TF_sp) sp)
          (store64 (p_trapframe p + TF_a1) sp))))))"

text \<open>The part after the file has been read: the stack, the arguments and the switch.\<close>

definition exec_stack :: "nat \<Rightarrow> bytes \<Rightarrow> bytes list \<Rightarrow> u64 \<Rightarrow> u64 \<Rightarrow> u64 \<Rightarrow> (kernel, int) kmonad" where
  "exec_stack i path argv pagetable entry sz0 =
     (let sz1 = PGROUNDUP sz0 in
      kbind (kkm (uvmalloc pagetable sz1 (sz1 + 2 * PGSIZE) (PTE_R OR PTE_W))) (\<lambda>sz.
        if sz = 0 then exec_bad_nolog pagetable 0
        else kseq (kkm (uvmunmap pagetable (sz - 2 * PGSIZE) 1 True))
          (kbind (push_args pagetable (sz - PGSIZE) 0 argv sz) (\<lambda>r. case r of
             None \<Rightarrow> exec_bad_nolog pagetable sz
           | Some (sp, us) \<Rightarrow>
               (let argc = length us; sp1 = sp - of_nat ((argc + 1) * 8); sp2 = sp1 - sp1 mod 16 in
                if sp2 < sz - PGSIZE then exec_bad_nolog pagetable sz
                else kbind (kkm (copyout pagetable sp2 (ustack_bytes us) (of_nat ((argc + 1) * 8)))) (\<lambda>c.
                  if c < 0 then exec_bad_nolog pagetable sz
                  else kseq (exec_commit i path pagetable sz sp2 entry) (kreturn (int argc))))))))"

definition exec :: "bytes \<Rightarrow> bytes list \<Rightarrow> (kernel, int) kmonad" where
  "exec path argv = kbind (kpt myproc) (\<lambda>i. kseq (klog begin_op)
     (kbind (kfs (namei path)) (\<lambda>r. case r of
        None \<Rightarrow> kseq (klog end_op) (kreturn (-1))
      | Some ip \<Rightarrow> kseq (kfs (ilock ip))
         (kbind (kfs (readi ip To_kernel 0 64)) (\<lambda>(t, bs).
            let elf = get_elfhdr bs in
            if t \<noteq> 64 \<or> eh_magic elf \<noteq> ELF_MAGIC then exec_bad ip 0 0
            else kbind (kkm uvmcreate) (\<lambda>pagetable.
              if pagetable = 0 then exec_bad ip 0 0
              else kbind (kget (\<lambda>s. (trampoline (ke_sym s), p_trapframe (pr i s)))) (\<lambda>(tr, tf).
                kseq (kkm (uvmmap pagetable TRAMPOLINE tr PGSIZE (PTE_R OR PTE_X)))
               (kseq (kkm (uvmmap pagetable TRAPFRAME tf PGSIZE (PTE_R OR PTE_W OR PTE_U)))
               (kbind (exec_segments ip pagetable (unat (eh_phnum elf)) (int_of_u32 (ucast (eh_phoff elf))) 0) (\<lambda>(sz, good).
                  if \<not> good then exec_bad ip pagetable sz
                  else kseq (kfs (iunlockput ip)) (kseq (klog end_op)
                    (exec_stack i path argv pagetable (eh_entry elf) sz))))))))))))"

end
