(* ===== verification/Syscall.thy ===== *)
theory Syscall
  imports Sysfile Exec
begin

text \<open>
  The process system calls of \<^verbatim>\<open>kernel/sysproc.c\<close> and the dispatcher of \<^verbatim>\<open>kernel/syscall.c\<close>.
\<close>

section \<open>Process calls\<close>

definition sys_getpid :: "(kernel, u64) kmonad" where
  "sys_getpid = kbind me (\<lambda>i. kbind (kget (\<lambda>s. p_pid (pr i s))) ret_int)"

definition sys_sbrk :: "(kernel, u64) kmonad" where
  "sys_sbrk = kbind me (\<lambda>i. need (argint 0) (\<lambda>n. kget (\<lambda>s. p_sz (pr i s))))"

definition sys_uptime :: "(kernel, u64) kmonad" where
  "sys_uptime = kget ke_mtime"

definition sys_exit :: "(kernel, u64) kmonad" where
  "sys_exit = need (argint 0) exit"

definition sys_fork :: "(kernel, u64) kmonad" where
  "sys_fork = kbind fork ret_int"

definition sys_wait :: "(kernel, u64) kmonad" where
  "sys_wait = need (argaddr 0) (\<lambda>addr. kbind (wait addr) ret_int)"

definition sys_kill :: "(kernel, u64) kmonad" where
  "sys_kill = need (argint 0) (\<lambda>pid. kbind (kpt (kill pid)) ret_int)"

text \<open>
  The argument loop of \<^verbatim>\<open>sys_exec\<close> from index \<open>i\<close> on, with \<open>k\<close> rounds left: the result of the call and the
  pages \<^verbatim>\<open>argv\<close> holds at the end.
\<close>

primrec exec_args :: "bytes \<Rightarrow> u64 \<Rightarrow> nat \<Rightarrow> nat \<Rightarrow> u64 list \<Rightarrow> bytes list \<Rightarrow> (kernel, int \<times> u64 list) kmonad" where
  "exec_args path uargv 0 i pgs strs = kreturn (-1, pgs)"
| "exec_args path uargv (Suc k) i pgs strs =
     kbind (fetchaddr (uargv + 8 * of_nat i)) (\<lambda>a. case a of
       None \<Rightarrow> kreturn (-1, pgs)
     | Some uarg \<Rightarrow>
         if uarg = 0 then kbind (exec path strs) (\<lambda>r. kreturn (r, pgs))
         else kbind (kkm kalloc) (\<lambda>pg.
           if pg = 0 then kreturn (-1, pgs)
           else kbind (fetchstr uarg 4096) (\<lambda>(r, bs). kseq (store_bytes pg bs)
             (case r of None \<Rightarrow> kreturn (-1, pgs @ [pg])
              | Some str \<Rightarrow> exec_args path uargv k (Suc i) (pgs @ [pg]) (strs @ [str])))))"

definition sys_exec :: "(kernel, u64) kmonad" where
  "sys_exec = need (argstr 0 MAXPATH) (\<lambda>path. need (argaddr 1) (\<lambda>uargv.
     kbind (exec_args path uargv MAXARG 0 [] []) (\<lambda>(r, pgs).
       kseq (kfor pgs (\<lambda>pg. kkm (kfree pg))) (ret_int r))))"

section \<open>Dispatch\<close>

abbreviation SYS_MAX :: int where "SYS_MAX \<equiv> 21"

text \<open>The dispatch table; \<^verbatim>\<open>SYS_sleep\<close> (13) has no handler.\<close>

definition syscalls :: "int \<Rightarrow> (kernel, u64) kmonad option" where
  "syscalls n =
     (if n = 1 then Some sys_fork else if n = 2 then Some sys_exit else if n = 3 then Some sys_wait
      else if n = 4 then Some sys_pipe else if n = 5 then Some sys_read else if n = 6 then Some sys_kill
      else if n = 7 then Some sys_exec else if n = 8 then Some sys_fstat else if n = 9 then Some sys_chdir
      else if n = 10 then Some sys_dup else if n = 11 then Some sys_getpid else if n = 12 then Some sys_sbrk
      else if n = 14 then Some sys_uptime else if n = 15 then Some sys_open else if n = 16 then Some sys_write
      else if n = 17 then Some sys_mknod else if n = 18 then Some sys_unlink else if n = 19 then Some sys_link
      else if n = 20 then Some sys_mkdir else if n = 21 then Some sys_close else None)"

text \<open>\<^verbatim>\<open>"syscall %d: not implemented\n"\<close>.\<close>

definition no_syscall_fmt :: bytes where
  "no_syscall_fmt = text_bytes ''syscall %d: not implemented'' @ [10]"

definition set_a0 :: "nat \<Rightarrow> u64 \<Rightarrow> (kernel, unit) kmonad" where
  "set_a0 i v = kbind (kget (\<lambda>s. p_trapframe (pr i s))) (\<lambda>tf. store64 (tf + TF_a0) v)"

definition syscall_num :: "nat \<Rightarrow> kernel \<Rightarrow> int" where
  "syscall_num i s = (if p_trapframe (pr i s) \<noteq> 0 then int_of_u32 (ucast (ld64 (mem s) (p_trapframe (pr i s) + TF_a7))) else 999)"

definition syscall :: "(kernel, unit) kmonad" where
  "syscall = kbind me (\<lambda>i. kbind (kget (syscall_num i)) (\<lambda>num.
     case (if num > 0 \<and> num \<le> SYS_MAX then syscalls num else None) of
       Some h \<Rightarrow> kbind h (set_a0 i)
     | None \<Rightarrow> kseq (kbind (kget (\<lambda>s. p_trapframe (pr i s))) (\<lambda>tf. if tf \<noteq> 0 then set_a0 i (-1) else kreturn ()))
         (on_uart (printf no_syscall_fmt [Arg_int num]))))"

end
