(* ===== verification/Trap.thy ===== *)
theory Trap
  imports Syscall
begin

text \<open>
  Traps and boot: \<^verbatim>\<open>kernel/trap.c\<close>, \<^verbatim>\<open>kernel/plic.c\<close>, \<^verbatim>\<open>kernel/boot.c\<close> and \<^verbatim>\<open>kernel/main.c\<close>. The trap registers are
  fields of the state. The jump of \<^verbatim>\<open>usertrapret\<close> into the trampoline is the value it returns: the
  address jumped to and its two arguments.
\<close>

section \<open>Interrupt controller\<close>

abbreviation UART0_IRQ :: u32 where "UART0_IRQ \<equiv> 10"
abbreviation VIRTIO0_IRQ :: u32 where "VIRTIO0_IRQ \<equiv> 1"

definition PLIC_PRIORITY :: u64 where "PLIC_PRIORITY = PLIC"

definition PLIC_SENABLE :: u64 where "PLIC_SENABLE = PLIC + 0x2080"

definition PLIC_SPRIORITY :: u64 where "PLIC_SPRIORITY = PLIC + 0x201000"

definition PLIC_SCLAIM :: u64 where "PLIC_SCLAIM = PLIC + 0x201004"

definition plic_store :: "u64 \<Rightarrow> u32 \<Rightarrow> plic \<Rightarrow> plic" where
  "plic_store a v p = p\<lparr>plic_stores := plic_stores p @ [(a, v)]\<rparr>"

definition plicinit :: "plic \<Rightarrow> plic" where
  "plicinit p = plic_store (PLIC_PRIORITY + ucast (VIRTIO0_IRQ - 1) * 4) 1
     (plic_store (PLIC_PRIORITY + ucast (UART0_IRQ - 1) * 4) 1 p)"

definition plic_enable_irq :: "u64 \<Rightarrow> u32 \<Rightarrow> plic \<Rightarrow> plic" where
  "plic_enable_irq hart irq p = (let v = plic_enable p OR push_bit (unat irq) 1 in
     plic_store (PLIC_SENABLE + hart * 4) v (p\<lparr>plic_enable := v\<rparr>))"

definition plicinithart :: "u64 \<Rightarrow> plic \<Rightarrow> plic" where
  "plicinithart hart p = plic_store (PLIC_SPRIORITY + hart * 4) 0
     (plic_enable_irq hart VIRTIO0_IRQ (plic_enable_irq hart UART0_IRQ p))"

definition plic_claim :: "plic \<Rightarrow> u32 \<times> plic" where
  "plic_claim p = (case plic_pending p of [] \<Rightarrow> (0, p) | irq # rest \<Rightarrow> (irq, p\<lparr>plic_pending := rest\<rparr>))"

definition plic_complete :: "u64 \<Rightarrow> u32 \<Rightarrow> plic \<Rightarrow> plic" where
  "plic_complete hart irq p = plic_store (PLIC_SCLAIM + hart * 4) irq p"

section \<open>Kernel traps\<close>

definition SSTATUS_SPP :: u64 where "SSTATUS_SPP = 0x100"

definition SSTATUS_SPIE :: u64 where "SSTATUS_SPIE = 0x20"

definition SCAUSE_SEXTERNAL :: u64 where "SCAUSE_SEXTERNAL = 0x8000000000000009"

definition csr :: "(csrs \<Rightarrow> csrs) \<Rightarrow> (kernel, unit) kmonad" where
  "csr f = kmodify (\<lambda>s. s\<lparr>ke_csr := f (ke_csr s)\<rparr>)"

definition on_plic :: "(plic \<Rightarrow> plic) \<Rightarrow> (kernel, unit) kmonad" where
  "on_plic f = kmodify (\<lambda>s. s\<lparr>ke_plic := f (ke_plic s)\<rparr>)"

definition trapinit :: "(kernel, unit) kmonad" where
  "trapinit = kbind (kget (\<lambda>s. kernelvec (ke_sym s))) (\<lambda>k. csr (\<lambda>c. c\<lparr>stvec := k\<rparr>))"

definition disk_get :: "kernel \<Rightarrow> vst" where
  "disk_get s = \<lparr>vs_pt = pt s, vs_disk = ke_disk s\<rparr>"

definition disk_put :: "vst \<Rightarrow> kernel \<Rightarrow> kernel" where
  "disk_put v s = s\<lparr>ke_files := (ke_files s)\<lparr>fl_fs := set_pt (vs_pt v) (fl_fs (ke_files s))\<rparr>, ke_disk := vs_disk v\<rparr>"

definition on_disk :: "(vst, 'a) kmonad \<Rightarrow> (kernel, 'a) kmonad" where
  "on_disk = klift disk_get disk_put"

definition kuartintr :: "(kernel, unit) kmonad" where
  "kuartintr = on_uart (\<lambda>u. case uartintr u of None \<Rightarrow> Fault ''uartintr: receiver never empty'' | Some u' \<Rightarrow> Done () u')"

definition unknown_irq_fmt :: bytes where
  "unknown_irq_fmt = text_bytes ''devintr: unknown external IRQ %d (stval=%lx)'' @ [10]"

definition devintr :: "u64 \<Rightarrow> (kernel, int) kmonad" where
  "devintr hart = kbind (kget ke_csr) (\<lambda>c.
     if scause c = SCAUSE_SEXTERNAL then
       kbind (kget (\<lambda>s. plic_claim (ke_plic s))) (\<lambda>(irq, p). kseq (on_plic (\<lambda>_. p))
        (if irq = 0 then kreturn 0
         else kseq (if irq = UART0_IRQ then kuartintr
                    else if irq = VIRTIO0_IRQ then on_disk virtio_disk_intr
                    else on_uart (printf unknown_irq_fmt [Arg_int (int_of_u32 irq), Arg_u64 (stval c)]))
             (kseq (on_plic (plic_complete hart irq)) (kreturn 1))))
     else kreturn 0)"

definition interrupt_fmt :: bytes where
  "interrupt_fmt = text_bytes ''kerneltrap: interrupt scause=%lx sepc=%lx stval=%lx'' @ [10]"

definition unhandled_fmt :: bytes where
  "unhandled_fmt = text_bytes ''kerneltrap: unhandled external interrupt scause=%lx sepc=%lx'' @ [10]"

definition exception_fmt :: bytes where
  "exception_fmt = text_bytes ''kerneltrap: exception scause=%lx sepc=%lx stval=%lx'' @ [10]"

definition kerneltrap :: "u64 \<Rightarrow> (kernel, unit) kmonad" where
  "kerneltrap hart = kbind (kget ke_csr) (\<lambda>c.
     let args = [Arg_u64 (scause c), Arg_u64 (sepc c), Arg_u64 (stval c)] in
     if sstatus c AND SSTATUS_SPP = 0 then kpanic ''kerneltrap: not supervisor''
     else if bit (scause c) 63 then
       (if scause c AND 0xff = 9
        then kbind (devintr hart) (\<lambda>w. if w = 0 then on_uart (printf unhandled_fmt args) else kreturn ())
        else on_uart (printf interrupt_fmt args))
     else kseq (on_uart (printf exception_fmt args)) (kpanic ''unexpected supervisor exception''))"

section \<open>User traps\<close>

definition usertrapret :: "(kernel, u64 \<times> u64 \<times> u64) kmonad" where
  "usertrapret = kbind me (\<lambda>i. kbind (kget (\<lambda>s. (pr i s, ke_sym s, ke_csr s, ke_satp s))) (\<lambda>(p, sy, c, stp).
     let tf = p_trapframe p in
     kseq (store64 (tf + TF_kernel_satp) stp)
    (kseq (store64 (tf + TF_kernel_sp) (p_kstack p + PGSIZE))
    (kseq (store64 (tf + TF_kernel_trap) (usertrap_fn sy))
    (kseq (store64 (tf + TF_kernel_hartid) (tp_reg c))
    (kseq (csr (\<lambda>c'. c'\<lparr>sstatus := (sstatus c AND NOT SSTATUS_SPP) OR SSTATUS_SPIE\<rparr>))
    (kbind (kget (\<lambda>s. ld64 (mem s) (tf + TF_epc))) (\<lambda>epc.
     kseq (csr (\<lambda>c'. c'\<lparr>sepc := epc\<rparr>))
    (kseq (csr (\<lambda>c'. c'\<lparr>sscratch := TRAPFRAME\<rparr>))
    (kseq (csr (\<lambda>c'. c'\<lparr>stvec := TRAMPOLINE + (uservec sy - trampoline sy)\<rparr>))
    (kreturn (TRAMPOLINE + (userret sy - trampoline sy), TRAPFRAME, p_pagetable p))))))))))))"

definition forkret :: "(kernel, u64 \<times> u64 \<times> u64) kmonad" where
  "forkret = kseq me usertrapret"

definition user_exception_fmt :: bytes where
  "user_exception_fmt = text_bytes ''usertrap: exception scause=%lx sepc=%lx stval=%lx pid=%d'' @ [10]"

definition usertrap :: "(kernel, u64 \<times> u64 \<times> u64) kmonad" where
  "usertrap = kbind me (\<lambda>i. kbind (kget (\<lambda>s. (pr i s, ke_sym s, ke_csr s))) (\<lambda>(p, sy, c).
     if sstatus c AND SSTATUS_SPP \<noteq> 0 then kpanic ''usertrap: not from user mode''
     else kseq (csr (\<lambda>c'. c'\<lparr>stvec := kernelvec sy\<rparr>))
      (if scause c = 8
       then kseq (store64 (p_trapframe p + TF_epc) (sepc c))
           (kseq (csr (\<lambda>c'. c'\<lparr>sepc := sepc c + 4\<rparr>))
           (kseq syscall usertrapret))
       else kseq (on_uart (printf user_exception_fmt [Arg_u64 (scause c), Arg_u64 (sepc c), Arg_u64 (stval c), Arg_int (p_pid p)]))
           (kpanic ''unexpected user exception''))))"

section \<open>Boot\<close>

definition boot_banner :: bytes where
  "boot_banner = text_bytes ''XV6_BOOT_OK'' @ [10]"

definition publish_boot_banner :: "(uart, unit) kmonad" where
  "publish_boot_banner = emit boot_banner"

definition intr_on :: "(kernel, unit) kmonad" where
  "intr_on = csr (\<lambda>c. c\<lparr>sstatus := sstatus c OR 2\<rparr>)"

definition vm_get :: "kernel \<Rightarrow> vmst" where
  "vm_get s = \<lparr>v_kmem = f_km (fl_fs (ke_files s)), kernel_pagetable = ke_pagetable s, satp = ke_satp s\<rparr>"

definition vm_put :: "vmst \<Rightarrow> kernel \<Rightarrow> kernel" where
  "vm_put v s = s\<lparr>ke_files := (ke_files s)\<lparr>fl_fs := (fl_fs (ke_files s))\<lparr>f_km := v_kmem v\<rparr>\<rparr>,
     ke_pagetable := kernel_pagetable v, ke_satp := satp v\<rparr>"

text \<open>\<^verbatim>\<open>main\<close> up to the scheduler; \<open>etext\<close> is the linker symbol, \<open>hart\<close> the boot hart.\<close>

definition kernel_main :: "u64 \<Rightarrow> u64 \<Rightarrow> (kernel, unit) kmonad" where
  "kernel_main etext hart =
     kseq (kkm kinit)
    (kseq (kbind (kget (\<lambda>s. trampoline (ke_sym s))) (\<lambda>tr. klift vm_get vm_put (kvminit etext tr)))
    (kseq (klift vm_get vm_put kvminithart)
    (kseq (on_uart publish_boot_banner)
    (kseq trapinit
    (kseq (on_plic plicinit)
    (kseq (on_plic (plicinithart hart))
    (kseq (on_uart (kmodify uartinit))
    (kseq (on_disk virtio_disk_init)
    (kseq (klog (lbio binit))
    (kseq (kfs (fsinit 1))
    (kseq (on_files fileinit)
    (kseq procinit
    (kseq userinit
          intr_on)))))))))))))"

end
