(* ===== verification/Kernel_Inv.thy ===== *)
theory Kernel_Inv
  imports Fs_Inv Trap Virtio_Props Log_Props
begin

text \<open>
  Invariants of the whole kernel over system calls, traps, interrupts and scheduling: descriptors never
  outnumber the references of the open file they name, and process ids are unique.
\<close>

section \<open>What an operation leaves alone\<close>

text \<open>Process identities and descriptor tables together with the reference counts of the open files.\<close>

type_synonym kcore = "pcore \<times> (nat \<Rightarrow> int)"

definition file_core :: "filest \<Rightarrow> kcore" where
  "file_core s = (ptcore (f_pt (fl_fs s)), \<lambda>f. fi_ref (ftable s f))"

definition kcore_of :: "kernel \<Rightarrow> kcore" where
  "kcore_of s = file_core (ke_files s)"

abbreviation file_I :: "kcore \<Rightarrow> filest \<Rightarrow> bool" where "file_I k \<equiv> \<lambda>s. file_core s = k"
abbreviation kern_I :: "kcore \<Rightarrow> kernel \<Rightarrow> bool" where "kern_I k \<equiv> \<lambda>s. kcore_of s = k"
abbreviation pipe_I :: "pcore \<Rightarrow> pipest \<Rightarrow> bool" where "pipe_I c \<equiv> \<lambda>s. ptcore (pp_pt s) = c"
abbreviation disk_I :: "pcore \<Rightarrow> vst \<Rightarrow> bool" where "disk_I c \<equiv> \<lambda>s. ptcore (vs_pt s) = c"

subsection \<open>Pipes\<close>

lemma kinv_pipe_basic [kinv_intros]: "kinv (pipe_I c) (pwake ch)" "kinv (pipe_I c) (psleep ch i)" "kinv (pipe_I c) (pget pi)"
  "kinv (pipe_I c) (ppt myproc)" "kinv (pipe_I c) (pkm m)"
  by (simp_all add: kinv_def pwake_def psleep_def pget_def sleep_def myproc_def kbind_def klift_def ksat_def ptcore_upd
      split: option.split outcome.split)

lemma kinv_pipe_upd [kinv_intros]: "kinv (pipe_I c) (kmodify (\<lambda>s. s\<lparr>pp_pipes := g s\<rparr>))" "kinv (pipe_I c) (pupd pi f)"
  unfolding pupd_def by (intro kinv_intros kinv_modify; simp)+

lemma kinv_pipe [kinv_intros]: "kinv (pipe_I c) (pipeclose pi w)" "kinv (pipe_I c) (pipewrite pi addr n)" "kinv (pipe_I c) (piperead pi addr n)"
proof -
  show "kinv (pipe_I c) (pipeclose pi w)" unfolding pipeclose_def by (intro kinv_intros)
  have pg: "kinv (pipe_I c) pagetable_of" unfolding pagetable_of_def by (intro kinv_intros)
  have "kinv (pipe_I c) (pipewrite_from pi addr n i)" for i
  proof (induction "nat (n - int i)" arbitrary: i rule: less_induct)
    case less
    have IH: "kinv (pipe_I c) (pipewrite_from pi addr n (Suc i))" if "int i < n" by (rule less) (use that in simp)
    show ?case by (rule kinv_unfold, rule pipewrite_from.simps) (unfold pipewrite_end_def, intro kinv_intros pg IH)
  qed
  then show "kinv (pipe_I c) (pipewrite pi addr n)" unfolding pipewrite_def by (intro kinv_intros)
  have "kinv (pipe_I c) (piperead_loop pi addr n i)" for i
  proof (induction "nat (n - int i)" arbitrary: i rule: less_induct)
    case less
    have IH: "kinv (pipe_I c) (piperead_loop pi addr n (Suc i))" if "int i < n" by (rule less) (use that in simp)
    show ?case by (rule kinv_unfold, rule piperead_loop.simps) (unfold piperead_end_def, intro kinv_intros pg IH)
  qed
  then show "kinv (pipe_I c) (piperead pi addr n)" unfolding piperead_def by (intro kinv_intros)
qed

subsection \<open>Open files\<close>

lemma kinv_on_fs [kinv_intros]: "(\<And>c. kinv (fs_I False c) m) \<Longrightarrow> kinv (file_I k) (on_fs m)"
  unfolding on_fs_def by (rule kinv_lift [where J = "fs_I False (fst k)"]) (auto simp: file_core_def fs_I_def)

lemma kinv_on_flog [kinv_intros]: "(\<And>c. kinv (log_I c) m) \<Longrightarrow> kinv (file_I k) (on_flog m)"
  unfolding on_flog_def by (intro kinv_intros)

lemma kinv_on_fkm [kinv_intros]: "kinv (file_I k) (on_fkm m)"
  unfolding on_fkm_def by (intro kinv_intros)

lemma kinv_on_fpt [kinv_intros]: "(\<And>c. kinv (pt_I c) m) \<Longrightarrow> kinv (file_I k) (on_fpt m)"
  unfolding on_fpt_def by (intro kinv_intros)

lemma kinv_on_pipe [kinv_intros]: "(\<And>c. kinv (pipe_I c) m) \<Longrightarrow> kinv (file_I k) (on_pipe m)"
  unfolding on_pipe_def
  by (rule kinv_lift [where J = "pipe_I (fst k)"]) (auto simp: file_core_def pipe_get_def pipe_put_def f_pt_def set_pt_def)

lemma kinv_pipe_call [kinv_intros]: "(\<And>c. kinv (pipe_I c) m) \<Longrightarrow> kinv (file_I k) (pipe_call m)"
proof -
  have "kinv I (\<lambda>s. case r of Ret v \<Rightarrow> Done v s | Sleep_at j \<Rightarrow> Block s)" for I :: "filest \<Rightarrow> bool" and r
    by (cases r) (simp_all add: kinv_def)
  then show "kinv (file_I k) (pipe_call m)" if "\<And>c. kinv (pipe_I c) m" unfolding pipe_call_def by (intro kinv_intros that)
qed

lemma kinv_upd_file [kinv_intros]: "(\<And>x. fi_ref (f x) = fi_ref x) \<Longrightarrow> kinv (file_I k) (kmodify (upd_file i f))"
  by (auto simp: kinv_def file_core_def upd_file_def)

lemma kinv_fdtype [kinv_intros]: "kinv I a \<Longrightarrow> kinv I b \<Longrightarrow> kinv I d \<Longrightarrow>
   kinv I (case t of FD_NONE \<Rightarrow> a | FD_INODE \<Rightarrow> b | FD_PIPE \<Rightarrow> d)"
  by (cases t) auto

lemma kinv_file_release [kinv_intros]: "kinv (file_I k) (file_release ff)"
  unfolding file_release_def by (intro kinv_intros)

lemma kinv_stati [kinv_intros]: "kinv I (stati i)"
  unfolding stati_def by (intro kinv_intros)

lemma kinv_filestat [kinv_intros]: "kinv (file_I k) (filestat i addr)"
  unfolding filestat_def by (intro kinv_intros)

lemma kinv_fileread [kinv_intros]: "kinv (file_I k) (fileread i addr n)"
  unfolding fileread_def by (intro kinv_intros; simp)

lemma kinv_filewrite [kinv_intros]: "kinv (file_I k) (filewrite i addr n)"
proof -
  have "kinv (file_I k) (filewrite_loop i ip src ret n)" for ip src ret n
  proof (induction "nat n" arbitrary: src ret n rule: less_induct)
    case less
    have IH: "kinv (file_I k) (filewrite_loop i ip src' ret' (min n write_max - r))" if "n > 0" "\<not> r < 0" "r \<noteq> 0" for src' ret' r
      by (rule less) (use that in auto)
    show ?case by (rule kinv_unfold, rule filewrite_loop.simps) (intro kinv_intros IH; simp)
  qed
  moreover have "kinv (file_I k) (kmodify (\<lambda>s. let sz = i_size (icache (fl_fs s) ip) in
      if fi_off (ftable s i) > sz then upd_file i (\<lambda>f. f\<lparr>fi_off := sz\<rparr>) s else s))" for ip
    by (auto simp: kinv_def file_core_def upd_file_def Let_def)
  ultimately show ?thesis unfolding filewrite_def by (intro kinv_intros)
qed

subsection \<open>Kernel\<close>

lemma kinv_on_files [kinv_intros]: "(\<And>k. kinv (file_I k) m) \<Longrightarrow> kinv (kern_I k) (on_files m)"
  unfolding on_files_def by (rule kinv_lift [where J = "file_I k"]) (auto simp: kcore_of_def)

lemma kinv_on_uart [kinv_intros]: "kinv (kern_I k) (on_uart m)"
  unfolding on_uart_def by (rule kinv_lift [OF kinv_any]) (simp_all add: kcore_of_def)

lemma kinv_pt [kinv_intros]: "kinv (pt_I c) (kmodify (wakeup ch))"
  "(\<And>p. p_pid (f p) = p_pid p) \<Longrightarrow> (\<And>p. p_ofile (f p) = p_ofile p) \<Longrightarrow> kinv (pt_I c) (kmodify (upd_proc i f))"
  by (simp_all add: kinv_def ptcore_upd)

lemma kinv_set_proc [kinv_intros]: "(\<And>p. p_pid (f p) = p_pid p) \<Longrightarrow> (\<And>p. p_ofile (f p) = p_ofile p) \<Longrightarrow> kinv (kern_I k) (set_proc i f)"
  unfolding set_proc_def by (intro kinv_intros)

lemma kinv_mem [kinv_intros]: "kinv (kern_I k) (store64 a v)" "kinv (kern_I k) (store_bytes a bs)" "kinv (kern_I k) (kwake ch)" "kinv (kern_I k) me"
  unfolding store64_def store_bytes_def kwake_def me_def by (intro kinv_intros)+

lemma kinv_set_inode [kinv_intros]: "kinv (kern_I k) (set_inode i f)"
proof -
  have "kinv (fs_I False c) (kmodify (upd_inode i f))" for c by (simp add: kinv_def fs_I_def fs_I_simps)
  then show ?thesis unfolding set_inode_def by (intro kinv_intros)
qed

lemma kinv_idup [kinv_intros]: "kinv (fs_I False c) (idup i)"
  by (simp add: kinv_def idup_def fs_I_def fs_I_simps)

subsection \<open>System calls\<close>

lemma kinv_args [kinv_intros]: "kinv (kern_I k) (fetchaddr a)" "kinv (kern_I k) (fetchargint n)" "kinv (kern_I k) (argint n)"
  "kinv (kern_I k) (argaddr n)" "kinv (kern_I k) (fetchstr a m)" "kinv (kern_I k) (argstr n m)" "kinv (kern_I k) argfd"
  "kinv (kern_I k) (fd_file fd)" "kinv (kern_I k) (ret_int r)" "kinv (kern_I k) end_fail" "kinv (kern_I k) end_ok"
  unfolding fetchaddr_def fetchargint_def argint_def argaddr_def fetchstr_def argstr_def argfd_def fd_file_def ret_int_def end_fail_def end_ok_def
  by (intro kinv_intros)+

lemma kinv_need [kinv_intros]: "kinv I m \<Longrightarrow> (\<And>x. kinv I (f x)) \<Longrightarrow> kinv I (need m f)"
  unfolding need_def by (intro kinv_intros)

lemma kinv_create [kinv_intros]: "kinv (kern_I k) (create path ty ma mi)"
  unfolding create_def create_fail_def link_dots_def by (intro kinv_intros)

lemma kinv_name_calls [kinv_intros]: "kinv (kern_I k) sys_mknod" "kinv (kern_I k) sys_mkdir" "kinv (kern_I k) sys_chdir"
  "kinv (kern_I k) sys_link" "kinv (kern_I k) sys_unlink"
  unfolding sys_mknod_def sys_mkdir_def sys_chdir_def sys_link_def sys_unlink_def put_created_def link_bad_def
  by (intro kinv_intros; simp)+

lemma kinv_io_calls [kinv_intros]: "kinv (kern_I k) sys_fstat" "kinv (kern_I k) sys_read" "kinv (kern_I k) sys_write"
  unfolding sys_fstat_def sys_read_def sys_write_def by (intro kinv_intros)+

lemma kinv_exec [kinv_intros]: "kinv (kern_I k) (exec path argv)"
proof -
  have pages: "kinv (kern_I k) (load_pages ip pg ph ks)" for ip pg ph ks
    by (induction ks) (simp_all only: load_pages.simps Let_def, (intro kinv_intros; assumption?)+)
  have segs: "kinv (kern_I k) (exec_segments ip pg m off sz)" for ip pg m off sz
    by (induction m arbitrary: off sz) (simp_all only: exec_segments.simps Let_def, (intro kinv_intros pages; assumption?)+)
  have args: "kinv (kern_I k) (push_args pg sb n argv sp)" for pg sb n argv sp
    by (induction argv arbitrary: n sp) (simp_all only: push_args.simps Let_def, (intro kinv_intros; assumption?)+)
  have name: "p_pid (set_name t p) = p_pid p" "p_ofile (set_name t p) = p_ofile p" for t p by (simp_all add: set_name_def)
  have bad: "kinv (kern_I k) (exec_bad_nolog pg sz)" for pg sz unfolding exec_bad_nolog_def by (intro kinv_intros)
  have "kinv (kern_I k) (exec_stack i path argv pg en sz)" for i pg en sz
    unfolding exec_stack_def exec_commit_def Let_def by (intro kinv_intros args bad; simp add: name)
  then show ?thesis unfolding exec_def exec_bad_def Let_def by (intro kinv_intros segs bad)
qed

lemma kinv_proc_calls [kinv_intros]: "kinv (kern_I k) sys_getpid" "kinv (kern_I k) sys_sbrk" "kinv (kern_I k) sys_uptime"
  "kinv (kern_I k) sys_kill" "kinv (kern_I k) sys_exec"
proof -
  show "kinv (kern_I k) sys_getpid" "kinv (kern_I k) sys_sbrk" "kinv (kern_I k) sys_uptime"
    unfolding sys_getpid_def sys_sbrk_def sys_uptime_def by (intro kinv_intros)+
  have "kinv (pt_I c) (kill pid)" for c pid unfolding kill_def by (intro kinv_intros; simp)
  then show "kinv (kern_I k) sys_kill" unfolding sys_kill_def by (intro kinv_intros)
  have "kinv (kern_I k) (exec_args path uargv n i pgs strs)" for path uargv n i pgs strs
    by (induction n arbitrary: i pgs strs) (simp_all only: exec_args.simps, (intro kinv_intros; assumption?)+)
  then show "kinv (kern_I k) sys_exec" unfolding sys_exec_def by (intro kinv_intros)
qed

subsection \<open>Traps\<close>

lemma kinv_csr [kinv_intros]: "kinv (kern_I k) (csr f)" "kinv (kern_I k) (on_plic g)"
  by (simp_all add: csr_def on_plic_def kinv_def kcore_of_def)

lemma kinv_disk [kinv_intros]: "kinv (disk_I c) virtio_disk_intr" "kinv (disk_I c) virtio_disk_init"
proof -
  have v: "kinv (disk_I c) (vupd f)" "kinv (disk_I c) (vwake ch)" "kinv (disk_I c) (reg_write r x)" for f ch r x
    by (simp_all add: kinv_def vupd_def vwake_def reg_write_def)
  show "kinv (disk_I c) virtio_disk_intr" "kinv (disk_I c) virtio_disk_init"
    unfolding virtio_disk_intr_def intr_one_def virtio_disk_init_def by (intro kinv_intros v)+
qed

lemma kinv_on_disk [kinv_intros]: "(\<And>c. kinv (disk_I c) m) \<Longrightarrow> kinv (kern_I k) (on_disk m)"
  unfolding on_disk_def
  by (rule kinv_lift [where J = "disk_I (fst k)"]) (auto simp: kcore_of_def file_core_def disk_get_def disk_put_def pt_def f_pt_def set_pt_def)

lemma kinv_traps [kinv_intros]: "kinv (kern_I k) (devintr hart)" "kinv (kern_I k) (kerneltrap hart)" "kinv (kern_I k) usertrapret" "kinv (kern_I k) forkret"
proof -
  show d: "kinv (kern_I k) (devintr hart)" unfolding devintr_def kuartintr_def by (intro kinv_intros)
  show "kinv (kern_I k) (kerneltrap hart)" unfolding kerneltrap_def by (intro kinv_intros d)
  show "kinv (kern_I k) usertrapret" unfolding usertrapret_def by (intro kinv_intros)
  then show "kinv (kern_I k) forkret" unfolding forkret_def by (intro kinv_intros)
qed

section \<open>Accounting\<close>

definition k_desc :: "kcore \<Rightarrow> nat \<Rightarrow> nat \<Rightarrow> nat option" where
  "k_desc k i fd = snd (fst (fst k) i) fd"

definition k_pid :: "kcore \<Rightarrow> nat \<Rightarrow> int" where
  "k_pid k i = fst (fst (fst k) i)"

definition k_cur :: "kcore \<Rightarrow> nat option" where
  "k_cur k = fst (snd (fst k))"

definition k_next :: "kcore \<Rightarrow> int" where
  "k_next k = snd (snd (fst k))"

definition set_desc :: "nat \<Rightarrow> nat \<Rightarrow> nat option \<Rightarrow> kcore \<Rightarrow> kcore" where
  "set_desc i fd v k = (((fst (fst k))(i := (k_pid k i, (k_desc k i)(fd := v))), snd (fst k)), snd k)"

definition add_ref :: "nat \<Rightarrow> int \<Rightarrow> kcore \<Rightarrow> kcore" where
  "add_ref f n k = (fst k, (snd k)(f := snd k f + n))"

lemma core_simps [simp]: "k_desc (set_desc i fd v k) j gd = (if j = i \<and> gd = fd then v else k_desc k j gd)"
  "k_pid (set_desc i fd v k) j = k_pid k j" "k_cur (set_desc i fd v k) = k_cur k" "k_next (set_desc i fd v k) = k_next k"
  "snd (set_desc i fd v k) = snd k" "k_desc (add_ref f n k) = k_desc k" "k_pid (add_ref f n k) = k_pid k"
  "k_cur (add_ref f n k) = k_cur k" "k_next (add_ref f n k) = k_next k" "snd (add_ref f n k) = (snd k)(f := snd k f + n)"
  by (auto simp: k_desc_def k_pid_def k_cur_def k_next_def set_desc_def add_ref_def fun_eq_iff)

text \<open>The descriptors that name file \<open>f\<close>, over all processes.\<close>

definition descs :: "kcore \<Rightarrow> nat \<Rightarrow> (nat \<times> nat) set" where
  "descs k f = {(i, fd). i < NPROC \<and> fd < NOFILE \<and> k_desc k i fd = Some f}"

lemma finite_descs [simp]: "finite (descs k f)"
  by (rule finite_subset [of _ "{..<NPROC} \<times> {..<NOFILE}"]) (auto simp: descs_def)

text \<open>The references of each file cover its descriptors and \<open>e\<close> more.\<close>

definition acct :: "(nat \<Rightarrow> int) \<Rightarrow> kcore \<Rightarrow> bool" where
  "acct e k \<longleftrightarrow> (\<forall>f. int (card (descs k f)) + e f \<le> snd k f)"

definition pids_ok :: "kcore \<Rightarrow> bool" where
  "pids_ok k \<longleftrightarrow> (\<forall>i. 0 \<le> k_pid k i \<and> k_pid k i < k_next k) \<and> (\<forall>i j. k_pid k i = k_pid k j \<and> k_pid k i \<noteq> 0 \<longrightarrow> i = j)"

definition good :: "(nat \<Rightarrow> int) \<Rightarrow> kcore \<Rightarrow> bool" where
  "good e k \<longleftrightarrow> acct e k \<and> pids_ok k \<and> (\<forall>i. k_cur k = Some i \<longrightarrow> i < NPROC)"

lemma good_mono: "good e k \<Longrightarrow> (\<And>f. e' f \<le> e f) \<Longrightarrow> good e' k"
  unfolding good_def acct_def by (meson add_left_mono order_trans)

lemma good_add: "good e k \<Longrightarrow> good (e(f := e f + n)) (add_ref f n k)"
  by (auto simp: good_def acct_def pids_ok_def descs_def)

lemma good_set: "good e k \<Longrightarrow> good (e(f := e f - 1)) (set_desc i fd (Some f) k)"
proof -
  assume g: "good e k"
  have "int (card (descs (set_desc i fd (Some f) k) h)) + (e(f := e f - 1)) h \<le> snd k h" for h
  proof -
    have "descs (set_desc i fd (Some f) k) h \<subseteq> (if h = f then insert (i, fd) (descs k h) else descs k h)"
      by (auto simp: descs_def split: if_splits)
    then have "card (descs (set_desc i fd (Some f) k) h) \<le> card (if h = f then insert (i, fd) (descs k h) else descs k h)"
      by (intro card_mono) auto
    also have "\<dots> \<le> card (descs k h) + (if h = f then 1 else 0)" by (simp add: card_insert_if)
    finally show ?thesis using g unfolding good_def acct_def by (auto dest: spec [of _ h])
  qed
  then show ?thesis using g by (auto simp: good_def acct_def pids_ok_def)
qed

lemma good_clear:
  assumes "good e k" "i < NPROC" "fd < NOFILE" "k_desc k i fd = Some f"
  shows "good (e(f := e f + 1)) (set_desc i fd None k)"
proof -
  have "int (card (descs (set_desc i fd None k) h)) + (e(f := e f + 1)) h \<le> snd k h" for h
  proof -
    have d: "descs (set_desc i fd None k) h = descs k h - {(i, fd)}" by (auto simp: descs_def)
    have "(i, fd) \<in> descs k h \<longleftrightarrow> h = f" using assms(2-4) by (auto simp: descs_def)
    then have "int (card (descs (set_desc i fd None k) h)) = int (card (descs k h)) - (if h = f then 1 else 0)"
      unfolding d using card_Suc_Diff1 [of "descs k h" "(i, fd)"] by auto
    then show ?thesis using assms(1) unfolding good_def acct_def by (auto dest: spec [of _ h])
  qed
  then show ?thesis using assms(1) by (auto simp: good_def acct_def pids_ok_def)
qed

section \<open>Operations on files and descriptors\<close>

abbreviation G :: "(nat \<Rightarrow> int) \<Rightarrow> kernel \<Rightarrow> bool" where "G e \<equiv> \<lambda>s. good e (kcore_of s)"
abbreviation ok :: "kernel \<Rightarrow> bool" where "ok \<equiv> G (\<lambda>_. 0)"

lemma kinv_good: "(\<And>k. kinv (kern_I k) m) \<Longrightarrow> kinv (G e) m"
  by (rule kinv_part)

lemma kept: "(\<And>k. kinv (kern_I k) m) \<Longrightarrow> kcore_of s = k \<Longrightarrow> ksat (m s) (\<lambda>_ t. kcore_of t = k) (\<lambda>t. kcore_of t = k)"
  using kinvD [of "kern_I k" m s] by simp

lemma core_upd_file: "kcore_of (s\<lparr>ke_files := upd_file f g (ke_files s)\<rparr>) = add_ref f (fi_ref (g (ftable (ke_files s) f)) - snd (kcore_of s) f) (kcore_of s)"
  by (auto simp: kcore_of_def file_core_def upd_file_def add_ref_def)

lemma core_ref: "snd (kcore_of s) f = fi_ref (ftable (ke_files s) f)"
  by (simp add: kcore_of_def file_core_def)

lemma filealloc_core: "ksat (on_files filealloc s) (\<lambda>r t. case r of None \<Rightarrow> t = s | Some f \<Rightarrow> kcore_of t = add_ref f 1 (kcore_of s)) B"
  using core_upd_file [where s = s and g = "\<lambda>f. f\<lparr>fi_ref := 1\<rparr>"] core_ref
  by (auto simp: filealloc_def on_files_def klift_def find_Some_iff split: option.split)

lemma filedup_core: "ksat (on_files (filedup f) s) (\<lambda>r t. r = f \<and> kcore_of t = add_ref f 1 (kcore_of s)) B"
  using core_upd_file [where s = s and f = f and g = "\<lambda>f. f\<lparr>fi_ref := fi_ref f + 1\<rparr>"] core_ref [of s f]
  by (auto simp: filedup_def on_files_def klift_def)

lemma fileclose_core:
  "ksat (on_files (fileclose f) s) (\<lambda>_ t. kcore_of t = add_ref f (-1) (kcore_of s)) (\<lambda>t. kcore_of t = add_ref f (-1) (kcore_of s))"
proof -
  let ?s = "s\<lparr>ke_files := upd_file f (\<lambda>f. f\<lparr>fi_ref := 0, fi_type := FD_NONE\<rparr>) (ke_files s)\<rparr>" and ?f = "ftable (ke_files s) f"
  have rel: "ksat (on_files (file_release ?f) ?s) (\<lambda>_ t. kcore_of t = kcore_of ?s) (\<lambda>t. kcore_of t = kcore_of ?s)"
    by (rule kept) (intro kinv_intros refl)+
  show ?thesis
  proof (cases "fi_ref ?f = 1")
    case True
    then have "kcore_of ?s = add_ref f (-1) (kcore_of s)" using core_upd_file [where s = s and f = f and g = "\<lambda>f. f\<lparr>fi_ref := 0, fi_type := FD_NONE\<rparr>"] core_ref [of s f] by simp
    moreover have "on_files (fileclose f) s = on_files (file_release ?f) ?s"
      using True by (simp add: fileclose_def on_files_def klift_def split: outcome.split)
    ultimately show ?thesis using rel by simp
  next
    case False
    then show ?thesis using core_upd_file [where s = s and f = f and g = "\<lambda>f. f\<lparr>fi_ref := fi_ref f - 1\<rparr>"] core_ref [of s f]
      by (auto simp: fileclose_def on_files_def klift_def)
  qed
qed

lemma core_set_proc: "ksat (set_proc i f s) (\<lambda>_ t. kcore_of t = (ptcore (upd_proc i f (pt s)), snd (kcore_of s))) B"
  by (simp add: set_proc_def on_files_def on_fpt_def on_fs_def kcore_of_def file_core_def pt_def fs_I_simps)

lemma core_pt: "fst (kcore_of s) = ptcore (pt s)"
  by (simp add: kcore_of_def file_core_def pt_def)

lemma core_desc: "k_desc (kcore_of s) i fd = p_ofile (pr i s) fd" "k_pid (kcore_of s) i = p_pid (pr i s)" "k_cur (kcore_of s) = cur (pt s)"
  by (simp_all add: k_desc_def k_pid_def k_cur_def core_pt ptcore_def pr_def)

lemma set_ofile_core: "ksat (set_proc i (\<lambda>p. p\<lparr>p_ofile := (p_ofile p)(fd := v)\<rparr>) s) (\<lambda>_ t. kcore_of t = set_desc i fd v (kcore_of s)) B"
  by (rule ksat_mono [OF core_set_proc])
    (auto simp: set_desc_def ptcore_def upd_proc_def core_pt core_desc pr_def prod_eq_iff fun_eq_iff)

lemma me_core: "ksat (me s) (\<lambda>i t. t = s \<and> k_cur (kcore_of s) = Some i) B"
  by (auto simp: me_def on_files_def on_fpt_def on_fs_def klift_def myproc_def core_desc pt_def set_pt_def f_pt_def split: option.split)

lemma clear_fd_core: "ksat (clear_fd fd s) (\<lambda>_ t. \<exists>i. k_cur (kcore_of s) = Some i \<and> kcore_of t = set_desc i fd None (kcore_of s)) B"
  unfolding clear_fd_def by (rule ksat_bind, rule me_core, rule ksat_mono, rule set_ofile_core) auto

lemma fd_file_core: "ksat (fd_file fd s) (\<lambda>r t. t = s \<and> (\<exists>i. k_cur (kcore_of s) = Some i \<and> r = k_desc (kcore_of s) i fd)) B"
  unfolding fd_file_def by (rule ksat_bind, rule me_core) (auto simp: core_desc)

lemma fdalloc_core: "ksat (fdalloc f s) (\<lambda>r t. case r of None \<Rightarrow> kcore_of t = kcore_of s
   | Some fd \<Rightarrow> fd < NOFILE \<and> (\<exists>i. k_cur (kcore_of s) = Some i \<and> k_desc (kcore_of s) i fd = None \<and> kcore_of t = set_desc i fd (Some f) (kcore_of s))) B"
proof -
  have s: "ksat (kseq (set_proc i (\<lambda>p. p\<lparr>p_ofile := (p_ofile p)(fd := Some f)\<rparr>)) (kreturn (Some fd)) s)
      (\<lambda>r t. r = Some fd \<and> kcore_of t = set_desc i fd (Some f) (kcore_of s)) B" for i fd
    by (rule ksat_seq, rule set_ofile_core) simp
  show ?thesis unfolding fdalloc_def
    by (rule ksat_bind, rule me_core) (auto split: option.split simp: find_Some_iff core_desc intro!: ksat_mono [OF s])
qed

lemma argfd_core: "kcore_of s = k \<Longrightarrow> ksat (argfd s) (\<lambda>r t. kcore_of t = k \<and> (\<forall>fd. r = Some fd \<longrightarrow> fd < NOFILE)) (\<lambda>t. kcore_of t = k)"
proof -
  assume k: "kcore_of s = k"
  have "ksat (argfd s) (\<lambda>_ t. kcore_of t = k) (\<lambda>t. kcore_of t = k)" by (rule kept [OF _ k]) (intro kinv_intros)
  then show ?thesis
    by (rule ksat_conj) (auto simp: argfd_def elim!: kbind_DoneE split: option.splits if_splits)
qed

section \<open>System calls on descriptors\<close>

lemmas kinv_ctrl = kinv_basic kinv_bind kinv_seq kinv_if kinv_option kinv_prod kinv_sum kinv_let kinv_for kinv_need

lemma ksat_need: "ksat (m s) R B \<Longrightarrow> (\<And>t. R None t \<Longrightarrow> Q (-1) t) \<Longrightarrow> (\<And>x t. R (Some x) t \<Longrightarrow> ksat (f x t) Q B) \<Longrightarrow> ksat (need m f s) Q B"
  unfolding need_def by (erule ksat_bind) (auto split: option.split)

lemma good_close: "good (e(f := e f + 1)) k \<Longrightarrow> good e (add_ref f (-1) k)"
  using good_add [of "e(f := e f + 1)" k f "-1"] by simp

lemma good_cancel: "good (e(f := e f - 1)) k \<Longrightarrow> good e (add_ref f 1 k)"
  using good_add [of "e(f := e f - 1)" k f 1] by simp

lemma good_use: "good (e(f := e f + 1)) k \<Longrightarrow> good e (set_desc i fd (Some f) k)"
  using good_set [of "e(f := e f + 1)" k f i fd] by simp

text \<open>A new file gets a descriptor or is closed again.\<close>

lemma kinv_new_file:
  assumes "kinv ok A" "kinv ok B" "\<And>f fd. kinv ok (C f fd)"
  shows "kinv ok (kbind (on_files filealloc) (\<lambda>r. case r of None \<Rightarrow> A | Some f \<Rightarrow>
    kbind (fdalloc f) (\<lambda>d. case d of None \<Rightarrow> kseq (on_files (fileclose f)) B | Some fd \<Rightarrow> C f fd)))"
proof (rule kinvI, rule ksat_bind, rule filealloc_core)
  fix s r t assume s: "ok s" and r: "case r of None \<Rightarrow> t = s | Some f \<Rightarrow> kcore_of t = add_ref f 1 (kcore_of s)"
  show "ksat ((case r of None \<Rightarrow> A | Some f \<Rightarrow> kbind (fdalloc f) (\<lambda>d. case d of None \<Rightarrow> kseq (on_files (fileclose f)) B | Some fd \<Rightarrow> C f fd)) t) (\<lambda>_. ok) ok"
  proof (cases r)
    case None
    then show ?thesis using r s kinvD [OF assms(1), of t] by simp
  next
    case (Some f)
    then have t: "G ((\<lambda>_. 0)(f := 1)) t" using r good_add [OF s, of f 1] by simp
    have "ksat (kbind (fdalloc f) (\<lambda>d. case d of None \<Rightarrow> kseq (on_files (fileclose f)) B | Some fd \<Rightarrow> C f fd) t) (\<lambda>_. ok) ok"
    proof (rule ksat_bind, rule fdalloc_core)
      fix d u assume d: "case d of None \<Rightarrow> kcore_of u = kcore_of t
        | Some fd \<Rightarrow> fd < NOFILE \<and> (\<exists>i. k_cur (kcore_of t) = Some i \<and> k_desc (kcore_of t) i fd = None \<and> kcore_of u = set_desc i fd (Some f) (kcore_of t))"
      show "ksat ((case d of None \<Rightarrow> kseq (on_files (fileclose f)) B | Some fd \<Rightarrow> C f fd) u) (\<lambda>_. ok) ok"
      proof (cases d)
        case None
        then have "good (\<lambda>_. 0) (add_ref f (-1) (kcore_of u))" using d t good_close [of "\<lambda>_. 0" f] by simp
        then show ?thesis using None kinvD [OF assms(2)]
          by (auto intro!: ksat_seq [OF ksat_mono [OF fileclose_core, where Q' = "\<lambda>_. ok" and B' = ok]])
      next
        case (Some fd)
        then have "ok u" using d t good_use [of "\<lambda>_. 0" f "kcore_of t"] by auto
        then show ?thesis using Some kinvD [OF assms(3)] by simp
      qed
    qed
    then show ?thesis using Some by simp
  qed
qed

lemma kinv_sys_open: "kinv ok sys_open"
proof -
  have O: "kinv ok (open_publish omode ip)" for omode ip
    unfolding open_publish_def
    by (intro kinv_bind kinv_basic kinv_if kinv_new_file; rule kinv_good; intro kinv_intros; simp add: open_file_def)
  show ?thesis unfolding sys_open_def Let_def by (intro kinv_ctrl O; rule kinv_good; intro kinv_intros)
qed

lemma kinv_sys_dup: "kinv ok sys_dup"
proof -
  have D: "kinv ok (need (fdalloc f) (\<lambda>nd. kseq (on_files (filedup f)) (kreturn (of_nat nd))))" for f
  proof (rule kinvI, rule ksat_need, rule fdalloc_core)
    fix s x t assume "ok s" "case Some x of None \<Rightarrow> kcore_of t = kcore_of s
      | Some fd \<Rightarrow> fd < NOFILE \<and> (\<exists>i. k_cur (kcore_of s) = Some i \<and> k_desc (kcore_of s) i fd = None \<and> kcore_of t = set_desc i fd (Some f) (kcore_of s))"
    then have "G ((\<lambda>_. 0)(f := 0 - 1)) t" using good_set [of "\<lambda>_. 0" "kcore_of s" f] by auto
    then show "ksat (kseq (on_files (filedup f)) (kreturn (of_nat x)) t) (\<lambda>_. ok) ok"
      using good_cancel [of "\<lambda>_. 0" f "kcore_of t"] by (intro ksat_seq [OF filedup_core]) simp
  qed simp
  show ?thesis unfolding sys_dup_def
    by (rule kinv_seq, rule kinv_good, intro kinv_intros, rule kinv_need, rule kinv_good, intro kinv_intros,
        rule kinv_need, rule kinv_good, intro kinv_intros, rule D)
qed

lemma kinv_leaf: "(\<And>k. kinv (kern_I k) m) \<Longrightarrow> ok s \<Longrightarrow> ksat (m s) (\<lambda>_. ok) ok"
  by (rule kinvD [OF kinv_good])

lemma fileclose_good: "G (e(f := e f + 1)) s \<Longrightarrow> ksat (on_files (fileclose f) s) (\<lambda>_. G e) (G e)"
  by (rule ksat_mono [OF fileclose_core]) (auto dest: good_close)

text \<open>Clearing a descriptor and closing its file.\<close>

lemma ksat_drop:
  assumes "ok s" "k_cur (kcore_of s) = Some i" "k_desc (kcore_of s) i fd = Some f" "fd < NOFILE" "kinv ok m"
  shows "ksat (kseq (clear_fd fd) (kseq (on_files (fileclose f)) m) s) (\<lambda>_. ok) ok"
proof (rule ksat_seq, rule clear_fd_core)
  fix x t assume "\<exists>j. k_cur (kcore_of s) = Some j \<and> kcore_of t = set_desc j fd None (kcore_of s)"
  moreover have "i < NPROC" using assms(1,2) by (simp add: good_def)
  ultimately have "G ((\<lambda>_. 0)(f := (\<lambda>_. 0) f + 1)) t" using assms good_clear [OF assms(1), of i fd f] by simp
  then show "ksat (kseq (on_files (fileclose f)) m t) (\<lambda>_. ok) ok"
    using kinvD [OF assms(5)] by (rule ksat_seq [OF fileclose_good])
qed

lemma kinv_sys_close: "kinv ok sys_close"
proof -
  have C: "kinv ok (need argfd (\<lambda>fd. need (fd_file fd) (\<lambda>f. kseq (clear_fd fd) (kseq (on_files (fileclose f)) (kreturn (0 :: u64))))))"
  proof (rule kinvI, rule ksat_need, rule ksat_mono, rule argfd_core, rule refl, assumption, simp, simp, elim conjE)
    fix s fd t assume "ok s" "kcore_of t = kcore_of s" "\<forall>fd'. Some fd = Some fd' \<longrightarrow> fd' < NOFILE"
    then have t: "ok t" "fd < NOFILE" by simp_all
    show "ksat (need (fd_file fd) (\<lambda>f. kseq (clear_fd fd) (kseq (on_files (fileclose f)) (kreturn 0))) t) (\<lambda>_. ok) ok"
      by (rule ksat_need, rule fd_file_core) (use t in \<open>auto intro: ksat_drop kinv_basic\<close>)
  qed
  show ?thesis unfolding sys_close_def by (rule kinv_seq [OF kinv_good C]) (intro kinv_intros)
qed

lemma on_files_bind: "on_files (kbind m f) = kbind (on_files m) (\<lambda>x. on_files (f x))"
  by (rule ext) (auto simp: on_files_def klift_def kbind_def split: outcome.split)

lemma on_files_seq: "on_files (kseq m n) = kseq (on_files m) (on_files n)"
  unfolding kseq_def by (rule on_files_bind)

definition E1 :: "nat \<Rightarrow> nat \<Rightarrow> int" where "E1 f = (\<lambda>_. 0)(f := 1)"

definition E2 :: "nat \<Rightarrow> nat \<Rightarrow> nat \<Rightarrow> int" where "E2 r w = (E1 w)(r := E1 w r + 1)"

lemma E1_plus: "E1 f = (\<lambda>_. 0)(f := (\<lambda>_. 0) f + 1)" "E2 r w = (E1 r)(w := E1 r w + 1)"
  by (auto simp: E1_def E2_def)

lemma good_ok: "good (E1 f) k \<Longrightarrow> good (\<lambda>_. 0) k" "good (E2 f g) k \<Longrightarrow> good (\<lambda>_. 0) k"
  by (erule good_mono; simp add: E1_def E2_def)+

lemma close_both_good: "G (E2 r w) s \<Longrightarrow> kinv ok m \<Longrightarrow> ksat (kseq (on_files (fileclose r)) (kseq (on_files (fileclose w)) m) s) (\<lambda>_. ok) ok"
proof (rule ksat_seq, rule ksat_mono)
  assume s: "G (E2 r w) s" and m: "kinv ok m"
  show "ksat (on_files (fileclose r) s) (\<lambda>_. G (E1 w)) (G (E1 w))" by (rule fileclose_good) (use s in \<open>simp add: E2_def\<close>)
  fix x t assume "G (E1 w) t"
  then show "ksat (kseq (on_files (fileclose w)) m t) (\<lambda>_. ok) ok"
    using kinvD [OF m] by (intro ksat_seq [OF fileclose_good]) (simp_all add: E1_plus(1))
qed (auto dest: good_ok)

lemma filealloc_good: "G e s \<Longrightarrow> ksat (on_files filealloc s) (\<lambda>r t. case r of None \<Rightarrow> G e t | Some f \<Rightarrow> G (e(f := e f + 1)) t) B"
  by (rule ksat_mono [OF filealloc_core]) (auto split: option.splits dest: good_add)

text \<open>The part of \<^verbatim>\<open>pipealloc\<close> after both files are there.\<close>

definition pipe_tail :: "nat \<Rightarrow> nat \<Rightarrow> (filest, (nat \<times> nat) option) kmonad" where
  "pipe_tail r w = kbind (on_fkm kalloc) (\<lambda>pi.
     if pi = 0 then pipealloc_bad (Some r) (Some w)
     else kseq (kseq (kmodify (\<lambda>s. s\<lparr>fl_pipes := (fl_pipes s)(pi \<mapsto> new_pipe)\<rparr>))
         (kseq (kmodify (upd_file r (pipe_end pi False))) (kmodify (upd_file w (pipe_end pi True)))))
       (kreturn (Some (r, w))))"

lemma pipealloc_split: "pipealloc = kbind filealloc (\<lambda>ro. case ro of None \<Rightarrow> pipealloc_bad None None
   | Some r \<Rightarrow> kbind filealloc (\<lambda>wo. case wo of None \<Rightarrow> pipealloc_bad (Some r) None | Some w \<Rightarrow> pipe_tail r w))"
proof -
  have c: "(\<And>r. f r = g r) \<Longrightarrow> kbind filealloc f = kbind filealloc g" for f g :: "nat option \<Rightarrow> (filest, (nat \<times> nat) option) kmonad"
    by (metis ext)
  show ?thesis unfolding pipealloc_def pipe_tail_def kseq_assoc by (intro c) (auto split: option.split intro!: c)
qed

abbreviation pipe_Q :: "(nat \<times> nat) option \<Rightarrow> kernel \<Rightarrow> bool" where
  "pipe_Q r t \<equiv> (case r of None \<Rightarrow> ok t | Some p \<Rightarrow> G (E2 (fst p) (snd p)) t)"

lemma pipealloc_bad_good: "G (E1 r) s \<Longrightarrow> ksat (on_files (pipealloc_bad (Some r) None) s) pipe_Q ok"
  "G (E2 r w) s \<Longrightarrow> ksat (on_files (pipealloc_bad (Some r) (Some w)) s) pipe_Q ok"
proof -
  have ret: "on_files (kreturn x) = kreturn x" for x by (rule ext) (simp add: on_files_def)
  show "G (E1 r) s \<Longrightarrow> ksat (on_files (pipealloc_bad (Some r) None) s) pipe_Q ok"
    unfolding pipealloc_bad_def close_opt_def on_files_seq option.case
    by (rule ksat_seq [where R = "\<lambda>_. ok"], rule fileclose_good) (simp_all add: E1_plus(1) ret)
  assume "G (E2 r w) s"
  then have "ksat (on_files (fileclose r) s) (\<lambda>_. G (E1 w)) (G (E1 w))" by (intro fileclose_good) (simp add: E2_def)
  then have r: "ksat (on_files (fileclose r) s) (\<lambda>_. G (E1 w)) ok" by (rule ksat_mono) (auto dest: good_ok)
  have w: "ksat (on_files (fileclose w) t) (\<lambda>_. ok) ok" if "G (E1 w) t" for t using that by (intro fileclose_good) (simp add: E1_plus(1))
  show "ksat (on_files (pipealloc_bad (Some r) (Some w)) s) pipe_Q ok"
    unfolding pipealloc_bad_def close_opt_def on_files_seq option.case
    by (rule ksat_seq, rule r, rule ksat_seq, rule w) (simp_all add: ret)
qed

lemma pipe_tail_good: "G (E2 r w) s \<Longrightarrow> ksat (on_files (pipe_tail r w) s) pipe_Q ok"
proof -
  assume s: "G (E2 r w) s"
  have fin: "kinv (G (E2 r w)) (on_files (kseq (kmodify (\<lambda>s. s\<lparr>fl_pipes := (fl_pipes s)(pi \<mapsto> new_pipe)\<rparr>))
      (kseq (kmodify (upd_file r (pipe_end pi False))) (kmodify (upd_file w (pipe_end pi True))))))" for pi
    by (rule kinv_good) (intro kinv_intros kinv_modify; simp add: pipe_end_def file_core_def)
  have al: "kinv (G (E2 r w)) (on_files (on_fkm kalloc))" by (rule kinv_good) (intro kinv_intros)
  have a: "ksat (on_files (on_fkm kalloc) s) (\<lambda>_. G (E2 r w)) ok" by (rule ksat_mono [OF kinvD [OF al s]]) (auto dest: good_ok)
  show ?thesis unfolding pipe_tail_def on_files_bind
  proof (rule ksat_bind, rule a)
    fix pi t assume t: "G (E2 r w) t"
    show "ksat (on_files (if pi = 0 then pipealloc_bad (Some r) (Some w)
       else kseq (kseq (kmodify (\<lambda>s. s\<lparr>fl_pipes := (fl_pipes s)(pi \<mapsto> new_pipe)\<rparr>))
         (kseq (kmodify (upd_file r (pipe_end pi False))) (kmodify (upd_file w (pipe_end pi True))))) (kreturn (Some (r, w)))) t) pipe_Q ok"
      using pipealloc_bad_good(2) [OF t] kinvD [OF fin t, of pi] by (auto simp: on_files_def klift_def)
  qed
qed

lemma pipealloc_good: "ok s \<Longrightarrow> ksat (on_files pipealloc s) pipe_Q ok"
proof -
  assume s: "ok s"
  show ?thesis unfolding pipealloc_split on_files_bind
  proof (rule ksat_bind, rule filealloc_good [OF s])
    fix ro t assume t: "case ro of None \<Rightarrow> ok t | Some f \<Rightarrow> G ((\<lambda>_. 0)(f := 0 + 1)) t"
    have "ksat (on_files (kbind filealloc (\<lambda>wo. case wo of None \<Rightarrow> pipealloc_bad (Some r) None | Some w \<Rightarrow> pipe_tail r w)) t) pipe_Q ok"
      if "ro = Some r" for r
    proof (unfold on_files_bind, rule ksat_bind, rule filealloc_good [where e = "E1 r"])
      show "G (E1 r) t" using t that by (simp add: E1_def)
      fix wo u assume "case wo of None \<Rightarrow> G (E1 r) u | Some f \<Rightarrow> G ((E1 r)(f := E1 r f + 1)) u"
      then show "ksat (on_files (case wo of None \<Rightarrow> pipealloc_bad (Some r) None | Some w \<Rightarrow> pipe_tail r w) u) pipe_Q ok"
        using pipealloc_bad_good(1) pipe_tail_good by (cases wo) (auto simp: E1_plus(2))
    qed
    then show "ksat (on_files (case ro of None \<Rightarrow> pipealloc_bad None None
       | Some r \<Rightarrow> kbind filealloc (\<lambda>wo. case wo of None \<Rightarrow> pipealloc_bad (Some r) None | Some w \<Rightarrow> pipe_tail r w)) t) pipe_Q ok"
      using t by (cases ro) (auto simp: pipealloc_bad_def close_opt_def on_files_def)
  qed
qed

lemma clear_fd_good:
  assumes "G e s" "k_cur (kcore_of s) = Some j" "fd < NOFILE" "k_desc (kcore_of s) j fd = Some f"
  shows "ksat (clear_fd fd s) (\<lambda>_ t. G (e(f := e f + 1)) t \<and> kcore_of t = set_desc j fd None (kcore_of s)) B"
proof (rule ksat_mono [OF clear_fd_core])
  have "j < NPROC" using assms(1,2) by (simp add: good_def)
  then show "G (e(f := e f + 1)) t \<and> kcore_of t = set_desc j fd None (kcore_of s)"
    if "\<exists>i. k_cur (kcore_of s) = Some i \<and> kcore_of t = set_desc i fd None (kcore_of s)" for t
    using that assms good_clear [OF assms(1), of j fd f] by auto
qed

lemma close_both_ok: "G (E2 r w) s \<Longrightarrow> ksat (close_both r w s) (\<lambda>_. ok) ok"
  unfolding close_both_def by (rule close_both_good) (simp_all add: kinv_basic)

text \<open>Handing the two descriptors to the caller, or taking them back.\<close>

lemma pipe_copy_good:
  assumes s: "ok s" and k: "k_cur (kcore_of s) = Some j" "fd0 < NOFILE" "fd1 < NOFILE" "fd0 \<noteq> fd1"
    "k_desc (kcore_of s) j fd0 = Some r" "k_desc (kcore_of s) j fd1 = Some w"
  shows "ksat (kbind (kkm (copyout pg addr b0 4)) (\<lambda>c0. kbind (if c0 < 0 then kreturn c0 else kkm (copyout pg (addr + 4) b1 4)) (\<lambda>c1.
     if c0 < 0 \<or> c1 < 0 then kseq (clear_fd fd0) (kseq (clear_fd fd1) (close_both r w)) else kreturn 0)) s) (\<lambda>_. ok) ok"
proof -
  have undo: "ksat (kseq (clear_fd fd0) (kseq (clear_fd fd1) (close_both r w)) t) (\<lambda>_. ok) ok" if t: "kcore_of t = kcore_of s" for t
  proof -
    have "ksat (clear_fd fd0 t) (\<lambda>_ u. G ((\<lambda>_. 0)(r := 0 + 1)) u \<and> kcore_of u = set_desc j fd0 None (kcore_of t)) ok"
      by (rule clear_fd_good) (use t s k in simp_all)
    then show ?thesis
    proof (rule ksat_seq, elim conjE)
      fix u assume "G ((\<lambda>_. 0)(r := 0 + 1)) u" and c: "kcore_of u = set_desc j fd0 None (kcore_of t)"
      then have g: "G (E1 r) u" by (simp add: E1_def)
      have "ksat (clear_fd fd1 u) (\<lambda>_ v. G ((E1 r)(w := E1 r w + 1)) v \<and> kcore_of v = set_desc j fd1 None (kcore_of u)) ok"
        by (rule clear_fd_good [OF g]) (use c t k in simp_all)
      then show "ksat (kseq (clear_fd fd1) (close_both r w) u) (\<lambda>_. ok) ok"
        by (rule ksat_seq) (auto simp: E1_plus(2) intro: close_both_ok)
    qed
  qed
  have k0: "ksat (kkm (copyout pg addr b0 4) t) (\<lambda>_ t. kcore_of t = kcore_of s) ok" if "kcore_of t = kcore_of s" for pg addr b0 t
    by (rule ksat_mono, rule kept [OF _ that]) (intro kinv_intros, use s in simp_all)
  show ?thesis
  proof (rule ksat_bind, rule k0, rule refl)
    fix c0 :: int and t assume t: "kcore_of t = kcore_of s"
    have "ksat ((if c0 < 0 then kreturn c0 else kkm (copyout pg (addr + 4) b1 4)) t) (\<lambda>_ t. kcore_of t = kcore_of s) ok"
      using k0 [OF t] t by simp
    then show "ksat (kbind (if c0 < 0 then kreturn c0 else kkm (copyout pg (addr + 4) b1 4)) (\<lambda>c1.
        if c0 < 0 \<or> c1 < 0 then kseq (clear_fd fd0) (kseq (clear_fd fd1) (close_both r w)) else kreturn 0) t) (\<lambda>_. ok) ok"
      by (rule ksat_bind) (use undo s in auto)
  qed
qed

lemma pipe_fds_good:
  assumes t: "G (E2 r w) t"
  shows "ksat (kbind (fdalloc r) (\<lambda>a. case a of None \<Rightarrow> close_both r w
     | Some fd0 \<Rightarrow> kbind (fdalloc w) (\<lambda>b. case b of None \<Rightarrow> kseq (clear_fd fd0) (close_both r w)
       | Some fd1 \<Rightarrow> kbind (kget (\<lambda>s. p_pagetable (pr i s))) (\<lambda>pg.
           kbind (kkm (copyout pg addr (nat_bytes 4 fd0) 4)) (\<lambda>c0.
           kbind (if c0 < 0 then kreturn c0 else kkm (copyout pg (addr + 4) (nat_bytes 4 fd1) 4)) (\<lambda>c1.
             if c0 < 0 \<or> c1 < 0
             then kseq (clear_fd fd0) (kseq (clear_fd fd1) (close_both r w))
             else kreturn 0))))) t) (\<lambda>_. ok) ok" (is "ksat (kbind _ ?f t) _ _")
proof (rule ksat_bind, rule fdalloc_core)
  fix a u assume a: "case a of None \<Rightarrow> kcore_of u = kcore_of t | Some fd \<Rightarrow> fd < NOFILE \<and> (\<exists>i. k_cur (kcore_of t) = Some i \<and>
      k_desc (kcore_of t) i fd = None \<and> kcore_of u = set_desc i fd (Some r) (kcore_of t))"
  show "ksat (?f a u) (\<lambda>_. ok) ok"
  proof (cases a)
    case None
    then show ?thesis using a t close_both_ok by simp
  next
    case (Some fd0)
    then obtain j where j: "k_cur (kcore_of t) = Some j" "kcore_of u = set_desc j fd0 (Some r) (kcore_of t)" "fd0 < NOFILE" using a by auto
    have u: "G (E1 w) u" using good_use [of "E1 w" r "kcore_of t"] t j(2) by (simp add: E2_def)
    have "ksat (kbind (fdalloc w) (\<lambda>b. case b of None \<Rightarrow> kseq (clear_fd fd0) (close_both r w)
       | Some fd1 \<Rightarrow> kbind (kget (\<lambda>s. p_pagetable (pr i s))) (\<lambda>pg.
           kbind (kkm (copyout pg addr (nat_bytes 4 fd0) 4)) (\<lambda>c0.
           kbind (if c0 < 0 then kreturn c0 else kkm (copyout pg (addr + 4) (nat_bytes 4 fd1) 4)) (\<lambda>c1.
             if c0 < 0 \<or> c1 < 0
             then kseq (clear_fd fd0) (kseq (clear_fd fd1) (close_both r w))
             else kreturn 0)))) u) (\<lambda>_. ok) ok" (is "ksat (kbind _ ?g u) _ _")
    proof (rule ksat_bind, rule fdalloc_core)
      fix b v assume b: "case b of None \<Rightarrow> kcore_of v = kcore_of u | Some fd \<Rightarrow> fd < NOFILE \<and> (\<exists>i. k_cur (kcore_of u) = Some i \<and>
          k_desc (kcore_of u) i fd = None \<and> kcore_of v = set_desc i fd (Some w) (kcore_of u))"
      show "ksat (?g b v) (\<lambda>_. ok) ok"
      proof (cases b)
        case None
        have "ksat (clear_fd fd0 v) (\<lambda>_ x. G ((E1 w)(r := E1 w r + 1)) x \<and> kcore_of x = set_desc j fd0 None (kcore_of v)) ok"
          by (rule clear_fd_good) (use b None j u in simp_all)
        then show ?thesis using None close_both_ok by (auto simp: E2_def intro!: ksat_seq)
      next
        case (Some fd1)
        then have v: "kcore_of v = set_desc j fd1 (Some w) (kcore_of u)" "fd1 < NOFILE" "fd0 \<noteq> fd1" using b j by auto
        have "ok v" using good_use [of "\<lambda>_. 0" w "kcore_of u"] u v(1) by (simp add: E1_plus(1))
        then show ?thesis unfolding Some option.case kbind_Done [OF kget_run]
          by (rule pipe_copy_good [where j = j]) (use v j in simp_all)
      qed
    qed
    then show ?thesis using Some by simp
  qed
qed

lemma kinv_sys_pipe: "kinv ok sys_pipe"
proof -
  have P: "kinv ok (need (on_files pipealloc) (\<lambda>(r, w). kbind (fdalloc r) (\<lambda>a. case a of None \<Rightarrow> close_both r w
     | Some fd0 \<Rightarrow> kbind (fdalloc w) (\<lambda>b. case b of None \<Rightarrow> kseq (clear_fd fd0) (close_both r w)
       | Some fd1 \<Rightarrow> kbind (kget (\<lambda>s. p_pagetable (pr i s))) (\<lambda>pg.
           kbind (kkm (copyout pg addr (nat_bytes 4 fd0) 4)) (\<lambda>c0.
           kbind (if c0 < 0 then kreturn c0 else kkm (copyout pg (addr + 4) (nat_bytes 4 fd1) 4)) (\<lambda>c1.
             if c0 < 0 \<or> c1 < 0
             then kseq (clear_fd fd0) (kseq (clear_fd fd1) (close_both r w))
             else kreturn 0)))))))" for i addr
    by (rule kinvI, rule ksat_need, erule pipealloc_good) (auto intro: pipe_fds_good)
  show ?thesis unfolding sys_pipe_def
    by (rule kinv_bind, rule kinv_good, intro kinv_intros, rule kinv_need, rule kinv_good, intro kinv_intros, rule P)
qed

section \<open>Processes\<close>

lemma good_sub:
  assumes "good e k" "snd k' = snd k" "\<And>i fd f. fd < NOFILE \<Longrightarrow> k_desc k' i fd = Some f \<Longrightarrow> k_desc k i fd = Some f" "pids_ok k'" "k_cur k' = k_cur k"
  shows "good e k'"
proof -
  have "card (descs k' f) \<le> card (descs k f)" for f
    by (rule card_mono [OF finite_descs]) (use assms(3) in \<open>auto simp: descs_def\<close>)
  then have "acct e k'" using assms(1,2) unfolding good_def acct_def by (smt (verit) of_nat_mono)
  then show ?thesis using assms by (simp add: good_def)
qed

lemma core_upd_proc:
  "k_desc (ptcore (upd_proc i f t), g) j fd = (if j = i then p_ofile (f (procs t i)) fd else k_desc (ptcore t, g) j fd)"
  "k_pid (ptcore (upd_proc i f t), g) j = (if j = i then p_pid (f (procs t i)) else k_pid (ptcore t, g) j)"
  "k_cur (ptcore (upd_proc i f t), g) = k_cur (ptcore t, g)" "k_next (ptcore (upd_proc i f t), g) = k_next (ptcore t, g)"
  by (simp_all add: k_desc_def k_pid_def k_cur_def k_next_def ptcore_def upd_proc_def)

lemma kinv_set_proc_good: "(\<And>t g. good e (ptcore t, g) \<Longrightarrow> good e (ptcore (upd_proc i f t), g)) \<Longrightarrow> kinv (G e) (set_proc i f)"
proof (rule kinvI, rule ksat_mono, rule core_set_proc)
  fix s t assume f: "\<And>t g. good e (ptcore t, g) \<Longrightarrow> good e (ptcore (upd_proc i f t), g)" and s: "G e s"
    and t: "kcore_of t = (ptcore (upd_proc i f (pt s)), snd (kcore_of s))"
  have "kcore_of s = (ptcore (pt s), snd (kcore_of s))" using core_pt [of s] by (simp add: prod_eq_iff)
  then have "good e (ptcore (pt s), snd (kcore_of s))" using s by simp
  then show "G e t" using f t by simp
qed assumption

text \<open>A slot may lose its pid and any of its descriptors.\<close>

lemma good_retire:
  assumes "good e (ptcore t, g)" "p_pid (f (procs t i)) \<in> {0, p_pid (procs t i)}"
    "\<And>fd. fd < NOFILE \<Longrightarrow> p_ofile (f (procs t i)) fd \<in> {None, p_ofile (procs t i) fd}"
  shows "good e (ptcore (upd_proc i f t), g)"
proof (rule good_sub [OF assms(1)])
  show "k_desc (ptcore t, g) j fd = Some h" if "fd < NOFILE" "k_desc (ptcore (upd_proc i f t), g) j fd = Some h" for j fd h
    using that assms(3) [OF that(1)] by (auto simp: upd_proc_def k_desc_def ptcore_def split: if_splits)
  have old: "0 \<le> k_pid (ptcore t, g) a" "k_pid (ptcore t, g) a < k_next (ptcore t, g)"
    "k_pid (ptcore t, g) a = k_pid (ptcore t, g) b \<Longrightarrow> k_pid (ptcore t, g) a \<noteq> 0 \<Longrightarrow> a = b" for a b
    using assms(1) unfolding good_def pids_ok_def by blast+
  have new: "k_pid (ptcore (upd_proc i f t), g) a \<in> {0, k_pid (ptcore t, g) a}" for a
    using assms(2) by (auto simp: upd_proc_def k_pid_def ptcore_def)
  show "pids_ok (ptcore (upd_proc i f t), g)"
    unfolding pids_ok_def core_upd_proc(4) using old new by (smt (verit) insert_iff singletonD)
qed (simp_all add: core_upd_proc)

lemma kinv_freeproc: "kinv (G e) (freeproc i)"
proof -
  have clear: "kinv (G e) (set_proc i (\<lambda>p. p\<lparr>p_sz := 0, p_pid := 0, p_chan := NoChan, p_killed := 0, p_xstate := 0, p_parent := None,
        p_context := zero_context, p_state := UNUSED\<rparr>))"
    by (rule kinv_set_proc_good, rule good_retire) simp_all
  have keep: "kinv (G e) (kkm m)" "kinv (G e) (set_proc i (\<lambda>p. p\<lparr>p_trapframe := a\<rparr>))" "kinv (G e) (set_proc i (\<lambda>p. p\<lparr>p_pagetable := a\<rparr>))"
    for m :: "(kmem, unit) kmonad" and a by (rule kinv_good, (intro kinv_intros; simp)?)+
  show ?thesis unfolding freeproc_def by (intro kinv_ctrl clear keep)
qed

lemma kinv_allocpid: "kinv (\<lambda>t. good e (ptcore t, g)) (allocpid i)"
proof (rule kinvI)
  fix t assume t: "good e (ptcore t, g)"
  let ?t = "(upd_proc i (\<lambda>p. p\<lparr>p_pid := nextpid t\<rparr>) t)\<lparr>nextpid := nextpid t + 1\<rparr>"
  have core: "k_desc (ptcore ?t, g) = k_desc (ptcore t, g)" "k_cur (ptcore ?t, g) = k_cur (ptcore t, g)" "k_next (ptcore ?t, g) = k_next (ptcore t, g) + 1"
    "k_pid (ptcore ?t, g) = (k_pid (ptcore t, g))(i := k_next (ptcore t, g))"
    by (auto simp: k_desc_def k_cur_def k_next_def k_pid_def ptcore_def upd_proc_def fun_eq_iff)
  have old: "0 \<le> k_pid (ptcore t, g) a" "k_pid (ptcore t, g) a < k_next (ptcore t, g)"
    "k_pid (ptcore t, g) a = k_pid (ptcore t, g) b \<Longrightarrow> k_pid (ptcore t, g) a \<noteq> 0 \<Longrightarrow> a = b" for a b
    using t unfolding good_def pids_ok_def by blast+
  have "0 \<le> ((k_pid (ptcore t, g))(i := k_next (ptcore t, g))) a \<and> ((k_pid (ptcore t, g))(i := k_next (ptcore t, g))) a < k_next (ptcore t, g) + 1" for a
    using old(1,2) [of a] old(1,2) [of i] by auto
  moreover have "a = b" if "((k_pid (ptcore t, g))(i := k_next (ptcore t, g))) a = ((k_pid (ptcore t, g))(i := k_next (ptcore t, g))) b"
    "((k_pid (ptcore t, g))(i := k_next (ptcore t, g))) a \<noteq> 0" for a b
    using that old(2) [of a] old(2) [of b] old(3) [of a b] by (auto split: if_splits)
  ultimately have "pids_ok (ptcore ?t, g)" unfolding pids_ok_def core by blast
  then have "good e (ptcore ?t, g)" by (intro good_sub [OF t]) (simp_all add: core)
  then show "ksat (allocpid i t) (\<lambda>_ t. good e (ptcore t, g)) (\<lambda>t. good e (ptcore t, g))" by (simp add: allocpid_def)
qed

lemma kinv_kpt_good: "(\<And>g. kinv (\<lambda>t. good e (ptcore t, g)) m) \<Longrightarrow> kinv (G e) (kpt m)"
proof (rule kinvI)
  fix s assume m: "\<And>g. kinv (\<lambda>t. good e (ptcore t, g)) m" and s: "G e s"
  have "kcore_of s = (ptcore (pt s), snd (kcore_of s))" using core_pt [of s] by (simp add: prod_eq_iff)
  then have "good e (ptcore (pt s), snd (kcore_of s))" using s by simp
  from kinvD [OF m this] show "ksat (kpt m s) (\<lambda>_. G e) (G e)"
    by (cases "m (pt s)") (auto simp: on_files_def on_fpt_def on_fs_def klift_def kcore_of_def file_core_def pt_def fs_I_simps)
qed

lemma kinv_allocproc: "kinv (G e) allocproc"
proof -
  have pid: "kinv (G e) (kpt (allocpid i))" for i by (rule kinv_kpt_good) (rule kinv_allocpid)
  have fresh: "kinv (G e) (set_proc i fresh_proc)" for i
    by (rule kinv_set_proc_good, rule good_retire) (simp_all add: fresh_proc_def set_name_def)
  have keep: "kinv (G e) (kkm m)" "kinv (G e) (set_proc i (\<lambda>p. p\<lparr>p_trapframe := a\<rparr>))" "kinv (G e) (set_proc i (\<lambda>p. p\<lparr>p_pagetable := a\<rparr>))"
    "kinv (G e) (set_proc i (\<lambda>p. p\<lparr>p_context := c p\<rparr>))"
    for m :: "(kmem, u64) kmonad" and i a c by (rule kinv_good, (intro kinv_intros; simp)?)+
  show ?thesis unfolding allocproc_def by (intro kinv_ctrl pid fresh keep kinv_freeproc)
qed

lemma kinv_dup_file: "kinv ok (dup_file i np fd)"
proof -
  have D: "kinv ok (kbind (on_files (filedup f)) (\<lambda>f'. set_proc np (\<lambda>p. p\<lparr>p_ofile := (p_ofile p)(fd := Some f')\<rparr>)))" for f
  proof (rule kinvI, rule ksat_bind, rule filedup_core, elim conjE)
    fix s f' t assume "ok s" "f' = f" "kcore_of t = add_ref f 1 (kcore_of s)"
    then have "G ((\<lambda>_. 0)(f' := 0 + 1)) t" using good_add [of "\<lambda>_. 0" "kcore_of s" f 1] by simp
    from good_use [OF this] show "ksat (set_proc np (\<lambda>p. p\<lparr>p_ofile := (p_ofile p)(fd := Some f')\<rparr>) t) (\<lambda>_. ok) ok"
      by (intro ksat_mono [OF set_ofile_core]) auto
  qed
  show ?thesis unfolding dup_file_def by (rule kinv_bind, rule kinv_basic, rule kinv_option, rule kinv_basic, rule D)
qed

lemma kinv_kkm: "kinv (G e) (kkm m)"
  by (rule kinv_good) (intro kinv_intros)

lemma kinv_fork: "kinv ok fork"
proof -
  have keep: "kinv ok (kpt myproc)" "kinv ok (store_bytes a bs)" "kinv ok (store64 a v)" "kinv ok (kfs (idup j))"
    "kinv ok (set_proc i (\<lambda>q. q\<lparr>p_sz := n\<rparr>))" "kinv ok (set_proc i (\<lambda>q. q\<lparr>p_cwd := w\<rparr>))" "kinv ok (set_proc i (\<lambda>q. set_name nm q))"
    "kinv ok (set_proc i (\<lambda>q. q\<lparr>p_parent := r\<rparr>))" "kinv ok (set_proc i (\<lambda>q. q\<lparr>p_state := st\<rparr>))"
    for a bs v j i n w nm r st by (rule kinv_good, (intro kinv_intros; simp add: set_name_def)?)+
  show ?thesis unfolding fork_def by (intro kinv_ctrl keep kinv_kkm kinv_allocproc kinv_freeproc kinv_dup_file)
qed

lemma kinv_close_fd: "i < NPROC \<Longrightarrow> fd < NOFILE \<Longrightarrow> kinv ok (close_fd i fd)"
proof (rule kinvI)
  fix s assume b: "i < NPROC" "fd < NOFILE" and s: "ok s"
  show "ksat (close_fd i fd s) (\<lambda>_. ok) ok"
  proof (cases "p_ofile (pr i s) fd")
    case None
    then show ?thesis using s by (simp add: close_fd_def)
  next
    case (Some f)
    have "ksat (kseq (set_proc i (\<lambda>p. p\<lparr>p_ofile := (p_ofile p)(fd := None)\<rparr>)) (on_files (fileclose f)) s) (\<lambda>_. ok) ok"
    proof (rule ksat_seq, rule set_ofile_core)
      fix t assume "kcore_of t = set_desc i fd None (kcore_of s)"
      then have "G ((\<lambda>_. 0)(f := 0 + 1)) t" using good_clear [OF s b] Some by (simp add: core_desc)
      then show "ksat (on_files (fileclose f) t) (\<lambda>_. ok) ok" by (rule fileclose_good)
    qed
    then show ?thesis using Some by (simp add: close_fd_def)
  qed
qed

lemma kinv_for_in: "(\<And>i. i \<in> set ixs \<Longrightarrow> kinv I (b i)) \<Longrightarrow> kinv I (kfor ixs b)"
  by (induction ixs) (auto intro: kinv_intros)

lemma kinv_exit: "kinv ok (exit st)"
proof (rule kinvI)
  fix s assume s: "ok s"
  have sched: "kinv (pt_I c) (sched a b)" for a b c by (auto simp: kinv_def sched_def kbind_def myproc_def split: option.split)
  have rep: "kinv (pt_I c) (reparent i)" for c i unfolding reparent_def reparent_one_def by (intro kinv_intros; simp)
  have body: "kinv ok (kseq (kfor [0..<NOFILE] (close_fd i))
      (kseq (klog begin_op)
      (kseq (kbind (kget (\<lambda>s. p_cwd (pr i s))) (\<lambda>c. case c of None \<Rightarrow> kreturn ()
             | Some c \<Rightarrow> kseq (kfs (iput c)) (set_proc i (\<lambda>p. p\<lparr>p_cwd := None\<rparr>))))
      (kseq (klog end_op)
      (kseq (kpt (reparent i))
      (kseq (kbind (kget (\<lambda>s. parent_chan (pr i s))) kwake)
      (kseq (set_proc i (\<lambda>p. p\<lparr>p_xstate := st, p_state := ZOMBIE\<rparr>))
      (kseq (kpt (sched True False) :: (kernel, unit) kmonad)
            (kpanic ''zombie exit'')))))))))" if "i < NPROC" for i
    by (rule kinv_seq, rule kinv_for_in, rule kinv_close_fd [OF that], simp, rule kinv_good) (intro kinv_intros sched rep; simp)
  have m: "ksat (kpt myproc s) (\<lambda>i t. t = s \<and> k_cur (kcore_of s) = Some i) ok" using me_core by (simp add: me_def)
  show "ksat (exit st s) (\<lambda>_. ok) ok"
    unfolding exit_def
    by (rule ksat_bind, rule m, elim conjE, hypsubst, rule kinvD [OF kinv_if(1) [OF kinv_basic(4) body]]) (use s in \<open>auto simp: good_def\<close>)
qed

lemma kinv_wait: "kinv ok (wait addr)"
proof -
  have reap: "kinv ok (reap i a j)" for i a j unfolding reap_def by (intro kinv_ctrl kinv_kkm kinv_freeproc)
  have scan: "kinv ok (wait_scan i a h js)" for i a h js
    by (induction js arbitrary: h) (simp_all only: wait_scan.simps, (intro kinv_ctrl reap; assumption?)+)
  have sl: "kinv ok (kpt (sleep ch) :: (kernel, int) kmonad)" "kinv ok (kpt myproc)" for ch by (rule kinv_good, intro kinv_intros)+
  show ?thesis unfolding wait_def by (intro kinv_ctrl scan sl)
qed

lemma kinv_userinit: "kinv ok userinit"
proof -
  have keep: "kinv ok (store_bytes a bs)" "kinv ok (store64 a v)" "kinv ok (set_proc i (\<lambda>p. set_name nm (p\<lparr>p_sz := n\<rparr>)))"
    "kinv ok (set_proc i (\<lambda>p. p\<lparr>p_state := st\<rparr>))" for a bs v i nm n st by (rule kinv_good, (intro kinv_intros; simp add: set_name_def)?)+
  show ?thesis unfolding userinit_def by (intro kinv_ctrl keep kinv_kkm kinv_allocproc)
qed

lemma kinv_syscall: "kinv ok syscall"
proof -
  have h: "kinv ok h" if "syscalls n = Some h" for n h
  proof -
    have k: "kinv ok m" if "\<And>k. kinv (kern_I k) m" for m :: "(kernel, u64) kmonad" using that by (rule kinv_good)
    have calls: "kinv ok sys_fork" "kinv ok sys_exit" "kinv ok sys_wait"
      unfolding sys_fork_def sys_exit_def sys_wait_def
      by (intro kinv_ctrl kinv_fork kinv_exit kinv_wait; rule kinv_good; intro kinv_intros)+
    show ?thesis using that calls kinv_sys_pipe kinv_sys_close kinv_sys_dup kinv_sys_open kinv_name_calls [THEN k] kinv_io_calls [THEN k]
        kinv_proc_calls [THEN k] by (auto simp: syscalls_def split: if_splits)
  qed
  have a0: "kinv (kern_I k) (set_a0 i v)" for k i v unfolding set_a0_def by (intro kinv_intros)
  have keep: "kinv ok me" "kinv ok (set_a0 i v)" "kinv ok (on_uart m)" for i v and m :: "(uart, unit) kmonad"
    by (rule kinv_good, intro kinv_intros a0)+
  show ?thesis unfolding syscall_def by (intro kinv_ctrl keep) (auto split: if_splits intro: h)
qed

lemma kinv_usertrap: "kinv ok usertrap"
proof -
  have keep: "kinv ok me" "kinv ok (csr f)" "kinv ok (store64 a v)" "kinv ok usertrapret" "kinv ok (on_uart m)"
    for f a v and m :: "(uart, unit) kmonad" by (rule kinv_good, intro kinv_intros)+
  show ?thesis unfolding usertrap_def by (intro kinv_ctrl keep kinv_syscall)
qed

section \<open>Reachable kernels\<close>

definition dispatch :: "nat \<Rightarrow> (ptable, unit) kmonad" where
  "dispatch i = kmodify (\<lambda>t. (upd_proc i (\<lambda>p. p\<lparr>p_state := RUNNING\<rparr>) t)\<lparr>cur := Some i\<rparr>)"

text \<open>
  One step of the machine: a trap from user mode with the system call it makes, a trap from kernel
  mode, the first return of a new process, the creation of the first process, the scheduler
  switching to a runnable process or back, and everything that changes neither the process table's
  identities and descriptors nor the file references: user code, devices and the clock.
\<close>

inductive kernel_step :: "kernel \<Rightarrow> kernel \<Rightarrow> bool" where
  trap: "ends usertrap s s' \<Longrightarrow> kernel_step s s'"
| ktrap: "ends (kerneltrap hart) s s' \<Longrightarrow> kernel_step s s'"
| first: "ends forkret s s' \<Longrightarrow> kernel_step s s'"
| init: "ends userinit s s' \<Longrightarrow> kernel_step s s'"
| switch: "i < NPROC \<Longrightarrow> p_state (pr i s) = RUNNABLE \<Longrightarrow> ends (kpt (dispatch i)) s s' \<Longrightarrow> kernel_step s s'"
| leave: "ends (kpt (kmodify (\<lambda>t. t\<lparr>cur := None\<rparr>))) s s' \<Longrightarrow> kernel_step s s'"
| other: "kcore_of s' = kcore_of s \<Longrightarrow> kernel_step s s'"

inductive kernel_reach :: "kernel \<Rightarrow> bool" where
  boot: "pt s = ptable_bss \<Longrightarrow> ftable (ke_files s) = (\<lambda>_. file_bss) \<Longrightarrow> kernel_reach s"
| step: "kernel_reach s \<Longrightarrow> kernel_step s s' \<Longrightarrow> kernel_reach s'"

lemma good_cur: "good e (ptcore t, g) \<Longrightarrow> (\<And>i. c = Some i \<Longrightarrow> i < NPROC) \<Longrightarrow> good e (ptcore (t\<lparr>cur := c\<rparr>), g)"
  by (auto simp: good_def acct_def pids_ok_def descs_def k_desc_def k_pid_def k_next_def k_cur_def ptcore_def)

lemma ok_ends: "kinv ok m \<Longrightarrow> ends m s s' \<Longrightarrow> ok s \<Longrightarrow> ok s'"
  by (auto simp: ends_def intro: kinv_Done kinv_Block)

lemma kernel_step_ok: "kernel_step s s' \<Longrightarrow> ok s \<Longrightarrow> ok s'"
proof (induction rule: kernel_step.induct)
  case (trap s s')
  then show ?case using ok_ends [OF kinv_usertrap] by simp
next
  case (ktrap hart s s')
  have k: "kinv ok (kerneltrap hart)" by (rule kinv_good) (intro kinv_intros)
  show ?case using ktrap ok_ends [OF k] by simp
next
  case (first s s')
  have k: "kinv ok forkret" by (rule kinv_good) (intro kinv_intros)
  show ?case using first ok_ends [OF k] by simp
next
  case (init s s')
  then show ?case using ok_ends [OF kinv_userinit] by simp
next
  case (switch i s s')
  have "kinv (\<lambda>t. good (\<lambda>_. 0) (ptcore t, g)) (dispatch i)" for g
    unfolding dispatch_def by (rule kinv_modify) (use switch(1) in \<open>auto intro!: good_cur good_retire\<close>)
  then have k: "kinv ok (kpt (dispatch i))" by (rule kinv_kpt_good)
  show ?case using switch ok_ends [OF k] by simp
next
  case (leave s s')
  have k: "kinv ok (kpt (kmodify (\<lambda>t. t\<lparr>cur := None\<rparr>)))" by (intro kinv_kpt_good kinv_modify good_cur) auto
  show ?case using leave ok_ends [OF k] by simp
next
  case (other s' s)
  then show ?case by simp
qed

lemma kernel_reach_ok: "kernel_reach s \<Longrightarrow> ok s"
proof (induction rule: kernel_reach.induct)
  case (boot s)
  then have "kcore_of s = (ptcore ptable_bss, \<lambda>_. 0)" by (simp add: kcore_of_def file_core_def pt_def file_bss_def)
  then show ?case
    by (simp add: good_def acct_def pids_ok_def descs_def k_desc_def k_pid_def k_next_def k_cur_def ptcore_def ptable_bss_def proc_bss_def)
next
  case (step s s')
  then show ?case using kernel_step_ok by blast
qed

text \<open>A concrete kernel with the given process table and memory, and the run that dispatches slot 3.\<close>

definition demo_kernel :: "ptable \<Rightarrow> memory \<Rightarrow> kernel" where
  "demo_kernel t m = \<lparr>ke_files = \<lparr>fl_fs = \<lparr>f_log = log_bss (bio_boot t (\<lambda>_. replicate BSIZE 0)), f_sb = decode_sb (replicate BSIZE 0),
       icache = (\<lambda>_. inode_bss), f_km = \<lparr>k_mem = m, k_end = 0x80020000, freelist = 0\<rparr>\<rparr>,
       ftable = (\<lambda>_. file_bss), fl_pipes = (\<lambda>_. None), fl_pad = [0, 0, 0, 0]\<rparr>,
     ke_uart = demo_uart, ke_disk = demo_vdisk, ke_plic = \<lparr>plic_pending = [], plic_enable = 0, plic_stores = []\<rparr>,
     ke_pagetable = 0x87fff000, ke_satp = 0x8000000000087fff,
     ke_sym = \<lparr>trampoline = 0x80007000, uservec = 0x80007000, userret = 0x8000709c, usertrap_fn = 0x80002000, forkret_fn = 0x80001800, kernelvec = 0x80005000\<rparr>,
     ke_csr = \<lparr>sstatus = 0, scause = 0, sepc = 0, stval = 0, stvec = 0, sscratch = 0, tp_reg = 0\<rparr>, ke_mtime = 0\<rparr>"

lemma demo_kernel_sel [simp]: "pt (demo_kernel t m) = t" "mem (demo_kernel t m) = m" "ftable (ke_files (demo_kernel t m)) = (\<lambda>_. file_bss)"
  by (simp_all add: demo_kernel_def pt_def mem_def f_pt_def log_bss_def bio_boot_def)

lemma demo_kernel_reach: "\<exists>s. kernel_reach s \<and> cur (pt s) = Some 3"
proof -
  let ?a = "demo_kernel ptable_bss (\<lambda>_. 0)" and ?b = "demo_kernel (upd_proc 3 (\<lambda>p. p\<lparr>p_state := RUNNABLE\<rparr>) ptable_bss) (\<lambda>_. 0)"
  have "kernel_reach ?a" by (rule kernel_reach.boot) simp_all
  moreover have "kernel_step ?a ?b"
    by (rule kernel_step.other) (simp add: kcore_of_def file_core_def pt_def [symmetric] ptcore_upd)
  ultimately have b: "kernel_reach ?b" by (rule kernel_reach.step)
  obtain c where c: "kpt (dispatch 3) ?b = Done () c" "cur (pt c) = Some 3"
    by (simp add: dispatch_def on_files_def on_fpt_def on_fs_def pt_def fs_I_simps)
  have "kernel_step ?b c" by (rule kernel_step.switch [of 3]) (use c in \<open>simp_all add: pr_def upd_proc_def ends_def\<close>)
  then show ?thesis using kernel_reach.step [OF b] c(2) by blast
qed

section \<open>Properties\<close>



text \<open>
  C10. Process ids are unique. In every reachable state no two slots of the process table carry the
  same non-zero pid, every pid is below the next one to be handed out, and the running process is a
  slot of the table.
\<close>

theorem pids_unique:
  assumes "kernel_reach s"
  shows "inj_on (\<lambda>i. p_pid (pr i s)) {i. p_pid (pr i s) \<noteq> 0} \<and> (\<forall>i. 0 \<le> p_pid (pr i s) \<and> p_pid (pr i s) < nextpid (pt s)) \<and>
    (\<forall>i. cur (pt s) = Some i \<longrightarrow> i < NPROC)"
proof -
  have n: "k_next (kcore_of s) = nextpid (pt s)" by (simp add: k_next_def core_pt ptcore_def)
  show ?thesis using kernel_reach_ok [OF assms] by (auto simp: good_def pids_ok_def core_desc n inj_on_def)
qed

theorem pids_unique_witness:
  "\<exists>s. kernel_reach s \<and> cur (pt s) = Some 3 \<and> inj_on (\<lambda>i. p_pid (pr i s)) {i. p_pid (pr i s) \<noteq> 0} \<and> p_pid (pr 3 s) < nextpid (pt s)"
  using pids_unique demo_kernel_reach by blast

end
