(* ===== verification/Asm.thy ===== *)
theory Asm
  imports Prelude
begin

text \<open>
  The assembly of the kernel: the user trap vectors of \<^verbatim>\<open>kernel/trampoline.S\<close>, the supervisor trap vector of
  \<^verbatim>\<open>kernel/kernelvec.S\<close>, the context switch of \<^verbatim>\<open>kernel/swtch.S\<close>, and the machine-mode entry of \<^verbatim>\<open>kernel/start.c\<close>. A
  routine is the list of its instructions, run on the registers of the hart. The memory is the
  address space the routine runs in: the trap frame is accessed under the user page table on both
  sides, so one map serves for it.
\<close>

section \<open>Registers and instructions\<close>

datatype reg = Ra | Sp | Gp | Tp | T0 | T1 | T2 | S0 | S1 | A0 | A1 | A2 | A3 | A4 | A5 | A6 | A7
  | S2 | S3 | S4 | S5 | S6 | S7 | S8 | S9 | S10 | S11 | T3 | T4 | T5 | T6

record hart =
  hx :: "reg \<Rightarrow> u64"
  h_mem :: memory
  h_sscratch :: u64
  h_satp :: u64
  h_sepc :: u64
  h_pc :: u64

text \<open>\<open>Swap_sscratch r\<close> is \<^verbatim>\<open>csrrw r, sscratch, r\<close>; \<open>Sfence\<close> orders page-table accesses and has no effect here.\<close>

datatype instr =
    Sd reg nat reg | Ld reg nat reg | Addi reg reg int | Mv reg reg
  | Swap_sscratch reg | Read_sscratch reg | Write_sscratch reg | Write_satp reg | Sfence
  | Jr reg | Ret | Sret

primrec exec_instr :: "instr \<Rightarrow> hart \<Rightarrow> hart" where
  "exec_instr (Sd r off b) h = h\<lparr>h_mem := st64 (h_mem h) (hx h b + of_nat off) (hx h r)\<rparr>"
| "exec_instr (Ld r off b) h = h\<lparr>hx := (hx h)(r := ld64 (h_mem h) (hx h b + of_nat off))\<rparr>"
| "exec_instr (Addi d r n) h = h\<lparr>hx := (hx h)(d := hx h r + word_of_int n)\<rparr>"
| "exec_instr (Mv d r) h = h\<lparr>hx := (hx h)(d := hx h r)\<rparr>"
| "exec_instr (Swap_sscratch r) h = h\<lparr>hx := (hx h)(r := h_sscratch h), h_sscratch := hx h r\<rparr>"
| "exec_instr (Read_sscratch r) h = h\<lparr>hx := (hx h)(r := h_sscratch h)\<rparr>"
| "exec_instr (Write_sscratch r) h = h\<lparr>h_sscratch := hx h r\<rparr>"
| "exec_instr (Write_satp r) h = h\<lparr>h_satp := hx h r\<rparr>"
| "exec_instr Sfence h = h"
| "exec_instr (Jr r) h = h\<lparr>h_pc := hx h r\<rparr>"
| "exec_instr Ret h = h\<lparr>h_pc := hx h Ra\<rparr>"
| "exec_instr Sret h = h\<lparr>h_pc := h_sepc h\<rparr>"

primrec run :: "instr list \<Rightarrow> hart \<Rightarrow> hart" where
  "run [] h = h"
| "run (i # is) h = run is (exec_instr i h)"

section \<open>The routines\<close>

definition uservec_code :: "instr list" where
  "uservec_code = [Swap_sscratch A0,
     Sd Ra 40 A0, Sd Sp 48 A0, Sd Gp 56 A0, Sd Tp 64 A0, Sd T0 72 A0, Sd T1 80 A0, Sd T2 88 A0, Sd S0 96 A0, Sd S1 104 A0, Sd A1 120 A0, Sd A2 128 A0,
     Sd A3 136 A0, Sd A4 144 A0, Sd A5 152 A0, Sd A6 160 A0, Sd A7 168 A0, Sd S2 176 A0, Sd S3 184 A0, Sd S4 192 A0, Sd S5 200 A0, Sd S6 208 A0,
     Sd S7 216 A0, Sd S8 224 A0, Sd S9 232 A0, Sd S10 240 A0, Sd S11 248 A0, Sd T3 256 A0, Sd T4 264 A0, Sd T5 272 A0, Sd T6 280 A0,
     Read_sscratch T0, Sd T0 112 A0,
     Ld T0 8 A0, Ld T1 0 A0, Ld T2 16 A0, Write_satp T1, Sfence, Mv Sp T0, Jr T2]"

definition userret_code :: "instr list" where
  "userret_code = [Write_satp A1, Sfence, Write_sscratch A0, Ld T0 112 A0,
     Ld Ra 40 A0, Ld Sp 48 A0, Ld Gp 56 A0, Ld Tp 64 A0, Ld T1 80 A0, Ld T2 88 A0, Ld S0 96 A0, Ld S1 104 A0, Ld A1 120 A0, Ld A2 128 A0, Ld A3 136 A0,
     Ld A4 144 A0, Ld A5 152 A0, Ld A6 160 A0, Ld A7 168 A0, Ld S2 176 A0, Ld S3 184 A0, Ld S4 192 A0, Ld S5 200 A0, Ld S6 208 A0, Ld S7 216 A0,
     Ld S8 224 A0, Ld S9 232 A0, Ld S10 240 A0, Ld S11 248 A0, Ld T3 256 A0, Ld T4 264 A0, Ld T5 272 A0, Ld T6 280 A0,
     Mv A0 T0, Sret]"

text \<open>\<^verbatim>\<open>kernelvec\<close> up to the call of \<^verbatim>\<open>kerneltrap\<close>, and from its return on.\<close>

definition kernelvec_save :: "instr list" where
  "kernelvec_save = [Addi Sp Sp (-256),
     Sd Ra 0 Sp, Sd Sp 8 Sp, Sd Gp 16 Sp, Sd Tp 24 Sp, Sd T0 32 Sp, Sd T1 40 Sp, Sd T2 48 Sp, Sd S0 56 Sp, Sd S1 64 Sp, Sd A0 72 Sp, Sd A1 80 Sp,
     Sd A2 88 Sp, Sd A3 96 Sp, Sd A4 104 Sp, Sd A5 112 Sp, Sd A6 120 Sp, Sd A7 128 Sp, Sd S2 136 Sp, Sd S3 144 Sp, Sd S4 152 Sp, Sd S5 160 Sp,
     Sd S6 168 Sp, Sd S7 176 Sp, Sd S8 184 Sp, Sd S9 192 Sp, Sd S10 200 Sp, Sd S11 208 Sp, Sd T3 216 Sp, Sd T4 224 Sp, Sd T5 232 Sp, Sd T6 240 Sp,
     Mv A0 Sp]"

definition kernelvec_restore :: "instr list" where
  "kernelvec_restore = [Ld Ra 0 Sp, Ld Sp 8 Sp, Ld Gp 16 Sp, Ld Tp 24 Sp, Ld T0 32 Sp, Ld T1 40 Sp, Ld T2 48 Sp, Ld S0 56 Sp, Ld S1 64 Sp, Ld A0 72 Sp, Ld A1 80 Sp,
     Ld A2 88 Sp, Ld A3 96 Sp, Ld A4 104 Sp, Ld A5 112 Sp, Ld A6 120 Sp, Ld A7 128 Sp, Ld S2 136 Sp, Ld S3 144 Sp, Ld S4 152 Sp, Ld S5 160 Sp,
     Ld S6 168 Sp, Ld S7 176 Sp, Ld S8 184 Sp, Ld S9 192 Sp, Ld S10 200 Sp, Ld S11 208 Sp, Ld T3 216 Sp, Ld T4 224 Sp, Ld T5 232 Sp, Ld T6 240 Sp,
     Addi Sp Sp 256, Sret]"

definition swtch_code :: "instr list" where
  "swtch_code = [Sd Ra 0 A0, Sd Sp 8 A0, Sd S0 16 A0, Sd S1 24 A0, Sd S2 32 A0, Sd S3 40 A0, Sd S4 48 A0, Sd S5 56 A0, Sd S6 64 A0, Sd S7 72 A0, Sd S8 80 A0,
     Sd S9 88 A0, Sd S10 96 A0, Sd S11 104 A0,
     Ld Ra 0 A1, Ld Sp 8 A1, Ld S0 16 A1, Ld S1 24 A1, Ld S2 32 A1, Ld S3 40 A1, Ld S4 48 A1, Ld S5 56 A1, Ld S6 64 A1, Ld S7 72 A1, Ld S8 80 A1,
     Ld S9 88 A1, Ld S10 96 A1, Ld S11 104 A1,
     Ret]"

section \<open>Machine mode\<close>

record mcsrs =
  m_pmpaddr0 :: u64
  m_pmpcfg0 :: u64
  m_mstatus :: u64
  m_mepc :: u64

definition MSTATUS_MPP :: u64 where "MSTATUS_MPP = push_bit 11 3"

definition MSTATUS_MPP_S :: u64 where "MSTATUS_MPP_S = push_bit 11 1"

text \<open>\<^verbatim>\<open>start\<close> up to its \<^verbatim>\<open>mret\<close>, which continues at \<open>m_mepc\<close> in the mode of the two MPP bits.\<close>

definition start :: "u64 \<Rightarrow> mcsrs \<Rightarrow> mcsrs" where
  "start main m = m\<lparr>m_pmpaddr0 := 0x3fffffffffffff, m_pmpcfg0 := 0x1f,
     m_mstatus := (m_mstatus m AND NOT MSTATUS_MPP) OR MSTATUS_MPP_S, m_mepc := main\<rparr>"

section \<open>Save areas\<close>

text \<open>A save area maps registers to distinct aligned offsets.\<close>

definition slots_ok :: "(reg \<times> nat) list \<Rightarrow> bool" where
  "slots_ok ps \<longleftrightarrow> distinct (map snd ps) \<and> list_all (\<lambda>p. snd p mod 8 = 0 \<and> snd p < 4096) ps"

definition saves :: "reg \<Rightarrow> (reg \<times> nat) list \<Rightarrow> instr list" where
  "saves b ps = map (\<lambda>(r, off). Sd r off b) ps"

definition loads :: "reg \<Rightarrow> (reg \<times> nat) list \<Rightarrow> instr list" where
  "loads b ps = map (\<lambda>(r, off). Ld r off b) ps"

definition word_at :: "hart \<Rightarrow> u64 \<Rightarrow> nat \<Rightarrow> u64" where
  "word_at h b off = ld64 (h_mem h) (b + of_nat off)"

lemma run_append [simp]: "run (xs @ ys) h = run ys (run xs h)"
  by (induction xs arbitrary: h) auto

lemma slot_gap:
  assumes "i < j" "i mod 8 = 0" "j mod 8 = 0" "j < 4096"
  shows "8 \<le> unat (of_nat j - of_nat i :: u64)" "8 \<le> unat (of_nat i - of_nat j :: u64)"
proof -
  have u: "unat (of_nat i :: u64) = i" "unat (of_nat j :: u64) = j" using assms by (simp_all add: unat_of_nat)
  have d: "8 \<le> j - i" using assms by presburger
  have "unat (of_nat j - of_nat i :: u64) = j - i" using assms(1) unfolding unat_sub_if' u by simp
  then show "8 \<le> unat (of_nat j - of_nat i :: u64)" using d by simp
  have "unat (of_nat i - of_nat j :: u64) = i + 2 ^ 64 - j" using assms(1) unfolding unat_sub_if' u by simp
  then show "8 \<le> unat (of_nat i - of_nat j :: u64)" using assms(4) by simp
qed

lemma slots_apart_words:
  assumes "i \<noteq> j" "i mod 8 = 0" "j mod 8 = 0" "i < 4096" "j < 4096"
  shows "apart (b + of_nat i) 8 (b + of_nat j) 8"
proof -
  have e: "(b + of_nat i) - (b + of_nat j) = (of_nat i - of_nat j :: u64)" for i j by simp
  show ?thesis unfolding apart_def e
    using slot_gap [of i j] slot_gap [of j i] assms by (cases "i < j") auto
qed

text \<open>Storing the registers leaves all of them in their slots and changes nothing else.\<close>

lemma run_saves:
  assumes "slots_ok ps"
  shows "run (saves b ps) h = h\<lparr>h_mem := h_mem (run (saves b ps) h)\<rparr> \<and> (\<forall>(r, off) \<in> set ps. word_at (run (saves b ps) h) (hx h b) off = hx h r) \<and>
    (\<forall>off. off mod 8 = 0 \<and> off < 4096 \<and> off \<notin> snd ` set ps \<longrightarrow> word_at (run (saves b ps) h) (hx h b) off = word_at h (hx h b) off)"
  using assms
proof (induction ps arbitrary: h)
  case Nil
  then show ?case by (simp add: saves_def)
next
  case (Cons p ps)
  obtain r off where p: "p = (r, off)" by (cases p)
  let ?h = "exec_instr (Sd r off b) h"
  have o: "off mod 8 = 0" "off < 4096" "off \<notin> snd ` set ps" "slots_ok ps" using Cons.prems by (auto simp: slots_ok_def p)
  have step: "run (saves b (p # ps)) h = run (saves b ps) ?h" by (simp add: saves_def p)
  have hx: "hx ?h = hx h" by simp
  note IH = Cons.IH [OF o(4), of ?h, unfolded hx]
  have w: "word_at ?h (hx h b) off' = (if off' = off then hx h r else word_at h (hx h b) off')" if "off' mod 8 = 0" "off' < 4096" for off'
    using slots_apart_words [of off off'] that o(1,2) by (simp add: word_at_def ld64_st64_apart)
  have "run (saves b (p # ps)) h = h\<lparr>h_mem := h_mem (run (saves b (p # ps)) h)\<rparr>"
    unfolding step by (subst IH [THEN conjunct1]) simp
  moreover have "word_at (run (saves b (p # ps)) h) (hx h b) off = hx h r" unfolding step using IH o w by simp
  ultimately show ?case using IH w o unfolding step by (auto simp: p)
qed

text \<open>Loading gives each register its slot; the base may be among them when its slot holds it.\<close>

lemma run_loads:
  assumes "distinct (map fst ps)" "\<forall>off. (b, off) \<in> set ps \<longrightarrow> word_at h (hx h b) off = hx h b"
  shows "run (loads b ps) h = h\<lparr>hx := (\<lambda>r. case map_of ps r of None \<Rightarrow> hx h r | Some off \<Rightarrow> word_at h (hx h b) off)\<rparr>"
  using assms
proof (induction ps arbitrary: h)
  case Nil
  then show ?case by (simp add: loads_def)
next
  case (Cons p ps)
  obtain r off where p: "p = (r, off)" by (cases p)
  let ?h = "exec_instr (Ld r off b) h"
  have b: "hx ?h b = hx h b" using Cons.prems(2) by (auto simp: p word_at_def)
  have m: "word_at ?h = word_at h" by (auto simp: word_at_def fun_eq_iff)
  have "run (loads b (p # ps)) h = run (loads b ps) ?h" by (simp add: loads_def p)
  also have "\<dots> = ?h\<lparr>hx := (\<lambda>q. case map_of ps q of None \<Rightarrow> hx ?h q | Some off \<Rightarrow> word_at ?h (hx ?h b) off)\<rparr>"
    by (rule Cons.IH) (use Cons.prems b m in \<open>auto simp: p\<close>)
  also have "\<dots> = h\<lparr>hx := (\<lambda>q. case map_of (p # ps) q of None \<Rightarrow> hx h q | Some off \<Rightarrow> word_at h (hx h b) off)\<rparr>"
  proof -
    have "map_of ps r = None" using Cons.prems(1) by (simp add: p map_of_eq_None_iff)
    then have "(\<lambda>q. case map_of ps q of None \<Rightarrow> hx ?h q | Some off \<Rightarrow> word_at h (hx h b) off) =
        (\<lambda>q. case map_of (p # ps) q of None \<Rightarrow> hx h q | Some off \<Rightarrow> word_at h (hx h b) off)"
      by (auto simp: p fun_eq_iff word_at_def split: option.split)
    then show ?thesis unfolding b m by simp
  qed
  finally show ?case .
qed

section \<open>The user trap vectors\<close>

definition user_slots :: "(reg \<times> nat) list" where
  "user_slots = [(Ra, 40), (Sp, 48), (Gp, 56), (Tp, 64), (T1, 80), (T2, 88), (S0, 96), (S1, 104), (A1, 120), (A2, 128), (A3, 136), (A4, 144),
     (A5, 152), (A6, 160), (A7, 168), (S2, 176), (S3, 184), (S4, 192), (S5, 200), (S6, 208), (S7, 216), (S8, 224), (S9, 232), (S10, 240),
     (S11, 248), (T3, 256), (T4, 264), (T5, 272), (T6, 280)]"

lemma uservec_code_split:
  "uservec_code = Swap_sscratch A0 # saves A0 (take 4 user_slots @ (T0, 72) # drop 4 user_slots) @ [Read_sscratch T0] @ saves A0 [(T0, 112)] @
     [Ld T0 8 A0, Ld T1 0 A0, Ld T2 16 A0, Write_satp T1, Sfence, Mv Sp T0, Jr T2]"
  by (simp add: uservec_code_def saves_def user_slots_def)

lemma userret_code_split:
  "userret_code = [Write_satp A1, Sfence, Write_sscratch A0, Ld T0 112 A0] @ loads A0 user_slots @ [Mv A0 T0, Sret]"
  by (simp add: userret_code_def loads_def user_slots_def)

text \<open>What \<^verbatim>\<open>uservec\<close> leaves: every user register in its slot, and the kernel's handoff fields taken.\<close>

lemma uservec_frame:
  fixes h :: hart
  defines "tf \<equiv> h_sscratch h" and "h' \<equiv> run uservec_code h"
  shows "\<forall>(r, off) \<in> set ((T0, 72) # user_slots). word_at h' tf off = hx h r" "word_at h' tf 112 = hx h A0"
    "h_satp h' = word_at h tf 0" "hx h' Sp = word_at h tf 8" "h_pc h' = word_at h tf 16" "h_sepc h' = h_sepc h" "h_sscratch h' = hx h A0" "hx h' A0 = tf"
    "hx h' Tp = hx h Tp"
proof -
  let ?ps = "take 4 user_slots @ (T0, 72) # drop 4 user_slots"
  define h0 where "h0 = exec_instr (Swap_sscratch A0) h"
  define h1 where "h1 = run (saves A0 ?ps) h0"
  define h2 where "h2 = exec_instr (Read_sscratch T0) h1"
  define h3 where "h3 = run (saves A0 [(T0, 112)]) h2"
  have ok: "slots_ok ?ps" "slots_ok [(T0, 112)]" by (simp_all add: slots_ok_def user_slots_def)
  have set: "set ?ps = set ((T0, 72) # user_slots)"
    using arg_cong [OF append_take_drop_id [of 4 user_slots], of set] by (simp only: set_append list.set) blast
  note s1 = run_saves [OF ok(1), of A0 h0, folded h1_def, unfolded set] and s3 = run_saves [OF ok(2), of A0 h2, folded h3_def]
  have h0: "hx h0 = (hx h)(A0 := tf)" "h_sscratch h0 = hx h A0" "h_mem h0 = h_mem h" "h_sepc h0 = h_sepc h" by (simp_all add: h0_def tf_def)
  have h1: "hx h1 = hx h0" "h_sscratch h1 = h_sscratch h0" "h_sepc h1 = h_sepc h0" by (subst s1 [THEN conjunct1], simp)+
  have h2: "hx h2 = (hx h1)(T0 := hx h A0)" "h_mem h2 = h_mem h1" "h_sscratch h2 = hx h A0" "h_sepc h2 = h_sepc h" by (simp_all add: h2_def h1 h0)
  have h3: "hx h3 = hx h2" "h_sscratch h3 = h_sscratch h2" "h_sepc h3 = h_sepc h2" by (subst s3 [THEN conjunct1], simp)+
  have h': "h' = run [Ld T0 8 A0, Ld T1 0 A0, Ld T2 16 A0, Write_satp T1, Sfence, Mv Sp T0, Jr T2] h3"
    by (simp add: h'_def uservec_code_split h0_def h1_def h2_def h3_def)
  have m: "word_at h' = word_at h3" by (simp add: h' word_at_def fun_eq_iff)
  have A0: "hx h0 A0 = tf" "hx h2 A0 = tf" "hx h1 A0 = tf" by (simp_all add: h0 h2 h1)
  note s1 = s1 [unfolded A0] and s3 = s3 [unfolded A0]
  have w12: "word_at h2 = word_at h1" "word_at h0 = word_at h" by (simp_all add: word_at_def fun_eq_iff h2 h0)
  have w3: "word_at h3 tf off = word_at h1 tf off" if "off mod 8 = 0" "off < 4096" "off \<noteq> 112" for off
    using s3 that w12 by (auto simp: A0)
  have w1: "word_at h1 tf off = word_at h tf off" if "off mod 8 = 0" "off < 40" for off
    using s1 that w12 by (auto simp: A0 user_slots_def)
  show "word_at h' tf 112 = hx h A0" using s3 by (simp add: m h2(1))
  have "word_at h1 tf off = hx h r \<and> off mod 8 = 0 \<and> off < 4096 \<and> off \<noteq> 112" if "(r, off) \<in> set ((T0, 72) # user_slots)" for r off
  proof -
    have "word_at h1 tf off = hx h0 r" using s1 that by (auto simp: A0)
    moreover have "r \<noteq> A0 \<and> off mod 8 = 0 \<and> off < 4096 \<and> off \<noteq> 112" using that by (auto simp: user_slots_def)
    ultimately show ?thesis by (simp add: h0)
  qed
  then have "word_at h3 tf off = hx h r" if "(r, off) \<in> set ((T0, 72) # user_slots)" for r off using that w3 by metis
  then show "\<forall>(r, off) \<in> set ((T0, 72) # user_slots). word_at h' tf off = hx h r" by (auto simp: m)
  have "word_at h3 tf 0 = word_at h tf 0" "word_at h3 tf 8 = word_at h tf 8" "word_at h3 tf 16 = word_at h tf 16" using w3 w1 by simp_all
  then show "h_satp h' = word_at h tf 0" "hx h' Sp = word_at h tf 8" "h_pc h' = word_at h tf 16"
    by (simp_all add: h' word_at_def h3 h2 h1 h0)
  show "h_sepc h' = h_sepc h" "h_sscratch h' = hx h A0" "hx h' A0 = tf" "hx h' Tp = hx h Tp" by (simp_all add: h' h3 h2 h1 h0)
qed

lemma userret_regs:
  fixes h :: hart
  defines "tf \<equiv> hx h A0" and "h' \<equiv> run userret_code h"
  shows "\<forall>(r, off) \<in> set user_slots. hx h' r = word_at h tf off" "hx h' A0 = word_at h tf 112" "hx h' T0 = word_at h tf 112"
    "h_sscratch h' = tf" "h_satp h' = hx h A1" "h_pc h' = h_sepc h" "h_mem h' = h_mem h"
proof -
  define h0 where "h0 = run [Write_satp A1, Sfence, Write_sscratch A0, Ld T0 112 A0] h"
  have h0: "hx h0 = (hx h)(T0 := word_at h tf 112)" "h_mem h0 = h_mem h" "h_sscratch h0 = tf" "h_satp h0 = hx h A1" "h_sepc h0 = h_sepc h"
    by (simp_all add: h0_def word_at_def tf_def)
  have w: "word_at h0 = word_at h" by (simp add: word_at_def fun_eq_iff h0)
  have l: "run (loads A0 user_slots) h0 = h0\<lparr>hx := (\<lambda>r. case map_of user_slots r of None \<Rightarrow> hx h0 r | Some off \<Rightarrow> word_at h0 (hx h0 A0) off)\<rparr>"
    by (rule run_loads) (auto simp: user_slots_def)
  have A0: "hx h0 A0 = tf" by (simp add: h0 tf_def)
  have h': "h' = run [Mv A0 T0, Sret] (h0\<lparr>hx := (\<lambda>r. case map_of user_slots r of None \<Rightarrow> hx h0 r | Some off \<Rightarrow> word_at h tf off)\<rparr>)"
    unfolding h'_def userret_code_split run_append h0_def [symmetric] l A0 w by (rule refl)
  show "\<forall>(r, off) \<in> set user_slots. hx h' r = word_at h tf off" by (simp add: h' user_slots_def)
  show "hx h' A0 = word_at h tf 112" "hx h' T0 = word_at h tf 112" by (simp_all add: h' h0 user_slots_def)
  show "h_sscratch h' = tf" "h_satp h' = hx h A1" "h_pc h' = h_sepc h" "h_mem h' = h_mem h" by (simp_all add: h' h0)
qed

lemma user_slots_cover: "r \<noteq> A0 \<Longrightarrow> r \<noteq> T0 \<Longrightarrow> \<exists>off. (r, off) \<in> set user_slots"
  by (cases r) (auto simp: user_slots_def)

definition frame_offsets :: "nat list" where "frame_offsets = map (\<lambda>i. 40 + 8 * i) [0..<31]"

lemma user_slots_frame: "(r, off) \<in> set user_slots \<Longrightarrow> off \<in> set frame_offsets \<and> off \<noteq> 112"
  by (auto simp: user_slots_def frame_offsets_def image_iff)

text \<open>
  C34. A trip through the kernel by the trampoline. If the kernel changes at most the \<^verbatim>\<open>a0\<close> slot of the saved
  registers and calls \<^verbatim>\<open>userret\<close> with the trap frame and a page table, then user mode resumes at \<^verbatim>\<open>sepc\<close> under
  that page table, with \<^verbatim>\<open>sscratch\<close> naming the trap frame for the next trap and with every register as it was at
  the trap but \<^verbatim>\<open>a0\<close> and \<^verbatim>\<open>t0\<close>. Both of these are the value of the \<^verbatim>\<open>a0\<close> slot: \<^verbatim>\<open>t0\<close> is saved and never reloaded.
\<close>

theorem user_registers_roundtrip:
  assumes "hx k A0 = h_sscratch h"
    and "\<forall>off \<in> set frame_offsets. off \<noteq> 112 \<longrightarrow> word_at k (h_sscratch h) off = word_at (run uservec_code h) (h_sscratch h) off"
  shows "hx (run userret_code k) =
      (hx h)(A0 := word_at k (h_sscratch h) 112, T0 := word_at k (h_sscratch h) 112) \<and>
    h_sscratch (run userret_code k) = h_sscratch h \<and> h_satp (run userret_code k) = hx k A1 \<and> h_pc (run userret_code k) = h_sepc k"
proof -
  note u = uservec_frame [of h] and r = userret_regs [of k, unfolded assms(1)]
  have "hx (run userret_code k) q = hx h q" if q: "q \<noteq> A0" "q \<noteq> T0" for q
  proof -
    obtain off where off: "(q, off) \<in> set user_slots" using user_slots_cover [OF q] by blast
    have "hx (run userret_code k) q = word_at k (h_sscratch h) off" using r(1) off by auto
    also have "\<dots> = word_at (run uservec_code h) (h_sscratch h) off" using assms(2) user_slots_frame [OF off] by auto
    also have "\<dots> = hx h q" using u(1) off by auto
    finally show ?thesis .
  qed
  then show ?thesis using r by (auto simp: fun_eq_iff)
qed

definition demo_hart :: hart where
  "demo_hart = \<lparr>hx = (\<lambda>r. 7), h_mem = (\<lambda>a. 0), h_sscratch = 4096, h_satp = 0, h_sepc = 64, h_pc = 0\<rparr>"

theorem user_registers_roundtrip_witness:
  "hx (run userret_code (run uservec_code demo_hart)) S11 = 7 \<and> h_pc (run userret_code (run uservec_code demo_hart)) = 64"
proof -
  have "hx (run uservec_code demo_hart) A0 = h_sscratch demo_hart" by (rule uservec_frame)
  then show ?thesis
    using user_registers_roundtrip [of "run uservec_code demo_hart" demo_hart] uservec_frame(6) [of demo_hart]
    by (simp add: demo_hart_def)
qed

section \<open>The supervisor trap vector\<close>

definition kernel_slots :: "(reg \<times> nat) list" where
  "kernel_slots = [(Ra, 0), (Sp, 8), (Gp, 16), (Tp, 24), (T0, 32), (T1, 40), (T2, 48), (S0, 56), (S1, 64), (A0, 72), (A1, 80), (A2, 88), (A3, 96),
     (A4, 104), (A5, 112), (A6, 120), (A7, 128), (S2, 136), (S3, 144), (S4, 152), (S5, 160), (S6, 168), (S7, 176), (S8, 184), (S9, 192),
     (S10, 200), (S11, 208), (T3, 216), (T4, 224), (T5, 232), (T6, 240)]"

lemma kernelvec_split:
  "kernelvec_save = Addi Sp Sp (-256) # saves Sp kernel_slots @ [Mv A0 Sp]"
  "kernelvec_restore = loads Sp kernel_slots @ [Addi Sp Sp 256, Sret]"
  by (simp_all add: kernelvec_save_def kernelvec_restore_def saves_def loads_def kernel_slots_def)

lemma kernel_slots_cover: "\<exists>off. map_of kernel_slots r = Some off \<and> (r, off) \<in> set kernel_slots"
  by (cases r) (auto simp: kernel_slots_def)

lemma kernel_slots_ok: "slots_ok kernel_slots" "distinct (map fst kernel_slots)"
  by (simp_all add: slots_ok_def kernel_slots_def)

text \<open>The frame holds every register at its slot, with the stack pointer already lowered.\<close>

lemma kernelvec_frame:
  fixes h :: hart
  defines "fp \<equiv> hx h Sp - 256" and "h' \<equiv> run kernelvec_save h"
  shows "\<forall>(r, off) \<in> set kernel_slots. word_at h' fp off = ((hx h)(Sp := fp)) r" "hx h' = (hx h)(Sp := fp, A0 := fp)" "h_sepc h' = h_sepc h"
proof -
  define h0 where "h0 = exec_instr (Addi Sp Sp (-256)) h"
  have h0: "hx h0 = (hx h)(Sp := fp)" "h_sepc h0 = h_sepc h" by (simp_all add: h0_def fp_def)
  note s = run_saves [OF kernel_slots_ok(1), of Sp h0]
  have h': "h' = exec_instr (Mv A0 Sp) (run (saves Sp kernel_slots) h0)" by (simp add: h'_def kernelvec_split h0_def)
  have x: "hx (run (saves Sp kernel_slots) h0) = hx h0" "h_sepc (run (saves Sp kernel_slots) h0) = h_sepc h0" by (subst s [THEN conjunct1], simp)+
  have w: "word_at h' = word_at (run (saves Sp kernel_slots) h0)" by (simp add: h' word_at_def fun_eq_iff)
  show "\<forall>(r, off) \<in> set kernel_slots. word_at h' fp off = ((hx h)(Sp := fp)) r" using s unfolding w by (simp add: h0)
  show "hx h' = (hx h)(Sp := fp, A0 := fp)" "h_sepc h' = h_sepc h" by (simp_all add: h' x h0 fun_eq_iff)
qed

text \<open>
  C33. A supervisor trap gives \<^verbatim>\<open>kerneltrap\<close> the frame in \<^verbatim>\<open>a0\<close>, and if the handler returns with its stack pointer and
  the frame as it got them (the calling convention), then every register of the interrupted code, the stack
  pointer included, is as before the trap, and execution resumes at \<^verbatim>\<open>sepc\<close>.
\<close>

theorem supervisor_trap_transparent:
  assumes "hx k Sp = hx (run kernelvec_save h) Sp"
    and "\<forall>off \<in> set (map snd kernel_slots). word_at k (hx h Sp - 256) off = word_at (run kernelvec_save h) (hx h Sp - 256) off"
  shows "hx (run kernelvec_save h) A0 = hx h Sp - 256 \<and> hx (run kernelvec_restore k) = hx h \<and> h_pc (run kernelvec_restore k) = h_sepc k"
proof -
  note f = kernelvec_frame [of h]
  have sp: "hx k Sp = hx h Sp - 256" using assms(1) f(2) by simp
  have w: "word_at k (hx h Sp - 256) off = ((hx h)(Sp := hx h Sp - 256)) r" if "(r, off) \<in> set kernel_slots" for r off
  proof -
    have "off \<in> set (map snd kernel_slots)" using that by force
    then have "word_at k (hx h Sp - 256) off = word_at (run kernelvec_save h) (hx h Sp - 256) off" by (rule bspec [OF assms(2)])
    also have "\<dots> = ((hx h)(Sp := hx h Sp - 256)) r" using bspec [OF f(1) that] by simp
    finally show ?thesis .
  qed
  have l: "run (loads Sp kernel_slots) k = k\<lparr>hx := (\<lambda>r. case map_of kernel_slots r of None \<Rightarrow> hx k r | Some off \<Rightarrow> word_at k (hx k Sp) off)\<rparr>"
    by (rule run_loads) (use w sp kernel_slots_ok(2) in auto)
  have e: "(\<lambda>r. case map_of kernel_slots r of None \<Rightarrow> hx k r | Some off \<Rightarrow> word_at k (hx k Sp) off) = (hx h)(Sp := hx h Sp - 256)"
  proof
    fix r
    obtain off where "map_of kernel_slots r = Some off" "(r, off) \<in> set kernel_slots" using kernel_slots_cover by blast
    then show "(case map_of kernel_slots r of None \<Rightarrow> hx k r | Some off \<Rightarrow> word_at k (hx k Sp) off) = ((hx h)(Sp := hx h Sp - 256)) r"
      using w sp by simp
  qed
  show ?thesis by (simp add: f(2) kernelvec_split(2) l e fun_eq_iff)
qed

theorem supervisor_trap_transparent_witness:
  "hx (run kernelvec_restore (run kernelvec_save demo_hart)) = hx demo_hart"
  using supervisor_trap_transparent [of "run kernelvec_save demo_hart" demo_hart] by simp

section \<open>The context switch\<close>

definition context_slots :: "(reg \<times> nat) list" where
  "context_slots = [(Ra, 0), (Sp, 8), (S0, 16), (S1, 24), (S2, 32), (S3, 40), (S4, 48), (S5, 56), (S6, 64), (S7, 72), (S8, 80), (S9, 88),
     (S10, 96), (S11, 104)]"

definition callee_saved :: "reg \<Rightarrow> bool" where
  "callee_saved r \<longleftrightarrow> map_of context_slots r \<noteq> None"

definition saved_context :: "hart \<Rightarrow> u64 \<Rightarrow> reg \<Rightarrow> u64 option" where
  "saved_context h b r = map_option (word_at h b) (map_of context_slots r)"

lemma swtch_code_split: "swtch_code = saves A0 context_slots @ loads A1 context_slots @ [Ret]"
  by (simp add: swtch_code_def saves_def loads_def context_slots_def)

lemma context_slots_ok: "slots_ok context_slots" "distinct (map fst context_slots)"
  by (simp_all add: slots_ok_def context_slots_def)

lemma context_slots_bound: "map_of context_slots r = Some off \<Longrightarrow> off + 8 \<le> 112"
  by (cases r) (auto simp: context_slots_def)

lemma gap_shift:
  assumes "n \<le> unat d" "n \<le> unat (- d :: u64)" "i + 8 \<le> n" "j + 8 \<le> n" "n < 4096"
  shows "8 \<le> unat (d + of_nat j - of_nat i)"
proof -
  have u: "unat (of_nat i :: u64) = i" "unat (of_nat j :: u64) = j" using assms by (simp_all add: unat_of_nat)
  have "d \<noteq> 0" using assms(1,3) by auto
  then have "unat (- d) = 2 ^ 64 - unat d" using unat_sub_if' [of 0 d] by (simp add: unat_eq_0)
  then have "unat d + j < 2 ^ 64" using assms(2,4) unat_bound [of d] by simp
  then have s: "unat (d + of_nat j) = unat d + j" using u by (simp add: unat_word_ariths)
  have "unat (d + of_nat j - of_nat i) = unat d + j - i" using assms(1,3) unfolding unat_sub_if' s u by simp
  then show ?thesis using assms(1,3) by simp
qed

lemma apart_words:
  assumes "apart a n b n" "i + 8 \<le> n" "j + 8 \<le> n" "n < 4096"
  shows "apart (a + of_nat i) 8 (b + of_nat j) 8"
proof -
  have e: "x + of_nat k - (y + of_nat l) = x - y + of_nat k - of_nat l" for x y :: u64 and k l by simp
  have m: "- (x - y) = y - x" for x y :: u64 by simp
  show ?thesis
    using assms gap_shift [of n "b - a" i j] gap_shift [of n "a - b" j i] unfolding apart_def e m by simp
qed

lemma saves_apart:
  assumes "\<forall>(r, off) \<in> set ps. apart (hx h b + of_nat off) 8 a 8"
  shows "ld64 (h_mem (run (saves b ps) h)) a = ld64 (h_mem h) a"
  using assms
proof (induction ps arbitrary: h)
  case (Cons p ps)
  obtain r off where p: "p = (r, off)" by (cases p)
  have "run (saves b (p # ps)) h = run (saves b ps) (exec_instr (Sd r off b) h)" by (simp add: saves_def p)
  then show ?case using Cons.IH [of "exec_instr (Sd r off b) h"] Cons.prems by (simp add: p ld64_st64_apart)
qed (simp add: saves_def)

text \<open>One switch: the old context holds the callee-saved registers, which are loaded from the new one.\<close>

lemma swtch_regs:
  assumes "apart (hx h A0) 112 (hx h A1) 112"
  shows "saved_context (run swtch_code h) (hx h A0) r = (if callee_saved r then Some (hx h r) else None)"
    "hx (run swtch_code h) r = (case saved_context h (hx h A1) r of None \<Rightarrow> hx h r | Some v \<Rightarrow> v)"
    "h_pc (run swtch_code h) = word_at h (hx h A1) 0"
proof -
  define h1 where "h1 = run (saves A0 context_slots) h"
  note s = run_saves [OF context_slots_ok(1), of A0 h, folded h1_def]
  have h1: "hx h1 = hx h" by (subst s [THEN conjunct1]) simp
  have l: "run (loads A1 context_slots) h1 =
      h1\<lparr>hx := (\<lambda>r. case map_of context_slots r of None \<Rightarrow> hx h1 r | Some off \<Rightarrow> word_at h1 (hx h1 A1) off)\<rparr>"
    by (rule run_loads [OF context_slots_ok(2)]) (auto simp: context_slots_def)
  have w: "word_at h1 (hx h A1) off = word_at h (hx h A1) off" if "off + 8 \<le> 112" for off
    unfolding word_at_def h1_def
  proof (rule saves_apart, clarify)
    fix q off' assume "(q, off') \<in> set context_slots"
    then have "off' + 8 \<le> 112" using context_slots_bound [of q] context_slots_ok(2) by simp
    then show "apart (hx h A0 + of_nat off') 8 (hx h A1 + of_nat off) 8" using apart_words [OF assms, of off' off] that by simp
  qed
  have c: "run swtch_code h = exec_instr Ret (run (loads A1 context_slots) h1)" by (simp add: swtch_code_split h1_def)
  have m: "word_at (run swtch_code h) = word_at h1" by (simp add: c l word_at_def fun_eq_iff)
  have "word_at h1 (hx h A0) off = hx h r" if "map_of context_slots r = Some off" for off using s map_of_SomeD [OF that] by auto
  then show "saved_context (run swtch_code h) (hx h A0) r = (if callee_saved r then Some (hx h r) else None)"
    by (auto simp: saved_context_def callee_saved_def m)
  show "hx (run swtch_code h) r = (case saved_context h (hx h A1) r of None \<Rightarrow> hx h r | Some v \<Rightarrow> v)"
    using w context_slots_bound [of r] by (simp add: c l h1 saved_context_def split: option.split)
  show "h_pc (run swtch_code h) = word_at h (hx h A1) 0"
    using w [of 0] by (simp add: c l) (simp add: context_slots_def h1)
qed

text \<open>
  C32. Switching away and back. After \<^verbatim>\<open>swtch(old, new)\<close> any number of other switches may run; when one of them
  is later given \<^verbatim>\<open>old\<close> as its new context, with the saved words as they were left, the callee-saved registers and the
  stack pointer are those of the first call, and control is back at its return address.
\<close>

theorem swtch_resumes:
  assumes "apart (hx h A0) 112 (hx h A1) 112" and "apart (hx k A0) 112 (hx k A1) 112" and "hx k A1 = hx h A0"
    and "\<forall>r. saved_context k (hx h A0) r = saved_context (run swtch_code h) (hx h A0) r"
  shows "(\<forall>r. callee_saved r \<longrightarrow> hx (run swtch_code k) r = hx h r) \<and> h_pc (run swtch_code k) = hx h Ra"
proof -
  have c: "saved_context k (hx k A1) r = (if callee_saved r then Some (hx h r) else None)" for r
    using assms(3,4) swtch_regs(1) [OF assms(1)] by simp
  have "saved_context k (hx k A1) Ra = Some (word_at k (hx k A1) 0)" "callee_saved Ra"
    by (simp_all add: saved_context_def context_slots_def callee_saved_def)
  then have "word_at k (hx k A1) 0 = hx h Ra" using c [of Ra] by simp
  then show ?thesis using swtch_regs(2,3) [OF assms(2)] by (simp add: c)
qed

text \<open>Two contexts on one hart: the process switches to the scheduler's context, which switches back.\<close>

definition switch_hart :: "u64 \<Rightarrow> u64 \<Rightarrow> hart" where
  "switch_hart old new = demo_hart\<lparr>hx := (\<lambda>r. 7)(A0 := old, A1 := new)\<rparr>"

theorem swtch_resumes_witness:
  "let h = switch_hart 4096 8192; k = run swtch_code h; k' = k\<lparr>hx := (hx k)(A0 := 8192, A1 := 4096)\<rparr>
   in hx (run swtch_code k') S11 = 7 \<and> h_pc (run swtch_code k') = 7"
proof -
  define h where "h = switch_hart 4096 8192"
  define k where "k = run swtch_code h"
  define k' where "k' = k\<lparr>hx := (hx k)(A0 := 8192, A1 := 4096)\<rparr>"
  have a: "apart (hx h A0) 112 (hx h A1) 112" "hx h A0 = 4096" by (simp_all add: h_def switch_hart_def apart_def)
  have b: "apart (hx k' A0) 112 (hx k' A1) 112" "hx k' A1 = 4096" by (simp_all add: k'_def apart_def)
  have "word_at k' = word_at k" by (simp add: k'_def word_at_def fun_eq_iff)
  then have "saved_context k' = saved_context k" by (intro ext) (simp add: saved_context_def)
  then have "(\<forall>r. callee_saved r \<longrightarrow> hx (run swtch_code k') r = hx h r) \<and> h_pc (run swtch_code k') = hx h Ra"
    using a b by (intro swtch_resumes) (simp_all add: k_def)
  moreover have "callee_saved S11" by (simp add: callee_saved_def context_slots_def)
  ultimately have "hx (run swtch_code k') S11 = 7 \<and> h_pc (run swtch_code k') = 7" by (simp add: h_def switch_hart_def)
  then show ?thesis by (simp add: Let_def h_def k_def k'_def)
qed

section \<open>Entering supervisor mode\<close>

text \<open>\<^verbatim>\<open>start\<close> makes \<^verbatim>\<open>mret\<close> enter \<^verbatim>\<open>main\<close> in supervisor mode, and touches no other bit of \<^verbatim>\<open>mstatus\<close>.\<close>

lemma start_enters_supervisor:
  "m_mepc (start main m) = main"
  "(m_mstatus (start main m) AND MSTATUS_MPP) = MSTATUS_MPP_S"
  "(m_mstatus (start main m) AND NOT MSTATUS_MPP) = (m_mstatus m AND NOT MSTATUS_MPP)"
  by (simp_all add: start_def MSTATUS_MPP_def MSTATUS_MPP_S_def word_bw_assocs word_ao_dist)

end
