(* ===== verification/Sha256.thy ===== *)
theory Sha256
  imports Complex_Main Prelude
begin

text \<open>
  The digest of the warm-up readers, \<^verbatim>\<open>lab1/baremetal/sha256.c\<close> (the Linux reader has the same code on top of the C
  library). The first half follows the C file: the round constants, the macros, the block function on the
  eight chaining words and the streaming of full blocks followed by one or two padded ones. The second half
  is the hash standard: the message padded to a multiple of 512 bits, the schedule as a recurrence, and
  constants as the fractional bits of roots of primes.
\<close>

unbundle bit_operations_syntax

section \<open>The implementation\<close>

text \<open>The round constants, one list for each line of the table in \<^verbatim>\<open>sha256.c\<close>.\<close>

definition SHA_K :: "u32 list" where
  "SHA_K = concat [
     [0x428a2f98, 0x71374491, 0xb5c0fbcf, 0xe9b5dba5, 0x3956c25b, 0x59f111f1],
     [0x923f82a4, 0xab1c5ed5, 0xd807aa98, 0x12835b01, 0x243185be, 0x550c7dc3],
     [0x72be5d74, 0x80deb1fe, 0x9bdc06a7, 0xc19bf174, 0xe49b69c1, 0xefbe4786],
     [0x0fc19dc6, 0x240ca1cc, 0x2de92c6f, 0x4a7484aa, 0x5cb0a9dc, 0x76f988da],
     [0x983e5152, 0xa831c66d, 0xb00327c8, 0xbf597fc7, 0xc6e00bf3, 0xd5a79147],
     [0x06ca6351, 0x14292967, 0x27b70a85, 0x2e1b2138, 0x4d2c6dfc, 0x53380d13],
     [0x650a7354, 0x766a0abb, 0x81c2c92e, 0x92722c85, 0xa2bfe8a1, 0xa81a664b],
     [0xc24b8b70, 0xc76c51a3, 0xd192e819, 0xd6990624, 0xf40e3585, 0x106aa070],
     [0x19a4c116, 0x1e376c08, 0x2748774c, 0x34b0bcb5, 0x391c0cb3, 0x4ed8aa4a],
     [0x5b9cca4f, 0x682e6ff3, 0x748f82ee, 0x78a5636f, 0x84c87814, 0x8cc70208],
     [0x90befffa, 0xa4506ceb, 0xbef9a3f7, 0xc67178f2]]"

definition ROR32 :: "u32 \<Rightarrow> nat \<Rightarrow> u32" where
  "ROR32 x n = (drop_bit n x) OR (push_bit (32 - n) x)"

definition CH :: "u32 \<Rightarrow> u32 \<Rightarrow> u32 \<Rightarrow> u32" where
  "CH x y z = (x AND y) XOR (NOT x AND z)"

definition MAJ :: "u32 \<Rightarrow> u32 \<Rightarrow> u32 \<Rightarrow> u32" where
  "MAJ x y z = (x AND y) XOR (x AND z) XOR (y AND z)"

definition SIG0 :: "u32 \<Rightarrow> u32" where "SIG0 x = ROR32 x 2 XOR ROR32 x 13 XOR ROR32 x 22"

definition SIG1 :: "u32 \<Rightarrow> u32" where "SIG1 x = ROR32 x 6 XOR ROR32 x 11 XOR ROR32 x 25"

definition GAM0 :: "u32 \<Rightarrow> u32" where "GAM0 x = ROR32 x 7 XOR ROR32 x 18 XOR drop_bit 3 x"

definition GAM1 :: "u32 \<Rightarrow> u32" where "GAM1 x = ROR32 x 17 XOR ROR32 x 19 XOR drop_bit 10 x"

definition be32 :: "bytes \<Rightarrow> u32" where
  "be32 p = (push_bit 24 (ucast (p ! 0))) OR (push_bit 16 (ucast (p ! 1))) OR (push_bit 8 (ucast (p ! 2))) OR ucast (p ! 3)"

definition be32put :: "u32 \<Rightarrow> bytes" where
  "be32put v = [ucast (drop_bit 24 v), ucast (drop_bit 16 v), ucast (drop_bit 8 v), ucast v]"

text \<open>The bytes \<open>p[0]\<close> to \<open>p[7]\<close> after the loop that stores \<open>p[7 - k]\<close>.\<close>

definition be64put :: "u64 \<Rightarrow> bytes" where
  "be64put v = map (\<lambda>i. ucast (drop_bit (8 * (7 - i)) v)) [0..<8]"

text \<open>The array \<open>w\<close> grows by one word per iteration of its two loops.\<close>

definition sched_step :: "nat \<Rightarrow> u32 list \<Rightarrow> u32 list" where
  "sched_step i w = w @ [GAM1 (w ! (i - 2)) + w ! (i - 7) + GAM0 (w ! (i - 15)) + w ! (i - 16)]"

definition sched :: "bytes \<Rightarrow> u32 list" where
  "sched block = fold sched_step [16..<64] (map (\<lambda>i. be32 (bslice block (i * 4) 4)) [0..<16])"

type_synonym vars = "u32 \<times> u32 \<times> u32 \<times> u32 \<times> u32 \<times> u32 \<times> u32 \<times> u32"

definition round_step :: "u32 list \<Rightarrow> nat \<Rightarrow> vars \<Rightarrow> vars" where
  "round_step w i v = (case v of (a, b, c, d, e, f, g, hh) \<Rightarrow>
     let t1 = hh + SIG1 e + CH e f g + SHA_K ! i + w ! i; t2 = SIG0 a + MAJ a b c
     in (t1 + t2, a, b, c, d + t1, e, f, g))"

definition sha256_block :: "u32 list \<Rightarrow> bytes \<Rightarrow> u32 list" where
  "sha256_block h block =
     (case fold (round_step (sched block)) [0..<64] (h ! 0, h ! 1, h ! 2, h ! 3, h ! 4, h ! 5, h ! 6, h ! 7) of
       (a, b, c, d, e, f, g, hh) \<Rightarrow>
         [h ! 0 + a, h ! 1 + b, h ! 2 + c, h ! 3 + d, h ! 4 + e, h ! 5 + f, h ! 6 + g, h ! 7 + hh])"

definition sha_init :: "u32 list" where
  "sha_init = [0x6a09e667, 0xbb67ae85, 0x3c6ef372, 0xa54ff53a, 0x510e527f, 0x9b05688c, 0x1f83d9ab, 0x5be0cd19]"

text \<open>\<open>full\<close> clears the low six bits of the length; the stores into the last blocks are written side by side.\<close>

definition vos_sha256 :: "bytes \<Rightarrow> bytes" where
  "vos_sha256 msg =
     (let len = length msg; full = len - len mod 64; rem = len - full; bits = be64put (of_nat len * 8);
          h = fold (\<lambda>i h. sha256_block h (bslice msg i 64)) (map (\<lambda>k. 64 * k) [0..<full div 64]) sha_init;
          h = (if rem < 56
               then sha256_block h (bslice msg full rem @ [0x80] @ replicate (56 - rem - 1) 0 @ bits)
               else sha256_block (sha256_block h (bslice msg full rem @ [0x80] @ replicate (64 - rem - 1) 0)) (replicate 56 0 @ bits))
      in concat (map be32put h))"

section \<open>The standard\<close>

text \<open>The first 32 bits of the fractional part of the \<open>k\<close>-th root of a prime.\<close>

definition root_bits :: "nat \<Rightarrow> nat \<Rightarrow> u32" where
  "root_bits k p = word_of_int \<lfloor>2 ^ 32 * root k (real p)\<rfloor>"

definition first_primes :: "nat list" where
  "first_primes = [
     2, 3, 5, 7, 11, 13, 17, 19, 23, 29, 31, 37, 41, 43, 47, 53,
     59, 61, 67, 71, 73, 79, 83, 89, 97, 101, 103, 107, 109, 113, 127, 131,
     137, 139, 149, 151, 157, 163, 167, 173, 179, 181, 191, 193, 197, 199, 211, 223,
     227, 229, 233, 239, 241, 251, 257, 263, 269, 271, 277, 281, 283, 293, 307, 311]"

definition bits_of :: "nat \<Rightarrow> bytes" where
  "bits_of n = rev (nat_bytes 8 n)"

text \<open>A one bit, as many zeros as fill the block, and the length in bits.\<close>

definition padded :: "bytes \<Rightarrow> bytes" where
  "padded m = m @ [0x80] @ replicate ((119 - length m mod 64) mod 64) 0 @ bits_of (8 * length m)"

fun chunks :: "bytes \<Rightarrow> bytes list" where
  "chunks xs = (if length xs < 64 then [] else take 64 xs # chunks (drop 64 xs))"

declare chunks.simps [simp del]

definition word_of_be :: "bytes \<Rightarrow> u32" where
  "word_of_be bs = of_nat (bytes_nat (rev bs))"

fun W :: "bytes \<Rightarrow> nat \<Rightarrow> u32" where
  "W m t = (if t < 16 then word_of_be (take 4 (drop (4 * t) m))
     else (word_rotr 17 (W m (t - 2)) XOR word_rotr 19 (W m (t - 2)) XOR drop_bit 10 (W m (t - 2))) + W m (t - 7) +
       (word_rotr 7 (W m (t - 15)) XOR word_rotr 18 (W m (t - 15)) XOR drop_bit 3 (W m (t - 15))) + W m (t - 16))"

declare W.simps [simp del]

primrec working :: "bytes \<Rightarrow> vars \<Rightarrow> nat \<Rightarrow> vars" where
  "working m v 0 = v"
| "working m v (Suc t) = (case working m v t of (a, b, c, d, e, f, g, h) \<Rightarrow>
     let T1 = h + (word_rotr 6 e XOR word_rotr 11 e XOR word_rotr 25 e) + ((e AND f) XOR (NOT e AND g)) + root_bits 3 (first_primes ! t) + W m t;
         T2 = (word_rotr 2 a XOR word_rotr 13 a XOR word_rotr 22 a) + ((a AND b) XOR (a AND c) XOR (b AND c))
     in (T1 + T2, a, b, c, d + T1, e, f, g))"

definition list_of_vars :: "vars \<Rightarrow> u32 list" where
  "list_of_vars v = (case v of (a, b, c, d, e, f, g, h) \<Rightarrow> [a, b, c, d, e, f, g, h])"

definition vars_of_list :: "u32 list \<Rightarrow> vars" where
  "vars_of_list h = (h ! 0, h ! 1, h ! 2, h ! 3, h ! 4, h ! 5, h ! 6, h ! 7)"

definition fips_block :: "u32 list \<Rightarrow> bytes \<Rightarrow> u32 list" where
  "fips_block h m = map2 (+) h (list_of_vars (working m (vars_of_list h) 64))"

definition fips_sha256 :: "bytes \<Rightarrow> bytes" where
  "fips_sha256 m = concat (map (\<lambda>w. rev (nat_bytes 4 (unat w)))
     (foldl fips_block (map (root_bits 2) (take 8 first_primes)) (chunks (padded m))))"

section \<open>Constants\<close>

text \<open>A candidate is right when it completes an integer to the integer root of the scaled prime.\<close>

definition root_check :: "nat \<Rightarrow> nat \<times> nat \<times> u32 \<Rightarrow> bool" where
  "root_check k z = (case z of (c, p, w) \<Rightarrow>
     let x = c * 2 ^ 32 + unat w; y = p * 2 ^ (32 * k) in x ^ k \<le> y \<and> y < (x + 1) ^ k)"

lemma root_floor:
  assumes "0 < k" "x ^ k \<le> p * 2 ^ (32 * k)" "p * 2 ^ (32 * k) < (x + 1) ^ k"
  shows "\<lfloor>2 ^ 32 * root k (real p)\<rfloor> = int x"
proof -
  let ?r = "2 ^ 32 * root k (real p)"
  have r0: "0 \<le> ?r" by (simp add: real_root_ge_zero)
  have rk: "?r ^ k = real (p * 2 ^ (32 * k))" using real_root_pow_pos2 [OF assms(1), of "real p"] by (simp add: power_mult_distrib power_mult)
  have "real x ^ k \<le> ?r ^ k" unfolding rk using assms(2) by (metis of_nat_le_iff of_nat_power)
  then have lo: "real x \<le> ?r" using power_strict_mono [OF _ r0 assms(1), of "real x"] by linarith
  have "?r ^ k < real (x + 1) ^ k" unfolding rk using assms(3) by (metis of_nat_less_iff of_nat_power)
  then have hi: "?r < real (x + 1)" by (rule power_less_imp_less_base) simp
  show ?thesis using lo hi by (simp add: floor_eq_iff)
qed

lemma root_check_sound:
  assumes "root_check k (c, p, w)" "0 < k"
  shows "root_bits k p = w"
proof -
  have "(c * 2 ^ 32 + unat w) ^ k \<le> p * 2 ^ (32 * k)" "p * 2 ^ (32 * k) < (c * 2 ^ 32 + unat w + 1) ^ k"
    using assms(1) unfolding root_check_def Let_def by simp_all
  then have "root_bits k p = word_of_int (int (c * 2 ^ 32 + unat w))" using root_floor [OF assms(2)] by (simp add: root_bits_def)
  also have "\<dots> = of_nat c * (4294967296 :: u32) + w" by simp
  also have "(4294967296 :: u32) = 0" by simp
  finally have "root_bits k p = of_nat c * 0 + w" .
  then show ?thesis by simp
qed

lemma root_bits_list:
  "list_all (root_check k) (zip cs (zip ps ws)) \<Longrightarrow> 0 < k \<Longrightarrow> length cs = length ws \<Longrightarrow> length ps = length ws \<Longrightarrow> map (root_bits k) ps = ws"
  by (rule nth_equalityI) (auto simp: list_all_length root_check_sound)

lemma SHA_K_checked: "map (root_bits 3) first_primes = SHA_K"
  by (rule root_bits_list [of _ "[1, 1, 1, 1, 2, 2, 2, 2, 2, 3, 3, 3, 3, 3, 3, 3, 3, 3, 4, 4, 4, 4, 4, 4, 4, 4, 4, 4, 4, 4, 5, 5, 5, 5, 5, 5, 5, 5, 5, 5, 5, 5, 5, 5, 5, 5, 5, 6, 6, 6, 6, 6, 6, 6, 6, 6, 6, 6, 6, 6, 6, 6, 6, 6]"])
    (simp_all add: first_primes_def SHA_K_def root_check_def)

lemma sha_init_checked: "map (root_bits 2) (take 8 first_primes) = sha_init"
  by (rule root_bits_list [of _ "[1, 1, 2, 2, 3, 3, 4, 4]"]) (simp_all add: first_primes_def sha_init_def root_check_def)

lemma SHA_K_roots: "t < 64 \<Longrightarrow> SHA_K ! t = root_bits 3 (first_primes ! t)"
proof -
  assume "t < 64"
  then have "t < length first_primes" by (simp add: first_primes_def)
  then show ?thesis using SHA_K_checked by (metis nth_map)
qed

lemma sha_init_roots: "sha_init = map (root_bits 2) (take 8 first_primes)"
  by (rule sha_init_checked [symmetric])

section \<open>Words and bytes\<close>

lemma ROR32_rotr: "0 < n \<Longrightarrow> n < 32 \<Longrightarrow> ROR32 x n = word_rotr n x"
proof (rule bit_word_eqI)
  fix i
  assume n: "0 < n" "n < 32" and i: "i < LENGTH(32)"
  have "(i + n) mod 32 = (if i + n < 32 then i + n else i + n - 32)" using n i by (auto simp: mod_if)
  then show "bit (ROR32 x n) i \<longleftrightarrow> bit (word_rotr n x) i"
    using n i by (auto simp: ROR32_def bit_simps add.commute dest: bit_imp_le_length)
qed

lemma or_plus: "(\<And>n. bit x n \<Longrightarrow> bit y n \<Longrightarrow> False) \<Longrightarrow> x OR y = x + (y :: u32)"
  by (subst disjunctive_add_eq_or) (auto intro!: bit_word_eqI simp: bit_simps)

lemma be32_word_of_be: "length p = 4 \<Longrightarrow> be32 p = word_of_be p"
proof -
  assume "length p = 4"
  then obtain a b c d where p: "p = [a, b, c, d]" by (auto simp: numeral_eq_Suc length_Suc_conv)
  let ?a = "ucast a :: u32" and ?b = "ucast b :: u32" and ?c = "ucast c :: u32" and ?d = "ucast d :: u32"
  have 1: "push_bit 8 ?c OR ?d = push_bit 8 ?c + ?d" by (rule or_plus) (auto simp: bit_simps dest: bit_imp_le_length)
  have 2: "push_bit 16 ?b OR (push_bit 8 ?c OR ?d) = push_bit 16 ?b + (push_bit 8 ?c OR ?d)"
    by (rule or_plus) (auto simp: bit_simps dest!: bit_imp_le_length)
  have 3: "push_bit 24 ?a OR (push_bit 16 ?b OR (push_bit 8 ?c OR ?d)) = push_bit 24 ?a + (push_bit 16 ?b OR (push_bit 8 ?c OR ?d))"
    by (rule or_plus) (auto simp: bit_simps dest!: bit_imp_le_length)
  have "be32 p = push_bit 24 ?a + (push_bit 16 ?b + (push_bit 8 ?c + ?d))" 
    using 3 [unfolded 1 2 [unfolded 1]] 2 [unfolded 1] 1 by (simp add: be32_def p)
  then show ?thesis by (simp add: p word_of_be_def push_bit_eq_mult distrib_left)
qed

lemma ucast_drop_bit: "(ucast (drop_bit n (v :: 'a::len word)) :: u8) = of_nat (unat v div 2 ^ n)"
proof -
  have "(of_nat (unat (drop_bit n v)) :: u8) = ucast (drop_bit n v)" by simp
  moreover have "unat (drop_bit n v) = unat v div 2 ^ n" unfolding unat_drop_bit_eq by (rule drop_bit_eq_div)
  ultimately show ?thesis by (simp only:)
qed

lemma nat_bytes_nth: "i < n \<Longrightarrow> nat_bytes n v ! i = of_nat (v div 256 ^ i)"
proof (induction n arbitrary: i v)
  case (Suc n)
  then show ?case by (cases i) (simp_all add: div_mult2_eq)
qed simp

lemma be32put_bytes: "be32put v = rev (nat_bytes 4 (unat v))"
proof -
  have "(4 :: nat) = Suc (Suc (Suc (Suc 0)))" by simp
  then have "nat_bytes 4 n = [of_nat n, of_nat (n div 256), of_nat (n div 65536), of_nat (n div 16777216)]" for n
    by (simp only: nat_bytes.simps div_mult2_eq [symmetric]) simp
  then show ?thesis
    using ucast_drop_bit [of 24 v] ucast_drop_bit [of 16 v] ucast_drop_bit [of 8 v] by (simp add: be32put_def)
qed

lemma be64put_bytes: "8 * n < 2 ^ 64 \<Longrightarrow> be64put (of_nat n * 8) = bits_of (8 * n)"
proof -
  assume "8 * n < 2 ^ 64"
  then have "unat (of_nat n * 8 :: u64) = 8 * n" by (simp add: unat_word_ariths unat_of_nat mult.commute)
  then show ?thesis
    by (intro nth_equalityI) (simp_all add: be64put_def bits_of_def rev_nth nat_bytes_nth ucast_drop_bit power_mult)
qed

section \<open>Blocks\<close>

lemmas macro_defs = SIG0_def SIG1_def GAM0_def GAM1_def CH_def MAJ_def

lemma sched_W:
  assumes "length m = 64"
  shows "sched m = map (W m) [0..<64]"
proof -
  have base: "map (\<lambda>i. be32 (bslice m (i * 4) 4)) [0..<16] = map (W m) [0..<16]"
    using assms by (auto simp: W.simps be32_word_of_be bslice_def mult.commute)
  have "fold sched_step [16..<16 + n] (map (W m) [0..<16]) = map (W m) [0..<16 + n]" for n
  proof (induction n)
    case (Suc n)
    have "sched_step (16 + n) (map (W m) [0..<16 + n]) = map (W m) [0..<16 + n] @ [W m (16 + n)]"
      by (simp add: sched_step_def W.simps [of m "16 + n"] macro_defs ROR32_rotr)
    moreover have "[k..<16 + Suc n] = [k..<16 + n] @ [16 + n]" if "k \<le> 16" for k
      unfolding add_Suc_right by (rule upt_Suc_append) (use that in simp)
    ultimately show ?case using Suc by (simp only: fold_append fold.simps comp_apply id_apply map_append list.map order_refl zero_le)
  qed simp
  from this [of 48] show ?thesis by (simp add: sched_def base)
qed

lemma round_steps:
  assumes "length m = 64" "t \<le> 64"
  shows "fold (round_step (sched m)) [0..<t] v = working m v t"
  using assms(2)
proof (induction t)
  case (Suc t)
  then have "round_step (sched m) t (working m v t) = working m v (Suc t)"
    by (simp add: round_step_def sched_W [OF assms(1)] SHA_K_roots macro_defs ROR32_rotr split: prod.split)
  then show ?case using Suc by simp
qed simp

lemma sha256_block_fips: "length m = 64 \<Longrightarrow> length h = 8 \<Longrightarrow> sha256_block h m = fips_block h m"
proof -
  assume m: "length m = 64" and "length h = 8"
  then obtain a b c d e f g k where h: "h = [a, b, c, d, e, f, g, k]" by (auto simp: numeral_eq_Suc length_Suc_conv)
  show ?thesis unfolding sha256_block_def round_steps [OF m order_refl] fips_block_def
    by (simp add: h list_of_vars_def vars_of_list_def split: prod.split)
qed

lemma length_fips_block: "length h = 8 \<Longrightarrow> length (fips_block h m) = 8"
  by (simp add: fips_block_def list_of_vars_def split: prod.split)

lemma foldl_blocks:
  "length h = 8 \<Longrightarrow> \<forall>m \<in> set ms. length m = 64 \<Longrightarrow> foldl sha256_block h ms = foldl fips_block h ms \<and> length (foldl fips_block h ms) = 8"
  by (induction ms arbitrary: h) (simp_all add: sha256_block_fips length_fips_block)

section \<open>Streaming\<close>

lemma chunks_append: "length xs mod 64 = 0 \<Longrightarrow> chunks (xs @ ys) = chunks xs @ chunks ys"
proof (induction xs rule: chunks.induct)
  case (1 xs)
  show ?case
  proof (cases "length xs < 64")
    case True
    then have "xs = []" using 1(2) by auto
    then show ?thesis by (simp add: chunks.simps [of "[]"])
  next
    case False
    then have "chunks (drop 64 xs @ ys) = chunks (drop 64 xs) @ chunks ys" using 1 by (simp add: mod_if)
    then show ?thesis using False by (simp add: chunks.simps [of xs] chunks.simps [of "xs @ ys"])
  qed
qed

lemma chunks_one: "length xs = 64 \<Longrightarrow> chunks xs = [xs]"
  by (simp add: chunks.simps [of xs] chunks.simps [of "[]"])

lemma chunks_slices: "64 * n \<le> length m \<Longrightarrow> chunks (take (64 * n) m) = map (\<lambda>k. bslice m (64 * k) 64) [0..<n]"
proof (induction n)
  case 0
  then show ?case by (simp add: chunks.simps [of "[]"])
next
  case (Suc n)
  have "take (64 * Suc n) m = take (64 * n) m @ bslice m (64 * n) 64" using take_add [of "64 * n" 64 m] by (simp add: bslice_def add.commute)
  then show ?case using Suc by (simp add: chunks_append chunks_one)
qed

lemma padded_chunks:
  fixes m :: bytes
  defines "full \<equiv> length m - length m mod 64" and "rem \<equiv> length m mod 64"
  shows "chunks (padded m) = map (\<lambda>k. bslice m (64 * k) 64) [0..<full div 64] @
    (if rem < 56 then [bslice m full rem @ [0x80] @ replicate (56 - rem - 1) 0 @ bits_of (8 * length m)]
     else [bslice m full rem @ [0x80] @ replicate (64 - rem - 1) 0, replicate 56 0 @ bits_of (8 * length m)])"
proof -
  have f: "full = 64 * (full div 64)" by (simp add: full_def minus_mod_eq_mult_div)
  have r: "full + rem = length m" "rem < 64" by (simp_all add: full_def rem_def)
  have tl: "drop full m = bslice m full rem" using r by (simp add: bslice_def)
  have "padded m = take full m @ bslice m full rem @ [0x80] @ replicate ((119 - rem) mod 64) 0 @ bits_of (8 * length m)"
    by (simp add: padded_def flip: rem_def tl)
  moreover have "chunks (take full m) = map (\<lambda>k. bslice m (64 * k) 64) [0..<full div 64]"
    using chunks_slices [of "full div 64" m] f r by simp
  moreover have "length (take full m) mod 64 = 0"
  proof -
    have "length (take full m) = full" using r by simp
    also have "\<dots> mod 64 = 0" by (subst f) simp
    finally show ?thesis .
  qed
  ultimately have c: "chunks (padded m) = map (\<lambda>k. bslice m (64 * k) 64) [0..<full div 64] @
      chunks (bslice m full rem @ [0x80] @ replicate ((119 - rem) mod 64) 0 @ bits_of (8 * length m))"
    by (simp add: chunks_append)
  have l: "length (bslice m full rem) = rem" "length (bits_of (8 * length m)) = 8" using r by (simp_all add: bits_of_def)
  show ?thesis
  proof (cases "rem < 56")
    case True
    then have "(119 - rem) mod 64 = 55 - rem" by (simp add: mod_if)
    then show ?thesis using True l by (simp add: c chunks_one)
  next
    case False
    then have "(119 - rem) mod 64 = (63 - rem) + 56" using r by (simp add: mod_if)
    then have "bslice m full rem @ [0x80] @ replicate ((119 - rem) mod 64) 0 @ bits_of (8 * length m) =
        (bslice m full rem @ [0x80] @ replicate (64 - rem - 1) 0) @ (replicate 56 0 @ bits_of (8 * length m))"
      by (simp only: replicate_add append_assoc) (simp add: Suc_diff_Suc)
    moreover have "length (bslice m full rem @ [0x80] @ replicate (64 - rem - 1) 0) = 64" using l r by simp
    moreover have "length (replicate 56 0 @ bits_of (8 * length m)) = 64" using l by simp
    ultimately show ?thesis using False unfolding c by (simp only: chunks_append chunks_one mod_self if_False append.simps)
  qed
qed

lemma chunks_64: "\<forall>m \<in> set (chunks xs). length m = 64"
proof (induction xs rule: chunks.induct)
  case (1 xs)
  show ?case
  proof (cases "length xs < 64")
    case False
    then have "set (chunks xs) = insert (take 64 xs) (set (chunks (drop 64 xs)))" "length (take 64 xs) = 64"
      by (simp_all add: chunks.simps [of xs])
    then show ?thesis using "1.IH" [OF False] by (metis insert_iff)
  qed (simp add: chunks.simps [of xs])
qed

lemma full_rest: "(n :: nat) - (n - n mod 64) = n mod 64"
  by simp

lemma fold_slices:
  "fold (\<lambda>i h. sha256_block h (bslice msg i 64)) (map (\<lambda>k. 64 * k) [0..<n]) h = foldl sha256_block h (map (\<lambda>k. bslice msg (64 * k) 64) [0..<n])"
  by (simp add: fold_map foldl_map foldl_conv_fold comp_def)

lemma length_sha_init: "length sha_init = 8"
  by (simp add: sha_init_def)

text \<open>
  C35. The digest is SHA-256: on every message whose length in bits fits 64 bits, \<^verbatim>\<open>vos_sha256\<close> returns the value of the
  standard, with its round constants and initial words the fractional bits of the roots of the first primes.
\<close>

theorem vos_sha256_correct:
  assumes "8 * length msg < 2 ^ 64"
  shows "vos_sha256 msg = fips_sha256 msg"
proof -
  let ?h = "foldl sha256_block sha_init (chunks (padded msg))"
  have "vos_sha256 msg = concat (map be32put ?h)"
    unfolding vos_sha256_def Let_def padded_chunks full_rest fold_slices be64put_bytes [OF assms] foldl_append
    by (simp only: foldl.simps if_distrib [of "foldl sha256_block _"])
  also have "?h = foldl fips_block sha_init (chunks (padded msg))"
    using foldl_blocks [OF length_sha_init chunks_64, of "padded msg"] by (rule conjunct1)
  finally show ?thesis by (simp only: fips_sha256_def be32put_bytes sha_init_roots)
qed

theorem vos_sha256_correct_witness: "vos_sha256 [0x61, 0x62, 0x63] = fips_sha256 [0x61, 0x62, 0x63]"
  using vos_sha256_correct [of "[0x61, 0x62, 0x63]"] by simp

end
