(* ===== verification/Lab1.thy ===== *)
theory Lab1
  imports Console Sha256
begin

text \<open>
  The warm-up readers. \<^verbatim>\<open>lab1/baremetal/main.c\<close> parses an image linked into the guest and prints one record per
  wanted file; \<^verbatim>\<open>lab1/linux/flag-reader.c\<close> reads the same files through the operating system and prints the same
  records. The console is the text sent to it. A load past the end of the image is the outcome \<open>Overrun\<close>. The
  results of the system calls of the Linux reader are arguments.
\<close>

section \<open>The bare-metal reader\<close>

definition vos_memcmp :: "bytes \<Rightarrow> bytes \<Rightarrow> nat \<Rightarrow> int" where
  "vos_memcmp a b n = (case dropWhile (\<lambda>i. a ! i = b ! i) [0..<n] of [] \<Rightarrow> 0 | i # _ \<Rightarrow> uint (a ! i) - uint (b ! i))"

text \<open>A load of \<open>n\<close> bytes of the image.\<close>

definition img_load :: "bytes \<Rightarrow> nat \<Rightarrow> nat \<Rightarrow> bytes option" where
  "img_load img off n = (if off + n \<le> length img then Some (bslice img off n) else None)"

definition ld_le32 :: "bytes \<Rightarrow> nat \<Rightarrow> u32 option" where
  "ld_le32 img off = map_option (\<lambda>p. ucast (p ! 0) OR push_bit 8 (ucast (p ! 1)) OR push_bit 16 (ucast (p ! 2)) OR push_bit 24 (ucast (p ! 3)))
     (img_load img off 4)"

text \<open>The digits of \<^verbatim>\<open>buf\<close>, least significant first.\<close>

fun u32_digits :: "nat \<Rightarrow> bytes" where
  "u32_digits v = (if v = 0 then [] else of_nat (48 + v mod 10) # u32_digits (v div 10))"

declare u32_digits.simps [simp del]

definition print_u32 :: "u32 \<Rightarrow> bytes" where
  "print_u32 v = (if v = 0 then [48] else rev (u32_digits (unat v)))"

definition print_hex :: "bytes \<Rightarrow> bytes" where
  "print_hex digest = concat (map (\<lambda>d. [digits ! unat (drop_bit 4 d), digits ! unat (d AND 0x0f)]) digest)"

definition emit_record :: "bytes \<Rightarrow> bytes \<Rightarrow> bytes" where
  "emit_record name content = text_bytes ''CTF_RECORD name='' @ name @ text_bytes '' length='' @ print_u32 (of_nat (length content)) @
     text_bytes '' sha256='' @ print_hex (vos_sha256 content) @ [10]"

text \<open>How the guest ends: powered off with success or failure after printing a text, or a load outside the image.\<close>

datatype ending = Passed bytes | Failed bytes | Overrun

definition fail_text :: "string \<Rightarrow> bytes" where
  "fail_text reason = [10] @ text_bytes ''CTF_BAREMETAL_FAIL: '' @ text_bytes reason @ [10]"

definition MAX_IMAGE :: nat where "MAX_IMAGE = 4096"

definition MAX_ENTRIES :: u32 where "MAX_ENTRIES = 16"

definition MAX_ENTRY_SIZE :: u32 where "MAX_ENTRY_SIZE = 64"

definition MAX_NAME :: nat where "MAX_NAME = 8"

definition MAX_CONTENT :: u32 where "MAX_CONTENT = 4096"

definition WANT :: "bytes list" where
  "WANT = [text_bytes ''flag1'', text_bytes ''flag2'']"

definition banner :: bytes where
  "banner = text_bytes ''ctf-warmup baremetal reader reading embedded generated image'' @ [10]"

text \<open>The name loop: bytes up to a NUL or to \<open>MAX_NAME\<close> of them.\<close>

fun read_name :: "bytes \<Rightarrow> nat \<Rightarrow> nat \<Rightarrow> bytes option" where
  "read_name img off 0 = Some []"
| "read_name img off (Suc n) = (case img_load img off 1 of
     None \<Rightarrow> None
   | Some b \<Rightarrow> if b ! 0 = 0 then Some [] else map_option ((#) (b ! 0)) (read_name img (off + 1) n))"

text \<open>
  The tables \<^verbatim>\<open>found\<close> and \<^verbatim>\<open>found_len\<close>: where in the image the content of a wanted name is, and its length. A wanted name
  keeps its first entry.
\<close>

type_synonym span = "nat \<times> nat"

definition note_entry :: "bytes \<Rightarrow> span \<Rightarrow> span option list \<Rightarrow> span option list" where
  "note_entry name content found = map2 (\<lambda>w f. if f = None \<and> length w = length name \<and> vos_memcmp name w (length name) = 0 then Some content else f) WANT found"

text \<open>The entries \<open>es\<close> of the directory, \<open>Inl\<close> when the guest stops.\<close>

fun scan_entries :: "bytes \<Rightarrow> nat \<Rightarrow> nat \<Rightarrow> nat list \<Rightarrow> span option list \<Rightarrow> ending + span option list" where
  "scan_entries img dir esz [] found = Inr found"
| "scan_entries img dir esz (e # es) found = (let ent = dir + e * esz in
     case (read_name img ent MAX_NAME, ld_le32 img (ent + 8), ld_le32 img (ent + 12)) of
       (Some name, Some data_off, Some data_len) \<Rightarrow>
         if unat data_off + unat data_len > length img then Inl (Failed (banner @ fail_text ''entry data out of bounds''))
         else if data_len = 0 \<or> data_len > MAX_CONTENT then Inl (Failed (banner @ fail_text ''oversized entry''))
         else scan_entries img dir esz es (note_entry name (unat data_off, unat data_len) found)
     | _ \<Rightarrow> Inl Overrun)"

text \<open>The records: hashing a content loads all its bytes.\<close>

fun emit_records :: "bytes \<Rightarrow> (bytes \<times> span) list \<Rightarrow> bytes option" where
  "emit_records img [] = Some []"
| "emit_records img ((name, off, len) # rs) = (case img_load img off len of
     None \<Rightarrow> None
   | Some content \<Rightarrow> map_option ((@) (emit_record name content)) (emit_records img rs))"

definition finish :: "bytes \<Rightarrow> span option list \<Rightarrow> ending" where
  "finish img found = (case dropWhile (\<lambda>(w, f). f \<noteq> None) (zip WANT found) of
     (w, _) # _ \<Rightarrow> Failed (banner @ text_bytes ''missing entry '' @ w @ [10] @ fail_text ''missing required entry'')
   | [] \<Rightarrow> (case emit_records img (zip WANT (map the found)) of
       None \<Rightarrow> Overrun
     | Some records \<Rightarrow> Passed (banner @ records @ text_bytes ''CTF_BAREMETAL_OK'' @ [10])))"

definition MAGIC :: bytes where
  "MAGIC = text_bytes ''VOSCTF1'' @ [0]"

definition main_baremetal :: "bytes \<Rightarrow> ending" where
  "main_baremetal img =
     (if length img < 28 then Failed (banner @ fail_text ''image too small for header'')
      else if vos_memcmp img MAGIC 8 \<noteq> 0 then Failed (banner @ fail_text ''bad image magic'')
      else case (ld_le32 img 8, ld_le32 img 12, ld_le32 img 16, ld_le32 img 20, ld_le32 img 24) of
        (Some entry_count, Some dir_offset, Some entry_size, Some sector_size, Some image_size) \<Rightarrow>
          if entry_count = 0 \<or> entry_count > MAX_ENTRIES then Failed (banner @ fail_text ''invalid entry count'')
          else if entry_size = 0 \<or> entry_size > MAX_ENTRY_SIZE then Failed (banner @ fail_text ''invalid entry size'')
          else if sector_size = 0 then Failed (banner @ fail_text ''invalid sector size'')
          else if unat image_size \<noteq> length img \<or> unat image_size > MAX_IMAGE then Failed (banner @ fail_text ''image size mismatch'')
          else if dir_offset = 0 \<or> dir_offset + entry_count * entry_size > image_size then Failed (banner @ fail_text ''directory out of bounds'')
          else (case scan_entries img (unat dir_offset) (unat entry_size) [0..<unat entry_count] [None, None] of
              Inl stop \<Rightarrow> stop
            | Inr found \<Rightarrow> finish img found)
      | _ \<Rightarrow> Overrun)"

section \<open>The Linux reader\<close>

text \<open>One result of \<^verbatim>\<open>read\<close>: an error, or the bytes delivered (none at the end of the file).\<close>

datatype read_result = Read_error | Read_bytes bytes

definition MAX_CONTENT_LINUX :: nat where "MAX_CONTENT_LINUX = 4096"

text \<open>
  The loop of \<^verbatim>\<open>read_one_file\<close> on the results the calls of \<^verbatim>\<open>read\<close> give, in order; \<open>None\<close> is the return value 0, and the
  list of results is as long as the loop runs.
\<close>

fun read_loop :: "nat \<Rightarrow> bytes \<Rightarrow> read_result list \<Rightarrow> bytes option" where
  "read_loop cap used [] = None"
| "read_loop cap used (Read_error # rs) = None"
| "read_loop cap used (Read_bytes bs # rs) =
     (if bs = [] then Some used
      else if length (used @ bs) \<ge> cap then None
      else read_loop cap (used @ bs) rs)"

text \<open>The result of \<^verbatim>\<open>open\<close>, the results of \<^verbatim>\<open>read\<close>, and whether \<^verbatim>\<open>close\<close> succeeds.\<close>

type_synonym file_calls = "bool \<times> read_result list \<times> bool"

definition read_one_file :: "file_calls \<Rightarrow> bytes option" where
  "read_one_file c = (case c of (open_ok, reads, close_ok) \<Rightarrow>
     if \<not> open_ok then None
     else case read_loop MAX_CONTENT_LINUX [] reads of None \<Rightarrow> None | Some content \<Rightarrow> if close_ok then Some content else None)"

text \<open>The C library's decimal and hexadecimal conversions \<^verbatim>\<open>%zu\<close> and \<^verbatim>\<open>%02x\<close>.\<close>

fun dec_text :: "nat \<Rightarrow> bytes" where
  "dec_text n = (if n < 10 then [of_nat (48 + n)] else dec_text (n div 10) @ [of_nat (48 + n mod 10)])"

declare dec_text.simps [simp del]

definition hex_digit :: "nat \<Rightarrow> u8" where
  "hex_digit d = (if d < 10 then of_nat (48 + d) else of_nat (87 + d))"

definition hex2_text :: "u8 \<Rightarrow> bytes" where
  "hex2_text b = [hex_digit (unat b div 16), hex_digit (unat b mod 16)]"

definition emit_record_linux :: "bytes \<Rightarrow> bytes \<Rightarrow> bytes" where
  "emit_record_linux name buf = text_bytes ''CTF_RECORD name='' @ name @ text_bytes '' length='' @ dec_text (length buf) @
     text_bytes '' sha256='' @ concat (map hex2_text (vos_sha256 buf)) @ [10]"

text \<open>
  \<^verbatim>\<open>main\<close> with one argument: for each file whether its path fits the buffer, the file's calls, and whether the output
  succeeds. The result is the exit status and the text on standard output.
\<close>

fun main_linux :: "(bytes \<times> bool \<times> file_calls \<times> bool) list \<Rightarrow> int \<times> bytes" where
  "main_linux [] = (0, [])"
| "main_linux ((name, fits, calls, printed) # fs) =
     (if \<not> fits then (1, [])
      else case read_one_file calls of
          None \<Rightarrow> (1, [])
        | Some content \<Rightarrow> if \<not> printed then (1, [])
            else (case main_linux fs of (st, out) \<Rightarrow> (st, emit_record_linux name content @ out)))"


section \<open>Comparison, loads and numbers\<close>

lemma dropWhile_Nil: "dropWhile P xs = [] \<longleftrightarrow> (\<forall>x \<in> set xs. P x)"
  by (induction xs) auto

lemma vos_memcmp_0:
  assumes "n \<le> length a" "n \<le> length b"
  shows "vos_memcmp a b n = 0 \<longleftrightarrow> take n a = take n b"
proof (cases "dropWhile (\<lambda>i. a ! i = b ! i) [0..<n]")
  case Nil
  then have "\<forall>i < n. a ! i = b ! i" unfolding dropWhile_Nil by simp
  then have "take n a = take n b" using assms by (intro nth_equalityI) auto
  then show ?thesis by (simp add: vos_memcmp_def Nil)
next
  case (Cons i js)
  then have "a ! i \<noteq> b ! i" using hd_dropWhile [of "\<lambda>i. a ! i = b ! i" "[0..<n]"] by simp
  moreover have "i < n" using Cons set_dropWhileD [of i "\<lambda>i. a ! i = b ! i" "[0..<n]"] by simp
  ultimately have "take n a \<noteq> take n b" by (metis nth_take)
  moreover have "uint (a ! i) \<noteq> uint (b ! i)" using \<open>a ! i \<noteq> b ! i\<close> unsigned_word_eqI by blast
  ultimately show ?thesis by (simp add: vos_memcmp_def Cons)
qed

lemma ld_le32_get: "off + 4 \<le> length img \<Longrightarrow> ld_le32 img off = Some (get32 img off)"
proof -
  assume "off + 4 \<le> length img"
  then have l: "length (bslice img off 4) = 4" by simp
  then obtain a b c d where p: "bslice img off 4 = [a, b, c, d]" by (auto simp: numeral_eq_Suc length_Suc_conv)
  have "(ucast a OR push_bit 8 (ucast b) OR push_bit 16 (ucast c) OR push_bit 24 (ucast d) :: u32) = be32 (rev [a, b, c, d])"
    by (simp add: be32_def or.commute or.left_commute)
  also have "\<dots> = get32 img off" using be32_word_of_be [of "rev [a, b, c, d]"] by (simp add: get32_def p word_of_be_def)
  finally show ?thesis using \<open>off + 4 \<le> length img\<close> by (simp add: ld_le32_def img_load_def p)
qed

lemma ld_le32_None: "\<not> off + 4 \<le> length img \<Longrightarrow> ld_le32 img off = None"
  by (simp add: ld_le32_def img_load_def)

text \<open>The name at an offset of the image.\<close>

definition name_at :: "bytes \<Rightarrow> nat \<Rightarrow> bytes" where
  "name_at img off = takeWhile (\<lambda>b. b \<noteq> 0) (bslice img off MAX_NAME)"

lemma read_name_take: "off + n \<le> length img \<Longrightarrow> read_name img off n = Some (takeWhile (\<lambda>b. b \<noteq> 0) (bslice img off n))"
proof (induction n arbitrary: off)
  case 0
  then show ?case by (simp add: bslice_def)
next
  case (Suc n)
  then have s: "bslice img off (Suc n) = img ! off # bslice img (off + 1) n" "bslice img off (Suc 0) = [img ! off]"
    by (simp_all add: bslice_def Cons_nth_drop_Suc [symmetric] take_Suc)
  show ?case using Suc by (simp add: img_load_def s)
qed

lemma u32_digits_dec: "0 < n \<Longrightarrow> rev (u32_digits n) = dec_text n"
proof (induction n rule: less_induct)
  case (less n)
  show ?case
  proof (cases "n < 10")
    case True
    then show ?thesis using less.prems by (simp add: u32_digits.simps [of n] u32_digits.simps [of 0] dec_text.simps)
  next
    case False
    then have "rev (u32_digits (n div 10)) = dec_text (n div 10)" using less by simp
    then show ?thesis using False by (simp add: u32_digits.simps [of n] dec_text.simps [of n])
  qed
qed

lemma print_u32_dec: "n < 2 ^ 32 \<Longrightarrow> print_u32 (of_nat n) = dec_text n"
proof -
  assume n: "n < 2 ^ 32"
  then have "unat (of_nat n :: u32) = n" by (simp add: unat_of_nat)
  moreover from this have "(of_nat n :: u32) = 0 \<longleftrightarrow> n = 0" by (metis unat_eq_0)
  ultimately show ?thesis by (simp add: print_u32_def u32_digits_dec dec_text.simps [of 0])
qed

lemma digits_hex: "k < 16 \<Longrightarrow> digits ! k = hex_digit k"
proof -
  assume "k < 16"
  moreover have "\<forall>k \<in> set [0..<16]. digits ! k = hex_digit k" by (simp add: digits_def hex_digit_def upt_rec)
  ultimately show ?thesis by simp
qed

lemma print_hex_text: "print_hex ds = concat (map hex2_text ds)"
proof -
  have "[digits ! unat (drop_bit 4 d), digits ! unat (d AND 0x0f)] = hex2_text d" for d :: u8
  proof -
    have "unat (drop_bit 4 d) = unat d div 16" unfolding unat_drop_bit_eq by (simp add: drop_bit_eq_div)
    moreover have "unat (d AND 0x0f) = unat d mod 16"
    proof -
      have "(d AND 0x0f) = take_bit 4 d" by (simp add: take_bit_eq_mask mask_eq_exp_minus_1)
      then show ?thesis by (simp add: unsigned_take_bit_eq) (simp add: take_bit_eq_mod)
    qed
    moreover have "unat d < 256" using unat_bound [of d] by simp
    ultimately show ?thesis by (simp add: digits_hex hex2_text_def)
  qed
  then show ?thesis by (simp add: print_hex_def)
qed

lemma emit_record_same: "length c < 2 ^ 32 \<Longrightarrow> emit_record name c = emit_record_linux name c"
  by (simp add: emit_record_def emit_record_linux_def print_u32_dec print_hex_text)


section \<open>The directory of an image\<close>

definition entry_count :: "bytes \<Rightarrow> nat" where "entry_count img = unat (get32 img 8)"

definition entry_off :: "bytes \<Rightarrow> nat \<Rightarrow> nat" where
  "entry_off img e = unat (get32 img 12) + e * unat (get32 img 16)"

definition span_at :: "bytes \<Rightarrow> nat \<Rightarrow> span" where
  "span_at img off = (unat (get32 img (off + 8)), unat (get32 img (off + 12)))"

definition content_at :: "bytes \<Rightarrow> nat \<Rightarrow> bytes" where
  "content_at img off = bslice img (unat (get32 img (off + 8))) (unat (get32 img (off + 12)))"

definition img_files :: "bytes \<Rightarrow> (bytes \<times> bytes) list" where
  "img_files img = map (\<lambda>e. (name_at img (entry_off img e), content_at img (entry_off img e))) [0..<entry_count img]"

text \<open>Where the directory puts the content of each name.\<close>

definition img_spans :: "bytes \<Rightarrow> (bytes \<times> span) list" where
  "img_spans img = map (\<lambda>e. (name_at img (entry_off img e), span_at img (entry_off img e))) [0..<entry_count img]"

lemma img_files_spans: "map_of (img_files img) w = map_option (\<lambda>(off, len). bslice img off len) (map_of (img_spans img) w)"
proof -
  have "map_of (map (\<lambda>e. (n e, content_at img (f e))) es) w = map_option (\<lambda>(off, len). bslice img off len) (map_of (map (\<lambda>e. (n e, span_at img (f e))) es) w)"
    for n and f :: "nat \<Rightarrow> nat" and es by (induction es) (auto simp: content_at_def span_at_def)
  then show ?thesis unfolding img_files_def img_spans_def .
qed

lemma length_name_at: "length (name_at img off) \<le> 8"
  using length_takeWhile_le [of "\<lambda>b. b \<noteq> 0" "bslice img off MAX_NAME"] by (simp add: name_at_def bslice_def MAX_NAME_def)

lemma note_entry_match: "note_entry name c found = map2 (\<lambda>w f. if f = None \<and> name = w then Some c else f) WANT found"
proof -
  have "(length w = length name \<and> vos_memcmp name w (length name) = 0) = (name = w)" for w
    using vos_memcmp_0 [of "length name" name w] by auto
  then show ?thesis by (simp add: note_entry_def)
qed

text \<open>The entries that pass the checks extend the table by the first entry of each wanted name.\<close>

lemma scan_step:
  assumes "scan_entries img dir esz (e # es) found = Inr found'" "length found = length WANT"
  defines "off \<equiv> dir + e * esz"
  shows "off + 16 \<le> length img"
    "scan_entries img dir esz es (note_entry (name_at img off) (span_at img off) found) = Inr found'"
    "length (note_entry (name_at img off) (span_at img off) found) = length WANT"
proof -
  show in_img: "off + 16 \<le> length img"
  proof (rule ccontr)
    assume "\<not> off + 16 \<le> length img"
    then show False using assms(1) by (auto simp: off_def Let_def ld_le32_None split: option.splits)
  qed
  then show "scan_entries img dir esz es (note_entry (name_at img off) (span_at img off) found) = Inr found'"
    using assms(1) by (auto simp: off_def Let_def read_name_take ld_le32_get name_at_def span_at_def MAX_NAME_def split: if_splits)
  show "length (note_entry (name_at img off) (span_at img off) found) = length WANT" using assms(2) by (simp add: note_entry_match)
qed

lemma scan_found:
  assumes "scan_entries img dir esz es found = Inr found'" "length found = length WANT"
  shows "found' = map2 (\<lambda>w f. case f of Some c \<Rightarrow> Some c
    | None \<Rightarrow> map_of (map (\<lambda>e. (name_at img (dir + e * esz), span_at img (dir + e * esz))) es) w) WANT found"
  using assms
proof (induction es arbitrary: found)
  case Nil
  then show ?case by (auto intro!: nth_equalityI split: option.split)
next
  case (Cons e es)
  note IH = Cons.IH [OF scan_step(2,3) [OF Cons.prems]]
  show ?case unfolding IH
    using Cons.prems(2) by (intro nth_equalityI) (auto simp: note_entry_match split: option.split)
qed


text \<open>Every content the table names lies inside the image.\<close>

abbreviation inside :: "bytes \<Rightarrow> span option list \<Rightarrow> bool" where
  "inside img found \<equiv> (\<forall>off len. Some (off, len) \<in> set found \<longrightarrow> off + len \<le> length img)"

lemma note_entry_inside: "inside img found \<Longrightarrow> fst c + snd c \<le> length img \<Longrightarrow> inside img (note_entry name c found)"
  by (fastforce simp: note_entry_match set_zip split: if_splits)

lemma scan_inside: "scan_entries img dir esz es found = Inr found' \<Longrightarrow> inside img found \<Longrightarrow> inside img found'"
proof (induction es arbitrary: found)
  case (Cons e es)
  let ?ent = "dir + e * esz"
  obtain name data_off data_len where l: "read_name img ?ent MAX_NAME = Some name" "ld_le32 img (?ent + 8) = Some data_off" "ld_le32 img (?ent + 12) = Some data_len"
    using Cons.prems(1) by (simp add: Let_def split: option.splits)
  then have "unat data_off + unat data_len \<le> length img" "scan_entries img dir esz es (note_entry name (unat data_off, unat data_len) found) = Inr found'"
    using Cons.prems(1) by (simp_all add: Let_def split: if_splits)
  moreover from this(1) have "inside img (note_entry name (unat data_off, unat data_len) found)"
    by (intro note_entry_inside [OF Cons.prems(2)]) simp
  ultimately show ?case by (intro Cons.IH)
qed simp

lemma scan_in_bounds:
  assumes "\<forall>e \<in> set es. dir + e * esz + 16 \<le> length img"
  shows "scan_entries img dir esz es found \<noteq> Inl Overrun"
  using assms
proof (induction es arbitrary: found)
  case (Cons e es)
  then show ?case by (simp add: Let_def read_name_take ld_le32_get MAX_NAME_def)
qed simp

lemma header_loads:
  "\<not> length img < 28 \<Longrightarrow> ld_le32 img 8 = Some (get32 img 8) \<and> ld_le32 img 12 = Some (get32 img 12) \<and> ld_le32 img 16 = Some (get32 img 16) \<and>
     ld_le32 img 20 = Some (get32 img 20) \<and> ld_le32 img 24 = Some (get32 img 24)"
  by (simp add: ld_le32_get)

lemma main_scan:
  assumes "\<forall>out. main_baremetal img \<noteq> Failed out"
  shows "28 \<le> length img \<and> length img \<le> MAX_IMAGE \<and> take 8 img = MAGIC \<and> unat (get32 img 24) = length img \<and>
     get32 img 12 + get32 img 8 * get32 img 16 \<le> get32 img 24 \<and>
     main_baremetal img = (case scan_entries img (unat (get32 img 12)) (unat (get32 img 16)) [0..<entry_count img] [None, None] of
       Inl stop \<Rightarrow> stop | Inr found \<Rightarrow> finish img found)"
proof -
  define r where "r = (case scan_entries img (unat (get32 img 12)) (unat (get32 img 16)) [0..<unat (get32 img 8)] [None, None] of
    Inl stop \<Rightarrow> stop | Inr found \<Rightarrow> finish img found)"
  define m where "m = main_baremetal img"
  have big: "\<not> length img < 28" using assms by (auto simp: main_baremetal_def)
  have magic: "vos_memcmp img MAGIC 8 = 0" using assms big by (auto simp: main_baremetal_def split: if_splits)
  have "take 8 img = MAGIC" using magic vos_memcmp_0 [of 8 img MAGIC] big by (simp add: MAGIC_def text_bytes_def)
  moreover have "m =
     (if get32 img 8 = 0 \<or> get32 img 8 > MAX_ENTRIES then Failed (banner @ fail_text ''invalid entry count'')
      else if get32 img 16 = 0 \<or> get32 img 16 > MAX_ENTRY_SIZE then Failed (banner @ fail_text ''invalid entry size'')
      else if get32 img 20 = 0 then Failed (banner @ fail_text ''invalid sector size'')
      else if unat (get32 img 24) \<noteq> length img \<or> unat (get32 img 24) > MAX_IMAGE then Failed (banner @ fail_text ''image size mismatch'')
      else if get32 img 12 = 0 \<or> get32 img 12 + get32 img 8 * get32 img 16 > get32 img 24 then Failed (banner @ fail_text ''directory out of bounds'')
      else r)"
    unfolding m_def main_baremetal_def using header_loads [OF big] big magic by (simp only: option.case prod.case r_def [symmetric]) simp
  ultimately show ?thesis
    using big assms unfolding m_def [symmetric] entry_count_def r_def [symmetric] by (auto split: if_split_asm)
qed

text \<open>The scan stops early only with a failure.\<close>

lemma scan_stops: "scan_entries img dir esz es found = Inl stop \<Longrightarrow> \<nexists>out. stop = Passed out"
  by (induction es arbitrary: found) (auto simp: Let_def split: option.splits if_splits)

lemma finish_pair: "inside img [f1, f2] \<Longrightarrow> finish img [f1, f2] = (case f1 of
      None \<Rightarrow> Failed (banner @ text_bytes ''missing entry '' @ text_bytes ''flag1'' @ [10] @ fail_text ''missing required entry'')
    | Some (o1, l1) \<Rightarrow> (case f2 of
        None \<Rightarrow> Failed (banner @ text_bytes ''missing entry '' @ text_bytes ''flag2'' @ [10] @ fail_text ''missing required entry'')
      | Some (o2, l2) \<Rightarrow> Passed (banner @ (emit_record (text_bytes ''flag1'') (bslice img o1 l1) @ emit_record (text_bytes ''flag2'') (bslice img o2 l2)) @
          text_bytes ''CTF_BAREMETAL_OK'' @ [10])))"
  by (auto simp: finish_def WANT_def img_load_def split: option.split)

lemma finish_not_overrun: "inside img [f1, f2] \<Longrightarrow> finish img [f1, f2] \<noteq> Overrun"
  by (simp add: finish_pair split: option.split)

lemma scan_pair:
  assumes "scan_entries img (unat (get32 img 12)) (unat (get32 img 16)) [0..<entry_count img] [None, None] = Inr found"
  shows "found = [map_of (img_spans img) (text_bytes ''flag1''), map_of (img_spans img) (text_bytes ''flag2'')]" "inside img found"
  using scan_found [OF assms] scan_inside [OF assms] by (simp_all add: WANT_def img_spans_def entry_off_def)

text \<open>
  C39. The bare-metal reader never loads outside the image, neither its directory nor the contents it hashes, when a
  directory entry has its full 16 bytes and the end of the directory does not wrap around 32 bits: with these two facts
  the checks on the header and on the entries bound every access.
\<close>

theorem reader_in_bounds:
  assumes "16 \<le> get32 img 16" and "unat (get32 img 12) + unat (get32 img 8) * unat (get32 img 16) < 2 ^ 32"
  shows "main_baremetal img \<noteq> Overrun"
proof
  assume o: "main_baremetal img = Overrun"
  let ?dir = "unat (get32 img 12)" and ?n = "unat (get32 img 8)" and ?esz = "unat (get32 img 16)"
  note m = main_scan [of img, unfolded o, simplified]
  have "unat (get32 img 8 * get32 img 16) = ?n * ?esz" using assms(2) by (simp add: unat_word_ariths)
  then have "unat (get32 img 12 + get32 img 8 * get32 img 16) = ?dir + ?n * ?esz" using assms(2) by (simp add: unat_word_ariths)
  then have fits: "?dir + ?n * ?esz \<le> length img" using m by (metis word_le_nat_alt)
  have "?dir + e * ?esz + 16 \<le> length img" if "e < ?n" for e
  proof -
    have "16 \<le> ?esz" using assms(1) by (simp add: word_le_nat_alt)
    moreover have "Suc e * ?esz \<le> ?n * ?esz" using that by (intro mult_right_mono) auto
    ultimately show ?thesis using fits by simp
  qed
  then have "scan_entries img ?dir ?esz [0..<entry_count img] [None, None] \<noteq> Inl Overrun"
    by (intro scan_in_bounds) (simp add: entry_count_def)
  then obtain found where "scan_entries img ?dir ?esz [0..<entry_count img] [None, None] = Inr found" "finish img found = Overrun"
    using m o by (cases "scan_entries img ?dir ?esz [0..<entry_count img] [None, None]") auto
  then show False using scan_pair [of img found] finish_not_overrun by metis
qed

text \<open>An image with two files of one byte each.\<close>

definition demo_img :: bytes where
  "demo_img = MAGIC @ [2, 0, 0, 0, 28, 0, 0, 0, 16, 0, 0, 0, 1, 0, 0, 0, 62, 0, 0, 0] @
     text_bytes ''flag1'' @ [0, 0, 0, 60, 0, 0, 0, 1, 0, 0, 0] @ text_bytes ''flag2'' @ [0, 0, 0, 61, 0, 0, 0, 1, 0, 0, 0] @ [65, 66]"

lemmas img_eval = get32_def bslice_def text_bytes_def MAGIC_def

lemma demo_img_header: "get32 demo_img 8 = 2" "get32 demo_img 12 = 28" "get32 demo_img 16 = 16" "get32 demo_img 20 = 1" "get32 demo_img 24 = 62"
  "length demo_img = 62" "take 8 demo_img = MAGIC"
  by (simp_all add: demo_img_def img_eval)

theorem reader_in_bounds_witness: "main_baremetal demo_img \<noteq> Overrun"
  by (rule reader_in_bounds) (simp_all add: demo_img_header)

text \<open>
  Without them the checks do not bound the accesses: a directory whose end wraps to zero, and one of one-byte
  entries.
\<close>

definition wrap_img :: bytes where
  "wrap_img = MAGIC @ [1, 0, 0, 0, 0xf0, 0xff, 0xff, 0xff, 16, 0, 0, 0, 1, 0, 0, 0, 28, 0, 0, 0]"

definition short_img :: bytes where
  "short_img = MAGIC @ [1, 0, 0, 0, 28, 0, 0, 0, 1, 0, 0, 0, 1, 0, 0, 0, 29, 0, 0, 0] @ [0]"

lemma directory_check_overrun: "main_baremetal wrap_img = Overrun" "main_baremetal short_img = Overrun"
proof -
  have w: "get32 wrap_img 8 = 1" "get32 wrap_img 12 = 0xfffffff0" "get32 wrap_img 16 = 16" "get32 wrap_img 20 = 1" "get32 wrap_img 24 = 28"
    "length wrap_img = 28" "take 8 wrap_img = MAGIC" by (simp_all add: wrap_img_def img_eval)
  then have "vos_memcmp wrap_img MAGIC 8 = 0" by (subst vos_memcmp_0) (simp_all add: MAGIC_def text_bytes_def)
  then show "main_baremetal wrap_img = Overrun"
    by (simp add: main_baremetal_def ld_le32_get w MAX_ENTRIES_def MAX_ENTRY_SIZE_def MAX_IMAGE_def ld_le32_None Let_def split: option.split)
  have s: "get32 short_img 8 = 1" "get32 short_img 12 = 28" "get32 short_img 16 = 1" "get32 short_img 20 = 1" "get32 short_img 24 = 29"
    "length short_img = 29" "take 8 short_img = MAGIC" by (simp_all add: short_img_def img_eval)
  then have "vos_memcmp short_img MAGIC 8 = 0" by (subst vos_memcmp_0) (simp_all add: MAGIC_def text_bytes_def)
  then show "main_baremetal short_img = Overrun"
    by (simp add: main_baremetal_def ld_le32_get s MAX_ENTRIES_def MAX_ENTRY_SIZE_def MAX_IMAGE_def ld_le32_None Let_def split: option.split)
qed

section \<open>Agreement of the readers\<close>

lemma read_loop_chunks:
  assumes "[] \<notin> set ps" "length (used @ concat ps) < cap"
  shows "read_loop cap used (map Read_bytes ps @ [Read_bytes []]) = Some (used @ concat ps)"
  using assms
proof (induction ps arbitrary: used)
  case (Cons p ps)
  then have "read_loop cap (used @ p) (map Read_bytes ps @ [Read_bytes []]) = Some ((used @ p) @ concat ps)" by (intro Cons.IH) auto
  then show ?case using Cons.prems by auto
qed simp

definition delivers :: "bytes list \<Rightarrow> file_calls" where
  "delivers ps = (True, map Read_bytes ps @ [Read_bytes []], True)"

text \<open>A file of at least the capacity is refused, in whatever pieces it is delivered.\<close>

lemma read_loop_full:
  assumes "[] \<notin> set ps" "cap \<le> length (used @ concat ps)" "length used < cap"
  shows "read_loop cap used (map Read_bytes ps @ [Read_bytes []]) = None"
  using assms
proof (induction ps arbitrary: used)
  case (Cons p ps)
  then show ?case using Cons.IH [of "used @ p"] by auto
qed simp

text \<open>
  C38. When the two readers print the same records. If the bare-metal reader passes, its text is the banner, one
  record for the first directory entry named \<^verbatim>\<open>flag1\<close> and one for \<^verbatim>\<open>flag2\<close>, and the completion marker. Given files with
  these contents, in whatever pieces \<^verbatim>\<open>read\<close> delivers them, the Linux reader exits with 0 and prints exactly these
  records when both contents are shorter than 4096 bytes, and exits with 1 otherwise: 4096 bytes are within the bound of
  the bare-metal reader and outside the bound of the Linux reader.
\<close>

theorem readers_agree:
  assumes "main_baremetal img = Passed out"
  shows "\<exists>c1 c2 recs. map_of (img_files img) (text_bytes ''flag1'') = Some c1 \<and> map_of (img_files img) (text_bytes ''flag2'') = Some c2 \<and>
    out = banner @ recs @ text_bytes ''CTF_BAREMETAL_OK'' @ [10] \<and>
    (\<forall>ps qs. [] \<notin> set ps \<and> [] \<notin> set qs \<and> concat ps = c1 \<and> concat qs = c2 \<longrightarrow>
       (let r = main_linux [(text_bytes ''flag1'', True, delivers ps, True), (text_bytes ''flag2'', True, delivers qs, True)]
        in if length c1 < 4096 \<and> length c2 < 4096 then r = (0, recs) else fst r = 1))"
proof -
  let ?dir = "unat (get32 img 12)" and ?esz = "unat (get32 img 16)"
  note m = main_scan [of img, unfolded assms, simplified]
  obtain found where scan: "scan_entries img ?dir ?esz [0..<entry_count img] [None, None] = Inr found" and fin: "finish img found = Passed out"
  proof (cases "scan_entries img ?dir ?esz [0..<entry_count img] [None, None]")
    case (Inl stop)
    then have "stop = Passed out" using m assms by simp
    then show ?thesis using scan_stops [OF Inl] by blast
  next
    case (Inr found)
    then show ?thesis using m assms that by simp
  qed
  note f = scan_pair [OF scan]
  obtain o1 l1 o2 l2 where sp: "map_of (img_spans img) (text_bytes ''flag1'') = Some (o1, l1)" "map_of (img_spans img) (text_bytes ''flag2'') = Some (o2, l2)"
    and out: "out = banner @ (emit_record (text_bytes ''flag1'') (bslice img o1 l1) @ emit_record (text_bytes ''flag2'') (bslice img o2 l2)) @
      text_bytes ''CTF_BAREMETAL_OK'' @ [10]"
    using fin finish_pair f by (auto split: option.splits)
  define c1 c2 where c_def: "c1 = bslice img o1 l1" "c2 = bslice img o2 l2"
  have c: "map_of (img_files img) (text_bytes ''flag1'') = Some c1" "map_of (img_files img) (text_bytes ''flag2'') = Some c2"
    using sp by (simp_all add: img_files_spans c_def)
  have "length img \<le> 4096" using m by (simp add: MAX_IMAGE_def)
  then have small: "length c1 < 2 ^ 32" "length c2 < 2 ^ 32" by (simp_all add: c_def bslice_def)
  have linux: "let r = main_linux [(text_bytes ''flag1'', True, delivers ps, True), (text_bytes ''flag2'', True, delivers qs, True)]
      in if length c1 < 4096 \<and> length c2 < 4096 then r = (0, emit_record_linux (text_bytes ''flag1'') c1 @ emit_record_linux (text_bytes ''flag2'') c2) else fst r = 1"
    if "[] \<notin> set ps" "[] \<notin> set qs" "concat ps = c1" "concat qs = c2" for ps qs
    using read_loop_chunks [of ps "[]" 4096] read_loop_chunks [of qs "[]" 4096] read_loop_full [of ps 4096 "[]"] read_loop_full [of qs 4096 "[]"] that
    by (auto simp: Let_def read_one_file_def delivers_def MAX_CONTENT_LINUX_def not_less split: option.split)
  have "out = banner @ (emit_record_linux (text_bytes ''flag1'') c1 @ emit_record_linux (text_bytes ''flag2'') c2) @ text_bytes ''CTF_BAREMETAL_OK'' @ [10]"
    using out small by (simp add: c_def [symmetric] emit_record_same)
  then show ?thesis using c linux by blast
qed

text \<open>The reader passes on the two-file image, and the Linux reader prints the same records for \<^verbatim>\<open>A\<close> and \<^verbatim>\<open>B\<close>.\<close>

lemma demo_img_entries: "get32 demo_img 36 = 60" "get32 demo_img 40 = 1" "get32 demo_img 52 = 61" "get32 demo_img 56 = 1"
  "name_at demo_img 28 = text_bytes ''flag1''" "name_at demo_img 44 = text_bytes ''flag2''" "bslice demo_img 60 1 = [65]" "bslice demo_img 61 1 = [66]"
  by (simp_all add: demo_img_def img_eval name_at_def MAX_NAME_def)

lemma upt_2: "[0..<2] = [0, 1 :: nat]"
  by (simp add: upt_rec)

lemma demo_img_files: "img_files demo_img = [(text_bytes ''flag1'', [65]), (text_bytes ''flag2'', [66])]"
  using demo_img_entries by (simp add: img_files_def entry_count_def entry_off_def demo_img_header upt_2 content_at_def)

lemma demo_img_passes:
  "main_baremetal demo_img = Passed (banner @ emit_record (text_bytes ''flag1'') [65] @ emit_record (text_bytes ''flag2'') [66] @
     text_bytes ''CTF_BAREMETAL_OK'' @ [10])"
proof -
  have m: "vos_memcmp demo_img MAGIC 8 = 0" by (subst vos_memcmp_0) (simp_all add: demo_img_header MAGIC_def text_bytes_def)
  have "read_name demo_img 28 MAX_NAME = Some (text_bytes ''flag1'')" "read_name demo_img 44 MAX_NAME = Some (text_bytes ''flag2'')"
    using demo_img_entries by (simp_all add: read_name_take demo_img_header name_at_def MAX_NAME_def)
  then have "scan_entries demo_img 28 16 [0, 1] [None, None] = Inr [Some (60, 1), Some (61, 1)]"
    using demo_img_entries
    by (simp add: Let_def ld_le32_get demo_img_header MAX_CONTENT_def note_entry_match WANT_def text_bytes_def)
  then show ?thesis
    by (simp add: main_baremetal_def ld_le32_get demo_img_header m MAX_ENTRIES_def MAX_ENTRY_SIZE_def MAX_IMAGE_def upt_2 finish_pair demo_img_entries del: One_nat_def)
qed

theorem readers_agree_witness:
  "\<exists>recs. main_linux [(text_bytes ''flag1'', True, delivers [[65]], True), (text_bytes ''flag2'', True, delivers [[66]], True)] = (0, recs) \<and>
     main_baremetal demo_img = Passed (banner @ recs @ text_bytes ''CTF_BAREMETAL_OK'' @ [10])"
proof -
  obtain c1 c2 recs where c: "map_of (img_files demo_img) (text_bytes ''flag1'') = Some c1" "map_of (img_files demo_img) (text_bytes ''flag2'') = Some c2"
    and out: "banner @ emit_record (text_bytes ''flag1'') [65] @ emit_record (text_bytes ''flag2'') [66] @ text_bytes ''CTF_BAREMETAL_OK'' @ [10] =
      banner @ recs @ text_bytes ''CTF_BAREMETAL_OK'' @ [10]"
    and linux: "\<forall>ps qs. [] \<notin> set ps \<and> [] \<notin> set qs \<and> concat ps = c1 \<and> concat qs = c2 \<longrightarrow>
       (let r = main_linux [(text_bytes ''flag1'', True, delivers ps, True), (text_bytes ''flag2'', True, delivers qs, True)]
        in if length c1 < 4096 \<and> length c2 < 4096 then r = (0, recs) else fst r = 1)"
    using readers_agree [OF demo_img_passes] by blast
  have "c1 = [65]" "c2 = [66]" using c by (simp_all add: demo_img_files text_bytes_def)
  then have "main_linux [(text_bytes ''flag1'', True, delivers [[65]], True), (text_bytes ''flag2'', True, delivers [[66]], True)] = (0, recs)"
    using linux [rule_format, of "[[65]]" "[[66]]"] by simp
  then show ?thesis using demo_img_passes out by (intro exI [of _ recs] conjI) simp_all
qed

end
