(* ===== verification/Gpt.thy ===== *)
theory Gpt
  imports Prelude
begin

text \<open>
  Finding the file system on the SD card of the VisionFive 2 board: \<^verbatim>\<open>platform/visionfive2/kernel/gpt.c\<close> reads the
  partition table, and \<^verbatim>\<open>tools/vf2_image.py\<close> writes the card image the board boots from. The device is the function
  from sector numbers to sectors that \<^verbatim>\<open>read_sector\<close> fills its buffer from; a panic is an \<open>Inl\<close>. The identifiers
  \<^verbatim>\<open>uuid5\<close> derives by hashing are arguments of the image builder.
\<close>

unbundle bit_operations_syntax

section \<open>Checksum\<close>

definition crc_bit :: "u32 \<Rightarrow> u32" where
  "crc_bit crc = drop_bit 1 crc XOR (0xedb88320 AND (0 - (crc AND 1)))"

definition crc_byte :: "u8 \<Rightarrow> u32 \<Rightarrow> u32" where
  "crc_byte b crc = (crc_bit ^^ 8) (crc XOR ucast b)"

definition crc32_update :: "u32 \<Rightarrow> bytes \<Rightarrow> u32" where
  "crc32_update crc data = NOT (fold crc_byte data (NOT crc))"

section \<open>The partition table reader\<close>

definition SECTOR_SIZE :: nat where "SECTOR_SIZE = 512"

definition GPT_HEADER_SIZE_MIN :: u32 where "GPT_HEADER_SIZE_MIN = 92"

definition GPT_ENTRY_SIZE :: nat where "GPT_ENTRY_SIZE = 128"

definition GPT_MAX_ENTRIES :: u32 where "GPT_MAX_ENTRIES = 128"

record gpt_header =
  signature :: bytes
  revision :: u32
  header_size :: u32
  header_crc32 :: u32
  reserved :: u32
  current_lba :: u64
  backup_lba :: u64
  first_usable_lba :: u64
  last_usable_lba :: u64
  disk_guid :: bytes
  entries_lba :: u64
  h_entry_count :: u32
  h_entry_size :: u32
  entries_crc32 :: u32

definition header_of :: "bytes \<Rightarrow> gpt_header" where
  "header_of s = \<lparr>signature = bslice s 0 8, revision = get32 s 8, header_size = get32 s 12, header_crc32 = get32 s 16, reserved = get32 s 20,
     current_lba = get64 s 24, backup_lba = get64 s 32, first_usable_lba = get64 s 40, last_usable_lba = get64 s 48,
     disk_guid = bslice s 56 16, entries_lba = get64 s 72, h_entry_count = get32 s 80, h_entry_size = get32 s 84, entries_crc32 = get32 s 88\<rparr>"

record gpt_entry =
  type_guid :: bytes
  unique_guid :: bytes
  first_lba :: u64
  last_lba :: u64
  attributes :: u64
  e_name :: "u16 list"

definition entry_of :: "bytes \<Rightarrow> gpt_entry" where
  "entry_of e = \<lparr>type_guid = bslice e 0 16, unique_guid = bslice e 16 16, first_lba = get64 e 32, last_lba = get64 e 40, attributes = get64 e 48, e_name = map (\<lambda>i. get16 e (56 + 2 * i)) [0..<36]\<rparr>"

definition xv6fs_type :: bytes where
  "xv6fs_type = [0xaf, 0x3d, 0xc6, 0x0f, 0x83, 0x84, 0x72, 0x47, 0x8e, 0x79, 0x3d, 0x69, 0xd8, 0x47, 0x7d, 0xe4]"

definition is_xv6fs :: "gpt_entry \<Rightarrow> bool" where
  "is_xv6fs e \<longleftrightarrow> type_guid e = xv6fs_type \<and> (\<forall>i \<in> set [0..<5]. e_name e ! i = of_char (''xv6fs'' ! i)) \<and> e_name e ! 5 = 0"

definition efi_signature :: bytes where
  "efi_signature = map of_char ''EFI PART''"

definition header_valid :: "gpt_header \<Rightarrow> bool" where
  "header_valid h \<longleftrightarrow> \<not> (signature h \<noteq> efi_signature \<or> revision h \<noteq> 0x00010000 \<or> header_size h < GPT_HEADER_SIZE_MIN \<or>
     unat (header_size h) > SECTOR_SIZE \<or> current_lba h \<noteq> 1 \<or> h_entry_count h = 0 \<or> h_entry_count h > GPT_MAX_ENTRIES \<or>
     unat (h_entry_size h) \<noteq> GPT_ENTRY_SIZE \<or> entries_lba h < 2)"

definition mbr_valid :: "bytes \<Rightarrow> bool" where
  "mbr_valid s \<longleftrightarrow> \<not> (s ! 510 \<noteq> 0x55 \<or> s ! 511 \<noteq> 0xaa \<or> s ! 450 \<noteq> 0xee)"

definition slot_entry :: "bytes \<Rightarrow> nat \<Rightarrow> gpt_entry" where
  "slot_entry sector slot = entry_of (bslice sector (slot * GPT_ENTRY_SIZE) GPT_ENTRY_SIZE)"

definition scan_entry :: "gpt_header \<Rightarrow> gpt_entry \<Rightarrow> u64 \<Rightarrow> string + u64" where
  "scan_entry h e match_lba =
     (if \<not> is_xv6fs e then Inr match_lba
      else if match_lba \<noteq> 0 then Inl ''gpt: duplicate xv6fs partition''
      else if first_lba e < first_usable_lba h \<or> last_lba e > last_usable_lba h \<or> first_lba e > last_lba e then Inl ''gpt: xv6fs outside usable range''
      else Inr (first_lba e))"

primrec scan_list :: "gpt_header \<Rightarrow> gpt_entry list \<Rightarrow> u64 \<Rightarrow> string + u64" where
  "scan_list h [] m = Inr m"
| "scan_list h (e # es) m = (case scan_entry h e m of Inl p \<Rightarrow> Inl p | Inr m' \<Rightarrow> scan_list h es m')"

text \<open>The outer loop: one sector of up to four entries per iteration.\<close>

function gpt_loop :: "(u64 \<Rightarrow> bytes) \<Rightarrow> gpt_header \<Rightarrow> nat \<Rightarrow> u32 \<Rightarrow> u64 \<Rightarrow> string + (u32 \<times> u64)" where
  "gpt_loop read h index entries_crc match_lba =
     (if index < unat (h_entry_count h)
      then let sector = read (entries_lba h + of_nat (index div 4));
               remaining = unat (h_entry_count h) - index;
               count = (if remaining < 4 then remaining else 4);
               entries_crc = crc32_update entries_crc (take (count * GPT_ENTRY_SIZE) sector)
           in case scan_list h (map (slot_entry sector) [0..<count]) match_lba of
                Inl p \<Rightarrow> Inl p
              | Inr m \<Rightarrow> gpt_loop read h (index + count) entries_crc m
      else Inr (entries_crc, match_lba))"
  by pat_completeness auto
termination
  by (relation "measure (\<lambda>(read, h, index, _). unat (h_entry_count h) - index)") (auto simp: Let_def)

declare gpt_loop.simps [simp del]

definition gpt_find_xv6fs :: "(u64 \<Rightarrow> bytes) \<Rightarrow> string + u64" where
  "gpt_find_xv6fs read =
     (if \<not> mbr_valid (read 0) then Inl ''gpt: protective MBR missing''
      else let sector = read 1; h = header_of sector in
        if \<not> header_valid h then Inl ''gpt: invalid primary header''
        else if crc32_update 0 (take (unat (header_size h)) (put32 sector 16 0)) \<noteq> header_crc32 h then Inl ''gpt: header checksum mismatch''
        else case gpt_loop read h 0 0 0 of
            Inl p \<Rightarrow> Inl p
          | Inr (entries_crc, match_lba) \<Rightarrow>
              if entries_crc \<noteq> entries_crc32 h then Inl ''gpt: partition checksum mismatch''
              else if match_lba = 0 then Inl ''gpt: xv6fs partition missing''
              else Inr match_lba)"

section \<open>The image builder\<close>

definition SECTOR :: nat where "SECTOR = 512"

definition TOTAL_SECTORS :: nat where "TOTAL_SECTORS = 256 * 1024 * 1024 div SECTOR"

definition BOOT_FIRST :: nat where "BOOT_FIRST = 2048"

definition BOOT_SECTORS :: nat where "BOOT_SECTORS = 64 * 1024 * 1024 div SECTOR"

definition FS_FIRST :: nat where "FS_FIRST = BOOT_FIRST + BOOT_SECTORS"

definition FS_LAST :: nat where "FS_LAST = TOTAL_SECTORS - 34"

definition ENTRY_COUNT :: nat where "ENTRY_COUNT = 128"

definition ENTRY_SIZE :: nat where "ENTRY_SIZE = 128"

definition ENTRIES_LBA :: nat where "ENTRIES_LBA = 2"

text \<open>The little-endian form of a UUID reverses its first three fields.\<close>

definition bytes_le :: "bytes \<Rightarrow> bytes" where
  "bytes_le u = rev (bslice u 0 4) @ rev (bslice u 4 2) @ rev (bslice u 6 2) @ bslice u 8 8"

definition EFI_GUID :: bytes where
  "EFI_GUID = [0xc1, 0x2a, 0x73, 0x28, 0xf8, 0x1f, 0x11, 0xd2, 0xba, 0x4b, 0x00, 0xa0, 0xc9, 0x3e, 0xc9, 0x3b]"

definition LINUX_FS_GUID :: bytes where
  "LINUX_FS_GUID = [0x0f, 0xc6, 0x3d, 0xaf, 0x84, 0x83, 0x47, 0x72, 0x8e, 0x79, 0x3d, 0x69, 0xd8, 0x47, 0x7d, 0xe4]"

definition ljust :: "nat \<Rightarrow> bytes \<Rightarrow> bytes" where
  "ljust n bs = bs @ replicate (n - length bs) 0"

text \<open>ASCII names in UTF-16.\<close>

definition utf16_name :: "string \<Rightarrow> string + bytes" where
  "utf16_name name =
     (let raw = concat (map (\<lambda>c. [of_char c, 0]) name)
      in if length raw > 72 then Inl ''GPT partition name too long'' else Inr (ljust 72 raw))"

definition entry :: "bytes \<Rightarrow> bytes \<Rightarrow> nat \<Rightarrow> nat \<Rightarrow> string \<Rightarrow> string + bytes" where
  "entry kind unique lo hi name =
     (case utf16_name name of
        Inl e \<Rightarrow> Inl e
      | Inr padded \<Rightarrow> Inr (bytes_le kind @ bytes_le unique @ nat_bytes 8 lo @ nat_bytes 8 hi @ nat_bytes 8 0 @ padded))"

text \<open>\<^verbatim>\<open>binascii.crc32\<close>, driven by the table of the 256 byte remainders.\<close>

definition crc_table :: "u8 \<Rightarrow> u32" where
  "crc_table i = (crc_bit ^^ 8) (ucast i)"

definition crc32 :: "bytes \<Rightarrow> u32" where
  "crc32 data = 0xffffffff XOR fold (\<lambda>b c. crc_table (ucast c XOR b) XOR drop_bit 8 c) data 0xffffffff"

definition header_raw :: "nat \<Rightarrow> nat \<Rightarrow> nat \<Rightarrow> u32 \<Rightarrow> bytes \<Rightarrow> bytes" where
  "header_raw current backup entries crc guid =
     map of_char ''EFI PART'' @ nat_bytes 4 0x10000 @ nat_bytes 4 92 @ nat_bytes 4 0 @ nat_bytes 4 0 @ nat_bytes 8 current @ nat_bytes 8 backup @
     nat_bytes 8 34 @ nat_bytes 8 (TOTAL_SECTORS - 34) @ bytes_le guid @ nat_bytes 8 entries @ nat_bytes 4 ENTRY_COUNT @ nat_bytes 4 ENTRY_SIZE @
     nat_bytes 4 (unat crc)"

definition header :: "nat \<Rightarrow> nat \<Rightarrow> nat \<Rightarrow> u32 \<Rightarrow> bytes \<Rightarrow> bytes" where
  "header current backup entries crc guid =
     (let raw = header_raw current backup entries crc guid
      in ljust SECTOR (take 16 raw @ nat_bytes 4 (unat (crc32 raw)) @ drop 20 raw))"


text \<open>Slice assignment \<^verbatim>\<open>a[i:j] = bs\<close> of a byte array, which grows or shrinks the array when the lengths differ.\<close>

definition pyset :: "bytes \<Rightarrow> nat \<Rightarrow> nat \<Rightarrow> bytes \<Rightarrow> bytes" where
  "pyset a i j bs = take i a @ bs @ drop (max i j) a"

definition fat_boot :: bytes where
  "fat_boot =
     (let boot = replicate SECTOR 0;
          boot = pyset boot 0 3 [0xeb, 0x3c, 0x90];
          boot = pyset boot 3 11 (map of_char ''XV6SPEC '');
          boot = bsplice boot 11 (nat_bytes 2 SECTOR @ nat_bytes 1 4 @ nat_bytes 2 1 @ nat_bytes 1 2 @ nat_bytes 2 512 @ nat_bytes 2 0 @ nat_bytes 1 0xF8 @
            nat_bytes 2 129 @ nat_bytes 2 32 @ nat_bytes 2 64 @ nat_bytes 4 0 @ nat_bytes 4 BOOT_SECTORS);
          boot = boot[36 := 0x80];
          boot = boot[38 := 0x29];
          boot = bsplice boot 39 (nat_bytes 4 0x58563632);
          boot = pyset boot 43 54 (map of_char ''XV6 BOOT   '');
          boot = pyset boot 54 62 (map of_char ''FAT16   '')
      in pyset boot 510 512 [0x55, 0xaa])"

definition fat_chain :: "nat \<Rightarrow> bytes" where
  "fat_chain clusters =
     fold (\<lambda>cluster fat. bsplice fat (cluster * 2) (nat_bytes 2 (if cluster = clusters + 1 then 0xFFFF else cluster + 1))) [2..<2 + clusters]
       (bsplice (replicate (129 * SECTOR) 0) 0 (nat_bytes 2 0xFFF8 @ nat_bytes 2 0xFFFF))"

definition fat_root :: "bytes \<Rightarrow> bytes" where
  "fat_root payload = map of_char ''XV6     ITB'' @ nat_bytes 1 0x20 @ nat_bytes 1 0 @ nat_bytes 1 0 @ nat_bytes 2 0 @ nat_bytes 2 0 @ nat_bytes 2 0 @
     nat_bytes 2 0 @ nat_bytes 2 0 @ nat_bytes 2 0 @ nat_bytes 2 2 @ nat_bytes 4 (length payload)"

definition make_fat16 :: "bytes \<Rightarrow> string + bytes" where
  "make_fat16 payload =
     (let sectors_per_cluster = 4; reserved = 1; fats = 2; root_entries = 512; root_sectors = root_entries * 32 div SECTOR; fat_sectors = 129;
          data_start = reserved + fats * fat_sectors + root_sectors;
          clusters = (length payload + sectors_per_cluster * SECTOR - 1) div (sectors_per_cluster * SECTOR)
      in if clusters < 1 \<or> clusters + 2 \<ge> fat_sectors * SECTOR div 2 then Inl ''FIT does not fit the FAT16 boot partition''
         else let image = replicate (BOOT_SECTORS * SECTOR) 0;
                  image = pyset image 0 SECTOR fat_boot;
                  fat = fat_chain clusters;
                  image = fold (\<lambda>index image. let offset = (reserved + index * fat_sectors) * SECTOR in pyset image offset (offset + length fat) fat) [0..<fats] image;
                  root_offset = (reserved + fats * fat_sectors) * SECTOR;
                  image = pyset image root_offset (root_offset + 32) (fat_root payload);
                  payload_offset = data_start * SECTOR
              in Inr (pyset image payload_offset (payload_offset + length payload) payload))"

definition build_entries :: "(string \<Rightarrow> bytes) \<Rightarrow> string + bytes" where
  "build_entries uuid5 =
     (case entry EFI_GUID (uuid5 ''boot'') BOOT_FIRST (BOOT_FIRST + BOOT_SECTORS - 1) ''xv6boot'' of
        Inl e \<Rightarrow> Inl e
      | Inr boot_entry \<Rightarrow>
          (case entry LINUX_FS_GUID (uuid5 ''xv6fs'') FS_FIRST FS_LAST ''xv6fs'' of
             Inl e \<Rightarrow> Inl e
           | Inr fs_entry \<Rightarrow>
               (let entries = replicate (ENTRY_COUNT * ENTRY_SIZE) 0;
                    entries = pyset entries 0 ENTRY_SIZE boot_entry
                in Inr (pyset entries ENTRY_SIZE (2 * ENTRY_SIZE) fs_entry))))"

definition build :: "(string \<Rightarrow> bytes) \<Rightarrow> bytes \<Rightarrow> bytes \<Rightarrow> string + bytes" where
  "build uuid5 fit_data fs_data =
     (if length fs_data > (FS_LAST - FS_FIRST + 1) * SECTOR then Inl ''fs.img exceeds the xv6fs partition''
      else case build_entries uuid5 of Inl e \<Rightarrow> Inl e | Inr entries \<Rightarrow>
          (let disk_guid = uuid5 ''xv6-spec-vf2-disk'';
               entries_crc = crc32 entries;
               image = replicate (TOTAL_SECTORS * SECTOR) 0;
               image = pyset image 446 462 (nat_bytes 1 0 @ [0, 2, 0] @ nat_bytes 1 0xEE @ [0xff, 0xff, 0xff] @ nat_bytes 4 1 @
                 nat_bytes 4 (min (TOTAL_SECTORS - 1) 0xFFFFFFFF));
               image = pyset image 510 512 [0x55, 0xaa];
               image = pyset image SECTOR (2 * SECTOR) (header 1 (TOTAL_SECTORS - 1) ENTRIES_LBA entries_crc disk_guid);
               image = pyset image (ENTRIES_LBA * SECTOR) (ENTRIES_LBA * SECTOR + length entries) entries;
               backup_entries_lba = TOTAL_SECTORS - 33;
               start = backup_entries_lba * SECTOR;
               image = pyset image start (start + length entries) entries;
               image = pyset image ((TOTAL_SECTORS - 1) * SECTOR) (length image) (header (TOTAL_SECTORS - 1) 1 backup_entries_lba entries_crc disk_guid)
           in case make_fat16 fit_data of
                Inl e \<Rightarrow> Inl e
              | Inr boot \<Rightarrow>
                  (let image = pyset image (BOOT_FIRST * SECTOR) ((BOOT_FIRST + BOOT_SECTORS) * SECTOR) boot
                   in Inr (pyset image (FS_FIRST * SECTOR) (FS_FIRST * SECTOR + length fs_data) fs_data))))"

text \<open>
  \<^verbatim>\<open>inspect\<close> with an expected payload; \<open>digest\<close> stands for the hash it compares the payloads by. An error is the text it
  exits with.
\<close>

definition inspect :: "(bytes \<Rightarrow> 'd) \<Rightarrow> bytes \<Rightarrow> bytes option \<Rightarrow> string option" where
  "inspect digest data expected_fit =
     (if length data \<noteq> TOTAL_SECTORS * SECTOR \<or> bslice data 510 2 \<noteq> [0x55, 0xaa] then Some ''invalid SD image size or protective MBR''
      else let primary = bslice data SECTOR SECTOR in
        if bslice primary 0 8 \<noteq> map of_char ''EFI PART'' then Some ''primary GPT signature missing''
        else let header_size = bytes_nat (bslice primary 12 4); expected_crc = bytes_nat (bslice primary 16 4);
                 checked = pyset (take header_size primary) 16 20 (replicate 4 0) in
          if unat (crc32 checked) \<noteq> expected_crc then Some ''primary GPT checksum mismatch''
          else let entries = bslice data (ENTRIES_LBA * SECTOR) (ENTRY_COUNT * ENTRY_SIZE); entries_crc = bytes_nat (bslice primary 88 4) in
            if unat (crc32 entries) \<noteq> entries_crc then Some ''GPT entry checksum mismatch''
            else let second = bslice entries ENTRY_SIZE ENTRY_SIZE in
              if bslice second 0 16 \<noteq> bytes_le LINUX_FS_GUID \<or> bslice second 56 10 \<noteq> concat (map (\<lambda>c. [of_char c, 0]) ''xv6fs'')
              then Some ''xv6fs partition contract mismatch''
              else let boot = bslice data (BOOT_FIRST * SECTOR) (BOOT_SECTORS * SECTOR) in
                if bslice boot 54 8 \<noteq> map of_char ''FAT16   '' \<or> bslice boot 510 2 \<noteq> [0x55, 0xaa] then Some ''FAT16 boot partition missing''
                else let sz = bytes_nat (bslice boot ((1 + 2 * 129) * SECTOR + 28) 4); payload = bslice boot ((1 + 2 * 129 + 32) * SECTOR) sz in
                  (case expected_fit of
                    None \<Rightarrow> None
                  | Some fit \<Rightarrow> if digest payload \<noteq> digest fit then Some ''FAT payload differs from FIT input'' else None))"

section \<open>Checksum facts\<close>

lemma crc32_update_append [simp]: "crc32_update (crc32_update c xs) ys = crc32_update c (xs @ ys)"
  by (simp add: crc32_update_def)

lemma crc32_update_Nil [simp]: "crc32_update c [] = c"
  by (simp add: crc32_update_def)

lemma crc_bit_xor: "crc_bit (x XOR y) = crc_bit x XOR crc_bit y"
proof -
  have "(0 - (x AND 1)) = (if bit x 0 then - 1 else 0)" for x :: u32
    by (simp add: and_one_eq mod2_eq_if bit_0)
  then show ?thesis by (auto simp: crc_bit_def bit_simps intro!: bit_word_eqI)
qed

lemma crc_bits_xor: "(crc_bit ^^ n) (x XOR y) = (crc_bit ^^ n) x XOR (crc_bit ^^ n) y"
  by (induction n) (simp_all add: crc_bit_xor)

lemma crc_bits_shift: "take_bit n x = 0 \<Longrightarrow> (crc_bit ^^ n) x = drop_bit n x"
proof (induction n arbitrary: x)
  case (Suc n)
  have b0: "\<not> bit x 0" using Suc.prems by (metis bit_0 bit_take_bit_iff zero_less_Suc bit_0_eq bot_apply bot_bool_def)
  then have "crc_bit x = drop_bit 1 x" by (simp add: crc_bit_def and_one_eq mod2_eq_if bit_0)
  moreover have "take_bit n (drop_bit 1 x) = 0"
  proof -
    have "take_bit n (drop_bit 1 x) = drop_bit 1 (take_bit (Suc n) x)" by (simp add: take_bit_drop_bit)
    then show ?thesis using Suc.prems by simp
  qed
  ultimately show ?case using Suc.IH [of "drop_bit 1 x"] by (simp add: funpow_swap1 drop_bit_drop_bit)
qed simp

text \<open>The bitwise loop of the kernel and the table-driven checksum of the tool agree.\<close>

lemma crc_byte_table: "crc_byte b c = crc_table (ucast c XOR b) XOR drop_bit 8 c"
proof -
  have split: "c XOR ucast b = ucast (ucast c XOR b :: u8) XOR push_bit 8 (drop_bit 8 c)"
    by (rule bit_word_eqI) (auto simp: bit_simps)
  have "take_bit 8 (push_bit 8 (drop_bit 8 c)) = 0" by (rule bit_word_eqI) (auto simp: bit_simps)
  then have "(crc_bit ^^ 8) (push_bit 8 (drop_bit 8 c)) = drop_bit 8 (push_bit 8 (drop_bit 8 c))" by (rule crc_bits_shift)
  also have "\<dots> = drop_bit 8 c" by (rule bit_word_eqI) (auto simp: bit_simps dest: bit_imp_le_length)
  finally show ?thesis unfolding crc_byte_def split crc_bits_xor crc_table_def by simp
qed

lemma crc32_update_crc32: "crc32_update 0 data = crc32 data"
proof -
  have "fold crc_byte data c = fold (\<lambda>b c. crc_table (ucast c XOR b) XOR drop_bit 8 c) data c" for c
    by (simp add: crc_byte_table [abs_def])
  moreover have m: "(0xffffffff :: u32) = - 1" by simp
  moreover have "NOT x = - 1 XOR x" for x :: u32 by (rule bit_word_eqI) (simp add: bit_simps)
  moreover have "NOT (0 :: u32) = - 1" by simp
  ultimately show ?thesis by (simp only: crc32_update_def crc32_def)
qed


section \<open>Reading a table\<close>

text \<open>Record \<open>i\<close> of the table on the device.\<close>

definition disk_entry :: "(u64 \<Rightarrow> bytes) \<Rightarrow> gpt_header \<Rightarrow> nat \<Rightarrow> bytes" where
  "disk_entry read h i = bslice (read (entries_lba h + of_nat (i div 4))) (i mod 4 * GPT_ENTRY_SIZE) GPT_ENTRY_SIZE"

definition disk_entries :: "(u64 \<Rightarrow> bytes) \<Rightarrow> gpt_header \<Rightarrow> nat \<Rightarrow> bytes list" where
  "disk_entries read h i = map (disk_entry read h) [i..<unat (h_entry_count h)]"

lemma take_records:
  "n * k \<le> length s \<Longrightarrow> take (n * k) s = concat (map (\<lambda>i. bslice s (i * k) k) [0..<n])"
proof (induction n)
  case (Suc n)
  have "take (Suc n * k) s = take (n * k) s @ bslice s (n * k) k" using take_add [of "n * k" k s] by (simp add: bslice_def add.commute)
  then show ?case using Suc by simp
qed simp

lemma scan_list_append: "scan_list h (es @ fs) m = (case scan_list h es m of Inl p \<Rightarrow> Inl p | Inr m' \<Rightarrow> scan_list h fs m')"
  by (induction es arbitrary: m) (auto split: sum.split)

text \<open>The loop checks the records of the table in order and checksums all of them.\<close>

lemma gpt_loop_spec:
  assumes "\<forall>n. length (read n) = 512" "index mod 4 = 0 \<or> index = unat (h_entry_count h)"
  shows "gpt_loop read h index crc m = (case scan_list h (map entry_of (disk_entries read h index)) m of
    Inl p \<Rightarrow> Inl p | Inr m' \<Rightarrow> Inr (crc32_update crc (concat (disk_entries read h index)), m'))"
  using assms(2)
proof (induction "unat (h_entry_count h) - index" arbitrary: index crc m rule: less_induct)
  case less
  let ?n = "unat (h_entry_count h)"
  show ?case
  proof (cases "index < ?n")
    case False
    then show ?thesis by (simp add: gpt_loop.simps [of read h index] disk_entries_def)
  next
    case True
    define c where "c = (if ?n - index < 4 then ?n - index else 4)"
    define s where "s = read (entries_lba h + of_nat (index div 4))"
    have c: "0 < c" "c \<le> 4" "index + c \<le> ?n" "(index + c) mod 4 = 0 \<or> index + c = ?n"
      using True less.prems by (auto simp: c_def)
    have i: "index mod 4 = 0" using less.prems True by auto
    have e: "disk_entry read h (index + j) = bslice s (j * 128) 128" if "j < c" for j
    proof -
      have "(index + j) div 4 = index div 4" "(index + j) mod 4 = j" using i that c(2) by presburger+
      then show ?thesis by (simp add: disk_entry_def s_def GPT_ENTRY_SIZE_def)
    qed
    have up: "disk_entries read h index = map (\<lambda>j. bslice s (j * 128) 128) [0..<c] @ disk_entries read h (index + c)"
    proof -
      have "[index..<?n] = [index..<index + c] @ [index + c..<?n]" using c(3) by (metis le_add1 upt_add_eq_append le_add_diff_inverse)
      moreover have "map (disk_entry read h) [index..<index + c] = map (\<lambda>j. bslice s (j * 128) 128) [0..<c]"
        using e by (intro nth_equalityI) auto
      ultimately show ?thesis by (simp add: disk_entries_def)
    qed
    have tk: "take (c * GPT_ENTRY_SIZE) s = concat (map (\<lambda>j. bslice s (j * 128) 128) [0..<c])"
      using take_records [of c 128 s] c(2) assms(1) by (simp add: s_def GPT_ENTRY_SIZE_def)
    have IH: "gpt_loop read h (index + c) crc' m' = (case scan_list h (map entry_of (disk_entries read h (index + c))) m' of
        Inl p \<Rightarrow> Inl p | Inr m' \<Rightarrow> Inr (crc32_update crc' (concat (disk_entries read h (index + c))), m'))" for crc' m'
      by (rule less.hyps) (use c True in auto)
    have "gpt_loop read h index crc m = (case scan_list h (map (slot_entry s) [0..<c]) m of
        Inl p \<Rightarrow> Inl p | Inr m' \<Rightarrow> gpt_loop read h (index + c) (crc32_update crc (take (c * GPT_ENTRY_SIZE) s)) m')"
      unfolding gpt_loop.simps [of read h index] Let_def c_def [symmetric] s_def [symmetric] if_P [OF True] by (rule refl)
    also have "map (slot_entry s) [0..<c] = map entry_of (map (\<lambda>j. bslice s (j * 128) 128) [0..<c])"
      by (simp add: slot_entry_def GPT_ENTRY_SIZE_def)
    finally show ?thesis unfolding IH tk up by (simp add: scan_list_append split: sum.split)
  qed
qed

text \<open>A match in the scan is the only entry of the partition with a start, and lies in the usable range.\<close>

lemma scan_after_match:
  "m \<noteq> 0 \<Longrightarrow> scan_list h es m = Inr l \<Longrightarrow> l = m \<and> (\<forall>e \<in> set es. \<not> is_xv6fs e)"
  by (induction es) (auto simp: scan_entry_def split: if_splits)

lemma scan_list_sound:
  assumes "scan_list h es 0 = Inr l" "l \<noteq> 0"
  shows "\<exists>pre e post. es = pre @ e # post \<and> is_xv6fs e \<and> first_lba e = l \<and> first_usable_lba h \<le> l \<and> l \<le> last_lba e \<and>
    last_lba e \<le> last_usable_lba h \<and> (\<forall>x \<in> set pre. is_xv6fs x \<longrightarrow> first_lba x = 0) \<and> (\<forall>x \<in> set post. \<not> is_xv6fs x)"
  using assms(1)
proof (induction es)
  case Nil
  then show ?case using assms(2) by simp
next
  case (Cons e es)
  show ?case
  proof (cases "is_xv6fs e \<and> first_lba e \<noteq> 0")
    case True
    then have e: "scan_list h es (first_lba e) = Inr l" "first_usable_lba h \<le> first_lba e" "first_lba e \<le> last_lba e" "last_lba e \<le> last_usable_lba h"
      using Cons.prems by (auto simp: scan_entry_def split: if_splits)
    then have "l = first_lba e \<and> (\<forall>x \<in> set es. \<not> is_xv6fs x)" using scan_after_match True by blast
    then show ?thesis using True e by (intro exI [of _ "[]"] exI [of _ e] exI [of _ es]) simp
  next
    case False
    then have "scan_list h es 0 = Inr l" using Cons.prems by (auto simp: scan_entry_def split: if_splits)
    from Cons.IH [OF this] obtain pre e' post where "es = pre @ e' # post" "is_xv6fs e'" "first_lba e' = l" "first_usable_lba h \<le> l"
      "l \<le> last_lba e'" "last_lba e' \<le> last_usable_lba h" "\<forall>x \<in> set pre. is_xv6fs x \<longrightarrow> first_lba x = 0" "\<forall>x \<in> set post. \<not> is_xv6fs x" by blast
    then show ?thesis using False by (intro exI [of _ "e # pre"] exI [of _ e'] exI [of _ post]) auto
  qed
qed

text \<open>
  The check for a second xv6 partition is a test of the sector found so far, so an entry that starts at sector 0, which is
  inside the range of a header with first usable sector 0, does not count: a later entry of the same kind is accepted.
\<close>

lemma duplicate_at_zero:
  assumes "is_xv6fs e0" "first_lba e0 = 0" "last_lba e0 \<le> last_usable_lba h" "first_usable_lba h = 0"
    and "is_xv6fs e" "first_lba e \<le> last_lba e" "last_lba e \<le> last_usable_lba h"
  shows "scan_list h [e0, e] 0 = Inr (first_lba e)"
  using assms by (simp add: scan_entry_def not_less)

text \<open>
  C37. What \<^verbatim>\<open>gpt_find_xv6fs\<close> accepts: it returns a sector only when the protective record and the header are valid, both
  checksums hold for the bytes on the device, and an entry of the table is an xv6 file system with that first sector,
  inside the usable range; the sector is not zero. This entry is the last of its kind, and every earlier one of its kind
  starts at sector 0. That it is the only one is not checked.
\<close>

theorem gpt_find_sound:
  assumes "\<forall>n. length (read n) = 512" and "gpt_find_xv6fs read = Inr lba"
  shows "lba \<noteq> 0 \<and> mbr_valid (read 0) \<and>
    (let h = header_of (read 1); table = disk_entries read h 0 in
      header_valid h \<and> crc32 (take (unat (header_size h)) (put32 (read 1) 16 0)) = header_crc32 h \<and> crc32 (concat table) = entries_crc32 h \<and>
      (\<exists>pre e post. map entry_of table = pre @ e # post \<and> is_xv6fs e \<and> first_lba e = lba \<and> first_usable_lba h \<le> lba \<and> lba \<le> last_lba e \<and>
        last_lba e \<le> last_usable_lba h \<and> (\<forall>x \<in> set pre. is_xv6fs x \<longrightarrow> first_lba x = 0) \<and> (\<forall>x \<in> set post. \<not> is_xv6fs x)))"
proof -
  let ?h = "header_of (read 1)" and ?t = "disk_entries read (header_of (read 1)) 0"
  have loop: "gpt_loop read ?h 0 0 0 = (case scan_list ?h (map entry_of ?t) 0 of Inl p \<Rightarrow> Inl p | Inr m \<Rightarrow> Inr (crc32 (concat ?t), m))"
    using gpt_loop_spec [OF assms(1), of 0 ?h 0 0] by (simp only: crc32_update_crc32 mod_0 simp_thms)
  have "lba \<noteq> 0 \<and> mbr_valid (read 0) \<and> header_valid ?h \<and> crc32 (take (unat (header_size ?h)) (put32 (read 1) 16 0)) = header_crc32 ?h \<and>
      crc32 (concat ?t) = entries_crc32 ?h \<and> scan_list ?h (map entry_of ?t) 0 = Inr lba"
    using assms(2) unfolding gpt_find_xv6fs_def Let_def loop crc32_update_crc32 by (auto split: if_split_asm sum.split_asm prod.split_asm)
  then show ?thesis using scan_list_sound unfolding Let_def by blast
qed


section \<open>The layout of a built image\<close>

lemma geometry: "SECTOR = 512" "TOTAL_SECTORS = 524288" "BOOT_FIRST = 2048" "BOOT_SECTORS = 131072" "FS_FIRST = 133120" "FS_LAST = 524254"
  "ENTRY_COUNT = 128" "ENTRY_SIZE = 128" "ENTRIES_LBA = 2" "GPT_ENTRY_SIZE = 128" "SECTOR_SIZE = 512"
  by (simp_all add: SECTOR_def TOTAL_SECTORS_def BOOT_FIRST_def BOOT_SECTORS_def FS_FIRST_def FS_LAST_def ENTRY_COUNT_def ENTRY_SIZE_def
      ENTRIES_LBA_def GPT_ENTRY_SIZE_def SECTOR_SIZE_def)

lemma pyset_splice: "i + length bs = j \<Longrightarrow> pyset a i j bs = bsplice a i bs"
  by (auto simp: pyset_def bsplice_def)

lemma length_bytes_le: "length u = 16 \<Longrightarrow> length (bytes_le u) = 16"
  by (simp add: bytes_le_def bslice_def)

text \<open>The bytes of names, entries and the entry table where no name is too long.\<close>

definition padded_name :: "string \<Rightarrow> bytes" where
  "padded_name name = ljust 72 (concat (map (\<lambda>c. [of_char c, 0]) name))"

definition entry_bytes :: "bytes \<Rightarrow> bytes \<Rightarrow> nat \<Rightarrow> nat \<Rightarrow> string \<Rightarrow> bytes" where
  "entry_bytes kind unique lo hi name = bytes_le kind @ bytes_le unique @ nat_bytes 8 lo @ nat_bytes 8 hi @ nat_bytes 8 0 @ padded_name name"

definition entry_table :: "(string \<Rightarrow> bytes) \<Rightarrow> bytes" where
  "entry_table uuid5 =
     pyset (pyset (replicate (ENTRY_COUNT * ENTRY_SIZE) 0) 0 ENTRY_SIZE (entry_bytes EFI_GUID (uuid5 ''boot'') BOOT_FIRST (BOOT_FIRST + BOOT_SECTORS - 1) ''xv6boot''))
       ENTRY_SIZE (2 * ENTRY_SIZE) (entry_bytes LINUX_FS_GUID (uuid5 ''xv6fs'') FS_FIRST FS_LAST ''xv6fs'')"

lemma utf16_length: "length (concat (map (\<lambda>c. [of_char c, 0 :: u8]) name)) = 2 * length name"
  by (induction name) auto

lemma entry_run: "entry kind unique lo hi name =
    (if 2 * length name > 72 then Inl ''GPT partition name too long'' else Inr (entry_bytes kind unique lo hi name))"
  by (simp add: entry_def utf16_name_def utf16_length Let_def entry_bytes_def padded_name_def)

lemma build_entries_run: "build_entries uuid5 = Inr (entry_table uuid5)"
  by (simp add: build_entries_def entry_run entry_table_def)

lemma length_utf16: "2 * length name \<le> 72 \<Longrightarrow> length (padded_name name) = 72"
proof -
  assume a: "2 * length name \<le> 72"
  have "length (concat (map (\<lambda>c. [of_char c, 0 :: u8]) name)) = 2 * length name" by (induction name) auto
  then show ?thesis using a by (simp add: padded_name_def ljust_def)
qed

lemma length_entry: "length kind = 16 \<Longrightarrow> length unique = 16 \<Longrightarrow> 2 * length name \<le> 72 \<Longrightarrow> length (entry_bytes kind unique lo hi name) = 128"
  by (simp add: entry_bytes_def length_bytes_le length_utf16)

lemma length_header_raw: "length guid = 16 \<Longrightarrow> length (header_raw cur bak ents crc guid) = 92"
  by (simp add: header_raw_def length_bytes_le)

lemma length_header: "length guid = 16 \<Longrightarrow> length (header cur bak ents crc guid) = 512"
  by (simp add: header_def Let_def ljust_def length_header_raw geometry)

text \<open>The header sector read back.\<close>

lemma header_layout:
  "length guid = 16 \<Longrightarrow> header cur bak ents crc guid =
     map of_char ''EFI PART'' @ nat_bytes 4 0x10000 @ nat_bytes 4 92 @ nat_bytes 4 (unat (crc32 (header_raw cur bak ents crc guid))) @ nat_bytes 4 0 @
     nat_bytes 8 cur @ nat_bytes 8 bak @ nat_bytes 8 34 @ nat_bytes 8 524254 @ bytes_le guid @ nat_bytes 8 ents @ nat_bytes 4 128 @ nat_bytes 4 128 @
     nat_bytes 4 (unat crc) @ replicate 420 0"
  by (simp add: header_def Let_def ljust_def length_header_raw geometry) (simp add: header_raw_def length_bytes_le geometry)

lemma of_nat_mod: "(of_nat (n mod 18446744073709551616) :: u64) = of_nat n" "(of_nat (n mod 4294967296) :: u32) = of_nat n"
  "(of_nat (n mod 65536) :: u16) = of_nat n"
  by (simp_all add: word_of_nat_eq_iff take_bit_eq_mod)

lemma header_fields:
  assumes "length guid = 16"
  shows "header_of (header cur bak ents crc guid) = \<lparr>signature = efi_signature, revision = 0x10000, header_size = 92,
    header_crc32 = crc32 (header_raw cur bak ents crc guid), reserved = 0, current_lba = of_nat cur, backup_lba = of_nat bak, first_usable_lba = 34,
    last_usable_lba = 524254, disk_guid = bytes_le guid, entries_lba = of_nat ents, h_entry_count = 128, h_entry_size = 128, entries_crc32 = crc\<rparr>"
  using assms
  by (simp add: header_of_def header_layout bslice_def get32_def get64_def length_bytes_le bytes_nat_nat_bytes efi_signature_def of_nat_mod)


lemma header_check:
  assumes "length guid = 16"
  shows "take 92 (put32 (header cur bak ents crc guid) 16 0) = header_raw cur bak ents crc guid"
  using assms by (simp add: header_layout put32_def bsplice_def length_bytes_le) (simp add: header_raw_def geometry)

lemma entry_fields:
  assumes "length kind = 16" "length unique = 16" "2 * length name \<le> 72"
  shows "entry_of (entry_bytes kind unique lo hi name) = \<lparr>type_guid = bytes_le kind, unique_guid = bytes_le unique, first_lba = of_nat lo, last_lba = of_nat hi, attributes = 0,
    e_name = map (\<lambda>i. get16 (padded_name name) (2 * i)) [0..<36]\<rparr>"
proof -
  have "get16 (entry_bytes kind unique lo hi name) (56 + 2 * i) = get16 (padded_name name) (2 * i)" for i
    using assms by (simp add: entry_bytes_def get16_def bslice_def length_bytes_le)
  then show ?thesis
    using assms by (simp add: entry_of_def entry_bytes_def bslice_def get64_def length_bytes_le bytes_nat_nat_bytes of_nat_mod)
qed

lemma bytes_le_guids: "bytes_le LINUX_FS_GUID = xv6fs_type" "bytes_le EFI_GUID \<noteq> xv6fs_type"
  by (simp_all add: bytes_le_def LINUX_FS_GUID_def EFI_GUID_def xv6fs_type_def bslice_def)

lemma xv6fs_name: "is_xv6fs \<lparr>type_guid = xv6fs_type, unique_guid = u, first_lba = a, last_lba = b, attributes = t, e_name = map (\<lambda>i. get16 (padded_name ''xv6fs'') (2 * i)) [0..<36]\<rparr>"
proof -
  have n: "padded_name ''xv6fs'' = [120, 0, 118, 0, 54, 0, 102, 0, 115, 0] @ replicate 62 0" by (simp add: padded_name_def ljust_def)
  have "get16 (padded_name ''xv6fs'') 0 = 120" "get16 (padded_name ''xv6fs'') 2 = 118" "get16 (padded_name ''xv6fs'') 4 = 54"
    "get16 (padded_name ''xv6fs'') 6 = 102" "get16 (padded_name ''xv6fs'') 8 = 115" "get16 (padded_name ''xv6fs'') 10 = 0"
    by (simp_all add: get16_def n bslice_def)
  moreover have l: "[0..<5] = [0, 1, 2, 3, 4 :: nat]" by (simp add: upt_rec)
  ultimately show ?thesis unfolding is_xv6fs_def l by simp
qed


section \<open>Booting from a built image\<close>

lemma scan_none: "\<forall>e \<in> set es. \<not> is_xv6fs e \<Longrightarrow> scan_list h es m = Inr m"
  by (induction es) (auto simp: scan_entry_def)

text \<open>The table holds the two partitions and zeros.\<close>

lemma entries_records:
  assumes "length (uuid5 ''boot'') = 16" "length (uuid5 ''xv6fs'') = 16"
  shows "length (entry_table uuid5) = 16384"
    "bslice (entry_table uuid5) 0 128 = entry_bytes EFI_GUID (uuid5 ''boot'') 2048 133119 ''xv6boot''"
    "bslice (entry_table uuid5) 128 128 = entry_bytes LINUX_FS_GUID (uuid5 ''xv6fs'') 133120 524254 ''xv6fs''"
    "\<forall>i. 2 \<le> i \<and> i < 128 \<longrightarrow> bslice (entry_table uuid5) (i * 128) 128 = replicate 128 0"
proof -
  let ?e0 = "entry_bytes EFI_GUID (uuid5 ''boot'') 2048 133119 ''xv6boot''" and ?e1 = "entry_bytes LINUX_FS_GUID (uuid5 ''xv6fs'') 133120 524254 ''xv6fs''"
  have g: "length EFI_GUID = 16" "length LINUX_FS_GUID = 16" by (simp_all add: EFI_GUID_def LINUX_FS_GUID_def)
  have l: "length ?e0 = 128" "length ?e1 = 128" using assms g by (simp_all add: length_entry)
  have b: "entry_table uuid5 = bsplice (bsplice (replicate 16384 0) 0 ?e0) 128 ?e1"
    using l by (simp add: entry_table_def Let_def geometry pyset_splice)
  show "length (entry_table uuid5) = 16384" by (simp add: b l)
  show "bslice (entry_table uuid5) 0 128 = ?e0" "bslice (entry_table uuid5) 128 128 = ?e1" by (simp_all add: b l layout_simps)
  show "\<forall>i. 2 \<le> i \<and> i < 128 \<longrightarrow> bslice (entry_table uuid5) (i * 128) 128 = replicate 128 0"
  proof (intro allI impI)
    fix i :: nat assume "2 \<le> i \<and> i < 128"
    then have "256 \<le> i * 128" "i * 128 + 128 \<le> 16384" by simp_all
    then show "bslice (entry_table uuid5) (i * 128) 128 = replicate 128 0"
      by (simp add: b l slice_splice_other slice_replicate)
  qed
qed

lemma scan_entries_table:
  assumes "length (uuid5 ''boot'') = 16" "length (uuid5 ''xv6fs'') = 16" "first_usable_lba h = 34" "last_usable_lba h = 524254"
  shows "scan_list h (map entry_of (map (\<lambda>i. bslice (entry_table uuid5) (i * 128) 128) [0..<128])) 0 = Inr 133120"
proof -
  note r = entries_records [OF assms(1,2)]
  have "[0..<128] = 0 # [Suc 0..<128]" "[Suc 0..<128] = Suc 0 # [Suc (Suc 0)..<128]" by (rule upt_conv_Cons, simp)+
  then have up: "[0..<128] = 0 # 1 # [2..<128 :: nat]" by (simp only: One_nat_def numeral_2_eq_2)
  have "hd (type_guid (entry_of (replicate 128 0))) \<noteq> hd xv6fs_type" by (simp add: entry_of_def slice_replicate xv6fs_type_def)
  then have z: "\<not> is_xv6fs (entry_of (replicate 128 0))" by (auto simp only: is_xv6fs_def)
  have e0: "\<not> is_xv6fs (entry_of (bslice (entry_table uuid5) (0 * 128) 128))"
    using assms(1) bytes_le_guids(2) by (simp add: r entry_fields EFI_GUID_def is_xv6fs_def)
  have e1: "entry_of (bslice (entry_table uuid5) (1 * 128) 128) = \<lparr>type_guid = xv6fs_type, unique_guid = bytes_le (uuid5 ''xv6fs''), first_lba = 133120, last_lba = 524254, attributes = 0,
      e_name = map (\<lambda>i. get16 (padded_name ''xv6fs'') (2 * i)) [0..<36]\<rparr>"
    using assms(2) bytes_le_guids(1) by (simp add: r entry_fields LINUX_FS_GUID_def)
  have "scan_list h (map entry_of (map (\<lambda>i. bslice (entry_table uuid5) (i * 128) 128) [2..<128])) m = Inr m" for m
    by (rule scan_none) (use r(4) z in \<open>auto simp del: upt_rec_numeral\<close>)
  moreover have "scan_entry h (entry_of (bslice (entry_table uuid5) (1 * 128) 128)) 0 = Inr 133120"
    unfolding e1 using assms(3,4) xv6fs_name by (simp add: scan_entry_def)
  moreover have "scan_entry h (entry_of (bslice (entry_table uuid5) (0 * 128) 128)) 0 = Inr 0" using e0 by (simp only: scan_entry_def if_True simp_thms)
  ultimately show ?thesis unfolding up list.map scan_list.simps by (simp only: sum.case)
qed


lemma update_splice: "i < length xs \<Longrightarrow> xs[i := v] = bsplice xs i [v]"
  by (simp add: bsplice_def upd_conv_take_nth_drop)

lemma fat_boot_layout: "length fat_boot = 512" "bslice fat_boot 54 8 = map of_char ''FAT16   ''" "bslice fat_boot 510 2 = [0x55, 0xaa]"
  by (simp_all add: fat_boot_def Let_def pyset_splice update_splice geometry layout_simps)

lemma length_fat_chain: "clusters + 2 < 33024 \<Longrightarrow> length (fat_chain clusters) = 66048"
proof -
  assume c: "clusters + 2 < 33024"
  have keep: "length (fold (\<lambda>k fat. bsplice fat (k * 2) (nat_bytes 2 (f k))) ks fat0) = length fat0"
    if "\<forall>k \<in> set ks. k * 2 + 2 \<le> length fat0" for ks fat0 and f :: "nat \<Rightarrow> nat"
    using that by (induction ks arbitrary: fat0) simp_all
  have len: "length (bsplice (replicate (129 * SECTOR) 0) 0 (nat_bytes 2 0xFFF8 @ nat_bytes 2 0xFFFF)) = 66048" by (simp add: geometry)
  show ?thesis unfolding fat_chain_def by (subst keep, unfold len) (use c in auto)
qed

lemma fat_root_layout: "length (fat_root fit) = 32" "bslice (fat_root fit) 28 4 = nat_bytes 4 (length fit)"
  by (simp_all add: fat_root_def bslice_def)

definition fat_image :: "bytes \<Rightarrow> bytes" where
  "fat_image fit = (let fat = fat_chain ((2047 + length fit) div 2048) in
     bsplice (bsplice (bsplice (bsplice (replicate 67108864 0) 0 fat_boot) 512 fat) 66560 fat) 132608 (fat_root fit))"

lemma make_fat16_accepts:
  assumes "0 < length fit" "length fit \<le> 67627008"
  shows "make_fat16 fit = Inr (bsplice (fat_image fit) 148992 fit)" "length (fat_chain ((2047 + length fit) div 2048)) = 66048"
    "length (fat_image fit) = 67108864"
proof -
  let ?c = "(2047 + length fit) div 2048"
  have c: "1 \<le> ?c" "?c + 2 < 33024" using assms by linarith+
  show lf: "length (fat_chain ?c) = 66048" by (rule length_fat_chain [OF c(2)])
  have "[0..<2] = [0, 1 :: nat]" by (simp add: upt_rec)
  then show "make_fat16 fit = Inr (bsplice (fat_image fit) 148992 fit)"
    using c lf fat_root_layout(1) fat_boot_layout(1) by (simp add: make_fat16_def fat_image_def Let_def geometry pyset_splice)
  show "length (fat_image fit) = 67108864" using lf fat_root_layout(1) fat_boot_layout(1) by (simp add: fat_image_def Let_def)
qed

text \<open>A payload that fits the data area of the boot partition is stored with its length in the directory.\<close>

lemma make_fat16_layout:
  assumes "0 < length fit" "length fit \<le> 66959872"
  obtains boot where "make_fat16 fit = Inr boot" "length boot = 67108864" "bslice boot 54 8 = map of_char ''FAT16   ''" "bslice boot 510 2 = [0x55, 0xaa]"
    "bytes_nat (bslice boot 132636 4) = length fit" "bslice boot 148992 (length fit) = fit"
proof -
  define boot where "boot = bsplice (fat_image fit) 148992 fit"
  have a: "make_fat16 fit = Inr boot" "length (fat_chain ((2047 + length fit) div 2048)) = 66048" "length (fat_image fit) = 67108864"
    using make_fat16_accepts [of fit] assms by (simp_all add: boot_def)
  note lf = a(2) fat_root_layout(1) fat_boot_layout(1)
  have l: "length boot = 67108864" using a(3) assms by (simp add: boot_def)
  have 1: "bslice boot 148992 (length fit) = fit" using a(3) assms by (simp add: boot_def layout_simps)
  have sub: "bslice boot (off + i) k = bslice (bslice boot off n) i k" if "i + k \<le> n" for off n i k
    using that by (simp add: bslice_def drop_take min_def add.commute)
  have 2: "bslice boot 132608 32 = fat_root fit" "bslice boot 0 512 = fat_boot"
    using lf assms by (simp_all add: boot_def fat_image_def Let_def layout_simps)
  have 3: "bytes_nat (bslice boot 132636 4) = length fit"
    using sub [of 28 4 32 132608] fat_root_layout(2) assms by (simp add: 2 bytes_nat_nat_bytes)
  have 4: "bslice boot 54 8 = map of_char ''FAT16   ''" "bslice boot 510 2 = [0x55, 0xaa]"
    using sub [of 54 8 512 0] sub [of 510 2 512 0] fat_boot_layout(2,3) by (simp_all add: 2)
  show ?thesis by (rule that [OF a(1) l 4 3 1])
qed


lemma slice_slice: "i + k \<le> n \<Longrightarrow> bslice (bslice a off n) i k = bslice a (off + i) k"
  by (simp add: bslice_def drop_take min_def add.commute)

text \<open>The sectors of an image on a card, with zeros past its end.\<close>

definition card_sector :: "bytes \<Rightarrow> u64 \<Rightarrow> bytes" where
  "card_sector img n = ljust 512 (bslice img (512 * unat n) 512)"

lemma length_card_sector: "length (card_sector img n) = 512"
  by (simp add: card_sector_def ljust_def bslice_def)

lemma card_sector_in: "512 * unat n + 512 \<le> length img \<Longrightarrow> card_sector img n = bslice img (512 * unat n) 512"
  by (simp add: card_sector_def ljust_def)

definition guids_ok :: "(string \<Rightarrow> bytes) \<Rightarrow> bool" where
  "guids_ok uuid5 \<longleftrightarrow> (\<forall>name. length (uuid5 name) = 16)"

text \<open>Where the parts of a built image are.\<close>

lemma build_layout:
  assumes "guids_ok uuid5" "0 < length fit" "length fit \<le> 66959872" "length fs \<le> (FS_LAST - FS_FIRST + 1) * SECTOR"
  obtains img boot crc where "build uuid5 fit fs = Inr img" "make_fat16 fit = Inr boot" "length img = 268435456"
    "img ! 450 = 0xee" "img ! 510 = 0x55" "img ! 511 = 0xaa" "crc = crc32 (entry_table uuid5)"
    "bslice img 512 512 = header 1 524287 2 crc (uuid5 ''xv6-spec-vf2-disk'')" "bslice img 1024 16384 = entry_table uuid5"
    "bslice img 1048576 67108864 = boot" "bslice img 68157440 (length fs) = fs"
proof -
  obtain boot where boot: "make_fat16 fit = Inr boot" "length boot = 67108864" using make_fat16_layout [OF assms(2,3)] by metis
  define entries where "entries = entry_table uuid5"
  define h1 where "h1 = header 1 524287 2 (crc32 entries) (uuid5 ''xv6-spec-vf2-disk'')"
  define h2 where "h2 = header 524287 1 524255 (crc32 entries) (uuid5 ''xv6-spec-vf2-disk'')"
  define mbr :: bytes where "mbr = nat_bytes 1 0 @ [0, 2, 0] @ nat_bytes 1 0xEE @ [0xff, 0xff, 0xff] @ nat_bytes 4 1 @ nat_bytes 4 524287"
  have g: "length (uuid5 n) = 16" for n using assms(1) by (simp add: guids_ok_def)
  have le: "length entries = 16384" using entries_records(1) g by (simp add: entries_def)
  have lh: "length h1 = 512" "length h2 = 512" using g by (simp_all add: h1_def h2_def length_header)
  have lm: "length mbr = 16" "mbr ! 4 = 0xee" by (simp_all add: mbr_def nth_append)
  have lfs: "length fs \<le> 200261120" using assms(4) by (simp add: geometry)
  define img where "img = bsplice (bsplice (bsplice (bsplice (bsplice (bsplice (bsplice (bsplice (replicate 268435456 0) 446 mbr) 510 [0x55, 0xaa]) 512 h1)
    1024 entries) 268418560 entries) 268434944 h2) 1048576 boot) 68157440 fs"
  note lens = le lh lm(1) boot(2) lfs
  have b: "build uuid5 fit fs = Inr img"
    using lens unfolding build_def build_entries_run Let_def entries_def [symmetric] boot(1) sum.case
    by (simp add: geometry pyset_splice img_def h1_def h2_def mbr_def)
  have "length img = 268435456" using lens by (simp add: img_def)
  moreover have "img ! 450 = 0xee" "img ! 510 = 0x55" "img ! 511 = 0xaa" using lens lm(2) by (simp_all add: img_def nth_splice)
  moreover have "bslice img 512 512 = h1" "bslice img 1024 16384 = entries" "bslice img 1048576 67108864 = boot" "bslice img 68157440 (length fs) = fs"
    using lens by (simp_all add: img_def layout_simps)
  ultimately show ?thesis using b boot(1) by (intro that) (simp_all add: h1_def entries_def)
qed


lemma image_found:
  assumes g: "guids_ok uuid5" and len: "length img = 268435456"
    and mbr: "img ! 450 = 0xee" "img ! 510 = 0x55" "img ! 511 = 0xaa" and crc: "crc = crc32 (entry_table uuid5)"
    and hdr: "bslice img 512 512 = header 1 524287 2 crc (uuid5 ''xv6-spec-vf2-disk'')" and ents: "bslice img 1024 16384 = entry_table uuid5"
  shows "gpt_find_xv6fs (card_sector img) = Inr 133120"
proof -
  have g16: "length (uuid5 n) = 16" for n using g by (simp add: guids_ok_def)
  have s0: "card_sector img 0 ! i = img ! i" if "i < 512" for i using len that by (simp add: card_sector_in slice_nth)
  have s1: "card_sector img 1 = header 1 524287 2 crc (uuid5 ''xv6-spec-vf2-disk'')" using len hdr by (simp add: card_sector_in)
  define h where "h = header_of (card_sector img 1)"
  have h: "signature h = efi_signature" "revision h = 0x10000" "header_size h = 92" "current_lba h = 1" "first_usable_lba h = 34" "last_usable_lba h = 524254"
    "entries_lba h = 2" "h_entry_count h = 128" "h_entry_size h = 128" "entries_crc32 h = crc"
    "header_crc32 h = crc32 (header_raw 1 524287 2 crc (uuid5 ''xv6-spec-vf2-disk''))"
    by (simp_all add: h_def s1 header_fields [OF g16])
  have "mbr_valid (card_sector img 0)" using mbr by (simp add: mbr_valid_def s0)
  moreover have "header_valid h" by (simp add: header_valid_def h GPT_HEADER_SIZE_MIN_def GPT_MAX_ENTRIES_def geometry)
  moreover have "crc32_update 0 (take (unat (header_size h)) (put32 (card_sector img 1) 16 0)) = header_crc32 h"
    using header_check [OF g16, of 1 524287 2 crc "''xv6-spec-vf2-disk''"] by (simp add: crc32_update_crc32 h s1)
  moreover have t: "disk_entries (card_sector img) h 0 = map (\<lambda>i. bslice (entry_table uuid5) (i * 128) 128) [0..<128]"
  proof -
    have "disk_entry (card_sector img) h i = bslice (entry_table uuid5) (i * 128) 128" if "i < 128" for i
    proof -
      have d: "i div 4 < 32" "i mod 4 < 4" using that by auto
      have "unat (2 + of_nat (i div 4) :: u64) = 2 + i div 4" using d by (simp add: unat_word_ariths unat_of_nat)
      then have "card_sector img (2 + of_nat (i div 4)) = bslice img (512 * (2 + i div 4)) 512"
        using len d by (simp add: card_sector_in)
      then have "disk_entry (card_sector img) h i = bslice img (512 * (2 + i div 4) + i mod 4 * 128) 128"
        using d by (simp add: disk_entry_def h geometry slice_slice)
      also have "512 * (2 + i div 4) + i mod 4 * 128 = 1024 + i * 128"
      proof -
        have "512 * (2 + a) + b * 128 = 1024 + (a * 4 + b) * 128" for a b :: nat by simp
        from this [of "i div 4" "i mod 4"] show ?thesis by (simp only: div_mult_mod_eq)
      qed
      also have "bslice img (1024 + i * 128) 128 = bslice (entry_table uuid5) (i * 128) 128"
        using that by (simp add: slice_slice flip: ents)
      finally show ?thesis .
    qed
    then show ?thesis by (simp add: disk_entries_def h del: upt_rec_numeral)
  qed
  moreover have "concat (map (\<lambda>i. bslice (entry_table uuid5) (i * 128) 128) [0..<128]) = entry_table uuid5"
    using take_records [of 128 128 "entry_table uuid5"] entries_records(1) g16 by (simp del: upt_rec_numeral)
  moreover have "scan_list h (map entry_of (map (\<lambda>i. bslice (entry_table uuid5) (i * 128) 128) [0..<128])) 0 = Inr 133120"
    by (rule scan_entries_table) (simp_all add: g16 h)
  ultimately have loop: "gpt_loop (card_sector img) h 0 0 0 = Inr (crc, 133120)"
    using gpt_loop_spec [of "card_sector img" 0 h 0 0] length_card_sector by (simp add: crc32_update_crc32 crc del: upt_rec_numeral)
  show ?thesis
    unfolding gpt_find_xv6fs_def Let_def h_def [symmetric]
    using \<open>mbr_valid (card_sector img 0)\<close> \<open>header_valid h\<close>
      \<open>crc32_update 0 (take (unat (header_size h)) (put32 (card_sector img 1) 16 0)) = header_crc32 h\<close> by (simp add: loop h)
qed

lemma image_inspected:
  assumes g: "guids_ok uuid5" and fit: "0 < length fit" "length fit \<le> 66959872" and boot: "make_fat16 fit = Inr boot" and len: "length img = 268435456"
    and mbr: "img ! 510 = 0x55" "img ! 511 = 0xaa" and crc: "crc = crc32 (entry_table uuid5)"
    and hdr: "bslice img 512 512 = header 1 524287 2 crc (uuid5 ''xv6-spec-vf2-disk'')" and ents: "bslice img 1024 16384 = entry_table uuid5"
    and part: "bslice img 1048576 67108864 = boot"
  shows "inspect digest img (Some fit) = None"
proof -
  have g16: "length (uuid5 n) = 16" for n using g by (simp add: guids_ok_def)
  let ?raw = "header_raw 1 524287 2 crc (uuid5 ''xv6-spec-vf2-disk'')" and ?h = "header 1 524287 2 crc (uuid5 ''xv6-spec-vf2-disk'')"
  have b: "bslice boot 54 8 = map of_char ''FAT16   ''" "bslice boot 510 2 = [0x55, 0xaa]" "bytes_nat (bslice boot 132636 4) = length fit"
    "bslice boot 148992 (length fit) = fit"
    using make_fat16_layout [OF fit] boot by (metis sum.inject(2))+
  have m: "bslice img 510 2 = [0x55, 0xaa]"
    using len mbr by (intro nth_equalityI) (auto simp: slice_nth less_Suc_eq numeral_2_eq_2)
  have hd: "bslice ?h 0 8 = map of_char ''EFI PART''" "bytes_nat (bslice ?h 12 4) = 92" "bytes_nat (bslice ?h 16 4) = unat (crc32 ?raw)"
    "bytes_nat (bslice ?h 88 4) = unat crc" "pyset (take 92 ?h) 16 20 (replicate 4 0) = ?raw"
  proof -
    have u: "unat x mod 4294967296 = unat x" for x :: u32 using unat_bound [of x] by simp
    show "bslice ?h 0 8 = map of_char ''EFI PART''" "bytes_nat (bslice ?h 12 4) = 92" "bytes_nat (bslice ?h 16 4) = unat (crc32 ?raw)"
      "bytes_nat (bslice ?h 88 4) = unat crc"
      by (simp_all add: header_layout g16 bslice_def length_bytes_le bytes_nat_nat_bytes u del: One_nat_def)
    show "pyset (take 92 ?h) 16 20 (replicate 4 0) = ?raw"
      by (simp add: header_layout g16 pyset_def length_bytes_le del: One_nat_def) (simp add: header_raw_def geometry)
  qed
  have e: "bslice (entry_table uuid5) 128 128 = entry_bytes LINUX_FS_GUID (uuid5 ''xv6fs'') 133120 524254 ''xv6fs''" using entries_records(3) g16 by simp
  have s: "bslice (bslice (entry_table uuid5) 128 128) 0 16 = bytes_le LINUX_FS_GUID"
    "bslice (bslice (entry_table uuid5) 128 128) 56 10 = concat (map (\<lambda>c. [of_char c, 0]) ''xv6fs'')"
    unfolding e by (simp_all add: entry_bytes_def bslice_def length_bytes_le g16 LINUX_FS_GUID_def padded_name_def ljust_def)
  show ?thesis unfolding inspect_def geometry Let_def by (simp add: len m hdr hd ents s part b del: One_nat_def) (simp add: crc)
qed

text \<open>
  C36. An image the builder writes boots: when the boot payload is not empty and fits the data area of its partition, 66959872
  bytes, and the file system fits the other partition, \<^verbatim>\<open>build\<close> succeeds, \<^verbatim>\<open>inspect\<close> finds no fault, and \<^verbatim>\<open>gpt_find_xv6fs\<close> on a card with that image returns the first
  sector of the file-system partition, at which the file system's bytes are stored.
\<close>

theorem image_boots:
  assumes "guids_ok uuid5" and "0 < length fit" and "length fit \<le> 66959872" and "length fs \<le> (FS_LAST - FS_FIRST + 1) * SECTOR"
  shows "\<exists>img. build uuid5 fit fs = Inr img \<and> inspect digest img (Some fit) = None \<and>
    gpt_find_xv6fs (card_sector img) = Inr (of_nat FS_FIRST) \<and> bslice img (FS_FIRST * SECTOR) (length fs) = fs"
proof -
  obtain img boot crc where i: "build uuid5 fit fs = Inr img" "make_fat16 fit = Inr boot" "length img = 268435456"
    "img ! 450 = 0xee" "img ! 510 = 0x55" "img ! 511 = 0xaa" "crc = crc32 (entry_table uuid5)"
    "bslice img 512 512 = header 1 524287 2 crc (uuid5 ''xv6-spec-vf2-disk'')" "bslice img 1024 16384 = entry_table uuid5"
    "bslice img 1048576 67108864 = boot" "bslice img 68157440 (length fs) = fs"
    using build_layout [OF assms] .
  have "inspect digest img (Some fit) = None" by (rule image_inspected [OF assms(1-3) i(2,3,5-10)])
  moreover have "gpt_find_xv6fs (card_sector img) = Inr 133120" by (rule image_found [OF assms(1) i(3-9)])
  ultimately show ?thesis using i(1,11) by (simp add: geometry)
qed

definition demo_uuid5 :: "string \<Rightarrow> bytes" where
  "demo_uuid5 name = replicate 16 (of_nat (length name))"

lemma demo_uuid5_ok: "guids_ok demo_uuid5"
  by (simp add: guids_ok_def demo_uuid5_def)

theorem image_boots_witness:
  "\<exists>img. build demo_uuid5 [1] [2, 3] = Inr img \<and> inspect length img (Some [1]) = None \<and> gpt_find_xv6fs (card_sector img) = Inr (of_nat FS_FIRST) \<and>
     bslice img (FS_FIRST * SECTOR) 2 = [2, 3]"
  using image_boots [OF demo_uuid5_ok, of "[1]" "[2, 3]" length] by (simp add: geometry numeral_2_eq_2)

theorem gpt_find_sound_witness:
  "\<exists>img. mbr_valid (card_sector img 0) \<and> header_valid (header_of (card_sector img 1)) \<and>
     (\<exists>e \<in> set (map entry_of (disk_entries (card_sector img) (header_of (card_sector img 1)) 0)). is_xv6fs e \<and> first_lba e = 133120)"
proof -
  obtain img boot crc where i: "build demo_uuid5 [1] [] = Inr img" "make_fat16 [1] = Inr boot" "length img = 268435456"
    "img ! 450 = 0xee" "img ! 510 = 0x55" "img ! 511 = 0xaa" "crc = crc32 (entry_table demo_uuid5)"
    "bslice img 512 512 = header 1 524287 2 crc (demo_uuid5 ''xv6-spec-vf2-disk'')" "bslice img 1024 16384 = entry_table demo_uuid5"
    "bslice img 1048576 67108864 = boot" "bslice img 68157440 (length []) = []"
    by (rule build_layout [OF demo_uuid5_ok, of "[1]" "[]"]) simp_all
  have f: "gpt_find_xv6fs (card_sector img) = Inr 133120" by (rule image_found [OF demo_uuid5_ok i(3-9)])
  have "\<forall>n. length (card_sector img n) = 512" by (simp add: length_card_sector)
  from gpt_find_sound [OF this f, unfolded Let_def] obtain pre e post
    where "map entry_of (disk_entries (card_sector img) (header_of (card_sector img 1)) 0) = pre @ e # post" "is_xv6fs e" "first_lba e = 133120"
      and v: "mbr_valid (card_sector img 0)" "header_valid (header_of (card_sector img 1))" by blast
  then have "\<exists>e \<in> set (map entry_of (disk_entries (card_sector img) (header_of (card_sector img 1)) 0)). is_xv6fs e \<and> first_lba e = 133120"
    by (metis in_set_conv_decomp)
  then show ?thesis using v by blast
qed

text \<open>
  The size check of the builder bounds the clusters of the payload by the allocation table, which is larger than the
  data area: a payload beyond the area is accepted and grows the partition, moving what follows it.
\<close>

lemma oversized_payload_grows:
  assumes "66959872 < length fit" "length fit \<le> 67627008"
  shows "\<exists>boot. make_fat16 fit = Inr boot \<and> BOOT_SECTORS * SECTOR < length boot"
proof -
  have a: "make_fat16 fit = Inr (bsplice (fat_image fit) 148992 fit)" "length (fat_image fit) = 67108864"
    by (rule make_fat16_accepts, use assms in linarith, rule assms(2))+
  then have "length (bsplice (fat_image fit) 148992 fit) = 148992 + length fit" using assms by (simp add: bsplice_def)
  then show ?thesis using a(1) assms by (simp add: geometry)
qed

end
