(* ===== verification/Grep.thy ===== *)
theory Grep
  imports Prelude
begin

text \<open>
  The pattern search of \<^verbatim>\<open>platform/visionfive2/user/grep.c\<close>: the recursive matcher and the buffered scan of a file. A C
  string is the list of its bytes before the NUL, so \<^verbatim>\<open>re[0] == 0\<close> is the empty list. The file is its contents
  together with the sizes in which \<^verbatim>\<open>read\<close> delivers it. The matcher is compared with the language of the pattern.
\<close>

section \<open>The program\<close>

definition CARET :: u8 where "CARET = 94"

definition DOLLAR :: u8 where "DOLLAR = 36"

definition DOT :: u8 where "DOT = 46"

definition STAR :: u8 where "STAR = 42"

definition NEWLINE :: u8 where "NEWLINE = 10"

function matchhere :: "bytes \<Rightarrow> bytes \<Rightarrow> bool"
  and matchstar :: "u8 \<Rightarrow> bytes \<Rightarrow> bytes \<Rightarrow> bool" where
  "matchhere re str =
     (if re = [] then True
      else if tl re \<noteq> [] \<and> hd (tl re) = STAR then matchstar (hd re) (tl (tl re)) str
      else if hd re = DOLLAR \<and> tl re = [] then str = []
      else if str \<noteq> [] \<and> (hd re = DOT \<or> hd re = hd str) then matchhere (tl re) (tl str)
      else False)"
| "matchstar c re str =
     (if matchhere re str then True
      else if str \<noteq> [] \<and> (hd str = c \<or> c = DOT) then matchstar c re (tl str)
      else False)"
  by pat_completeness auto
termination
  by (relation "inv_image (less_than <*lex*> less_than <*lex*> less_than)
      (\<lambda>x. case x of Inl (re, str) \<Rightarrow> (length re, length str, 0 :: nat) | Inr (c, re, str) \<Rightarrow> (length re, length str, 1))")
    (auto simp: neq_Nil_conv)

declare matchhere.simps [simp del] matchstar.simps [simp del]

text \<open>The loop of \<^verbatim>\<open>match\<close> tries every suffix, the empty one included.\<close>

fun match_from :: "bytes \<Rightarrow> bytes \<Rightarrow> bool" where
  "match_from re str = (if matchhere re str then True else case str of [] \<Rightarrow> False | _ # str' \<Rightarrow> match_from re str')"

declare match_from.simps [simp del]

definition match :: "bytes \<Rightarrow> bytes \<Rightarrow> bool" where
  "match re str = (if re \<noteq> [] \<and> hd re = CARET then matchhere (tl re) str else match_from re str)"

text \<open>\<^verbatim>\<open>strchr\<close> of \<^verbatim>\<open>user/ulib.c\<close>: the rest of the string from the first occurrence on. The search ends at a NUL.\<close>

fun strchr :: "bytes \<Rightarrow> u8 \<Rightarrow> bytes option" where
  "strchr [] c = None"
| "strchr (b # s) c = (if b = 0 then None else if b = c then Some (b # s) else strchr s c)"

lemma strchr_suffix: "strchr s c = Some q \<Longrightarrow> q = c # tl q \<and> length q \<le> length s"
  by (induction s) (auto split: if_splits)

text \<open>
  The inner loop of \<^verbatim>\<open>grep\<close> on the bytes of the buffer from \<^verbatim>\<open>p\<close> on: the text written for the complete lines, and what
  stays in the buffer. The string the matcher gets ends where \<^verbatim>\<open>*q = 0\<close> was stored.
\<close>

function scan_lines :: "bytes \<Rightarrow> bytes \<Rightarrow> bytes \<times> bytes" where
  "scan_lines pattern p =
     (case strchr p NEWLINE of
        None \<Rightarrow> ([], p)
      | Some q \<Rightarrow> (let line = take (length p - length q) p; (out, left) = scan_lines pattern (tl q)
                  in ((if match pattern line then line @ [NEWLINE] else []) @ out, left)))"
  by pat_completeness auto
termination
proof (relation "measure (\<lambda>(_, p). length p)")
  fix pattern p q
  assume "strchr p NEWLINE = Some q"
  from strchr_suffix [OF this] have "length (tl q) < length p" by (cases q) auto
  then show "((pattern, tl q), pattern, p) \<in> measure (\<lambda>(_, p). length p)" by simp
qed simp

declare scan_lines.simps [simp del]

definition BUF_SIZE :: nat where "BUF_SIZE = 1024"

text \<open>
  The outer loop. Call \<open>i\<close> of \<^verbatim>\<open>read\<close> delivers at most \<open>piece i\<close> bytes, never more than asked for or left, and the loop ends when it
  delivers none.
\<close>

function grep_loop :: "bytes \<Rightarrow> (nat \<Rightarrow> nat) \<Rightarrow> nat \<Rightarrow> bytes \<Rightarrow> bytes \<Rightarrow> bytes" where
  "grep_loop pattern piece i buf rest =
     (let n = min (piece i) (min (BUF_SIZE - length buf - 1) (length rest))
      in if n = 0 then []
         else case scan_lines pattern (buf @ take n rest) of
                (out, left) \<Rightarrow> out @ grep_loop pattern piece (Suc i) left (drop n rest))"
  by pat_completeness auto
termination
  by (relation "measure (\<lambda>(_, _, _, _, rest). length rest)") simp_all

declare grep_loop.simps [simp del]

definition grep :: "bytes \<Rightarrow> (nat \<Rightarrow> nat) \<Rightarrow> bytes \<Rightarrow> bytes" where
  "grep pattern piece content = grep_loop pattern piece 0 [] content"

section \<open>The language of a pattern\<close>

text \<open>A pattern is a sequence of characters, each possibly repeated, with an optional anchor at the end.\<close>

fun items :: "bytes \<Rightarrow> (u8 \<times> bool) list" where
  "items [] = []"
| "items [c] = (if c = DOLLAR then [] else [(c, False)])"
| "items (c # d # re) = (if d = STAR then (c, True) # items re else (c, False) # items (d # re))"

fun anchored :: "bytes \<Rightarrow> bool" where
  "anchored [] = False"
| "anchored [c] = (c = DOLLAR)"
| "anchored (c # d # re) = (if d = STAR then anchored re else anchored (d # re))"

definition covers :: "u8 \<Rightarrow> u8 \<Rightarrow> bool" where
  "covers c x \<longleftrightarrow> c = DOT \<or> x = c"

primrec lang :: "(u8 \<times> bool) list \<Rightarrow> bytes set" where
  "lang [] = {[]}"
| "lang (i # is) = (case i of
     (c, False) \<Rightarrow> {x # w | x w. covers c x \<and> w \<in> lang is}
   | (c, True) \<Rightarrow> {u @ w | u w. list_all (covers c) u \<and> w \<in> lang is})"

definition begins :: "bytes \<Rightarrow> bytes \<Rightarrow> bool" where
  "begins re str \<longleftrightarrow> (\<exists>w post. str = w @ post \<and> w \<in> lang (items re) \<and> (anchored re \<longrightarrow> post = []))"

definition contains :: "bytes \<Rightarrow> bytes \<Rightarrow> bool" where
  "contains re str = (if re \<noteq> [] \<and> hd re = CARET then begins (tl re) str else (\<exists>pre rest. str = pre @ rest \<and> begins re rest))"

text \<open>The lines of a text that end with a newline, and what follows the last of them.\<close>

primrec split_lines :: "bytes \<Rightarrow> bytes list \<times> bytes" where
  "split_lines [] = ([], [])"
| "split_lines (b # s) = (case split_lines s of (ls, t) \<Rightarrow>
     if b = NEWLINE then ([] # ls, t) else case ls of [] \<Rightarrow> ([], b # t) | l # ls' \<Rightarrow> ((b # l) # ls', t))"

definition full_lines :: "bytes \<Rightarrow> bytes list" where "full_lines s = fst (split_lines s)"

section \<open>The matcher recognises the language\<close>

lemma begins_Nil: "begins [] str"
  by (simp add: begins_def)

lemma begins_star: "begins (c # STAR # re) str \<longleftrightarrow> (\<exists>u rest. str = u @ rest \<and> list_all (covers c) u \<and> begins re rest)"
proof
  assume "begins (c # STAR # re) str"
  then obtain w' post where w': "str = w' @ post" "w' \<in> lang (items (c # STAR # re))" "anchored re \<longrightarrow> post = []"
    unfolding begins_def by (metis anchored.simps(3))
  then obtain u w where "w' = u @ w" "list_all (covers c) u" "w \<in> lang (items re)" by auto
  then have "str = u @ w @ post" "list_all (covers c) u" "w \<in> lang (items re)" "anchored re \<longrightarrow> post = []" using w' by simp_all
  then show "\<exists>u rest. str = u @ rest \<and> list_all (covers c) u \<and> begins re rest"
    by (intro exI [of _ u] exI [of _ "w @ post"]) (auto simp: begins_def)
next
  assume "\<exists>u rest. str = u @ rest \<and> list_all (covers c) u \<and> begins re rest"
  then obtain u w post where "str = u @ w @ post" "list_all (covers c) u" "w \<in> lang (items re)" "anchored re \<longrightarrow> post = []"
    unfolding begins_def by blast
  then show "begins (c # STAR # re) str" unfolding begins_def by (intro exI [of _ "u @ w"] exI [of _ post]) auto
qed

lemma begins_end: "begins [DOLLAR] str \<longleftrightarrow> str = []"
  by (simp add: begins_def)

lemma items_one:
  assumes "re = [] \<or> hd re \<noteq> STAR" "\<not> (c = DOLLAR \<and> re = [])"
  shows "items (c # re) = (c, False) # items re" "anchored (c # re) = anchored re"
  using assms by (cases re; auto)+

lemma begins_one:
  assumes "re = [] \<or> hd re \<noteq> STAR" "\<not> (c = DOLLAR \<and> re = [])"
  shows "begins (c # re) str \<longleftrightarrow> (\<exists>x rest. str = x # rest \<and> covers c x \<and> begins re rest)"
proof
  assume "begins (c # re) str"
  then obtain w' post where w': "str = w' @ post" "w' \<in> lang ((c, False) # items re)" "anchored re \<longrightarrow> post = []"
    unfolding begins_def items_one [OF assms] by blast
  then obtain x w where "w' = x # w" "covers c x" "w \<in> lang (items re)" by auto
  then have "str = x # w @ post" "covers c x" "w \<in> lang (items re)" "anchored re \<longrightarrow> post = []" using w' by simp_all
  then show "\<exists>x rest. str = x # rest \<and> covers c x \<and> begins re rest"
    unfolding begins_def by (intro exI [of _ x] exI [of _ "w @ post"]) auto
next
  assume "\<exists>x rest. str = x # rest \<and> covers c x \<and> begins re rest"
  then obtain x w post where "str = x # w @ post" "covers c x" "w \<in> lang (items re)" "anchored re \<longrightarrow> post = []"
    unfolding begins_def by blast
  then show "begins (c # re) str"
    unfolding begins_def items_one [OF assms] by (intro exI [of _ "x # w"] exI [of _ post]) auto
qed

lemma star_unfold:
  "(\<exists>u rest. str = u @ rest \<and> list_all (covers c) u \<and> P rest) \<longleftrightarrow>
     P str \<or> (\<exists>x t. str = x # t \<and> covers c x \<and> (\<exists>u rest. t = u @ rest \<and> list_all (covers c) u \<and> P rest))"
  (is "?l \<longleftrightarrow> ?r")
proof
  assume ?l
  then obtain u rest where u: "str = u @ rest" "list_all (covers c) u" "P rest" by blast
  then show ?r by (cases u) auto
next
  assume ?r
  then show ?l
  proof
    assume "P str"
    then show ?l by (intro exI [of _ "[]"] exI [of _ str]) simp
  next
    assume "\<exists>x t. str = x # t \<and> covers c x \<and> (\<exists>u rest. t = u @ rest \<and> list_all (covers c) u \<and> P rest)"
    then obtain x u rest where "str = x # u @ rest" "covers c x" "list_all (covers c) u" "P rest" by blast
    then show ?l by (intro exI [of _ "x # u"] exI [of _ rest]) simp
  qed
qed

lemma matcher_language:
  "matchhere re str \<longleftrightarrow> begins re str"
  "matchstar c re str \<longleftrightarrow> (\<exists>u rest. str = u @ rest \<and> list_all (covers c) u \<and> begins re rest)"
proof (induction re str and c re str rule: matchhere_matchstar.induct)
  case (1 re str)
  consider "re = []" | c re' where "re = c # STAR # re'" | "re = [DOLLAR]"
    | c re' where "re = c # re'" "re' = [] \<or> hd re' \<noteq> STAR" "\<not> (c = DOLLAR \<and> re' = [])"
    by (metis list.exhaust list.sel(1))
  then show ?case
  proof cases
    case 1
    then show ?thesis by (simp add: matchhere.simps begins_Nil)
  next
    case (2 c re')
    then show ?thesis using "1.IH"(1) by (simp add: matchhere.simps [of "c # STAR # re'"] begins_star)
  next
    case 3
    then show ?thesis by (simp add: matchhere.simps begins_end)
  next
    case (4 c re')
    then show ?thesis using "1.IH"(2) by (cases str) (auto simp: matchhere.simps [of "c # re'"] begins_one covers_def)
  qed
next
  case (2 c re str)
  define starred where "starred s = (\<exists>u rest. s = u @ rest \<and> list_all (covers c) u \<and> begins re rest)" for s
  have cv: "(x = c \<or> c = DOT) = covers c x" for x by (auto simp: covers_def)
  have "starred str = (begins re str \<or> (\<exists>x t. str = x # t \<and> covers c x \<and> starred t))" unfolding starred_def by (rule star_unfold)
  moreover have "matchhere re str = begins re str" by (rule "2.IH"(1))
  moreover have "matchstar c re (tl str) = starred (tl str)" if "\<not> matchhere re str" "str \<noteq> []" "covers c (hd str)"
    using "2.IH"(2) that unfolding starred_def cv by blast
  ultimately show ?case unfolding starred_def [symmetric] matchstar.simps [of c re str] cv by (cases str) auto
qed

lemma match_from_suffix: "match_from re str \<longleftrightarrow> (\<exists>pre rest. str = pre @ rest \<and> begins re rest)"
proof (induction str)
  case Nil
  then show ?case by (simp add: match_from.simps matcher_language)
next
  case (Cons b str)
  show ?case
  proof
    assume "match_from re (b # str)"
    then have "begins re (b # str) \<or> (\<exists>pre rest. str = pre @ rest \<and> begins re rest)"
      using Cons by (simp add: match_from.simps [of re "b # str"] matcher_language split: if_splits)
    then show "\<exists>pre rest. b # str = pre @ rest \<and> begins re rest" by (metis append_Cons append_Nil)
  next
    assume "\<exists>pre rest. b # str = pre @ rest \<and> begins re rest"
    then have "begins re (b # str) \<or> (\<exists>pre rest. str = pre @ rest \<and> begins re rest)" by (metis append_eq_Cons_conv)
    then show "match_from re (b # str)" using Cons by (auto simp: match_from.simps [of re "b # str"] matcher_language)
  qed
qed

lemma match_contains: "match re str = contains re str"
  by (simp add: match_def contains_def matcher_language match_from_suffix)

section \<open>Lines\<close>

text \<open>The part of a buffer a C string function sees.\<close>

abbreviation cstring :: "bytes \<Rightarrow> bytes" where
  "cstring s \<equiv> takeWhile (\<lambda>b. b \<noteq> 0) s"

lemma strchr_some: "strchr s c = Some q \<Longrightarrow> \<exists>l r. s = l @ c # r \<and> q = c # r \<and> c \<notin> set l \<and> 0 \<notin> set l \<and> c \<noteq> 0"
proof (induction s)
  case (Cons b s)
  show ?case
  proof (cases "b = c")
    case True
    then have "b # s = [] @ c # s \<and> q = c # s \<and> c \<notin> set [] \<and> 0 \<notin> set ([] :: bytes) \<and> c \<noteq> 0"
      using Cons.prems by (auto split: if_splits)
    then show ?thesis by blast
  next
    case False
    then obtain l r where "s = l @ c # r" "q = c # r" "c \<notin> set l" "0 \<notin> set l" "c \<noteq> 0" "b \<noteq> 0"
      using Cons by (auto split: if_splits)
    then show ?thesis using False by (metis append_Cons set_ConsD)
  qed
qed simp

lemma strchr_none: "strchr s c = None \<Longrightarrow> c \<notin> set (cstring s)"
  by (induction s) (auto split: if_splits)

lemma cstring_append: "cstring (s @ r) = (if 0 \<in> set s then cstring s else s @ cstring r)"
  by (auto simp: takeWhile_append)

lemma split_prefix: "NEWLINE \<notin> set buf \<Longrightarrow> split_lines (buf @ r) = (case split_lines r of (ls, t) \<Rightarrow>
    case ls of [] \<Rightarrow> ([], buf @ t) | l # ls' \<Rightarrow> ((buf @ l) # ls', t))"
  by (induction buf) (auto split: list.split prod.split)

lemma split_rest: "NEWLINE \<notin> set (snd (split_lines s))"
  by (induction s) (auto split: list.split prod.split)

lemma split_append:
  "split_lines (s @ r) = (fst (split_lines s) @ fst (split_lines (snd (split_lines s) @ r)), snd (split_lines (snd (split_lines s) @ r)))"
proof (induction s)
  case (Cons b s)
  then show ?case using split_prefix [OF split_rest [of s], of r] by (auto split: list.split prod.split)
qed simp

lemma scan_lines_split:
  "scan_lines pattern s = (concat (map (\<lambda>l. l @ [NEWLINE]) (filter (match pattern) (fst (split_lines (cstring s))))),
     snd (split_lines (cstring s)) @ dropWhile (\<lambda>b. b \<noteq> 0) s)"
proof (induction pattern s rule: scan_lines.induct)
  case (1 pattern s)
  show ?case
  proof (cases "strchr s NEWLINE")
    case None
    have "split_lines (cstring s) = ([], cstring s)" using split_prefix [OF strchr_none [OF None], of "[]"] by simp
    then show ?thesis by (simp add: scan_lines.simps [of pattern s] None)
  next
    case (Some q)
    then obtain l r where s: "s = l @ NEWLINE # r" and q: "q = NEWLINE # r" and l: "NEWLINE \<notin> set l" "0 \<notin> set l"
      using strchr_some by blast
    have c: "cstring s = l @ NEWLINE # cstring r" using l(2) by (simp add: s cstring_append NEWLINE_def)
    have d: "dropWhile (\<lambda>b. b \<noteq> 0) s = dropWhile (\<lambda>b. b \<noteq> 0) r" using l(2) by (auto simp: s dropWhile_append NEWLINE_def)
    have t: "take (length s - length q) s = l" by (simp add: s q)
    have "scan_lines pattern r = (concat (map (\<lambda>l. l @ [NEWLINE]) (filter (match pattern) (fst (split_lines (cstring r))))),
        snd (split_lines (cstring r)) @ dropWhile (\<lambda>b. b \<noteq> 0) r)"
      using 1 [OF Some refl] by (simp add: q)
    moreover have "split_lines (l @ NEWLINE # cstring r) = (l # fst (split_lines (cstring r)), snd (split_lines (cstring r)))"
      using split_prefix [OF l(1), of "NEWLINE # cstring r"] by (simp split: prod.split)
    ultimately show ?thesis unfolding scan_lines.simps [of pattern s] Some option.case t c d by (simp add: q)
  qed
qed

text \<open>What stays in the buffer and what is still to be read show the same C string as before.\<close>

lemma cstring_left:
  "cstring (snd (split_lines (cstring s)) @ dropWhile (\<lambda>b. b \<noteq> 0) s @ r) =
     (if 0 \<in> set s then snd (split_lines (cstring s)) else snd (split_lines (cstring s)) @ cstring r)"
proof -
  have "0 \<notin> set (snd (split_lines t))" if "0 \<notin> set t" for t :: bytes
    using that by (induction t) (auto split: list.split prod.split)
  moreover have "0 \<notin> set (cstring s)" by (auto dest: set_takeWhileD)
  ultimately have n: "0 \<notin> set (snd (split_lines (cstring s)))" by blast
  show ?thesis
  proof (cases "0 \<in> set s")
    case True
    then obtain t where "dropWhile (\<lambda>b. b \<noteq> 0) s = 0 # t"
      using hd_dropWhile [of "\<lambda>b. b \<noteq> 0" s] by (metis (mono_tags, lifting) dropWhile_eq_Nil_conv list.exhaust_sel)
    then show ?thesis using True n by (simp add: cstring_append)
  next
    case False
    have "dropWhile (\<lambda>b. b \<noteq> 0) s = []" using False by auto
    then show ?thesis using False n by (simp add: cstring_append del: dropWhile_eq_Nil_conv)
  qed
qed

lemma full_lines_left:
  "full_lines (cstring (s @ r)) =
     full_lines (cstring s) @ full_lines (cstring (snd (split_lines (cstring s)) @ dropWhile (\<lambda>b. b \<noteq> 0) s @ r))"
proof (cases "0 \<in> set s")
  case True
  have "full_lines (snd (split_lines (cstring s))) = []"
    using split_prefix [OF split_rest [of "cstring s"], of "[]"] by (simp add: full_lines_def)
  then show ?thesis using True unfolding cstring_left cstring_append [of s r] by simp
next
  case False
  then have c: "cstring s = s" by (simp only: takeWhile_eq_all_conv) auto
  have "full_lines (s @ cstring r) = full_lines s @ full_lines (snd (split_lines s) @ cstring r)"
    using split_append [of s "cstring r"] by (simp add: full_lines_def)
  then show ?thesis using False cstring_left [of s r] unfolding cstring_append [of s r] c by simp
qed

lemma grep_loop_lines:
  assumes "\<forall>i. 0 < piece i" "\<forall>l \<in> set (full_lines (cstring (buf @ rest))). length l < BUF_SIZE - 1" "NEWLINE \<notin> set (cstring buf)"
  shows "grep_loop pattern piece i buf rest = concat (map (\<lambda>l. l @ [NEWLINE]) (filter (match pattern) (full_lines (cstring (buf @ rest)))))"
  using assms(2,3)
proof (induction "length rest" arbitrary: i buf rest rule: less_induct)
  case less
  define n where "n = min (piece i) (min (BUF_SIZE - length buf - 1) (length rest))"
  have loop: "grep_loop pattern piece i buf rest = (if n = 0 then [] else case scan_lines pattern (buf @ take n rest) of
      (out, left) \<Rightarrow> out @ grep_loop pattern piece (Suc i) left (drop n rest))"
    unfolding grep_loop.simps [of pattern piece i buf] Let_def n_def [symmetric] by (rule refl)
  have whole: "full_lines (cstring buf) = []" using split_prefix [OF less.prems(2), of "[]"] by (simp add: full_lines_def)
  show ?case
  proof (cases "n = 0")
    case True
    then have "rest = [] \<or> BUF_SIZE - 1 \<le> length buf" using assms(1) by (auto simp: n_def min_def split: if_splits) (metis less_not_refl)
    moreover have "full_lines (cstring (buf @ rest)) = []" if big: "BUF_SIZE - 1 \<le> length buf"
    proof (cases "0 \<in> set buf")
      case True
      then show ?thesis using whole by (simp add: cstring_append)
    next
      case False
      then have "cstring buf = buf" by (simp only: takeWhile_eq_all_conv) auto
      then have nl: "NEWLINE \<notin> set buf" using less.prems(2) by metis
      have c: "cstring (buf @ rest) = buf @ cstring rest" using False by (simp add: cstring_append)
      show ?thesis using less.prems(1) big split_prefix [OF nl, of "cstring rest"]
        by (auto simp: c full_lines_def split: list.splits prod.splits)
    qed
    ultimately have "full_lines (cstring (buf @ rest)) = []" using whole by auto
    then show ?thesis using True by (simp add: loop)
  next
    case False
    let ?s = "buf @ take n rest"
    let ?left = "snd (split_lines (cstring ?s)) @ dropWhile (\<lambda>b. b \<noteq> 0) ?s"
    have s: "?s @ drop n rest = buf @ rest" by simp
    have app: "full_lines (cstring (buf @ rest)) = full_lines (cstring ?s) @ full_lines (cstring (?left @ drop n rest))"
      using full_lines_left [of ?s "drop n rest"] unfolding s by (simp only: append_assoc)
    have "grep_loop pattern piece (Suc i) ?left (drop n rest) =
        concat (map (\<lambda>l. l @ [NEWLINE]) (filter (match pattern) (full_lines (cstring (?left @ drop n rest)))))"
    proof (rule less.hyps)
      show "length (drop n rest) < length rest" using False by (simp add: n_def)
      show "\<forall>l \<in> set (full_lines (cstring (?left @ drop n rest))). length l < BUF_SIZE - 1" using less.prems(1) unfolding app by simp
      have "cstring ?left = snd (split_lines (cstring ?s))" using cstring_left [of ?s "[]"] by simp
      then show "NEWLINE \<notin> set (cstring ?left)" using split_rest by simp
    qed
    then show ?thesis using False unfolding loop app scan_lines_split by (simp flip: full_lines_def)
  qed
qed

text \<open>
  C40. \<^verbatim>\<open>grep\<close> prints exactly the lines of the file that contain a string of the pattern's language, in order and with
  their newlines, in whatever pieces \<^verbatim>\<open>read\<close> delivers the file, as long as every line is shorter than 1023 bytes. Two
  parts of a file are not searched: everything from the first NUL byte on, its line included, and text after the
  last newline.
\<close>

theorem grep_correct:
  assumes "\<forall>i. 0 < piece i" and "\<forall>l \<in> set (full_lines (takeWhile (\<lambda>b. b \<noteq> 0) content)). length l < BUF_SIZE - 1"
  shows "grep pattern piece content =
    concat (map (\<lambda>l. l @ [NEWLINE]) (filter (contains pattern) (full_lines (takeWhile (\<lambda>b. b \<noteq> 0) content))))"
  using grep_loop_lines [OF assms(1), of "[]" content pattern 0] assms(2) by (simp add: grep_def match_contains [abs_def])

theorem grep_correct_witness:
  "grep [97, STAR, 98, DOLLAR] (\<lambda>i. 2) [98, 97, 98, 10, 98, 99, 10, 97, 0, 98, 10] = [98, 97, 98, 10]"
proof -
  let ?str = "[98, 97, 98, 10, 98, 99, 10, 97, 0, 98, 10] :: bytes" and ?re = "[97, STAR, 98, DOLLAR]"
  have l: "full_lines (takeWhile (\<lambda>b. b \<noteq> 0) ?str) = [[98, 97, 98], [98, 99]]" by (simp add: full_lines_def NEWLINE_def)
  have "contains ?re [98, 97, 98]" "\<not> contains ?re [98, 99]"
    by (simp_all add: match_contains [symmetric] match_def match_from.simps matchhere.simps matchstar.simps STAR_def DOLLAR_def DOT_def CARET_def)
  then show ?thesis using grep_correct [of "\<lambda>i. 2" ?str ?re] unfolding l by (simp add: BUF_SIZE_def NEWLINE_def)
qed

end
