(* ===== verification/Spec2Isabelle.thy ===== *)
theory Spec2Isabelle
  imports Bio_Props Log_Props Spinlock Pipe_Props Virtio_Props Fs_Props Kernel_Inv Asm Lab1 Gpt Grep
begin

text \<open>
  A verification library for the xv6 kernel of this repository.

  \<^bold>\<open>The program.\<close> \<^verbatim>\<open>kernel/\<close> is a small Unix kernel for one RISC-V hart. At the bottom are byte strings
  (\<^verbatim>\<open>string.c\<close>), spinlocks (\<^verbatim>\<open>spinlock.c\<close>), the page allocator (\<^verbatim>\<open>kalloc.c\<close>), page tables (\<^verbatim>\<open>vm.c\<close>), the UART and
  \<^verbatim>\<open>printf\<close> (\<^verbatim>\<open>uart.c\<close>, \<^verbatim>\<open>console.c\<close>, \<^verbatim>\<open>printk.c\<close>) and the virtio disk (\<^verbatim>\<open>virtio_disk.c\<close>). On the disk stand the
  buffer cache (\<^verbatim>\<open>bio.c\<close>), the redo log (\<^verbatim>\<open>log.c\<close>) and the file system (\<^verbatim>\<open>fs.c\<close>); open files (\<^verbatim>\<open>file.c\<close>) and pipes
  (\<^verbatim>\<open>pipe.c\<close>) come next, then processes (\<^verbatim>\<open>proc.c\<close>), \<^verbatim>\<open>exec.c\<close>, the system calls (\<^verbatim>\<open>syscall.c\<close>, \<^verbatim>\<open>sysfile.c\<close>,
  \<^verbatim>\<open>sysproc.c\<close>), traps (\<^verbatim>\<open>trap.c\<close>, \<^verbatim>\<open>plic.c\<close>) and the boot (\<^verbatim>\<open>main.c\<close>, \<^verbatim>\<open>boot.c\<close>).

  \<^bold>\<open>How the code is modelled.\<close> A C function is a function of the kernel monad of \<open>Prelude\<close>: from a state to
  \<open>Done\<close> (a result and the new state), \<open>Panic\<close> (the argument of \<^verbatim>\<open>panic\<close>), \<open>Fault\<close> (undefined behaviour, such as
  a null dereference or an index outside an array, or a busy-wait that never ends) or \<open>Block\<close> (the
  calling process went to sleep in this state). Integers are machine words, or \<open>int\<close> with the overflow
  written out as a fault. Pointers into kernel tables are indices; user and physical memory is a map
  from 64-bit addresses to bytes. Each layer's state is a record that contains the layer below:
  \<open>ptable\<close> in \<open>bio\<close> in \<open>logst\<close> in \<open>fs\<close> in \<open>filest\<close> in \<open>kernel\<close>, with \<open>klift\<close> running an operation of a lower layer.
  On the single hart a stretch of code under a spinlock is not interrupted, so it is one step; sleep
  locks, \<^verbatim>\<open>sleep\<close> and \<^verbatim>\<open>wakeup\<close> are modelled as they are written. A call that sleeps ends there, with the
  process table showing the sleeper: the code after the wake-up is not resumed by the model, except
  where the operation is re-entered at the point of its sleep (pipes, admission to the log).

  \<^bold>\<open>Theories.\<close>
  \<^item> \<open>Prelude\<close>: words, byte layouts of structures, memory, the monad, chains of linked nodes. \<open>Khoare\<close>: a
    program logic for the monad, with rules for the states in which a call sleeps.
  \<^item> \<open>Kstring\<close> (\<^verbatim>\<open>string.c\<close>), \<open>Spinlock\<close> (\<^verbatim>\<open>spinlock.c\<close>), \<open>Kalloc\<close> (\<^verbatim>\<open>kalloc.c\<close>; the locale \<open>page_allocator\<close> is its
    contract), \<open>Vm\<close> (all of \<^verbatim>\<open>vm.c\<close>), \<open>Vm_Spec\<close> and \<open>Vm_User\<close> (page tables as trees and as translation maps, user
    copies), \<open>Vm_Props\<close>.
  \<^item> \<open>Proc_State\<close> (\<^verbatim>\<open>proc.h\<close>, \<^verbatim>\<open>sleep\<close>, \<^verbatim>\<open>wakeup\<close>, the sleep lock of \<^verbatim>\<open>bio.c\<close>), \<open>Bio\<close> (\<^verbatim>\<open>bio.c\<close>), \<open>Block_Cache\<close> (its contract as the
    locales \<open>block_cache\<close> and \<open>block_cache_lift\<close>), \<open>Bio_Spec\<close> (their interpretation on \<open>Bio\<close>), \<open>Bio_Props\<close>.
  \<^item> \<open>Log\<close> (\<^verbatim>\<open>log.c\<close>), \<open>Log_Spec\<close> (the exact disk writes of commit and recovery, on the cache contract), \<open>Log_Props\<close>.
  \<^item> \<open>Fs\<close> and \<open>Fs_Dir\<close> (\<^verbatim>\<open>fs.c\<close>), \<open>Fs_Spec\<close> (block, bitmap and inode operations on the contents of the device),
    \<open>Fs_Props\<close>, \<open>Fs_Inv\<close> (the inode cache over all interleavings).
  \<^item> \<open>Pipe\<close> (\<^verbatim>\<open>pipe.c\<close>), \<open>Pipe_Props\<close>; \<open>File\<close> (\<^verbatim>\<open>file.c\<close> and \<^verbatim>\<open>pipealloc\<close>); \<open>Console\<close> (UART, console, \<^verbatim>\<open>printf\<close>); \<open>Virtio\<close>
    (\<^verbatim>\<open>virtio_disk.c\<close> on the bytes of its queue pages), \<open>Virtio_Props\<close>.
  \<^item> \<open>Kernel\<close> (the kernel state and \<^verbatim>\<open>proc.c\<close>), \<open>Exec\<close> (\<^verbatim>\<open>exec.c\<close>), \<open>Sysfile\<close> (argument fetching and \<^verbatim>\<open>sysfile.c\<close>),
    \<open>Syscall\<close> (\<^verbatim>\<open>sysproc.c\<close> and the dispatcher), \<open>Trap\<close> (\<^verbatim>\<open>trap.c\<close>, \<^verbatim>\<open>plic.c\<close>, \<^verbatim>\<open>boot.c\<close>, \<^verbatim>\<open>main.c\<close>), \<open>Kernel_Inv\<close>
    (invariants over every step of the machine).
  \<^item> \<open>Asm\<close>: the instructions of \<^verbatim>\<open>trampoline.S\<close>, \<^verbatim>\<open>kernelvec.S\<close> and \<^verbatim>\<open>swtch.S\<close> run on a register file and byte
    memory, and the control registers \<^verbatim>\<open>start.c\<close> sets.
  \<^item> \<open>Sha256\<close> (\<^verbatim>\<open>lab1/baremetal/sha256.c\<close>), \<open>Lab1\<close> (the two readers of \<^verbatim>\<open>lab1\<close>).
  \<^item> \<open>Gpt\<close>: the partition reader of the VisionFive 2 kernel (\<^verbatim>\<open>platform/visionfive2/kernel/gpt.c\<close>) and the image
    builder \<^verbatim>\<open>tools/vf2_image.py\<close>. \<open>Grep\<close>: the matcher and line loop of \<^verbatim>\<open>platform/visionfive2/user/grep.c\<close>.

  \<^bold>\<open>What is shown.\<close>
  \<^item> \<open>Log_Props\<close>: a commit is atomic under a crash after any number of its disk writes, its writes come in
    the stated order, recovery is idempotent under crashes, the in-memory header is well formed under
    every interleaving; the room the admission control promises is one block short.
  \<^item> \<open>Bio_Props\<close>: \<^verbatim>\<open>bread\<close> returns the current contents of the block, no two buffers name a block, no buffer in
    use is recycled, over every interleaving; the recycling order.
  \<^item> \<open>Vm_Props\<close>, \<open>Kalloc\<close>: \<^verbatim>\<open>mappages\<close> refines the update of the translation map, user copies round trip and check
    every page, every free page is handed out once.
  \<^item> \<open>Fs_Props\<close>, \<open>Fs_Inv\<close>: block allocation and release, write-back and loading of inodes, one cache slot per
    inode.
  \<^item> \<open>Pipe_Props\<close>: a pipe is a bounded queue, and no wake-up is lost. \<open>Virtio_Props\<close>: the life of a request,
    and three ways in which the driver and the device disagree. \<open>Console\<close>: \<^verbatim>\<open>printf\<close> of numbers reads back.
  \<^item> \<open>Kernel_Inv\<close>: descriptors never outnumber the references of a file, and process ids are unique, in
    every state reached by traps, system calls, interrupts and context switches.
  \<^item> \<open>Asm\<close>: what a trap, a return and a context switch restore; the user's \<^verbatim>\<open>t0\<close> is lost. \<open>Sha256\<close>: equality with the
    standard's definition, constants included. \<open>Lab1\<close>: the readers agree, and when the bare-metal one
    stays inside its image. \<open>Gpt\<close>: what the partition reader accepts, and that it finds the file system
    on every image the builder makes. \<open>Grep\<close>: the lines printed are those that contain the pattern.

  \<^bold>\<open>Bounds and fuel.\<close> The list scans of \<^verbatim>\<open>bget\<close> follow at most \<open>NBUF + 1\<close> links, enough on the ring every
  reachable cache has. \<^verbatim>\<open>freewalk\<close> recurses over the three levels of a page table. Loops over words have
  termination proofs (\<^verbatim>\<open>mappages\<close>, \<^verbatim>\<open>copyin\<close>, \<^verbatim>\<open>readi\<close>, \<^verbatim>\<open>writei\<close>, directory scans, pipe transfers). The polling loops of
  the UART and of its interrupt handler are partial functions with value \<open>None\<close> when they never end, and
  are shown to end on a device that becomes ready.

  \<^bold>\<open>Not modelled.\<close>
  \<^item> \<^verbatim>\<open>entry.S\<close>, which sets a stack and jumps. \<open>Asm\<close> gives the meaning of the assembly on registers; the C functions
    of the other theories do not see registers, so the two are not joined into one machine.
  \<^item> Other harts, and interrupts that arrive in the middle of kernel code: the kernel runs on hart 0 and
    takes device interrupts through \<^verbatim>\<open>devintr\<close> only between steps.
  \<^item> The rest of \<^verbatim>\<open>platform/visionfive2\<close> (a second, multiprocessor kernel for another board, its drivers and its user
    programs): its locking across harts and its device drivers need a model of their own.
  \<^item> \<^verbatim>\<open>mkfs\<close>, the tests, \<^verbatim>\<open>user/fstest.c\<close> and the other host tools: file, network and serial I/O.
    \<^verbatim>\<open>third_party/libfdt\<close> is not part of the repository's own code and the kernel here does not call it.
\<close>

end
